(* ===== verification/Prelude.thy ===== *)
theory Prelude
  imports "HOL-Library.Word" "HOL-Library.Signed_Division"
begin

text \<open>
  Shared vocabulary of the development: the widths and index types of
  \<^verbatim>\<open>src/src/instruction.h\<close>, the out-of-band sentinels, the bounded loop every pipeline
  stage runs, the arithmetic of circular buffers, and the collections of simplification
  rules the component theories fill.
\<close>

section \<open>Machine types\<close>

type_synonym u8 = "8 word"
type_synonym u16 = "16 word"
type_synonym u32 = "32 word"
type_synonym u64 = "64 word"

text \<open>
  Register numbers, slots and sizes are bounded by a capacity and are read as \<open>nat\<close>;
  the sequence number wraps, and the code compares it, so it stays a 32-bit word.
\<close>

type_synonym ArchReg = nat
type_synonym PhysReg = nat
type_synonym RobIndex = nat
type_synonym CheckpointId = nat
type_synonym SeqNum = u32

definition uint32_max :: nat where
  "uint32_max = 4294967295"

definition INVALID_ARCHREG :: ArchReg where
  "INVALID_ARCHREG = uint32_max"

definition INVALID_PHYSREG :: PhysReg where
  "INVALID_PHYSREG = uint32_max"

definition INVALID_ROBINDEX :: RobIndex where
  "INVALID_ROBINDEX = uint32_max"

definition INVALID_SEQNUM :: SeqNum where
  "INVALID_SEQNUM = 0xFFFFFFFF"

definition INVALID_CHECKPOINT :: CheckpointId where
  "INVALID_CHECKPOINT = uint32_max"

lemmas sentinel_defs = uint32_max_def INVALID_ARCHREG_def INVALID_PHYSREG_def
  INVALID_ROBINDEX_def INVALID_SEQNUM_def INVALID_CHECKPOINT_def

section \<open>Collections of rules\<close>

named_theorems abs_simps \<open>what an operation does to the list a structure stands for\<close>
named_theorems inv_intros \<open>an operation keeps its component's invariant\<close>
named_theorems frame_simps \<open>fields an operation leaves alone\<close>

section \<open>Bounded loops\<close>

text \<open>
  Every stage is \<open>for (n = 0; n < width; ++n) { ... break; ... }\<close>. The body returns the new
  state and whether the loop goes on.
\<close>

primrec stage_loop :: "nat \<Rightarrow> ('s \<Rightarrow> 's \<times> bool) \<Rightarrow> 's \<Rightarrow> 's" where
  "stage_loop 0 body s = s"
| "stage_loop (Suc n) body s =
     (case body s of (s', go) \<Rightarrow> if go then stage_loop n body s' else s')"

lemma stage_loop_invariant:
  assumes step: "\<And>s. P s \<Longrightarrow> P (fst (body s))" and init: "P s"
  shows "P (stage_loop n body s)"
  using init
proof (induction n arbitrary: s)
  case 0
  then show ?case by simp
next
  case (Suc n)
  from Suc.prems have "P (fst (body s))" by (rule step)
  with Suc.IH show ?case by (auto split: prod.splits)
qed

lemma stage_loop_rel:
  assumes step: "\<And>s. R s (fst (body s))"
    and refl: "\<And>s. R s s" and trans: "\<And>s t u. R s t \<Longrightarrow> R t u \<Longrightarrow> R s u"
  shows "R s (stage_loop n body s)"
proof (rule stage_loop_invariant [where P = "R s"])
  show "R s (fst (body t))" if "R s t" for t
    using that step by (rule trans)
qed (rule refl)

lemma stage_loop_frame:
  assumes "\<And>s. f (fst (body s)) = f s"
  shows "f (stage_loop n body s) = f s"
  by (rule stage_loop_invariant [where P = "\<lambda>t. f t = f s"]) (simp_all add: assms)

section \<open>Words\<close>

lemma unat_of_nat32: "n < 2 ^ 32 \<Longrightarrow> unat (of_nat n :: u32) = n"
  by (simp add: unsigned_of_nat take_bit_nat_eq_self)

section \<open>Circular indices\<close>

lemma wrap_inj:
  assumes "(h + i) mod n = (h + j) mod n" and "i < n" and "j < (n::nat)"
  shows "i = j"
proof -
  have "int (h + i) mod int n = int (h + j) mod int n"
    using assms(1) by (metis zmod_int)
  then have "(int (h + i) - int h) mod int n = (int (h + j) - int h) mod int n"
    by (rule mod_diff_cong) simp
  then have "int i mod int n = int j mod int n" by simp
  with assms(2,3) show ?thesis by simp
qed

end
