(* ===== verification/Config.thy ===== *)
theory Config
  imports Prelude
begin

text \<open>
  \<^verbatim>\<open>src/src/config.h\<close>: one field per sizing and latency knob, the defaults, and the
  register-starvation rule.
\<close>

record Config =
  cfg_width :: nat
  cfg_rob_size :: nat
  cfg_prf_size :: nat
  cfg_iq_size :: nat
  cfg_lq_size :: nat
  cfg_sq_size :: nat
  cfg_num_cdb :: nat
  cfg_num_alu :: nat
  cfg_num_branch :: nat
  cfg_num_mul :: nat
  cfg_num_div :: nat
  cfg_num_mem :: nat
  cfg_alu_latency :: nat
  cfg_branch_latency :: nat
  cfg_mul_latency :: nat
  cfg_div_latency :: nat
  cfg_mem_latency :: nat
  cfg_ghr_bits :: nat
  cfg_pht_size :: nat
  cfg_btb_sets :: nat
  cfg_btb_ways :: nat
  cfg_ras_size :: nat
  cfg_num_checkpoints :: nat

definition default_config :: Config where
  "default_config =
    \<lparr>cfg_width = 2, cfg_rob_size = 32, cfg_prf_size = 64, cfg_iq_size = 16,
     cfg_lq_size = 8, cfg_sq_size = 8, cfg_num_cdb = 2,
     cfg_num_alu = 2, cfg_num_branch = 1, cfg_num_mul = 1, cfg_num_div = 1, cfg_num_mem = 1,
     cfg_alu_latency = 1, cfg_branch_latency = 1, cfg_mul_latency = 3,
     cfg_div_latency = 20, cfg_mem_latency = 2,
     cfg_ghr_bits = 12, cfg_pht_size = 4096, cfg_btb_sets = 128, cfg_btb_ways = 4,
     cfg_ras_size = 16, cfg_num_checkpoints = 16\<rparr>"

definition prf_can_starve :: "Config \<Rightarrow> bool" where
  "prf_can_starve cfg \<longleftrightarrow> cfg_prf_size cfg < (cfg_rob_size cfg + 32) mod 2 ^ 32"

text \<open>
  The two sizes the machine derives from the configuration, in 32-bit arithmetic: the capacity of the
  queues between the front-end stages and the cycles ahead for which writeback ports are booked.
\<close>

definition longest :: "Config \<Rightarrow> nat" where
  "longest cfg = Max {cfg_alu_latency cfg, cfg_branch_latency cfg, cfg_mul_latency cfg, cfg_div_latency cfg,
     cfg_mem_latency cfg, 1}"

definition queue_cap_of :: "Config \<Rightarrow> nat" where
  "queue_cap_of cfg = (max 1 (cfg_width cfg) * 2) mod 2 ^ 32"

definition cdb_window_of :: "Config \<Rightarrow> nat" where
  "cdb_window_of cfg = (longest cfg + 2) mod 2 ^ 32"

text \<open>
  The sizes the constructors rely on: the architectural registers occupy the first 32
  physical ones, the buffers have a slot, the sentinels lie outside every index range, the booking
  window is not empty (the code takes cycles modulo its size). The last three bounds keep sums and
  products of 32-bit indices inside 32 bits: head plus count of a ring, set times ways of the branch
  target buffer. They are natural numbers in the model, and structures above the bounds would
  have billions of entries.
\<close>

definition config_ok :: "Config \<Rightarrow> bool" where
  "config_ok cfg \<longleftrightarrow> 32 \<le> cfg_prf_size cfg \<and> cfg_prf_size cfg \<le> uint32_max \<and>
     0 < cfg_rob_size cfg \<and> cfg_num_checkpoints cfg \<le> uint32_max \<and> cdb_window_of cfg \<noteq> 0 \<and>
     cfg_rob_size cfg \<le> 2 ^ 31 \<and> cfg_lq_size cfg \<le> 2 ^ 31 \<and> cfg_sq_size cfg \<le> 2 ^ 31 \<and>
     cfg_btb_sets cfg * cfg_btb_ways cfg \<le> 2 ^ 32"

lemma config_ok_sizes:
  assumes "config_ok cfg"
  shows "32 \<le> cfg_prf_size cfg" "cfg_prf_size cfg \<le> uint32_max" "0 < cfg_rob_size cfg"
    "cfg_rob_size cfg \<le> uint32_max" "cfg_num_checkpoints cfg \<le> uint32_max"
  using assms by (simp_all add: config_ok_def uint32_max_def)

lemma default_longest: "longest default_config = 20"
  by (simp add: longest_def default_config_def)

lemma default_config_ok: "config_ok default_config"
  by (simp add: config_ok_def cdb_window_of_def default_longest) (simp add: default_config_def uint32_max_def)

end
