(* ===== verification/Instruction.thy ===== *)
theory Instruction
  imports Config
begin

text \<open>
  \<^verbatim>\<open>src/src/instruction.h\<close> and \<^verbatim>\<open>src/src/instruction.cpp\<close>: operations, the decoded
  form, \<open>decode\<close>, and the pure execution semantics of namespace \<open>alu\<close>. An
  \<open>int32_t\<close> is its two's-complement word, read with \<open>sint\<close> where the code compares or
  divides it signed.
\<close>

unbundle bit_operations_syntax

section \<open>Operations\<close>

datatype OpKind = Kind_ALU | Kind_BRANCH | Kind_MUL | Kind_DIV | Kind_LOAD | Kind_STORE
  | Kind_NOP | Kind_TRAP

datatype Op =
    Op_ADD | Op_SUB | Op_SLL | Op_SRL | Op_SRA | Op_AND | Op_OR | Op_XOR | Op_SLT | Op_SLTU
  | Op_LUI | Op_AUIPC
  | Op_MUL | Op_MULH | Op_MULHSU | Op_MULHU
  | Op_DIV | Op_DIVU | Op_REM | Op_REMU
  | Op_BEQ | Op_BNE | Op_BLT | Op_BGE | Op_BLTU | Op_BGEU
  | Op_JAL | Op_JALR
  | Op_LB | Op_LH | Op_LW | Op_LBU | Op_LHU
  | Op_SB | Op_SH | Op_SW
  | Op_FENCE | Op_FENCE_I
  | Op_ECALL | Op_EBREAK
  | Op_INVALID

record Decoded =
  d_raw :: u32
  d_op :: Op
  d_kind :: OpKind
  d_rd :: ArchReg
  d_rs1 :: ArchReg
  d_rs2 :: ArchReg
  d_imm :: u32
  d_is_branch :: bool
  d_is_load :: bool
  d_is_store :: bool
  d_writes_rd :: bool

text \<open>The value-initialised \<open>Decoded d{}\<close>: every enumeration at its first member.\<close>

definition decoded_zero :: Decoded where
  "decoded_zero = \<lparr>d_raw = 0, d_op = Op_ADD, d_kind = Kind_ALU, d_rd = 0, d_rs1 = 0, d_rs2 = 0,
     d_imm = 0, d_is_branch = False, d_is_load = False, d_is_store = False, d_writes_rd = False\<rparr>"

section \<open>Field extraction and immediates\<close>

definition opcode_of :: "u32 \<Rightarrow> u32" where "opcode_of x = x AND 0x7F"
definition funct3_of :: "u32 \<Rightarrow> u32" where "funct3_of x = drop_bit 12 x AND 0x07"
definition funct7_of :: "u32 \<Rightarrow> u32" where "funct7_of x = drop_bit 25 x AND 0x7F"
definition rd_of :: "u32 \<Rightarrow> u32" where "rd_of x = drop_bit 7 x AND 0x1F"
definition rs1_of :: "u32 \<Rightarrow> u32" where "rs1_of x = drop_bit 15 x AND 0x1F"
definition rs2_of :: "u32 \<Rightarrow> u32" where "rs2_of x = drop_bit 20 x AND 0x1F"

lemmas field_defs = opcode_of_def funct3_of_def funct7_of_def rd_of_def rs1_of_def rs2_of_def

definition sext :: "u32 \<Rightarrow> nat \<Rightarrow> u32" where
  "sext v bits = (let mask = push_bit (bits - 1) 1 in (v XOR mask) - mask)"

definition imm_I :: "u32 \<Rightarrow> u32" where
  "imm_I x = sext (drop_bit 20 x AND 0xFFF) 12"

definition imm_S :: "u32 \<Rightarrow> u32" where
  "imm_S x = sext (push_bit 5 (drop_bit 25 x AND 0x7F) OR (drop_bit 7 x AND 0x1F)) 12"

definition imm_B :: "u32 \<Rightarrow> u32" where
  "imm_B x = sext (push_bit 12 (drop_bit 31 x AND 0x01) OR
                   push_bit 11 (drop_bit 7 x AND 0x01) OR
                   push_bit 5 (drop_bit 25 x AND 0x3F) OR
                   push_bit 1 (drop_bit 8 x AND 0x0F)) 13"

definition imm_U :: "u32 \<Rightarrow> u32" where
  "imm_U x = x AND 0xFFFFF000"

definition imm_J :: "u32 \<Rightarrow> u32" where
  "imm_J x = sext (push_bit 20 (drop_bit 31 x AND 0x0001) OR
                   push_bit 12 (drop_bit 12 x AND 0x00FF) OR
                   push_bit 11 (drop_bit 20 x AND 0x0001) OR
                   push_bit 1 (drop_bit 21 x AND 0x03FF)) 21"

section \<open>Decoding\<close>

definition invalid_of :: "u32 \<Rightarrow> Decoded" where
  "invalid_of raw = decoded_zero\<lparr>d_raw := raw, d_op := Op_INVALID, d_kind := Kind_TRAP\<rparr>"

text \<open>One definition per opcode group; \<open>d\<close> is the record with the register fields filled.\<close>

definition decode_fields :: "u32 \<Rightarrow> Decoded" where
  "decode_fields raw = decoded_zero\<lparr>d_raw := raw, d_rd := unat (rd_of raw),
     d_rs1 := unat (rs1_of raw), d_rs2 := unat (rs2_of raw)\<rparr>"

definition decode_upper :: "Op \<Rightarrow> u32 \<Rightarrow> Decoded" where
  "decode_upper op raw = (let d = decode_fields raw in
     d\<lparr>d_op := op, d_kind := Kind_ALU, d_imm := imm_U raw, d_rs1 := 0, d_rs2 := 0,
       d_writes_rd := (d_rd d \<noteq> 0)\<rparr>)"

definition decode_jal :: "u32 \<Rightarrow> Decoded" where
  "decode_jal raw = (let d = decode_fields raw in
     d\<lparr>d_op := Op_JAL, d_kind := Kind_BRANCH, d_imm := imm_J raw, d_rs1 := 0, d_rs2 := 0,
       d_is_branch := True, d_writes_rd := (d_rd d \<noteq> 0)\<rparr>)"

definition decode_jalr :: "u32 \<Rightarrow> Decoded" where
  "decode_jalr raw = (let d = decode_fields raw in
     if funct3_of raw \<noteq> 0 then invalid_of raw
     else d\<lparr>d_op := Op_JALR, d_kind := Kind_BRANCH, d_imm := imm_I raw, d_rs2 := 0,
            d_is_branch := True, d_writes_rd := (d_rd d \<noteq> 0)\<rparr>)"

definition decode_branch :: "u32 \<Rightarrow> Decoded" where
  "decode_branch raw = (let f3 = funct3_of raw;
       d = (decode_fields raw)\<lparr>d_imm := imm_B raw, d_kind := Kind_BRANCH, d_rd := 0,
            d_is_branch := True\<rparr> in
     if f3 = 0x0 then d\<lparr>d_op := Op_BEQ\<rparr>
     else if f3 = 0x1 then d\<lparr>d_op := Op_BNE\<rparr>
     else if f3 = 0x4 then d\<lparr>d_op := Op_BLT\<rparr>
     else if f3 = 0x5 then d\<lparr>d_op := Op_BGE\<rparr>
     else if f3 = 0x6 then d\<lparr>d_op := Op_BLTU\<rparr>
     else if f3 = 0x7 then d\<lparr>d_op := Op_BGEU\<rparr>
     else invalid_of raw)"

definition decode_load :: "u32 \<Rightarrow> Decoded" where
  "decode_load raw = (let f3 = funct3_of raw; d0 = decode_fields raw;
       d = d0\<lparr>d_imm := imm_I raw, d_kind := Kind_LOAD, d_rs2 := 0, d_is_load := True,
            d_writes_rd := (d_rd d0 \<noteq> 0)\<rparr> in
     if f3 = 0x0 then d\<lparr>d_op := Op_LB\<rparr>
     else if f3 = 0x1 then d\<lparr>d_op := Op_LH\<rparr>
     else if f3 = 0x2 then d\<lparr>d_op := Op_LW\<rparr>
     else if f3 = 0x4 then d\<lparr>d_op := Op_LBU\<rparr>
     else if f3 = 0x5 then d\<lparr>d_op := Op_LHU\<rparr>
     else invalid_of raw)"

definition decode_store :: "u32 \<Rightarrow> Decoded" where
  "decode_store raw = (let f3 = funct3_of raw;
       d = (decode_fields raw)\<lparr>d_imm := imm_S raw, d_kind := Kind_STORE, d_rd := 0,
            d_is_store := True\<rparr> in
     if f3 = 0x0 then d\<lparr>d_op := Op_SB\<rparr>
     else if f3 = 0x1 then d\<lparr>d_op := Op_SH\<rparr>
     else if f3 = 0x2 then d\<lparr>d_op := Op_SW\<rparr>
     else invalid_of raw)"

definition decode_op_imm :: "u32 \<Rightarrow> Decoded" where
  "decode_op_imm raw = (let f3 = funct3_of raw; f7 = funct7_of raw; d0 = decode_fields raw;
       d = d0\<lparr>d_imm := imm_I raw, d_kind := Kind_ALU, d_rs2 := 0,
            d_writes_rd := (d_rd d0 \<noteq> 0)\<rparr> in
     if f3 = 0x0 then d\<lparr>d_op := Op_ADD\<rparr>
     else if f3 = 0x2 then d\<lparr>d_op := Op_SLT\<rparr>
     else if f3 = 0x3 then d\<lparr>d_op := Op_SLTU\<rparr>
     else if f3 = 0x4 then d\<lparr>d_op := Op_XOR\<rparr>
     else if f3 = 0x6 then d\<lparr>d_op := Op_OR\<rparr>
     else if f3 = 0x7 then d\<lparr>d_op := Op_AND\<rparr>
     else if f3 = 0x1 then
       (if f7 AND 0x7E \<noteq> 0 then invalid_of raw
        else d\<lparr>d_op := Op_SLL, d_imm := rs2_of raw\<rparr>)
     else if f3 = 0x5 then
       (if f7 AND 0x5F \<noteq> 0 then invalid_of raw
        else d\<lparr>d_op := (if f7 AND 0x20 \<noteq> 0 then Op_SRA else Op_SRL), d_imm := rs2_of raw\<rparr>)
     else invalid_of raw)"

definition decode_op :: "u32 \<Rightarrow> Decoded" where
  "decode_op raw = (let f3 = funct3_of raw; f7 = funct7_of raw; d0 = decode_fields raw;
       d = d0\<lparr>d_kind := Kind_ALU, d_imm := 0, d_writes_rd := (d_rd d0 \<noteq> 0)\<rparr> in
     if f7 = 0x01 then
       (if f3 = 0x0 then d\<lparr>d_op := Op_MUL, d_kind := Kind_MUL\<rparr>
        else if f3 = 0x1 then d\<lparr>d_op := Op_MULH, d_kind := Kind_MUL\<rparr>
        else if f3 = 0x2 then d\<lparr>d_op := Op_MULHSU, d_kind := Kind_MUL\<rparr>
        else if f3 = 0x3 then d\<lparr>d_op := Op_MULHU, d_kind := Kind_MUL\<rparr>
        else if f3 = 0x4 then d\<lparr>d_op := Op_DIV, d_kind := Kind_DIV\<rparr>
        else if f3 = 0x5 then d\<lparr>d_op := Op_DIVU, d_kind := Kind_DIV\<rparr>
        else if f3 = 0x6 then d\<lparr>d_op := Op_REM, d_kind := Kind_DIV\<rparr>
        else if f3 = 0x7 then d\<lparr>d_op := Op_REMU, d_kind := Kind_DIV\<rparr>
        else invalid_of raw)
     else if f7 = 0x00 then
       (if f3 = 0x0 then d\<lparr>d_op := Op_ADD\<rparr>
        else if f3 = 0x1 then d\<lparr>d_op := Op_SLL\<rparr>
        else if f3 = 0x2 then d\<lparr>d_op := Op_SLT\<rparr>
        else if f3 = 0x3 then d\<lparr>d_op := Op_SLTU\<rparr>
        else if f3 = 0x4 then d\<lparr>d_op := Op_XOR\<rparr>
        else if f3 = 0x5 then d\<lparr>d_op := Op_SRL\<rparr>
        else if f3 = 0x6 then d\<lparr>d_op := Op_OR\<rparr>
        else if f3 = 0x7 then d\<lparr>d_op := Op_AND\<rparr>
        else invalid_of raw)
     else if f7 = 0x20 then
       (if f3 = 0x0 then d\<lparr>d_op := Op_SUB\<rparr>
        else if f3 = 0x5 then d\<lparr>d_op := Op_SRA\<rparr>
        else invalid_of raw)
     else invalid_of raw)"

definition decode_misc_mem :: "u32 \<Rightarrow> Decoded" where
  "decode_misc_mem raw = (let f3 = funct3_of raw;
       d = (decode_fields raw)\<lparr>d_kind := Kind_NOP, d_rd := 0, d_rs1 := 0, d_rs2 := 0,
            d_imm := 0\<rparr> in
     if f3 = 0x0 then d\<lparr>d_op := Op_FENCE\<rparr>
     else if f3 = 0x1 then d\<lparr>d_op := Op_FENCE_I\<rparr>
     else invalid_of raw)"

definition decode_system :: "u32 \<Rightarrow> Decoded" where
  "decode_system raw = (let f3 = funct3_of raw; imm12 = drop_bit 20 raw AND 0xFFF;
       d = (decode_fields raw)\<lparr>d_kind := Kind_TRAP, d_rd := 0, d_rs1 := 0, d_rs2 := 0,
            d_imm := 0\<rparr> in
     if f3 = 0 \<and> imm12 = 0 then d\<lparr>d_op := Op_ECALL\<rparr>
     else if f3 = 0 \<and> imm12 = 1 then d\<lparr>d_op := Op_EBREAK\<rparr>
     else invalid_of raw)"

definition decode :: "u32 \<Rightarrow> Decoded" where
  "decode raw = (let opcode = opcode_of raw in
     if opcode = 0x37 then decode_upper Op_LUI raw
     else if opcode = 0x17 then decode_upper Op_AUIPC raw
     else if opcode = 0x6F then decode_jal raw
     else if opcode = 0x67 then decode_jalr raw
     else if opcode = 0x63 then decode_branch raw
     else if opcode = 0x03 then decode_load raw
     else if opcode = 0x23 then decode_store raw
     else if opcode = 0x13 then decode_op_imm raw
     else if opcode = 0x33 then decode_op raw
     else if opcode = 0x0F then decode_misc_mem raw
     else if opcode = 0x73 then decode_system raw
     else invalid_of raw)"

lemmas decode_defs = decode_upper_def decode_jal_def decode_jalr_def decode_branch_def
  decode_load_def decode_store_def decode_op_imm_def decode_op_def decode_misc_mem_def
  decode_system_def invalid_of_def decode_fields_def decoded_zero_def

definition uses_immediate :: "Decoded \<Rightarrow> bool" where
  "uses_immediate d \<longleftrightarrow> d_raw d AND 0x7F = 0x13"

section \<open>Execution semantics (namespace \<open>alu\<close>)\<close>

definition alu_add :: "u32 \<Rightarrow> u32 \<Rightarrow> u32" where "alu_add a b = a + b"
definition alu_sub :: "u32 \<Rightarrow> u32 \<Rightarrow> u32" where "alu_sub a b = a - b"

definition alu_sll :: "u32 \<Rightarrow> u32 \<Rightarrow> u32" where
  "alu_sll a b = push_bit (unat (b AND 0x1F)) a"
definition alu_srl :: "u32 \<Rightarrow> u32 \<Rightarrow> u32" where
  "alu_srl a b = drop_bit (unat (b AND 0x1F)) a"

definition alu_sra :: "u32 \<Rightarrow> u32 \<Rightarrow> u32" where
  "alu_sra a b = (let sh = b AND 0x1F in
     if sh = 0 then a
     else let sign_fill = (if a AND 0x80000000 \<noteq> 0 then push_bit (unat (32 - sh)) (NOT 0) else 0)
          in drop_bit (unat sh) a OR sign_fill)"

definition alu_and :: "u32 \<Rightarrow> u32 \<Rightarrow> u32" where "alu_and a b = a AND b"
definition alu_or :: "u32 \<Rightarrow> u32 \<Rightarrow> u32" where "alu_or a b = a OR b"
definition alu_xor :: "u32 \<Rightarrow> u32 \<Rightarrow> u32" where "alu_xor a b = a XOR b"

definition alu_slt :: "u32 \<Rightarrow> u32 \<Rightarrow> u32" where
  "alu_slt a b = (if sint a < sint b then 1 else 0)"
definition alu_sltu :: "u32 \<Rightarrow> u32 \<Rightarrow> u32" where
  "alu_sltu a b = (if a < b then 1 else 0)"

definition alu_beq :: "u32 \<Rightarrow> u32 \<Rightarrow> bool" where "alu_beq a b \<longleftrightarrow> a = b"
definition alu_bne :: "u32 \<Rightarrow> u32 \<Rightarrow> bool" where "alu_bne a b \<longleftrightarrow> a \<noteq> b"
definition alu_blt :: "u32 \<Rightarrow> u32 \<Rightarrow> bool" where "alu_blt a b \<longleftrightarrow> sint a < sint b"
definition alu_bge :: "u32 \<Rightarrow> u32 \<Rightarrow> bool" where "alu_bge a b \<longleftrightarrow> sint b \<le> sint a"
definition alu_bltu :: "u32 \<Rightarrow> u32 \<Rightarrow> bool" where "alu_bltu a b \<longleftrightarrow> a < b"
definition alu_bgeu :: "u32 \<Rightarrow> u32 \<Rightarrow> bool" where "alu_bgeu a b \<longleftrightarrow> b \<le> a"

definition branch_taken :: "Op \<Rightarrow> u32 \<Rightarrow> u32 \<Rightarrow> bool" where
  "branch_taken op a b = (case op of
       Op_BEQ \<Rightarrow> alu_beq a b
     | Op_BNE \<Rightarrow> alu_bne a b
     | Op_BLT \<Rightarrow> alu_blt a b
     | Op_BGE \<Rightarrow> alu_bge a b
     | Op_BLTU \<Rightarrow> alu_bltu a b
     | Op_BGEU \<Rightarrow> alu_bgeu a b
     | _ \<Rightarrow> False)"

definition branch_target :: "u32 \<Rightarrow> u32 \<Rightarrow> u32" where "branch_target pc imm = pc + imm"
definition jalr_target :: "u32 \<Rightarrow> u32 \<Rightarrow> u32" where "jalr_target rs1 imm = (rs1 + imm) AND NOT 1"
definition link_address :: "u32 \<Rightarrow> u32" where "link_address pc = pc + 4"

definition alu_mul :: "u32 \<Rightarrow> u32 \<Rightarrow> u32" where "alu_mul a b = a * b"

definition alu_mulh :: "u32 \<Rightarrow> u32 \<Rightarrow> u32" where
  "alu_mulh a b = ucast (drop_bit 32 ((scast a :: u64) * scast b))"
definition alu_mulhu :: "u32 \<Rightarrow> u32 \<Rightarrow> u32" where
  "alu_mulhu a b = ucast (drop_bit 32 ((ucast a :: u64) * ucast b))"
definition alu_mulhsu :: "u32 \<Rightarrow> u32 \<Rightarrow> u32" where
  "alu_mulhsu a b = ucast (drop_bit 32 ((scast a :: u64) * ucast b))"

definition INT32_MIN :: u32 where "INT32_MIN = 0x80000000"

definition alu_div :: "u32 \<Rightarrow> u32 \<Rightarrow> u32" where
  "alu_div a b = (if b = 0 then 0xFFFFFFFF
     else if a = INT32_MIN \<and> b = -1 then a
     else word_of_int (sint a sdiv sint b))"
definition alu_divu :: "u32 \<Rightarrow> u32 \<Rightarrow> u32" where
  "alu_divu a b = (if b = 0 then 0xFFFFFFFF else a div b)"
definition alu_rem :: "u32 \<Rightarrow> u32 \<Rightarrow> u32" where
  "alu_rem a b = (if b = 0 then a
     else if a = INT32_MIN \<and> b = -1 then 0
     else word_of_int (sint a smod sint b))"
definition alu_remu :: "u32 \<Rightarrow> u32 \<Rightarrow> u32" where
  "alu_remu a b = (if b = 0 then a else a mod b)"

section \<open>Fields, immediates, decoding\<close>

lemma and_literal_take_bit:
  fixes x :: u32
  shows "x AND 0x7F = take_bit 7 x" "x AND 7 = take_bit 3 x" "x AND 0x1F = take_bit 5 x"
    "x AND 0xFFF = take_bit 12 x" "x AND 1 = take_bit 1 x" "x AND 0x3F = take_bit 6 x"
    "x AND 0xF = take_bit 4 x" "x AND 0xFF = take_bit 8 x" "x AND 0x3FF = take_bit 10 x"
  by (simp_all add: take_bit_eq_mask mask_eq_exp_minus_1)

lemma unat_take_bit_less: "unat (take_bit n x :: 'a::len word) < 2 ^ n"
  by (simp add: unsigned_take_bit_eq)

lemma reg_fields_bound:
  "unat (rd_of x) < 32" "unat (rs1_of x) < 32" "unat (rs2_of x) < 32"
  using unat_take_bit_less [of 5] by (simp_all add: field_defs and_literal_take_bit)

text \<open>The mask-and-subtract trick of \<open>sext\<close> is two's-complement sign extension.\<close>

lemma sext_correct:
  assumes "0 < b" "b \<le> 32"
  shows "sext (take_bit b v) b = signed_take_bit (b - 1) v"
proof -
  obtain m where b: "b = Suc m" using assms by (cases b) auto
  with assms have m: "m < 32" by simp
  have "sext (take_bit b v) b = flip_bit m (take_bit (Suc m) v) - 2 ^ m"
    by (simp add: sext_def Let_def b flip_bit_eq_xor push_bit_eq_mult)
  also have "\<dots> = take_bit (Suc m) v - 2 ^ Suc m * of_bool (bit v m)"
    using m by (simp add: flip_bit_eq_if unset_bit_eq set_bit_eq bit_simps)
  also have "\<dots> = signed_take_bit m v" by (simp add: signed_take_bit_eq_take_bit_minus)
  finally show ?thesis by (simp add: b)
qed

definition kind_of_op :: "Op \<Rightarrow> OpKind" where
  "kind_of_op op = (case op of
       Op_MUL \<Rightarrow> Kind_MUL | Op_MULH \<Rightarrow> Kind_MUL | Op_MULHSU \<Rightarrow> Kind_MUL | Op_MULHU \<Rightarrow> Kind_MUL
     | Op_DIV \<Rightarrow> Kind_DIV | Op_DIVU \<Rightarrow> Kind_DIV | Op_REM \<Rightarrow> Kind_DIV | Op_REMU \<Rightarrow> Kind_DIV
     | Op_BEQ \<Rightarrow> Kind_BRANCH | Op_BNE \<Rightarrow> Kind_BRANCH | Op_BLT \<Rightarrow> Kind_BRANCH
     | Op_BGE \<Rightarrow> Kind_BRANCH | Op_BLTU \<Rightarrow> Kind_BRANCH | Op_BGEU \<Rightarrow> Kind_BRANCH
     | Op_JAL \<Rightarrow> Kind_BRANCH | Op_JALR \<Rightarrow> Kind_BRANCH
     | Op_LB \<Rightarrow> Kind_LOAD | Op_LH \<Rightarrow> Kind_LOAD | Op_LW \<Rightarrow> Kind_LOAD
     | Op_LBU \<Rightarrow> Kind_LOAD | Op_LHU \<Rightarrow> Kind_LOAD
     | Op_SB \<Rightarrow> Kind_STORE | Op_SH \<Rightarrow> Kind_STORE | Op_SW \<Rightarrow> Kind_STORE
     | Op_FENCE \<Rightarrow> Kind_NOP | Op_FENCE_I \<Rightarrow> Kind_NOP
     | Op_ECALL \<Rightarrow> Kind_TRAP | Op_EBREAK \<Rightarrow> Kind_TRAP | Op_INVALID \<Rightarrow> Kind_TRAP
     | _ \<Rightarrow> Kind_ALU)"

text \<open>
  What every later stage relies on: the class agrees with the operation, the three flags
  with the class, the register numbers index a 32-entry table, and a register is written
  only by an operation that produces one, never \<open>x0\<close>.
\<close>

definition op_writes_rd :: "Op \<Rightarrow> bool" where
  "op_writes_rd op \<longleftrightarrow> kind_of_op op \<in> {Kind_ALU, Kind_MUL, Kind_DIV, Kind_LOAD} \<or>
     op = Op_JAL \<or> op = Op_JALR"

definition wf_decoded :: "Decoded \<Rightarrow> bool" where
  "wf_decoded d \<longleftrightarrow>
     d_kind d = kind_of_op (d_op d) \<and>
     d_rd d < 32 \<and> d_rs1 d < 32 \<and> d_rs2 d < 32 \<and>
     (d_is_branch d \<longleftrightarrow> d_kind d = Kind_BRANCH) \<and>
     (d_is_load d \<longleftrightarrow> d_kind d = Kind_LOAD) \<and>
     (d_is_store d \<longleftrightarrow> d_kind d = Kind_STORE) \<and>
     (d_writes_rd d \<longleftrightarrow> d_rd d \<noteq> 0 \<and> op_writes_rd (d_op d))"

lemmas wf_decode_simps = decode_fields_def decoded_zero_def invalid_of_def wf_decoded_def
  kind_of_op_def op_writes_rd_def reg_fields_bound Let_def

lemma wf_decode_upper: "op = Op_LUI \<or> op = Op_AUIPC \<Longrightarrow> wf_decoded (decode_upper op raw)"
  by (auto simp: decode_upper_def wf_decode_simps)

lemma wf_decode_groups:
  "wf_decoded (decode_jal raw)" "wf_decoded (decode_jalr raw)" "wf_decoded (decode_branch raw)"
  "wf_decoded (decode_load raw)" "wf_decoded (decode_store raw)" "wf_decoded (decode_op_imm raw)"
  "wf_decoded (decode_op raw)" "wf_decoded (decode_misc_mem raw)" "wf_decoded (decode_system raw)"
  "wf_decoded (invalid_of raw)"
  by (simp_all add: decode_jal_def decode_jalr_def decode_branch_def decode_load_def
      decode_store_def decode_op_imm_def decode_op_def decode_misc_mem_def decode_system_def
      wf_decode_simps)

lemma wf_decode: "wf_decoded (decode raw)"
  unfolding decode_def Let_def by (simp add: wf_decode_upper wf_decode_groups)

lemma decode_raw: "d_raw (decode raw) = raw"
  by (simp add: decode_def decode_upper_def decode_jal_def decode_jalr_def decode_branch_def
      decode_load_def decode_store_def decode_op_imm_def decode_op_def decode_misc_mem_def
      decode_system_def decode_fields_def invalid_of_def Let_def)

section \<open>The arithmetic\<close>

lemma alu_sra_correct: "alu_sra a b = signed_drop_bit (unat (b AND 0x1F)) a"
proof -
  define n where "n = unat (b AND 0x1F)"
  have n: "n < 32" unfolding n_def
    using word_and_le1 [of b 31] by (simp add: word_le_nat_alt)
  have z: "(b AND 0x1F = 0) = (n = 0)" by (simp add: n_def unat_eq_0)
  have sub: "unat (32 - (b AND 0x1F)) = 32 - n"
    using n by (simp add: n_def unat_sub word_le_nat_alt)
  have msb: "(a AND 0x80000000 \<noteq> 0) = bit a 31"
    using and_exp_eq_0_iff_not_bit [of a 31] by simp
  have hi: "\<not> bit a (n + k)" if "32 \<le> n + k" for k
    using that bit_imp_le_length [of a "n + k"] by auto
  show ?thesis
  proof (rule bit_word_eqI)
    fix k assume "k < LENGTH(32)"
    then have k: "k < 32" by simp
    have sd: "bit (signed_drop_bit n a) k = bit a (if 32 - n \<le> k then 31 else n + k)"
      using k by (simp add: bit_signed_drop_bit_iff numeral_eq_Suc)
    show "bit (alu_sra a b) k = bit (signed_drop_bit (unat (b AND 31)) a) k"
      using k n hi [of k] unfolding alu_sra_def Let_def z msb sub n_def[symmetric] sd
      by (auto simp: bit_simps add.commute not_less min_def)
  qed
qed

lemma high_word: "(ucast (drop_bit 32 (word_of_int p :: u64)) :: u32) = word_of_int (p div 2 ^ 32)"
  unfolding drop_bit_eq_div [symmetric] by (rule bit_word_eqI) (simp add: bit_simps)

lemma low_word: "uint (word_of_int p :: u32) = p mod 2 ^ 32"
  by (simp add: unsigned_of_int take_bit_eq_mod)

lemma alu_mulhu_correct: "uint a * uint b = uint (alu_mulhu a b) * 2 ^ 32 + uint (alu_mul a b)"
proof -
  define p where "p = uint a * uint b"
  have p: "0 \<le> p" "p < 2 ^ 64"
    using mult_strict_mono' [of "uint a" "2^32" "uint b" "2^32"] uint_lt2p[of a] uint_lt2p[of b] 
    by (auto simp: p_def)
  have lo: "alu_mul a b = word_of_int p" by (simp add: alu_mul_def p_def)
  have "(ucast a :: u64) * ucast b = word_of_int p" by (simp add: p_def)
  then have "alu_mulhu a b = word_of_int (p div 2 ^ 32)"
    by (simp only: alu_mulhu_def high_word)
  then have "uint (alu_mulhu a b) = p div 2 ^ 32"
    using p by (simp add: low_word)
  then show ?thesis by (simp add: lo low_word flip: p_def)
qed
lemma sint_bounds: "- (2 ^ 31) \<le> sint (a :: u32)" "sint a < 2 ^ 31"
  using sint_range_size [of a] by (simp_all add: word_size)
lemma alu_mulh_correct: "sint a * sint b = sint (alu_mulh a b) * 2 ^ 32 + uint (alu_mul a b)"
proof -
  define p where "p = sint a * sint b"
  have abs: "\<bar>sint x\<bar> \<le> 2 ^ 31" for x :: u32 using sint_bounds [of x] by simp
  have "\<bar>p\<bar> \<le> 2 ^ 62"
    using mult_mono [OF abs [of a] abs [of b]] by (simp add: p_def abs_mult)
  then have h: "- (2 ^ 31) \<le> p div 2 ^ 32" "p div 2 ^ 32 < 2 ^ 31" by auto
  have lo: "alu_mul a b = word_of_int p" by (simp add: alu_mul_def p_def)
  have "(scast a :: u64) * scast b = word_of_int p" by (simp add: p_def)
  then have "alu_mulh a b = word_of_int (p div 2 ^ 32)"
    by (simp only: alu_mulh_def high_word)
  then have "sint (alu_mulh a b) = p div 2 ^ 32"
    using h by (simp add: signed_of_int signed_take_bit_int_eq_self_iff)
  then show ?thesis by (simp add: lo low_word flip: p_def)
qed
lemma alu_mulhsu_correct: "sint a * uint b = sint (alu_mulhsu a b) * 2 ^ 32 + uint (alu_mul a b)"
proof -
  define p where "p = sint a * uint b"
  have abs: "\<bar>sint x\<bar> \<le> 2 ^ 31" for x :: u32 using sint_bounds [of x] by simp
  have ub: "uint b \<le> 2 ^ 32 - 1" using uint_lt2p[of b] by simp
  have "\<bar>p\<bar> \<le> 2 ^ 31 * (2 ^ 32 - 1)"
    using mult_mono [OF abs [of a] ub] by (simp add: p_def abs_mult)
  then have h: "- (2 ^ 31) \<le> p div 2 ^ 32" "p div 2 ^ 32 < 2 ^ 31" by auto
  have lo: "alu_mul a b = word_of_int p" by (simp add: alu_mul_def p_def)
  have "(scast a :: u64) * ucast b = word_of_int p" by (simp add: p_def)
  then have "alu_mulhsu a b = word_of_int (p div 2 ^ 32)"
    by (simp only: alu_mulhsu_def high_word)
  then have "sint (alu_mulhsu a b) = p div 2 ^ 32"
    using h by (simp add: signed_of_int signed_take_bit_int_eq_self_iff)
  then show ?thesis by (simp add: lo low_word flip: p_def)
qed

lemma alu_div_rem: "alu_div a b * b + alu_rem a b = a"
proof (cases "b = 0")
  case True then show ?thesis by (simp add: alu_div_def alu_rem_def)
next
  case False
  show ?thesis
  proof (cases "a = INT32_MIN \<and> b = -1")
    case True then show ?thesis by (simp add: alu_div_def alu_rem_def INT32_MIN_def)
  next
    case no: False
    have "word_of_int (sint a sdiv sint b) * b + word_of_int (sint a smod sint b)
       = (word_of_int (sint a sdiv sint b * sint b + sint a smod sint b) :: u32)" by simp
    also have "\<dots> = a" by (simp add: sdiv_mult_smod_eq)
    finally show ?thesis using False no by (auto simp: alu_div_def alu_rem_def)
  qed
qed

section \<open>Properties\<close>

text \<open>C23: Every word decodes to a well-formed record: the class fits the operation, the
  load, store and branch flags fit the class, register numbers are below 32, and the
  record writes a register exactly when its operation produces one and it is not x0.
  Undecodable words become a trap that writes nothing.\<close>

theorem decode_well_formed:
  "wf_decoded (decode raw) \<and> d_raw (decode raw) = raw"
  by (simp add: wf_decode decode_raw)

text \<open>C24: Division obeys the RISC-V rules for every pair of words, zero divisors and the
  signed overflow included: quotient times divisor plus remainder is the dividend, and a
  nonzero divisor bounds the remainder, which takes the sign of the dividend.\<close>

theorem division_rules:
  "alu_div a b * b + alu_rem a b = a \<and> alu_divu a b * b + alu_remu a b = a \<and>
   (if b = 0 then alu_div a b = -1 \<and> alu_divu a b = -1
    else \<bar>sint (alu_rem a b)\<bar> < \<bar>sint b\<bar> \<and> 0 \<le> sint (alu_rem a b) * sint a \<and> alu_remu a b < b)"
proof -
  have u: "alu_divu a b * b + alu_remu a b = a"
    by (simp add: alu_divu_def alu_remu_def word_mod_div_equality)
  have s: "sint (alu_rem a b) = sint a smod sint b" if "b \<noteq> 0" "\<not> (a = INT32_MIN \<and> b = -1)"
  proof -
    have "\<bar>sint a smod sint b\<bar> < \<bar>sint b\<bar>" using that(1) smod_int_range [of "sint b" "sint a"]
      by (auto simp: signed_eq_0_iff)
    then have "- (2 ^ 31) \<le> sint a smod sint b \<and> sint a smod sint b < 2 ^ 31"
      using sint_bounds [of b] by auto
    then show ?thesis
      using that by (auto simp: alu_rem_def signed_of_int signed_take_bit_int_eq_self)
  qed
  have r: "\<bar>sint (alu_rem a b)\<bar> < \<bar>sint b\<bar> \<and> 0 \<le> sint (alu_rem a b) * sint a" if nz: "b \<noteq> 0"
  proof (cases "a = INT32_MIN \<and> b = -1")
    case True
    then show ?thesis by (simp add: alu_rem_def)
  next
    case False
    have "\<bar>sint a smod sint b\<bar> < \<bar>sint b\<bar>" using nz smod_int_range [of "sint b" "sint a"]
      by (auto simp: signed_eq_0_iff)
    moreover have "0 \<le> (sint a smod sint b) * sint a"
    proof -
      have "0 \<le> \<bar>sint a\<bar> mod \<bar>sint b\<bar>" using nz by (simp add: signed_eq_0_iff)
      moreover have "(sint a smod sint b) * sint a = (\<bar>sint a\<bar> mod \<bar>sint b\<bar>) * \<bar>sint a\<bar>"
        by (simp add: smod_int_alt_def sgn_if)
      ultimately show ?thesis by simp
    qed
    ultimately show ?thesis by (simp add: s [OF nz False])
  qed
  have "alu_remu a b < b" if "b \<noteq> 0"
    using that by (simp add: alu_remu_def word_less_nat_alt unat_mod unat_gt_0)
  with u r alu_div_rem show ?thesis by (auto simp: alu_div_def alu_divu_def)
qed

text \<open>C25: The high halves \<open>mulh\<close>, \<open>mulhu\<close> and \<open>mulhsu\<close> together with the low half \<open>mul\<close>
  are the full 64-bit products, signed, unsigned and mixed.\<close>

theorem multiplication_high_words:
  "sint a * sint b = sint (alu_mulh a b) * 2 ^ 32 + uint (alu_mul a b) \<and>
   uint a * uint b = uint (alu_mulhu a b) * 2 ^ 32 + uint (alu_mul a b) \<and>
   sint a * uint b = sint (alu_mulhsu a b) * 2 ^ 32 + uint (alu_mul a b)"
  using alu_mulh_correct alu_mulhu_correct alu_mulhsu_correct by blast

text \<open>The hand-written arithmetic right shift is the arithmetic shift by the low five
  bits of the amount, and the mask-and-subtract sign extension of the I-immediate is the
  two's-complement one.\<close>

theorem shift_and_sign_extension:
  "alu_sra a b = signed_drop_bit (unat (b AND 0x1F)) a \<and>
   imm_I x = signed_take_bit 11 (drop_bit 20 x) \<and>
   sint (alu_sra a b) = sint a div 2 ^ unat (b AND 0x1F)"
proof -
  have "imm_I x = signed_take_bit 11 (drop_bit 20 x)"
    using sext_correct [of 12 "drop_bit 20 x"] by (simp add: imm_I_def and_literal_take_bit)
  then show ?thesis
    by (simp add: alu_sra_correct sint_signed_drop_bit_eq drop_bit_eq_div)
qed

end
