(* ===== verification/Asm.thy ===== *)
theory Asm
  imports Instruction
begin

text \<open>
  The format encoders of the in-tree assembler, \<^verbatim>\<open>src/tests/asm.h\<close>: the other
  direction of \<open>decode\<close>, used for round trips and to build the programs of the witnesses.
\<close>

definition enc_R :: "u32 \<Rightarrow> u32 \<Rightarrow> u32 \<Rightarrow> u32 \<Rightarrow> u32 \<Rightarrow> u32 \<Rightarrow> u32" where
  "enc_R opc rd f3 rs1 rs2 f7 =
     push_bit 25 f7 OR push_bit 20 (rs2 AND 0x1F) OR push_bit 15 (rs1 AND 0x1F) OR
     push_bit 12 (f3 AND 0x7) OR push_bit 7 (rd AND 0x1F) OR (opc AND 0x7F)"

definition enc_I :: "u32 \<Rightarrow> u32 \<Rightarrow> u32 \<Rightarrow> u32 \<Rightarrow> u32 \<Rightarrow> u32" where
  "enc_I opc rd f3 rs1 imm = (let u = imm AND 0xFFF in
     push_bit 20 u OR push_bit 15 (rs1 AND 0x1F) OR push_bit 12 (f3 AND 0x7) OR
     push_bit 7 (rd AND 0x1F) OR (opc AND 0x7F))"

definition enc_S :: "u32 \<Rightarrow> u32 \<Rightarrow> u32 \<Rightarrow> u32 \<Rightarrow> u32" where
  "enc_S f3 rs1 rs2 imm = (let u = imm AND 0xFFF; hi = drop_bit 5 u AND 0x7F; lo = u AND 0x1F in
     push_bit 25 hi OR push_bit 20 (rs2 AND 0x1F) OR push_bit 15 (rs1 AND 0x1F) OR
     push_bit 12 (f3 AND 0x7) OR push_bit 7 lo OR 0x23)"

definition b_imm_bits :: "u32 \<Rightarrow> u32" where
  "b_imm_bits imm = (let u = imm AND 0x1FFF in
     push_bit 31 (drop_bit 12 u AND 1) OR push_bit 25 (drop_bit 5 u AND 0x3F) OR
     push_bit 8 (drop_bit 1 u AND 0xF) OR push_bit 7 (drop_bit 11 u AND 1))"

definition enc_B :: "u32 \<Rightarrow> u32 \<Rightarrow> u32 \<Rightarrow> u32 \<Rightarrow> u32" where
  "enc_B f3 rs1 rs2 imm = 0x63 OR push_bit 12 (f3 AND 0x7) OR push_bit 15 (rs1 AND 0x1F) OR
     push_bit 20 (rs2 AND 0x1F) OR b_imm_bits imm"

definition enc_U :: "u32 \<Rightarrow> u32 \<Rightarrow> u32 \<Rightarrow> u32" where
  "enc_U opc rd imm_hi20 =
     push_bit 12 (imm_hi20 AND 0xFFFFF) OR push_bit 7 (rd AND 0x1F) OR (opc AND 0x7F)"

definition j_imm_bits :: "u32 \<Rightarrow> u32" where
  "j_imm_bits imm = (let u = imm AND 0x1FFFFF in
     push_bit 31 (drop_bit 20 u AND 1) OR push_bit 21 (drop_bit 1 u AND 0x3FF) OR
     push_bit 20 (drop_bit 11 u AND 1) OR push_bit 12 (drop_bit 12 u AND 0xFF))"

definition enc_J :: "u32 \<Rightarrow> u32 \<Rightarrow> u32" where
  "enc_J rd imm = 0x6F OR push_bit 7 (rd AND 0x1F) OR j_imm_bits imm"

section \<open>The instruction methods\<close>

datatype asm_instr =
    Asm_R Op u32 u32 u32
  | Asm_I Op u32 u32 u32
  | Asm_Shift Op u32 u32 u32
  | Asm_Load Op u32 u32 u32
  | Asm_Store Op u32 u32 u32
  | Asm_Branch Op u32 u32 u32
  | Asm_U Op u32 u32
  | Asm_Jal u32 u32
  | Asm_Jalr u32 u32 u32
  | Asm_Fence | Asm_FenceI | Asm_Ecall | Asm_Ebreak

text \<open>The \<open>funct3\<close> (and \<open>funct7\<close>) each method of the assembler passes to its encoder.\<close>

definition asm_codes :: "(Op \<times> u32 \<times> u32) list" where
  "asm_codes =
    [(Op_ADD, 0, 0), (Op_SUB, 0, 0x20), (Op_SLL, 1, 0), (Op_SLT, 2, 0), (Op_SLTU, 3, 0),
     (Op_XOR, 4, 0), (Op_SRL, 5, 0), (Op_SRA, 5, 0x20), (Op_OR, 6, 0), (Op_AND, 7, 0),
     (Op_MUL, 0, 1), (Op_MULH, 1, 1), (Op_MULHSU, 2, 1), (Op_MULHU, 3, 1),
     (Op_DIV, 4, 1), (Op_DIVU, 5, 1), (Op_REM, 6, 1), (Op_REMU, 7, 1)]"

definition asm_imm_codes :: "(Op \<times> u32) list" where
  "asm_imm_codes = [(Op_ADD, 0), (Op_SLT, 2), (Op_SLTU, 3), (Op_XOR, 4), (Op_OR, 6), (Op_AND, 7)]"

definition asm_shift_codes :: "(Op \<times> u32 \<times> u32) list" where
  "asm_shift_codes = [(Op_SLL, 1, 0), (Op_SRL, 5, 0), (Op_SRA, 5, 0x20)]"

definition asm_load_codes :: "(Op \<times> u32) list" where
  "asm_load_codes = [(Op_LB, 0), (Op_LH, 1), (Op_LW, 2), (Op_LBU, 4), (Op_LHU, 5)]"

definition asm_store_codes :: "(Op \<times> u32) list" where
  "asm_store_codes = [(Op_SB, 0), (Op_SH, 1), (Op_SW, 2)]"

definition asm_branch_codes :: "(Op \<times> u32) list" where
  "asm_branch_codes = [(Op_BEQ, 0), (Op_BNE, 1), (Op_BLT, 4), (Op_BGE, 5), (Op_BLTU, 6), (Op_BGEU, 7)]"

fun asm_encode :: "asm_instr \<Rightarrow> u32 option" where
  "asm_encode (Asm_R op rd rs1 rs2) =
     map_option (\<lambda>(f3, f7). enc_R 0x33 rd f3 rs1 rs2 f7) (map_of asm_codes op)"
| "asm_encode (Asm_I op rd rs1 imm) =
     map_option (\<lambda>f3. enc_I 0x13 rd f3 rs1 imm) (map_of asm_imm_codes op)"
| "asm_encode (Asm_Shift op rd rs1 sh) =
     map_option (\<lambda>(f3, f7). enc_R 0x13 rd f3 rs1 (sh AND 0x1F) f7) (map_of asm_shift_codes op)"
| "asm_encode (Asm_Load op rd rs1 off) =
     map_option (\<lambda>f3. enc_I 0x03 rd f3 rs1 off) (map_of asm_load_codes op)"
| "asm_encode (Asm_Store op rs2 rs1 off) =
     map_option (\<lambda>f3. enc_S f3 rs1 rs2 off) (map_of asm_store_codes op)"
| "asm_encode (Asm_Branch op r1 r2 off) =
     map_option (\<lambda>f3. enc_B f3 r1 r2 off) (map_of asm_branch_codes op)"
| "asm_encode (Asm_U op rd imm20) =
     (if op = Op_LUI then Some (enc_U 0x37 rd imm20)
      else if op = Op_AUIPC then Some (enc_U 0x17 rd imm20) else None)"
| "asm_encode (Asm_Jal rd imm) = Some (enc_J rd imm)"
| "asm_encode (Asm_Jalr rd rs1 imm) = Some (enc_I 0x67 rd 0 rs1 imm)"
| "asm_encode Asm_Fence = Some 0x0000000F"
| "asm_encode Asm_FenceI = Some 0x0000100F"
| "asm_encode Asm_Ecall = Some 0x00000073"
| "asm_encode Asm_Ebreak = Some 0x00100073"

text \<open>What the methods' users keep to: 5-bit registers, immediates the format can hold.\<close>

definition fits :: "nat \<Rightarrow> u32 \<Rightarrow> bool" where
  "fits n w \<longleftrightarrow> - (2 ^ n) \<le> sint w \<and> sint w < 2 ^ n"

fun asm_ok :: "asm_instr \<Rightarrow> bool" where
  "asm_ok (Asm_R op rd rs1 rs2) \<longleftrightarrow> rd < 32 \<and> rs1 < 32 \<and> rs2 < 32"
| "asm_ok (Asm_I op rd rs1 imm) \<longleftrightarrow> rd < 32 \<and> rs1 < 32 \<and> fits 11 imm"
| "asm_ok (Asm_Shift op rd rs1 sh) \<longleftrightarrow> rd < 32 \<and> rs1 < 32 \<and> sh < 32"
| "asm_ok (Asm_Load op rd rs1 off) \<longleftrightarrow> rd < 32 \<and> rs1 < 32 \<and> fits 11 off"
| "asm_ok (Asm_Store op rs2 rs1 off) \<longleftrightarrow> rs2 < 32 \<and> rs1 < 32 \<and> fits 11 off"
| "asm_ok (Asm_Branch op r1 r2 off) \<longleftrightarrow> r1 < 32 \<and> r2 < 32 \<and> fits 12 off \<and> even off"
| "asm_ok (Asm_U op rd imm20) \<longleftrightarrow> rd < 32 \<and> imm20 < 0x100000"
| "asm_ok (Asm_Jal rd imm) \<longleftrightarrow> rd < 32 \<and> fits 20 imm \<and> even imm"
| "asm_ok (Asm_Jalr rd rs1 imm) \<longleftrightarrow> rd < 32 \<and> rs1 < 32 \<and> fits 11 imm"
| "asm_ok _ \<longleftrightarrow> True"

text \<open>What an instruction means: operation, destination, two sources, immediate.\<close>

fun asm_parts :: "asm_instr \<Rightarrow> Op \<times> u32 \<times> u32 \<times> u32 \<times> u32" where
  "asm_parts (Asm_R op rd rs1 rs2) = (op, rd, rs1, rs2, 0)"
| "asm_parts (Asm_I op rd rs1 imm) = (op, rd, rs1, 0, imm)"
| "asm_parts (Asm_Shift op rd rs1 sh) = (op, rd, rs1, 0, sh)"
| "asm_parts (Asm_Load op rd rs1 off) = (op, rd, rs1, 0, off)"
| "asm_parts (Asm_Store op rs2 rs1 off) = (op, 0, rs1, rs2, off)"
| "asm_parts (Asm_Branch op r1 r2 off) = (op, 0, r1, r2, off)"
| "asm_parts (Asm_U op rd imm20) = (op, rd, 0, 0, push_bit 12 imm20)"
| "asm_parts (Asm_Jal rd imm) = (Op_JAL, rd, 0, 0, imm)"
| "asm_parts (Asm_Jalr rd rs1 imm) = (Op_JALR, rd, rs1, 0, imm)"
| "asm_parts Asm_Fence = (Op_FENCE, 0, 0, 0, 0)"
| "asm_parts Asm_FenceI = (Op_FENCE_I, 0, 0, 0, 0)"
| "asm_parts Asm_Ecall = (Op_ECALL, 0, 0, 0, 0)"
| "asm_parts Asm_Ebreak = (Op_EBREAK, 0, 0, 0, 0)"

definition decodes_to :: "u32 \<Rightarrow> Op \<times> u32 \<times> u32 \<times> u32 \<times> u32 \<Rightarrow> bool" where
  "decodes_to w p \<longleftrightarrow> (case p of (op, rd, rs1, rs2, imm) \<Rightarrow>
     let d = decode w in d_op d = op \<and> d_rd d = unat rd \<and> d_rs1 d = unat rs1 \<and>
       d_rs2 d = unat rs2 \<and> d_imm d = imm)"

section \<open>Encoders against field extraction\<close>

lemma asm_literal_take_bit:
  fixes x :: u32
  shows "x AND 0x1FFF = take_bit 13 x" "x AND 0xFFFFF = take_bit 20 x"
    "x AND 0x1FFFFF = take_bit 21 x"
  by (simp_all add: take_bit_eq_mask mask_eq_exp_minus_1)

lemmas wide_literals = and_literal_take_bit(1-4,6-9) asm_literal_take_bit

lemmas all_literals = and_literal_take_bit asm_literal_take_bit

lemma enc_R_fields:
  "opcode_of (enc_R opc rd f3 rs1 rs2 f7) = take_bit 7 opc"
  "rd_of (enc_R opc rd f3 rs1 rs2 f7) = take_bit 5 rd"
  "rs1_of (enc_R opc rd f3 rs1 rs2 f7) = take_bit 5 rs1"
  "rs2_of (enc_R opc rd f3 rs1 rs2 f7) = take_bit 5 rs2"
  "funct3_of (enc_R opc rd f3 rs1 rs2 f7) = take_bit 3 f3"
  "funct7_of (enc_R opc rd f3 rs1 rs2 f7) = take_bit 7 f7"
  unfolding field_defs enc_R_def all_literals
  by (rule bit_word_eqI; auto simp: bit_simps)+

lemma enc_I_fields:
  "opcode_of (enc_I opc rd f3 rs1 imm) = take_bit 7 opc"
  "rd_of (enc_I opc rd f3 rs1 imm) = take_bit 5 rd"
  "rs1_of (enc_I opc rd f3 rs1 imm) = take_bit 5 rs1"
  "funct3_of (enc_I opc rd f3 rs1 imm) = take_bit 3 f3"
  "drop_bit 20 (enc_I opc rd f3 rs1 imm) = take_bit 12 imm"
  unfolding field_defs enc_I_def all_literals Let_def
  by (rule bit_word_eqI; auto simp: bit_simps)+


lemma word32_eqI:
  assumes "bit a 0 = bit (b :: u32) 0" "bit a 1 = bit b 1" "bit a 2 = bit b 2" "bit a 3 = bit b 3"
    "bit a 4 = bit b 4" "bit a 5 = bit b 5" "bit a 6 = bit b 6" "bit a 7 = bit b 7"
    "bit a 8 = bit b 8" "bit a 9 = bit b 9" "bit a 10 = bit b 10" "bit a 11 = bit b 11"
    "bit a 12 = bit b 12" "bit a 13 = bit b 13" "bit a 14 = bit b 14" "bit a 15 = bit b 15"
    "bit a 16 = bit b 16" "bit a 17 = bit b 17" "bit a 18 = bit b 18" "bit a 19 = bit b 19"
    "bit a 20 = bit b 20" "bit a 21 = bit b 21" "bit a 22 = bit b 22" "bit a 23 = bit b 23"
    "bit a 24 = bit b 24" "bit a 25 = bit b 25" "bit a 26 = bit b 26" "bit a 27 = bit b 27"
    "bit a 28 = bit b 28" "bit a 29 = bit b 29" "bit a 30 = bit b 30" "bit a 31 = bit b 31"
  shows "a = b"
proof (rule bit_word_eqI)
  fix n assume "n < LENGTH(32)"
  then have "n < 32" by simp
  then have "n \<in> {31, 30, 29, 28, 27, 26, 25, 24, 23, 22, 21, 20, 19, 18, 17, 16, 15, 14, 13, 12, 11,
      10, 9, 8, 7, 6, 5, 4, 3, 2, 1, 0}"
    unfolding numeral_eq_Suc pred_numeral_simps BitM.simps by (auto simp: less_Suc_eq)
  then show "bit a n = bit b n" using assms by auto
qed

lemma bit_Suc_literals: "bit w (Suc (Suc 0)) = bit w 2" "bit w (Suc (Suc (Suc 0))) = bit w 3"
  by (simp_all add: numeral_2_eq_2 numeral_3_eq_3)

lemma enc_U_fields:
  "opcode_of (enc_U opc rd imm) = take_bit 7 opc"
  "rd_of (enc_U opc rd imm) = take_bit 5 rd"
  "imm_U (enc_U opc rd imm) = push_bit 12 imm"
  unfolding field_defs enc_U_def imm_U_def all_literals
  by (rule word32_eqI; simp add: bit_simps)+


lemma enc_S_fields:
  "opcode_of (enc_S f3 rs1 rs2 imm) = 0x23"
  "rs1_of (enc_S f3 rs1 rs2 imm) = take_bit 5 rs1"
  "rs2_of (enc_S f3 rs1 rs2 imm) = take_bit 5 rs2"
  "funct3_of (enc_S f3 rs1 rs2 imm) = take_bit 3 f3"
  unfolding field_defs enc_S_def all_literals Let_def
  by (rule word32_eqI; simp add: bit_simps)+

lemma enc_S_imm:
  "(push_bit 5 (drop_bit 25 (enc_S f3 rs1 rs2 imm) AND 0x7F)) OR (drop_bit 7 (enc_S f3 rs1 rs2 imm) AND 0x1F) = take_bit 12 imm"
  unfolding field_defs enc_S_def all_literals Let_def
  by (rule word32_eqI; simp add: bit_simps bit_Suc_literals del: push_bit_Suc)

lemma enc_B_fields:
  "opcode_of (enc_B f3 rs1 rs2 imm) = 0x63"
  "rs1_of (enc_B f3 rs1 rs2 imm) = take_bit 5 rs1"
  "rs2_of (enc_B f3 rs1 rs2 imm) = take_bit 5 rs2"
  "funct3_of (enc_B f3 rs1 rs2 imm) = take_bit 3 f3"
  unfolding field_defs enc_B_def b_imm_bits_def all_literals Let_def
  by (rule word32_eqI; simp add: bit_simps)+

lemma enc_B_imm: "\<not> bit imm 0 \<Longrightarrow> imm_B (enc_B f3 rs1 rs2 imm) = sext (take_bit 13 imm) 13"
  unfolding imm_B_def enc_B_def b_imm_bits_def wide_literals Let_def
  by (rule arg_cong2[where f=sext], rule word32_eqI; simp add: bit_simps bit_Suc_literals del: push_bit_Suc)

lemma enc_J_fields:
  "opcode_of (enc_J rd imm) = 0x6F"
  "rd_of (enc_J rd imm) = take_bit 5 rd"
  unfolding field_defs enc_J_def j_imm_bits_def all_literals Let_def
  by (rule word32_eqI; simp add: bit_simps)+

lemma enc_J_imm: "\<not> bit imm 0 \<Longrightarrow> imm_J (enc_J rd imm) = sext (take_bit 21 imm) 21"
  unfolding imm_J_def enc_J_def j_imm_bits_def wide_literals Let_def
  by (rule arg_cong2[where f=sext], rule word32_eqI; simp add: bit_simps bit_Suc_literals del: push_bit_Suc)
lemma signed_take_bit_fits:
  assumes "- (2 ^ n) \<le> sint (w :: u32)" "sint w < 2 ^ n" "n < 31"
  shows "signed_take_bit n w = w"
proof -
  have "signed_take_bit n w = word_of_int (signed_take_bit n (sint w))"
    by (rule bit_word_eqI) (use assms(3) in \<open>auto simp: bit_simps min_def\<close>)
  also have "signed_take_bit n (sint w) = sint w"
    using assms by (simp add: signed_take_bit_int_eq_self)
  finally show ?thesis by simp
qed
lemma take5: "r < 32 \<Longrightarrow> take_bit 5 r = (r :: u32)"
  by (simp add: word_unat_eq_iff unsigned_take_bit_eq take_bit_nat_eq_self word_less_nat_alt)

lemma enc_I_imm: "fits 11 imm \<Longrightarrow> imm_I (enc_I opc rd f3 rs1 imm) = imm"
  by (simp add: imm_I_def enc_I_fields fits_def signed_take_bit_fits and_literal_take_bit sext_correct)

lemma enc_S_imm': "fits 11 imm \<Longrightarrow> imm_S (enc_S f3 rs1 rs2 imm) = imm"
  by (simp only: imm_S_def enc_S_imm) (simp add: fits_def signed_take_bit_fits sext_correct)

lemma enc_B_imm': "fits 12 imm \<Longrightarrow> even imm \<Longrightarrow> imm_B (enc_B f3 rs1 rs2 imm) = imm"
  by (simp add: enc_B_imm bit_0 fits_def signed_take_bit_fits sext_correct)

lemma enc_J_imm': "fits 20 imm \<Longrightarrow> even imm \<Longrightarrow> imm_J (enc_J rd imm) = imm"
  by (simp add: enc_J_imm bit_0 fits_def signed_take_bit_fits sext_correct)

lemmas enc_fields = enc_R_fields enc_I_fields enc_S_fields enc_B_fields enc_U_fields enc_J_fields
  enc_I_imm enc_S_imm' enc_B_imm' enc_J_imm'


lemmas asm_simps = decodes_to_def decode_def decode_fields_def decoded_zero_def Let_def enc_fields take5

lemma asm_R: "map_of asm_codes op = Some (f3, f7) \<Longrightarrow> rd < 32 \<Longrightarrow> rs1 < 32 \<Longrightarrow> rs2 < 32
  \<Longrightarrow> decodes_to (enc_R 0x33 rd f3 rs1 rs2 f7) (op, rd, rs1, rs2, 0)"
  by (cases op) (auto simp: asm_codes_def decode_op_def asm_simps)

lemma asm_I: "map_of asm_imm_codes op = Some f3 \<Longrightarrow> rd < 32 \<Longrightarrow> rs1 < 32 \<Longrightarrow> fits 11 imm
  \<Longrightarrow> decodes_to (enc_I 0x13 rd f3 rs1 imm) (op, rd, rs1, 0, imm)"
  by (cases op) (auto simp: asm_imm_codes_def decode_op_imm_def asm_simps)

lemma asm_Shift: "map_of asm_shift_codes op = Some (f3, f7) \<Longrightarrow> rd < 32 \<Longrightarrow> rs1 < 32 \<Longrightarrow> sh < 32
  \<Longrightarrow> decodes_to (enc_R 0x13 rd f3 rs1 (sh AND 0x1F) f7) (op, rd, rs1, 0, sh)"
  by (cases op) (auto simp: asm_shift_codes_def decode_op_imm_def asm_simps and_literal_take_bit)

lemma asm_Load: "map_of asm_load_codes op = Some f3 \<Longrightarrow> rd < 32 \<Longrightarrow> rs1 < 32 \<Longrightarrow> fits 11 imm
  \<Longrightarrow> decodes_to (enc_I 0x03 rd f3 rs1 imm) (op, rd, rs1, 0, imm)"
  by (cases op) (auto simp: asm_load_codes_def decode_load_def asm_simps)

lemma asm_Store: "map_of asm_store_codes op = Some f3 \<Longrightarrow> rs2 < 32 \<Longrightarrow> rs1 < 32 \<Longrightarrow> fits 11 imm
  \<Longrightarrow> decodes_to (enc_S f3 rs1 rs2 imm) (op, 0, rs1, rs2, imm)"
  by (cases op) (auto simp: asm_store_codes_def decode_store_def asm_simps)

lemma asm_Branch: "map_of asm_branch_codes op = Some f3 \<Longrightarrow> rs2 < 32 \<Longrightarrow> rs1 < 32 \<Longrightarrow> fits 12 imm
  \<Longrightarrow> even imm \<Longrightarrow> decodes_to (enc_B f3 rs1 rs2 imm) (op, 0, rs1, rs2, imm)"
  by (cases op) (auto simp: asm_branch_codes_def decode_branch_def asm_simps)

lemma asm_U: "rd < 32 \<Longrightarrow> decodes_to (enc_U 0x37 rd imm) (Op_LUI, rd, 0, 0, push_bit 12 imm)"
  "rd < 32 \<Longrightarrow> decodes_to (enc_U 0x17 rd imm) (Op_AUIPC, rd, 0, 0, push_bit 12 imm)"
  by (simp_all add: decode_upper_def asm_simps)

lemma asm_J: "rd < 32 \<Longrightarrow> fits 20 imm \<Longrightarrow> even imm \<Longrightarrow> decodes_to (enc_J rd imm) (Op_JAL, rd, 0, 0, imm)"
  "rd < 32 \<Longrightarrow> rs1 < 32 \<Longrightarrow> fits 11 imm \<Longrightarrow> decodes_to (enc_I 0x67 rd 0 rs1 imm) (Op_JALR, rd, rs1, 0, imm)"
  by (simp_all add: decode_jal_def decode_jalr_def asm_simps)

lemma asm_sys: 
  "decodes_to 0x0000000F (Op_FENCE, 0, 0, 0, 0)" "decodes_to 0x0000100F (Op_FENCE_I, 0, 0, 0, 0)"
  "decodes_to 0x00000073 (Op_ECALL, 0, 0, 0, 0)" "decodes_to 0x00100073 (Op_EBREAK, 0, 0, 0, 0)"
  by (simp_all add: decodes_to_def decode_def decode_fields_def decoded_zero_def Let_def field_defs decode_misc_mem_def decode_system_def)


lemma asm_decodes: "asm_ok i \<Longrightarrow> asm_encode i = Some w \<Longrightarrow> decodes_to w (asm_parts i)"
  by (cases i)
    (auto simp: asm_R asm_I asm_Shift asm_Load asm_Store asm_Branch asm_U asm_J asm_sys
      split: if_splits)

fun asm_immediate_form :: "asm_instr \<Rightarrow> bool" where
  "asm_immediate_form (Asm_I op rd rs1 imm) \<longleftrightarrow> True"
| "asm_immediate_form (Asm_Shift op rd rs1 sh) \<longleftrightarrow> True"
| "asm_immediate_form _ \<longleftrightarrow> False"

lemma asm_uses_immediate:
  "asm_encode i = Some w \<Longrightarrow> uses_immediate (decode w) \<longleftrightarrow> asm_immediate_form i"
proof -
  assume enc: "asm_encode i = Some w"
  have "uses_immediate (decode w) \<longleftrightarrow> opcode_of w = 0x13"
    by (simp add: uses_immediate_def decode_raw opcode_of_def)
  also have "\<dots> \<longleftrightarrow> asm_immediate_form i"
  proof (cases "i \<in> {Asm_Fence, Asm_FenceI, Asm_Ecall, Asm_Ebreak}")
    case True
    with enc show ?thesis by (auto simp: opcode_of_def)
  next
    case False
    with enc show ?thesis
      by (cases i) (auto simp: enc_fields split: if_splits)
  qed
  finally show ?thesis .
qed

section \<open>Properties\<close>

text \<open>C22: What the assembler emits decodes to the instruction that was asked for: operation,
  registers and immediate come back, and the decoder marks as immediate forms exactly the
  register-immediate instructions.\<close>

theorem assemble_decode:
  assumes "asm_ok i" "asm_encode i = Some w"
  shows "decodes_to w (asm_parts i) \<and> (uses_immediate (decode w) \<longleftrightarrow> asm_immediate_form i)"
  using asm_decodes [OF assms] asm_uses_immediate [OF assms(2)] by simp

theorem assemble_decode_witness:
  "decodes_to (enc_S 2 2 10 (- 4)) (Op_SW, 0, 2, 10, - 4) \<and>
   \<not> uses_immediate (decode (enc_S 2 2 10 (- 4)))"
proof -
  have "asm_ok (Asm_Store Op_SW 10 2 (- 4))" by (simp add: fits_def)
  moreover have "asm_encode (Asm_Store Op_SW 10 2 (- 4)) = Some (enc_S 2 2 10 (- 4))"
    by (simp add: asm_store_codes_def)
  ultimately show ?thesis
    using assemble_decode [of "Asm_Store Op_SW 10 2 (- 4)" "enc_S 2 2 10 (- 4)"] by simp
qed

end
