(* ===== verification/BranchPredictor.thy ===== *)
theory BranchPredictor
  imports Instruction
begin

text \<open>
  \<^verbatim>\<open>src/src/branch_predictor.h\<close>: branch classification, the gshare direction
  predictor, the tagged set-associative target buffer, the return address stack, and the
  three combined with the snapshot a checkpoint stores.
\<close>

unbundle bit_operations_syntax

section \<open>Classification\<close>

datatype BranchKind = Branch_NONE | Branch_CONDITIONAL | Branch_JUMP | Branch_CALL | Branch_RETURN

definition is_link_reg :: "ArchReg \<Rightarrow> bool" where
  "is_link_reg r \<longleftrightarrow> r = 1 \<or> r = 5"

definition classify :: "Decoded \<Rightarrow> BranchKind" where
  "classify d =
     (if \<not> d_is_branch d then Branch_NONE
      else if d_op d = Op_JAL then (if is_link_reg (d_rd d) then Branch_CALL else Branch_JUMP)
      else if d_op d = Op_JALR then
        (if is_link_reg (d_rd d) then Branch_CALL
         else if is_link_reg (d_rs1 d) then Branch_RETURN
         else Branch_JUMP)
      else Branch_CONDITIONAL)"

section \<open>gshare\<close>

record Gshare =
  gs_pht :: "nat list"
  gs_ghr :: u32
  gs_mask :: u32

definition make_gshare :: "nat \<Rightarrow> nat \<Rightarrow> Gshare" where
  "make_gshare ghr_bits pht_size =
     \<lparr>gs_pht = replicate (if pht_size \<noteq> 0 then pht_size else 1) 1, gs_ghr = 0,
      gs_mask = (if 32 \<le> ghr_bits then NOT 0 else push_bit ghr_bits 1 - 1)\<rparr>"

definition gs_set_ghr :: "Gshare \<Rightarrow> u32 \<Rightarrow> Gshare" where
  "gs_set_ghr g h = g\<lparr>gs_ghr := h AND gs_mask g\<rparr>"

definition gs_shift :: "Gshare \<Rightarrow> bool \<Rightarrow> Gshare" where
  "gs_shift g taken =
     g\<lparr>gs_ghr := (push_bit 1 (gs_ghr g) OR (if taken then 1 else 0)) AND gs_mask g\<rparr>"

definition gs_index :: "Gshare \<Rightarrow> u32 \<Rightarrow> nat" where
  "gs_index g pc =
     unat ((gs_ghr g XOR drop_bit 2 pc) AND (of_nat (length (gs_pht g)) - 1))"

definition gs_predict_at :: "Gshare \<Rightarrow> nat \<Rightarrow> bool" where
  "gs_predict_at g idx \<longleftrightarrow> 2 \<le> gs_pht g ! idx"

definition gs_update :: "Gshare \<Rightarrow> nat \<Rightarrow> bool \<Rightarrow> Gshare" where
  "gs_update g idx taken =
     (let c = gs_pht g ! idx in
      g\<lparr>gs_pht := (gs_pht g)[idx :=
          (if taken then (if c < 3 then c + 1 else c) else (if c > 0 then c - 1 else c))]\<rparr>)"

section \<open>The branch target buffer\<close>

record BtbEntry =
  be_valid :: bool
  be_tag :: u32
  be_target :: u32
  be_kind :: BranchKind
  be_used :: nat

definition empty_btb_entry :: BtbEntry where
  "empty_btb_entry =
     \<lparr>be_valid = False, be_tag = 0, be_target = 0, be_kind = Branch_NONE, be_used = 0\<rparr>"

record BtbHit =
  hit_valid :: bool
  hit_target :: u32
  hit_kind :: BranchKind

record Btb =
  btb_sets :: nat
  btb_ways :: nat
  btb_entries :: "BtbEntry list"
  btb_clock :: nat

definition make_btb :: "nat \<Rightarrow> nat \<Rightarrow> Btb" where
  "make_btb sets ways =
     (let s = (if sets \<noteq> 0 then sets else 1); w = (if ways \<noteq> 0 then ways else 1) in
      \<lparr>btb_sets = s, btb_ways = w, btb_entries = replicate (s * w) empty_btb_entry,
       btb_clock = 0\<rparr>)"

definition btb_set_of :: "Btb \<Rightarrow> u32 \<Rightarrow> nat" where
  "btb_set_of b pc = unat (drop_bit 2 pc) mod btb_sets b"

definition btb_way :: "Btb \<Rightarrow> u32 \<Rightarrow> nat \<Rightarrow> BtbEntry" where
  "btb_way b pc w = btb_entries b ! (btb_set_of b pc * btb_ways b + w)"

text \<open>\<open>n\<close> ways are left to examine, from way \<open>w\<close> on.\<close>

primrec btb_lookup_from :: "Btb \<Rightarrow> u32 \<Rightarrow> nat \<Rightarrow> nat \<Rightarrow> BtbHit" where
  "btb_lookup_from b pc 0 w = \<lparr>hit_valid = False, hit_target = 0, hit_kind = Branch_NONE\<rparr>"
| "btb_lookup_from b pc (Suc n) w =
     (let e = btb_way b pc w in
      if be_valid e \<and> be_tag e = pc
      then \<lparr>hit_valid = True, hit_target = be_target e, hit_kind = be_kind e\<rparr>
      else btb_lookup_from b pc n (w + 1))"

definition btb_lookup :: "Btb \<Rightarrow> u32 \<Rightarrow> BtbHit" where
  "btb_lookup b pc = btb_lookup_from b pc (btb_ways b) 0"

text \<open>The way \<open>update\<close> fills: a match, else the first invalid one, else the oldest.\<close>

primrec btb_victim :: "Btb \<Rightarrow> u32 \<Rightarrow> nat \<Rightarrow> nat \<Rightarrow> nat \<Rightarrow> nat \<Rightarrow> nat" where
  "btb_victim b pc 0 w victim oldest = victim"
| "btb_victim b pc (Suc n) w victim oldest =
     (let e = btb_way b pc w in
      if be_valid e \<and> be_tag e = pc then w
      else if \<not> be_valid e then w
      else if be_used e < oldest then btb_victim b pc n (w + 1) w (be_used e)
      else btb_victim b pc n (w + 1) victim oldest)"

definition UINT64_MAX :: nat where "UINT64_MAX = 18446744073709551615"

definition btb_fill :: "Btb \<Rightarrow> nat \<Rightarrow> u32 \<Rightarrow> u32 \<Rightarrow> BranchKind \<Rightarrow> Btb" where
  "btb_fill b i pc target kind =
     b\<lparr>btb_entries := (btb_entries b)[i :=
         \<lparr>be_valid = True, be_tag = pc, be_target = target, be_kind = kind,
          be_used = btb_clock b + 1\<rparr>],
       btb_clock := btb_clock b + 1\<rparr>"

definition btb_update :: "Btb \<Rightarrow> u32 \<Rightarrow> u32 \<Rightarrow> BranchKind \<Rightarrow> Btb" where
  "btb_update b pc target kind =
     btb_fill b (btb_set_of b pc * btb_ways b + btb_victim b pc (btb_ways b) 0 0 UINT64_MAX)
       pc target kind"

section \<open>The return address stack\<close>

definition RAS_MAX_ENTRIES :: nat where "RAS_MAX_ENTRIES = 32"

record Ras =
  ras_stack :: "u32 list"
  ras_cap :: nat
  ras_top :: nat
  ras_count :: nat

definition make_ras :: "nat \<Rightarrow> Ras" where
  "make_ras n =
     \<lparr>ras_stack = replicate RAS_MAX_ENTRIES 0,
      ras_cap = (if n = 0 then 1 else if n > RAS_MAX_ENTRIES then RAS_MAX_ENTRIES else n),
      ras_top = 0, ras_count = 0\<rparr>"

definition ras_push :: "Ras \<Rightarrow> u32 \<Rightarrow> Ras" where
  "ras_push r addr =
     (let t = (ras_top r + 1) mod ras_cap r in
      r\<lparr>ras_top := t, ras_stack := (ras_stack r)[t := addr],
        ras_count := (if ras_count r < ras_cap r then ras_count r + 1 else ras_count r)\<rparr>)"

definition ras_pop :: "Ras \<Rightarrow> u32 \<times> Ras" where
  "ras_pop r =
     (if ras_count r = 0 then (0, r)
      else (ras_stack r ! ras_top r,
            r\<lparr>ras_top := (ras_top r + ras_cap r - 1) mod ras_cap r,
              ras_count := ras_count r - 1\<rparr>))"

definition ras_peek :: "Ras \<Rightarrow> u32" where
  "ras_peek r = (if ras_count r = 0 then 0 else ras_stack r ! ras_top r)"

definition ras_peek_at :: "Ras \<Rightarrow> nat \<Rightarrow> u32" where
  "ras_peek_at r k =
     (if ras_count r \<le> k then 0
      else ras_stack r ! ((ras_top r + ras_cap r - (k mod ras_cap r)) mod ras_cap r))"

definition ras_entries :: "Ras \<Rightarrow> u32 list" where
  "ras_entries r = map (ras_peek_at r) [0..<ras_count r]"

section \<open>The predictor\<close>

record Prediction =
  pr_taken :: bool
  pr_target :: u32
  pr_btb_hit :: bool
  pr_kind :: BranchKind
  pr_pht_index :: nat
  pr_from_ras :: bool

record BranchPredictor =
  bp_gshare :: Gshare
  bp_btb :: Btb
  bp_ras :: Ras

definition make_predictor :: "Config \<Rightarrow> BranchPredictor" where
  "make_predictor cfg =
     \<lparr>bp_gshare = make_gshare (cfg_ghr_bits cfg) (cfg_pht_size cfg),
      bp_btb = make_btb (cfg_btb_sets cfg) (cfg_btb_ways cfg),
      bp_ras = make_ras (cfg_ras_size cfg)\<rparr>"

record Snapshot =
  snap_ghr :: u32
  snap_ras :: Ras

definition default_snapshot :: Snapshot where
  "default_snapshot = \<lparr>snap_ghr = 0, snap_ras = make_ras 1\<rparr>"

definition bp_snapshot :: "BranchPredictor \<Rightarrow> Snapshot" where
  "bp_snapshot bp = \<lparr>snap_ghr = gs_ghr (bp_gshare bp), snap_ras = bp_ras bp\<rparr>"

definition bp_restore :: "BranchPredictor \<Rightarrow> Snapshot \<Rightarrow> BranchPredictor" where
  "bp_restore bp s = bp\<lparr>bp_gshare := gs_set_ghr (bp_gshare bp) (snap_ghr s), bp_ras := snap_ras s\<rparr>"

definition bp_shift_history :: "BranchPredictor \<Rightarrow> bool \<Rightarrow> BranchPredictor" where
  "bp_shift_history bp taken = bp\<lparr>bp_gshare := gs_shift (bp_gshare bp) taken\<rparr>"

definition bp_predict :: "BranchPredictor \<Rightarrow> u32 \<Rightarrow> Prediction \<times> BranchPredictor" where
  "bp_predict bp pc =
     (let idx = gs_index (bp_gshare bp) pc;
          hit = btb_lookup (bp_btb bp) pc;
          p = \<lparr>pr_taken = False, pr_target = 0, pr_btb_hit = hit_valid hit, pr_kind = Branch_NONE,
               pr_pht_index = idx, pr_from_ras = False\<rparr>
      in if \<not> hit_valid hit then (p, bp)
         else let p = p\<lparr>pr_kind := hit_kind hit\<rparr> in
           if hit_kind hit = Branch_CONDITIONAL then
             (let taken = gs_predict_at (bp_gshare bp) idx;
                  bp' = bp\<lparr>bp_gshare := gs_shift (bp_gshare bp) taken\<rparr>;
                  p = p\<lparr>pr_taken := taken\<rparr>
              in if \<not> taken then (p, bp') else (p\<lparr>pr_target := hit_target hit\<rparr>, bp'))
           else
             (let p = p\<lparr>pr_taken := True, pr_target := hit_target hit\<rparr> in
              if hit_kind hit = Branch_CALL
              then (p, bp\<lparr>bp_ras := ras_push (bp_ras bp) (pc + 4)\<rparr>)
              else if hit_kind hit = Branch_RETURN \<and> ras_count (bp_ras bp) \<noteq> 0
              then (case ras_pop (bp_ras bp) of (t, r) \<Rightarrow>
                     (p\<lparr>pr_target := t, pr_from_ras := True\<rparr>, bp\<lparr>bp_ras := r\<rparr>))
              else (p, bp)))"

definition bp_commit ::
    "BranchPredictor \<Rightarrow> u32 \<Rightarrow> nat \<Rightarrow> BranchKind \<Rightarrow> bool \<Rightarrow> u32 \<Rightarrow> BranchPredictor" where
  "bp_commit bp pc pht_index kind taken target =
     (let bp1 = (if kind = Branch_CONDITIONAL
                 then bp\<lparr>bp_gshare := gs_update (bp_gshare bp) pht_index taken\<rparr> else bp)
      in if taken then bp1\<lparr>bp_btb := btb_update (bp_btb bp1) pc target kind\<rparr> else bp1)"

section \<open>The return stack is a bounded list\<close>

definition ras_ok :: "Ras \<Rightarrow> bool" where
  "ras_ok r \<longleftrightarrow> 0 < ras_cap r \<and> ras_cap r \<le> RAS_MAX_ENTRIES \<and>
     length (ras_stack r) = RAS_MAX_ENTRIES \<and> ras_top r < ras_cap r \<and> ras_count r \<le> ras_cap r"

lemma make_ras_ok: "ras_ok (make_ras n)"
  by (simp add: ras_ok_def make_ras_def RAS_MAX_ENTRIES_def)

lemma ras_push_ok: "ras_ok r \<Longrightarrow> ras_ok (ras_push r a)"
  by (auto simp: ras_ok_def ras_push_def Let_def)

lemma ras_pop_ok: "ras_ok r \<Longrightarrow> ras_ok (snd (ras_pop r))"
  by (auto simp: ras_ok_def ras_pop_def)

lemma ras_slot_push:
  assumes "0 < k" "k < (n::nat)" "t < n"
  shows "((t + 1) mod n + n - k) mod n = (t + n - (k - 1)) mod n"
    and "((t + 1) mod n + n - k) mod n \<noteq> (t + 1) mod n"
proof -
  have "((t + 1) mod n + n - k) mod n = ((t + 1) mod n + (n - k)) mod n"
    using assms by simp
  also have "\<dots> = (t + 1 + (n - k)) mod n" by (simp only: mod_add_left_eq)
  also have "t + 1 + (n - k) = t + n - (k - 1)" using assms by simp
  finally show 1: "((t + 1) mod n + n - k) mod n = (t + n - (k - 1)) mod n" .
  show "((t + 1) mod n + n - k) mod n \<noteq> (t + 1) mod n"
    using assms by (cases "t + 1 = n") (auto simp: mod_if)
qed

lemma ras_entries_push:
  assumes ok: "ras_ok r"
  shows "ras_entries (ras_push r a) = take (ras_cap r) (a # ras_entries r)"
proof (rule nth_equalityI)
  show "length (ras_entries (ras_push r a)) = length (take (ras_cap r) (a # ras_entries r))"
    using ok by (auto simp: ras_entries_def ras_push_def Let_def ras_ok_def min_def)
next
  fix k assume "k < length (ras_entries (ras_push r a))"
  then have k: "k < ras_count (ras_push r a)" by (simp add: ras_entries_def)
  have kc: "k < ras_cap r" using k ok by (auto simp: ras_push_def Let_def ras_ok_def split: if_splits)
  show "ras_entries (ras_push r a) ! k = take (ras_cap r) (a # ras_entries r) ! k"
  proof (cases k)
    case 0
    have "(ras_top r + 1) mod ras_cap r < length (ras_stack r)"
      using ok mod_less_divisor [of "ras_cap r" "ras_top r + 1"]
      unfolding ras_ok_def by linarith
    with 0 show ?thesis using k kc ok
      by (auto simp: ras_entries_def ras_peek_at_def ras_push_def Let_def ras_ok_def nth_Cons)
  next
    case (Suc j)
    then have "j < ras_count r" using k by (auto simp: ras_push_def Let_def split: if_splits)
    then show ?thesis
      using Suc k kc ok ras_slot_push [of k "ras_cap r" "ras_top r"]
      by (simp add: ras_entries_def ras_peek_at_def ras_push_def Let_def ras_ok_def)
  qed
qed

lemma ras_slot_pop:
  assumes "k + 1 < (n::nat)" "t < n"
  shows "((t + n - 1) mod n + n - k) mod n = (t + n - (k + 1)) mod n"
proof -
  have "((t + n - 1) mod n + n - k) mod n = ((t + n - 1) mod n + (n - k)) mod n"
    using assms by simp
  also have "\<dots> = (t + n - 1 + (n - k)) mod n" by (simp only: mod_add_left_eq)
  also have "t + n - 1 + (n - k) = (t + n - (k + 1)) + n" using assms by simp
  finally show ?thesis by simp
qed

lemma ras_pop_correct:
  assumes ok: "ras_ok r"
  shows "ras_entries (snd (ras_pop r)) = tl (ras_entries r)"
    and "fst (ras_pop r) = (case ras_entries r of [] \<Rightarrow> 0 | a # _ \<Rightarrow> a)"
proof -
  show "fst (ras_pop r) = (case ras_entries r of [] \<Rightarrow> 0 | a # _ \<Rightarrow> a)"
    using ok by (cases "ras_count r")
      (auto simp: ras_pop_def ras_entries_def ras_peek_at_def ras_ok_def upt_rec split: list.splits)
  show "ras_entries (snd (ras_pop r)) = tl (ras_entries r)"
  proof (rule nth_equalityI)
    show "length (ras_entries (snd (ras_pop r))) = length (tl (ras_entries r))"
      by (simp add: ras_entries_def ras_pop_def)
  next
    fix k assume "k < length (ras_entries (snd (ras_pop r)))"
    then have k: "k + 1 < ras_count r" "ras_count r \<noteq> 0" by (auto simp: ras_entries_def ras_pop_def split: if_splits)
    have "k + 1 < ras_cap r" using k ok by (simp add: ras_ok_def)
    moreover have "\<not> ras_count r - 1 \<le> k" using k by linarith
    ultimately show "ras_entries (snd (ras_pop r)) ! k = tl (ras_entries r) ! k"
      using k ok ras_slot_pop [of k "ras_cap r" "ras_top r"]
      by (simp add: ras_entries_def ras_peek_at_def ras_pop_def ras_ok_def nth_tl)
  qed
qed

section \<open>gshare: the index stays in the table, the counters stay in two bits\<close>

definition gs_ok :: "Gshare \<Rightarrow> bool" where
  "gs_ok g \<longleftrightarrow> 0 < length (gs_pht g) \<and> length (gs_pht g) < 2 ^ 32 \<and>
     (\<forall>c\<in>set (gs_pht g). c \<le> 3) \<and> gs_ghr g AND gs_mask g = gs_ghr g"

lemma gs_index_less: "gs_ok g \<Longrightarrow> gs_index g pc < length (gs_pht g)"
proof -
  assume ok: "gs_ok g"
  define n where "n = length (gs_pht g)"
  have n: "0 < n" "n < 2 ^ 32" using ok by (simp_all add: gs_ok_def n_def)
  have "gs_index g pc \<le> unat (of_nat n - 1 :: u32)"
    unfolding gs_index_def n_def by (rule word_le_nat_alt [THEN iffD1]) (rule word_and_le1)
  also have "\<dots> = n - 1" using n by (simp add: unat_of_nat32 unat_minus_one unat_eq_0 flip: unat_0_iff)
  finally show ?thesis using n unfolding n_def by linarith
qed

lemma gs_update_ok: "gs_ok g \<Longrightarrow> gs_ok (gs_update g i t)"
proof (cases "i < length (gs_pht g)")
  case True
  assume ok: "gs_ok g"
  with True have "gs_pht g ! i \<le> 3" by (auto simp: gs_ok_def)
  with ok show ?thesis
    by (auto simp: gs_ok_def gs_update_def Let_def dest!: set_update_subset_insert [THEN subsetD])
next
  case False
  then have "gs_pht (gs_update g i t) = gs_pht g" by (simp add: gs_update_def Let_def list_update_beyond)
  moreover have "gs_ghr (gs_update g i t) = gs_ghr g" "gs_mask (gs_update g i t) = gs_mask g"
    by (simp_all add: gs_update_def Let_def)
  ultimately show "gs_ok g \<Longrightarrow> gs_ok (gs_update g i t)" by (simp add: gs_ok_def)
qed

section \<open>The target buffer\<close>

text \<open>
  The valid ways of a set form a prefix and carry different tags, so a branch is cached
  once. \<open>update\<close> keeps this, finds its branch afterwards, and never changes a hit of
  another branch except by evicting it.
\<close>

definition btb_match :: "Btb \<Rightarrow> u32 \<Rightarrow> nat \<Rightarrow> bool" where
  "btb_match b pc w \<longleftrightarrow> be_valid (btb_way b pc w) \<and> be_tag (btb_way b pc w) = pc"

definition ways_ok :: "nat \<Rightarrow> (nat \<Rightarrow> BtbEntry) \<Rightarrow> bool" where
  "ways_ok n f \<longleftrightarrow> (\<forall>w < n. be_valid (f w) \<longrightarrow>
     (\<forall>u < w. be_valid (f u) \<and> be_tag (f u) \<noteq> be_tag (f w)))"

definition btb_ok :: "Btb \<Rightarrow> bool" where
  "btb_ok b \<longleftrightarrow> 0 < btb_sets b \<and> 0 < btb_ways b \<and>
     length (btb_entries b) = btb_sets b * btb_ways b \<and> (\<forall>pc. ways_ok (btb_ways b) (btb_way b pc))"

lemma btb_lookup_from_first:
  assumes "w \<le> v" "v < w + n" "btb_match b pc v" "\<And>u. w \<le> u \<Longrightarrow> u < v \<Longrightarrow> \<not> btb_match b pc u"
  shows "btb_lookup_from b pc n w =
    \<lparr>hit_valid = True, hit_target = be_target (btb_way b pc v), hit_kind = be_kind (btb_way b pc v)\<rparr>"
  using assms
proof (induction n arbitrary: w)
  case 0
  then show ?case by simp
next
  case (Suc n)
  show ?case
  proof (cases "v = w")
    case True
    with Suc.prems show ?thesis by (simp add: btb_match_def Let_def)
  next
    case False
    with Suc.prems have "btb_lookup_from b pc n (w + 1) =
       \<lparr>hit_valid = True, hit_target = be_target (btb_way b pc v), hit_kind = be_kind (btb_way b pc v)\<rparr>"
      by (intro Suc.IH) auto
    moreover have "\<not> btb_match b pc w" using Suc.prems False by simp
    ultimately show ?thesis by (auto simp: btb_match_def Let_def)
  qed
qed

lemma btb_lookup_from_miss:
  assumes "\<And>u. w \<le> u \<Longrightarrow> u < w + n \<Longrightarrow> \<not> btb_match b pc u"
  shows "btb_lookup_from b pc n w = \<lparr>hit_valid = False, hit_target = 0, hit_kind = Branch_NONE\<rparr>"
  using assms
proof (induction n arbitrary: w)
  case (Suc n)
  have "\<not> btb_match b pc w" using Suc.prems [of w] by simp
  with Suc show ?case by (auto simp: btb_match_def Let_def)
qed simp

lemma btb_victim_range:
  assumes "victim < W" "w + n \<le> W" 
  shows "btb_victim b pc n w victim oldest < W"
  using assms by (induction n arbitrary: w victim oldest) (auto simp: Let_def)

text \<open>\<open>v\<close> is where the scan of the ways stops, unless every way holds another branch.\<close>

definition scan_stops :: "nat \<Rightarrow> (nat \<Rightarrow> BtbEntry) \<Rightarrow> u32 \<Rightarrow> nat \<Rightarrow> bool" where
  "scan_stops n f pc v \<longleftrightarrow> (\<forall>u < v. be_valid (f u) \<and> be_tag (f u) \<noteq> pc) \<and>
     (be_valid (f v) \<longrightarrow> be_tag (f v) = pc \<or> (\<forall>u < n. be_valid (f u) \<and> be_tag (f u) \<noteq> pc))"

lemma btb_victim_scan:
  assumes "\<forall>u < w. be_valid (btb_way b pc u) \<and> be_tag (btb_way b pc u) \<noteq> pc" "victim < w \<or> w = 0 \<and> 0 < n \<and> victim = 0"
  shows "scan_stops (w + n) (btb_way b pc) pc (btb_victim b pc n w victim oldest)"
  using assms
proof (induction n arbitrary: w victim oldest)
  case 0
  then show ?case by (auto simp: scan_stops_def)
next
  case (Suc n)
  show ?case
  proof (cases "btb_match b pc w \<or> \<not> be_valid (btb_way b pc w)")
    case True
    then have "btb_victim b pc (Suc n) w victim oldest = w"
      by (auto simp: btb_match_def Let_def)
    with True Suc.prems show ?thesis by (auto simp: scan_stops_def btb_match_def)
  next
    case False
    then obtain victim' oldest' where
      eq: "btb_victim b pc (Suc n) w victim oldest = btb_victim b pc n (Suc w) victim' oldest'"
      and v: "victim' = w \<or> victim' = victim"
      by (cases "be_used (btb_way b pc w) < oldest") (auto simp: btb_match_def Let_def)
    have "scan_stops (Suc w + n) (btb_way b pc) pc (btb_victim b pc n (Suc w) victim' oldest')"
      using Suc.prems False v by (intro Suc.IH) (auto simp: btb_match_def less_Suc_eq)
    with eq show ?thesis by simp
  qed
qed

lemma ways_ok_fill:
  assumes "ways_ok n f" "scan_stops n f pc v" "v < n" "be_valid e" "be_tag e = pc"
  shows "ways_ok n (f(v := e))"
  using assms unfolding ways_ok_def scan_stops_def by (metis (no_types, lifting) fun_upd_apply linorder_neqE_nat order.strict_trans)

lemma ways_ok_cong: "(\<And>w. w < n \<Longrightarrow> f w = g w) \<Longrightarrow> ways_ok n f = ways_ok n g"
  by (auto simp: ways_ok_def)

lemma btb_set_less: "0 < btb_sets b \<Longrightarrow> btb_set_of b pc < btb_sets b"
  by (simp add: btb_set_of_def)

lemma slot_less:
  assumes "s < S" "w < (W::nat)"
  shows "s * W + w < S * W"
proof -
  have "s * W + w < Suc s * W" using assms by simp
  also have "\<dots> \<le> S * W" using assms by (intro mult_le_mono1) simp
  finally show ?thesis .
qed

lemma slot_inj:
  assumes "s * W + w = s' * W + w'" "w < W" "w' < (W::nat)"
  shows "s = s' \<and> w = w'"
proof -
  from assms(2) have "(s * W + w) div W = s" by simp
  moreover from assms(3) have "(s' * W + w') div W = s'" by simp
  ultimately have "s = s'" using assms(1) by simp
  with assms(1) show ?thesis by simp
qed

lemma btb_update_ways:
  assumes ok: "btb_ok b"
  obtains v e where "v < btb_ways b" "scan_stops (btb_ways b) (btb_way b pc) pc v"
    "e = \<lparr>be_valid = True, be_tag = pc, be_target = t, be_kind = k, be_used = btb_clock b + 1\<rparr>"
    "btb_sets (btb_update b pc t k) = btb_sets b" "btb_ways (btb_update b pc t k) = btb_ways b"
    "length (btb_entries (btb_update b pc t k)) = length (btb_entries b)"
    "\<And>x w. w < btb_ways b \<Longrightarrow> btb_way (btb_update b pc t k) x w =
      (if btb_set_of b x = btb_set_of b pc then ((btb_way b pc)(v := e)) w else btb_way b x w)"
proof -
  let ?v = "btb_victim b pc (btb_ways b) 0 0 UINT64_MAX"
  let ?e = "\<lparr>be_valid = True, be_tag = pc, be_target = t, be_kind = k, be_used = btb_clock b + 1\<rparr>"
  have sz: "0 < btb_sets b" "0 < btb_ways b" "length (btb_entries b) = btb_sets b * btb_ways b"
    using ok by (simp_all add: btb_ok_def)
  have v: "?v < btb_ways b" by (rule btb_victim_range) (simp_all add: sz)
  have scan: "scan_stops (btb_ways b) (btb_way b pc) pc ?v"
    using btb_victim_scan [of 0 b pc 0 "btb_ways b" UINT64_MAX] sz by simp
  have way: "btb_way (btb_update b pc t k) x w =
      (if btb_set_of b x = btb_set_of b pc then ((btb_way b pc)(?v := ?e)) w else btb_way b x w)"
    if "w < btb_ways b" for x w
  proof -
    have "btb_way (btb_update b pc t k) x w = (btb_entries b)[btb_set_of b pc * btb_ways b + ?v := ?e] !
        (btb_set_of b x * btb_ways b + w)"
      by (simp add: btb_way_def btb_update_def btb_fill_def btb_set_of_def)
    also have "\<dots> = (if btb_set_of b x = btb_set_of b pc \<and> w = ?v then ?e else btb_way b x w)"
      using slot_less [OF btb_set_less [OF sz(1), of pc] v]
        slot_inj [of "btb_set_of b pc" "btb_ways b" ?v "btb_set_of b x" w, OF _ v that] sz(3)
      by (auto simp: nth_list_update btb_way_def)
    finally show ?thesis by (auto simp: btb_way_def)
  qed
  show ?thesis
    by (rule that [OF v scan refl _ _ _ way]) (simp_all add: btb_update_def btb_fill_def)
qed

lemma btb_update_ok: "btb_ok b \<Longrightarrow> btb_ok (btb_update b pc t k)"
proof -
  assume ok: "btb_ok b"
  show ?thesis
  proof (rule btb_update_ways [OF ok, of pc t k])
    fix v e
    assume v: "v < btb_ways b" and scan: "scan_stops (btb_ways b) (btb_way b pc) pc v"
      and e: "e = \<lparr>be_valid = True, be_tag = pc, be_target = t, be_kind = k, be_used = btb_clock b + 1\<rparr>"
      and sz: "btb_sets (btb_update b pc t k) = btb_sets b" "btb_ways (btb_update b pc t k) = btb_ways b"
        "length (btb_entries (btb_update b pc t k)) = length (btb_entries b)"
      and way: "\<And>x w. w < btb_ways b \<Longrightarrow> btb_way (btb_update b pc t k) x w =
      (if btb_set_of b x = btb_set_of b pc then ((btb_way b pc)(v := e)) w else btb_way b x w)"
    have "ways_ok (btb_ways b) (btb_way (btb_update b pc t k) x)" for x
    proof (cases "btb_set_of b x = btb_set_of b pc")
      case True
      have "ways_ok (btb_ways b) ((btb_way b pc)(v := e))"
        using ok scan v e by (intro ways_ok_fill) (auto simp: btb_ok_def)
      with True show ?thesis by (subst ways_ok_cong [OF way]) (simp_all add: fun_upd_def)
    next
      case False
      with ok show ?thesis by (subst ways_ok_cong [OF way]) (simp_all add: btb_ok_def)
    qed
    with ok sz show ?thesis by (simp add: btb_ok_def)
  qed
qed

lemma btb_way_same_set: "btb_set_of b x = btb_set_of b pc \<Longrightarrow> btb_way b x w = btb_way b pc w"
  by (simp add: btb_way_def)

lemma btb_lookup_update_same:
  assumes ok: "btb_ok b"
  shows "btb_lookup (btb_update b pc t k) pc = \<lparr>hit_valid = True, hit_target = t, hit_kind = k\<rparr>"
proof (rule btb_update_ways [OF ok, of pc t k])
  fix v e
  let ?b = "btb_update b pc t k"
  assume v: "v < btb_ways b" and scan: "scan_stops (btb_ways b) (btb_way b pc) pc v"
    and e: "e = \<lparr>be_valid = True, be_tag = pc, be_target = t, be_kind = k, be_used = btb_clock b + 1\<rparr>"
    and sz: "btb_ways ?b = btb_ways b"
    and way: "\<And>x w. w < btb_ways b \<Longrightarrow> btb_way ?b x w =
      (if btb_set_of b x = btb_set_of b pc then ((btb_way b pc)(v := e)) w else btb_way b x w)"
  have "btb_lookup_from ?b pc (btb_ways b) 0 =
     \<lparr>hit_valid = True, hit_target = be_target (btb_way ?b pc v), hit_kind = be_kind (btb_way ?b pc v)\<rparr>"
    using v scan by (intro btb_lookup_from_first) (auto simp: btb_match_def way e scan_stops_def)
  with v show ?thesis by (simp add: btb_lookup_def sz way e)
qed

lemma btb_lookup_from_hit:
  assumes "hit_valid (btb_lookup_from b pc n w)"
  shows "\<exists>v. w \<le> v \<and> v < w + n \<and> btb_match b pc v \<and> (\<forall>u. w \<le> u \<and> u < v \<longrightarrow> \<not> btb_match b pc u)"
  using assms
proof (induction n arbitrary: w)
  case (Suc n)
  show ?case
  proof (cases "btb_match b pc w")
    case False
    with Suc.prems have "hit_valid (btb_lookup_from b pc n (Suc w))"
      by (auto simp: btb_match_def Let_def split: if_splits)
    from Suc.IH [OF this] obtain v where "Suc w \<le> v" "v < Suc w + n" "btb_match b pc v"
      and first: "\<forall>u. Suc w \<le> u \<and> u < v \<longrightarrow> \<not> btb_match b pc u" by blast
    moreover have "\<not> btb_match b pc u" if "w \<le> u" "u < v" for u
      using that False first by (cases "u = w") auto
    ultimately show ?thesis by (intro exI [of _ v]) auto
  qed auto
qed simp

lemma btb_lookup_update_other:
  assumes ok: "btb_ok b" and ne: "x \<noteq> pc" and hit: "hit_valid (btb_lookup (btb_update b pc t k) x)"
  shows "btb_lookup (btb_update b pc t k) x = btb_lookup b x"
proof (rule btb_update_ways [OF ok, of pc t k])
  fix v e
  let ?b = "btb_update b pc t k"
  assume v: "v < btb_ways b"
    and e: "e = \<lparr>be_valid = True, be_tag = pc, be_target = t, be_kind = k, be_used = btb_clock b + 1\<rparr>"
    and sz: "btb_ways ?b = btb_ways b"
    and way: "\<And>x w. w < btb_ways b \<Longrightarrow> btb_way ?b x w =
      (if btb_set_of b x = btb_set_of b pc then ((btb_way b pc)(v := e)) w else btb_way b x w)"
  from hit obtain u where u: "u < btb_ways b" "btb_match ?b x u" "\<forall>w < u. \<not> btb_match ?b x w"
    using btb_lookup_from_hit [of ?b x "btb_ways b" 0] by (auto simp: btb_lookup_def sz)
  have old: "btb_way ?b x u = btb_way b x u" "btb_match b x u"
    using u(1,2) ne btb_way_same_set [of b x pc u] by (auto simp: btb_match_def way e split: if_splits)
  have first: "\<not> btb_match b x w" if w: "w < u" for w
  proof
    assume m: "btb_match b x w"
    have "ways_ok (btb_ways b) (btb_way b x)" using ok by (simp add: btb_ok_def)
    with m old(2) w u(1) show False unfolding ways_ok_def btb_match_def by metis
  qed
  have "btb_lookup b x =
     \<lparr>hit_valid = True, hit_target = be_target (btb_way b x u), hit_kind = be_kind (btb_way b x u)\<rparr>"
    unfolding btb_lookup_def using u(1) old(2) first by (intro btb_lookup_from_first) auto
  moreover have "btb_lookup ?b x =
     \<lparr>hit_valid = True, hit_target = be_target (btb_way ?b x u), hit_kind = be_kind (btb_way ?b x u)\<rparr>"
    unfolding btb_lookup_def using u by (intro btb_lookup_from_first) (auto simp: sz)
  ultimately show ?thesis by (simp add: old(1))
qed

lemma make_btb_ok: "btb_ok (make_btb s w)"
proof -
  have "\<not> be_valid (btb_way (make_btb s w) pc u)" if "u < btb_ways (make_btb s w)" for pc u
    using that slot_less [OF btb_set_less, of "make_btb s w" u "btb_ways (make_btb s w)" pc]
    by (simp add: btb_way_def make_btb_def Let_def btb_set_of_def empty_btb_entry_def split: if_splits)
  then show ?thesis by (auto simp: btb_ok_def ways_ok_def) (auto simp: make_btb_def Let_def)
qed

lemma make_btb_miss: "\<not> hit_valid (btb_lookup (make_btb s w) pc)"
proof
  assume "hit_valid (btb_lookup (make_btb s w) pc)"
  then obtain u where "u < btb_ways (make_btb s w)" "btb_match (make_btb s w) pc u"
    unfolding btb_lookup_def using btb_lookup_from_hit [of "make_btb s w" pc "btb_ways (make_btb s w)" 0] by auto
  then show False
    using slot_less [OF btb_set_less, of "make_btb s w" u "btb_ways (make_btb s w)" pc]
    by (simp add: btb_match_def btb_way_def make_btb_def Let_def btb_set_of_def empty_btb_entry_def split: if_splits)
qed

lemma gs_shift_ok: "gs_ok g \<Longrightarrow> gs_ok (gs_shift g t)"
  by (simp add: gs_ok_def gs_shift_def and.assoc)

lemma gs_set_ghr_ok: "gs_ok g \<Longrightarrow> gs_ok (gs_set_ghr g h)"
  by (simp add: gs_ok_def gs_set_ghr_def and.assoc)

lemma make_gshare_ok: "n < 2 ^ 32 \<Longrightarrow> gs_ok (make_gshare b n)"
  by (auto simp: gs_ok_def make_gshare_def)

section \<open>The predictor: invariant, isolation of the tables, snapshot and restore\<close>

definition bp_ok :: "BranchPredictor \<Rightarrow> bool" where
  "bp_ok bp \<longleftrightarrow> gs_ok (bp_gshare bp) \<and> btb_ok (bp_btb bp) \<and> ras_ok (bp_ras bp)"

lemma make_predictor_ok: "cfg_pht_size cfg < 2 ^ 32 \<Longrightarrow> bp_ok (make_predictor cfg)"
  by (simp add: bp_ok_def make_predictor_def make_gshare_ok make_btb_ok make_ras_ok)

lemma bp_predict_ok: "bp_ok bp \<Longrightarrow> bp_ok (snd (bp_predict bp pc))"
  using ras_pop_ok [of "bp_ras bp"]
  by (auto simp: bp_ok_def bp_predict_def Let_def gs_shift_ok ras_push_ok split: prod.splits)

lemma bp_commit_ok: "bp_ok bp \<Longrightarrow> bp_ok (bp_commit bp pc i k t target)"
  by (simp add: bp_ok_def bp_commit_def Let_def gs_update_ok btb_update_ok)

lemma bp_restore_ok: "bp_ok bp \<Longrightarrow> ras_ok (snap_ras s) \<Longrightarrow> bp_ok (bp_restore bp s)"
  by (simp add: bp_ok_def bp_restore_def gs_set_ghr_ok)

lemma bp_shift_ok: "bp_ok bp \<Longrightarrow> bp_ok (bp_shift_history bp t)"
  by (simp add: bp_ok_def bp_shift_history_def gs_shift_ok)

lemma bp_predict_tables:
  "bp_btb (snd (bp_predict bp pc)) = bp_btb bp"
  "gs_pht (bp_gshare (snd (bp_predict bp pc))) = gs_pht (bp_gshare bp)"
  "gs_mask (bp_gshare (snd (bp_predict bp pc))) = gs_mask (bp_gshare bp)"
  by (auto simp: bp_predict_def Let_def gs_shift_def split: prod.splits)

definition bp_predicts :: "BranchPredictor \<Rightarrow> u32 list \<Rightarrow> BranchPredictor" where
  "bp_predicts bp pcs = fold (\<lambda>pc b. snd (bp_predict b pc)) pcs bp"

lemma bp_predicts_tables:
  "bp_btb (bp_predicts bp pcs) = bp_btb bp \<and>
   gs_pht (bp_gshare (bp_predicts bp pcs)) = gs_pht (bp_gshare bp) \<and>
   gs_mask (bp_gshare (bp_predicts bp pcs)) = gs_mask (bp_gshare bp)"
  unfolding bp_predicts_def by (induction pcs arbitrary: bp) (simp_all add: bp_predict_tables)

lemma bp_restore_predicts:
  assumes "bp_ok bp"
  shows "bp_restore (bp_predicts bp pcs) (bp_snapshot bp) = bp"
  using assms bp_predicts_tables [of bp pcs]
  by (cases bp; cases "bp_gshare bp")
    (simp add: bp_restore_def bp_snapshot_def gs_set_ghr_def bp_ok_def gs_ok_def)

section \<open>Properties\<close>

text \<open>C35: The circular return-address stack is a bounded list: a push puts the address in
  front and forgets the oldest beyond the capacity, a pop returns the newest address (0 when
  empty) and drops it, and both keep the representation invariant.\<close>

theorem return_stack_is_bounded_list:
  assumes "ras_ok r"
  shows "ras_entries (ras_push r a) = take (ras_cap r) (a # ras_entries r) \<and>
    ras_pop r = (case ras_entries r of [] \<Rightarrow> 0 | t # _ \<Rightarrow> t, snd (ras_pop r)) \<and>
    ras_entries (snd (ras_pop r)) = tl (ras_entries r) \<and>
    ras_ok (ras_push r a) \<and> ras_ok (snd (ras_pop r))"
proof -
  have "ras_pop r = (fst (ras_pop r), snd (ras_pop r))" by simp
  then show ?thesis
    using ras_entries_push [OF assms] ras_pop_correct [OF assms] ras_push_ok [OF assms]
      ras_pop_ok [OF assms] by (simp only: simp_thms)
qed

text \<open>A two-entry stack drops the oldest of three addresses.\<close>

theorem return_stack_is_bounded_list_witness:
  "ras_entries (ras_push (ras_push (ras_push (make_ras 2) 4) 8) 12) = [12, 8]"
proof -
  have 1: "ras_ok (make_ras 2)" by (rule make_ras_ok)
  have e: "ras_entries (make_ras 2) = []" by (simp add: ras_entries_def make_ras_def)
  have cap: "ras_cap (ras_push r a) = ras_cap r" for r a by (simp add: ras_push_def Let_def)
  have c2: "ras_cap (make_ras 2) = 2" by (simp add: make_ras_def RAS_MAX_ENTRIES_def)
  show ?thesis
    using return_stack_is_bounded_list [OF 1, of 4]
      return_stack_is_bounded_list [of "ras_push (make_ras 2) 4" 8]
      return_stack_is_bounded_list [of "ras_push (ras_push (make_ras 2) 4) 8" 12]
    by (simp add: e cap c2)
qed

text \<open>C34: A branch target written into the BTB is what the next lookup of that PC returns, and
  a lookup of any other PC that still hits returns what it returned before: the update may
  evict another branch but never corrupts its entry.\<close>

theorem btb_update_lookup:
  assumes "btb_ok b"
  shows "btb_lookup (btb_update b pc t k) pc = \<lparr>hit_valid = True, hit_target = t, hit_kind = k\<rparr> \<and>
    (x \<noteq> pc \<and> hit_valid (btb_lookup (btb_update b pc t k) x) \<longrightarrow>
      btb_lookup (btb_update b pc t k) x = btb_lookup b x) \<and>
    btb_ok (btb_update b pc t k)"
  using btb_lookup_update_same [OF assms] btb_lookup_update_other [OF assms] btb_update_ok [OF assms]
  by blast

theorem btb_update_lookup_witness:
  "btb_lookup (btb_update (make_btb 1 1) 8 64 Branch_JUMP) 8 =
     \<lparr>hit_valid = True, hit_target = 64, hit_kind = Branch_JUMP\<rparr> \<and>
   \<not> hit_valid (btb_lookup (btb_update (make_btb 1 1) 8 64 Branch_JUMP) 12)"
  using btb_update_lookup [OF make_btb_ok [of 1 1], of 8 64 Branch_JUMP 12] make_btb_miss [of 1 1 12]
  by auto

text \<open>C33: Prediction is speculation only: any run of predictions leaves the trained tables
  (pattern history and branch targets) as they were, keeps the predictor well formed, and
  restoring the snapshot taken before it gives back the whole predictor.\<close>

theorem predictions_are_undone:
  assumes "bp_ok bp"
  shows "bp_restore (bp_predicts bp pcs) (bp_snapshot bp) = bp \<and>
    bp_btb (bp_predicts bp pcs) = bp_btb bp \<and>
    gs_pht (bp_gshare (bp_predicts bp pcs)) = gs_pht (bp_gshare bp) \<and>
    bp_ok (bp_predicts bp pcs)"
proof -
  have "bp_ok (bp_predicts bp pcs)"
    using assms unfolding bp_predicts_def by (induction pcs arbitrary: bp) (simp_all add: bp_predict_ok)
  then show ?thesis
    using bp_restore_predicts [OF assms] bp_predicts_tables [of bp pcs] by simp
qed

theorem predictions_are_undone_witness:
  "bp_restore (bp_predicts (make_predictor default_config) [0, 4, 8]) (bp_snapshot (make_predictor default_config))
     = make_predictor default_config"
  using predictions_are_undone [of "make_predictor default_config" "[0, 4, 8]"]
  by (simp add: make_predictor_ok default_config_def)

text \<open>C39: The gshare tables are indexed in range by every PC, and the two-bit counters stay
  two-bit: training moves the trained counter one step towards the outcome and saturates.\<close>

theorem gshare_counters_saturate:
  assumes "gs_ok g"
  shows "gs_index g pc < length (gs_pht g) \<and> gs_ok (gs_update g (gs_index g pc) taken) \<and>
    gs_pht (gs_update g (gs_index g pc) taken) = (gs_pht g)[gs_index g pc :=
      (if taken then min 3 (gs_pht g ! gs_index g pc + 1) else gs_pht g ! gs_index g pc - 1)]"
proof -
  have i: "gs_index g pc < length (gs_pht g)" by (rule gs_index_less [OF assms])
  then have "gs_pht g ! gs_index g pc \<le> 3" using assms by (auto simp: gs_ok_def)
  with i show ?thesis
    using gs_update_ok [OF assms, of "gs_index g pc" taken]
    by (auto simp: gs_update_def Let_def min_def list_update_same_conv intro!: arg_cong [where f = "list_update _ _"])
qed

theorem gshare_counters_saturate_witness:
  "gs_pht (gs_update (make_gshare 2 4) (gs_index (make_gshare 2 4) 4) True) = [1, 2, 1, 1]"
proof -
  have ok: "gs_ok (make_gshare 2 4)" by (rule make_gshare_ok) simp
  have i: "gs_index (make_gshare 2 4) 4 = 1" by (simp add: gs_index_def make_gshare_def)
  show ?thesis
    using gshare_counters_saturate [OF ok, of 4 True] unfolding i
    by (simp add: make_gshare_def eval_nat_numeral)
qed

end
