(* ===== verification/Rename.thy ===== *)
theory Rename
  imports BranchPredictor "HOL-Library.Multiset"
begin

text \<open>
  \<^verbatim>\<open>src/src/rename.h\<close>: the physical register file, the free list, the register alias
  table and the pool of branch checkpoints. The two pools share the \<open>id_pool\<close> interface.
\<close>

section \<open>Physical register file\<close>

record Prf =
  prf_values :: "u32 list"
  prf_ready :: "bool list"

definition make_prf :: "nat \<Rightarrow> Prf" where
  "make_prf capacity = \<lparr>prf_values = replicate capacity 0, prf_ready = replicate capacity True\<rparr>"

definition prf_read :: "Prf \<Rightarrow> PhysReg \<Rightarrow> u32" where
  "prf_read p r = (if r = 0 then 0 else prf_values p ! r)"

definition prf_write :: "Prf \<Rightarrow> PhysReg \<Rightarrow> u32 \<Rightarrow> Prf" where
  "prf_write p r v =
     (if r = 0 then p
      else p\<lparr>prf_values := (prf_values p)[r := v], prf_ready := (prf_ready p)[r := True]\<rparr>)"

definition prf_is_ready :: "Prf \<Rightarrow> PhysReg \<Rightarrow> bool" where
  "prf_is_ready p r \<longleftrightarrow> r = 0 \<or> prf_ready p ! r"

definition prf_mark_pending :: "Prf \<Rightarrow> PhysReg \<Rightarrow> Prf" where
  "prf_mark_pending p r = (if r = 0 then p else p\<lparr>prf_ready := (prf_ready p)[r := False]\<rparr>)"

section \<open>Free list\<close>

record FreeList =
  fl_capacity :: nat
  fl_free :: "PhysReg list"

definition make_free_list :: "nat \<Rightarrow> FreeList" where
  "make_free_list prf_size = \<lparr>fl_capacity = prf_size, fl_free = [32..<prf_size]\<rparr>"

definition fl_alloc :: "FreeList \<Rightarrow> (PhysReg \<times> FreeList) option" where
  "fl_alloc f = (case fl_free f of [] \<Rightarrow> None | r # rs \<Rightarrow> Some (r, f\<lparr>fl_free := rs\<rparr>))"

definition fl_release :: "FreeList \<Rightarrow> PhysReg \<Rightarrow> FreeList" where
  "fl_release f r =
     (if r = 0 \<or> fl_capacity f \<le> r \<or> r = INVALID_PHYSREG then f
      else f\<lparr>fl_free := fl_free f @ [r]\<rparr>)"

section \<open>Register alias table\<close>

type_synonym Rat = "PhysReg list"

definition ARCH_REGS :: nat where "ARCH_REGS = 32"

definition make_rat :: Rat where
  "make_rat = [0..<ARCH_REGS]"

definition rat_map :: "Rat \<Rightarrow> ArchReg \<Rightarrow> PhysReg" where
  "rat_map rat a = rat ! a"

definition rat_set :: "Rat \<Rightarrow> ArchReg \<Rightarrow> PhysReg \<Rightarrow> Rat" where
  "rat_set rat a p = (if a = 0 then rat else rat[a := p])"

section \<open>Checkpoints\<close>

record Checkpoint =
  ck_rat :: Rat
  ck_front_end :: Snapshot

definition default_checkpoint :: Checkpoint where
  "default_checkpoint = \<lparr>ck_rat = replicate ARCH_REGS 0, ck_front_end = default_snapshot\<rparr>"

record CheckpointPool =
  cp_slots :: "Checkpoint list"
  cp_free :: "CheckpointId list"
  cp_capacity :: nat

definition make_checkpoint_pool :: "nat \<Rightarrow> CheckpointPool" where
  "make_checkpoint_pool capacity =
     \<lparr>cp_slots = replicate capacity default_checkpoint, cp_free = [0..<capacity],
      cp_capacity = capacity\<rparr>"

definition cp_alloc :: "CheckpointPool \<Rightarrow> (CheckpointId \<times> CheckpointPool) option" where
  "cp_alloc p = (case cp_free p of [] \<Rightarrow> None | i # is \<Rightarrow> Some (i, p\<lparr>cp_free := is\<rparr>))"

text \<open>
  \<open>at(id)\<close> as a write and as a read; the vector access is undefined outside the slots, which
  the read reports.
\<close>

definition cp_write :: "CheckpointPool \<Rightarrow> CheckpointId \<Rightarrow> Checkpoint \<Rightarrow> CheckpointPool" where
  "cp_write p i c = p\<lparr>cp_slots := (cp_slots p)[i := c]\<rparr>"

definition cp_at :: "CheckpointPool \<Rightarrow> CheckpointId \<Rightarrow> Checkpoint option" where
  "cp_at p i = (if i < length (cp_slots p) then Some (cp_slots p ! i) else None)"

definition cp_release :: "CheckpointPool \<Rightarrow> CheckpointId \<Rightarrow> CheckpointPool" where
  "cp_release p i = (if cp_capacity p \<le> i then p else p\<lparr>cp_free := cp_free p @ [i]\<rparr>)"

section \<open>The interface of a pool of identifiers\<close>

text \<open>
  Both pools hand out the front of a queue and take identifiers back at its end, ignoring
  those they do not own. What matters to the pipeline is conservation: the free
  identifiers, as a multiset, change by exactly what is taken or returned.
\<close>

locale id_pool =
  fixes free :: "'p \<Rightarrow> nat list" and owns :: "'p \<Rightarrow> nat \<Rightarrow> bool"
    and alloc :: "'p \<Rightarrow> (nat \<times> 'p) option" and release :: "'p \<Rightarrow> nat \<Rightarrow> 'p"
  assumes alloc_None: "alloc p = None \<longleftrightarrow> free p = []"
    and alloc_Some: "alloc p = Some (i, p') \<Longrightarrow> free p = i # free p' \<and> owns p' = owns p"
    and free_release: "free (release p i) = (if owns p i then free p @ [i] else free p)"
    and owns_release: "owns (release p i) = owns p"
begin

lemma alloc_mset: "alloc p = Some (i, p') \<Longrightarrow> mset (free p) = add_mset i (mset (free p'))"
  using alloc_Some [of p i p'] by simp

lemma alloc_fresh: "alloc p = Some (i, p') \<Longrightarrow> distinct (free p) \<Longrightarrow> i \<notin> set (free p') \<and> distinct (free p')"
  using alloc_Some [of p i p'] by simp

lemma release_mset:
  "mset (free (release p i)) = mset (free p) + (if owns p i then {#i#} else {#})"
  by (simp add: free_release)

text \<open>A squash returns a whole list of identifiers, sentinels among them.\<close>

lemma releases_mset:
  "mset (free (fold (\<lambda>i p. release p i) is p)) = mset (free p) + mset (filter (owns p) is)"
  by (induction "is" arbitrary: p) (simp_all add: free_release owns_release)

lemma releases_owns: "owns (fold (\<lambda>i p. release p i) is p) = owns p"
  by (induction "is" arbitrary: p) (simp_all add: owns_release)

lemma alloc_release:
  assumes "alloc p = Some (i, p')" "owns p i"
  shows "mset (free (release p' i)) = mset (free p)"
  using alloc_Some [OF assms(1)] assms(2) by (simp add: free_release)

end

definition fl_owns :: "FreeList \<Rightarrow> PhysReg \<Rightarrow> bool" where
  "fl_owns f r \<longleftrightarrow> r \<noteq> 0 \<and> r < fl_capacity f \<and> r \<noteq> INVALID_PHYSREG"

definition cp_owns :: "CheckpointPool \<Rightarrow> CheckpointId \<Rightarrow> bool" where
  "cp_owns p i \<longleftrightarrow> i < cp_capacity p"

interpretation fl: id_pool fl_free fl_owns fl_alloc fl_release
  by unfold_locales
    (auto simp: fl_alloc_def fl_release_def fl_owns_def fun_eq_iff split: list.splits)

interpretation cp: id_pool cp_free cp_owns cp_alloc cp_release
  by unfold_locales
    (auto simp: cp_alloc_def cp_release_def cp_owns_def fun_eq_iff split: list.splits)

lemma fl_capacity_frame [simp]:
  "fl_capacity (fl_release f r) = fl_capacity f"
  by (simp add: fl_release_def)

lemma fl_alloc_capacity: "fl_alloc f = Some (r, f') \<Longrightarrow> fl_capacity f' = fl_capacity f"
  by (auto simp: fl_alloc_def split: list.splits)

lemma cp_slots_frame [simp]:
  "cp_slots (cp_release p i) = cp_slots p" "cp_free (cp_write p i c) = cp_free p"
  "cp_capacity (cp_write p i c) = cp_capacity p" "cp_capacity (cp_release p i) = cp_capacity p"
  "length (cp_slots (cp_write p i c)) = length (cp_slots p)"
  by (simp_all add: cp_release_def cp_write_def)

lemma cp_alloc_slots:
  "cp_alloc p = Some (i, p') \<Longrightarrow> cp_slots p' = cp_slots p \<and> cp_capacity p' = cp_capacity p"
  by (auto simp: cp_alloc_def split: list.splits)

section \<open>Registers and mappings\<close>

lemma prf_write_frame [simp]:
  "length (prf_values (prf_write p r v)) = length (prf_values p)"
  "length (prf_ready (prf_write p r v)) = length (prf_ready p)"
  by (simp_all add: prf_write_def)

lemma prf_mark_pending_frame [simp]:
  "prf_values (prf_mark_pending p r) = prf_values p"
  "length (prf_ready (prf_mark_pending p r)) = length (prf_ready p)"
  by (simp_all add: prf_mark_pending_def)

lemma prf_read_mark_pending [simp]: "prf_read (prf_mark_pending p r) q = prf_read p q"
  by (simp add: prf_read_def)

lemma prf_read_write:
  "r < length (prf_values p) \<Longrightarrow>
   prf_read (prf_write p r v) q = (if q = r \<and> r \<noteq> 0 then v else prf_read p q)"
  by (auto simp: prf_read_def prf_write_def)

lemma prf_is_ready_write:
  "r < length (prf_ready p) \<Longrightarrow> prf_is_ready (prf_write p r v) q \<longleftrightarrow> q = r \<or> prf_is_ready p q"
  by (auto simp: prf_is_ready_def prf_write_def nth_list_update)

lemma prf_is_ready_mark_pending:
  "r < length (prf_ready p) \<Longrightarrow>
   prf_is_ready (prf_mark_pending p r) q \<longleftrightarrow> q = 0 \<or> (q \<noteq> r \<and> prf_is_ready p q)"
  by (auto simp: prf_is_ready_def prf_mark_pending_def nth_list_update)

lemma length_rat_set [simp]: "length (rat_set rat a p) = length rat"
  by (simp add: rat_set_def)

lemma rat_map_set:
  "a < length rat \<Longrightarrow> rat_map (rat_set rat a p) b = (if b = a \<and> a \<noteq> 0 then p else rat_map rat b)"
  by (auto simp: rat_map_def rat_set_def)

lemma length_make_rat [simp]: "length make_rat = 32"
  by (simp add: make_rat_def ARCH_REGS_def)

section \<open>Properties\<close>

text \<open>The pools neither lose nor invent identifiers: taking the front register or
  checkpoint and later returning a list of them, in any order and with sentinels among them,
  changes the free multiset by exactly the identifiers the pool owns.\<close>

theorem pools_conserve_identifiers:
  "(fl_alloc f = Some (r, f') \<longrightarrow> mset (fl_free f) = add_mset r (mset (fl_free f'))) \<and>
   mset (fl_free (fold (\<lambda>i p. fl_release p i) rs f)) = mset (fl_free f) + mset (filter (fl_owns f) rs) \<and>
   (cp_alloc p = Some (i, p') \<longrightarrow> mset (cp_free p) = add_mset i (mset (cp_free p'))) \<and>
   mset (cp_free (fold (\<lambda>i p. cp_release p i) is p)) = mset (cp_free p) + mset (filter (cp_owns p) is)"
  using fl.alloc_mset cp.alloc_mset fl.releases_mset cp.releases_mset by blast

theorem pools_conserve_identifiers_witness:
  "mset (fl_free (fold (\<lambda>i p. fl_release p i) [33, INVALID_PHYSREG, 0] (make_free_list 34))) =
     {#32, 33, 33#}"
  using pools_conserve_identifiers [of "make_free_list 34" 32 "(make_free_list 34)\<lparr>fl_free := [33]\<rparr>"
      "[33, INVALID_PHYSREG, 0]"]
  by (simp add: make_free_list_def fl_owns_def INVALID_PHYSREG_def uint32_max_def upt_rec)

end
