(* ===== verification/Memory.thy ===== *)
theory Memory
  imports Prelude
begin

text \<open>
  \<^verbatim>\<open>src/src/memory.h\<close>: flat physical memory in lazily allocated 4 KiB pages.
  A page is read at offsets below 4096 only, so it is a function of the offset. The
  \<open>byte_memory\<close> interface states what the pipeline and the loaders rely on; the paged
  store provides it.
\<close>

unbundle bit_operations_syntax

definition PAGE_BITS :: nat where "PAGE_BITS = 12"
definition PAGE_SIZE :: u32 where "PAGE_SIZE = push_bit PAGE_BITS 1"
definition PAGE_MASK :: u32 where "PAGE_MASK = PAGE_SIZE - 1"

type_synonym Page = "u32 \<Rightarrow> u8"

record Memory =
  mem_pages :: "u32 \<Rightarrow> Page option"

definition empty_memory :: Memory where
  "empty_memory = \<lparr>mem_pages = (\<lambda>_. None)\<rparr>"

definition zero_page :: Page where
  "zero_page = (\<lambda>_. 0)"

definition has_page :: "Memory \<Rightarrow> u32 \<Rightarrow> bool" where
  "has_page m addr \<longleftrightarrow> mem_pages m (addr AND NOT PAGE_MASK) \<noteq> None"

definition load_u8 :: "Memory \<Rightarrow> u32 \<Rightarrow> u8" where
  "load_u8 m addr = (case mem_pages m (addr AND NOT PAGE_MASK) of
       None \<Rightarrow> 0
     | Some pg \<Rightarrow> pg (addr AND PAGE_MASK))"

definition load_u16 :: "Memory \<Rightarrow> u32 \<Rightarrow> u16" where
  "load_u16 m addr = (let b0 = ucast (load_u8 m addr) :: u32; b1 = ucast (load_u8 m (addr + 1))
     in ucast (b0 OR push_bit 8 b1))"

definition load_u32 :: "Memory \<Rightarrow> u32 \<Rightarrow> u32" where
  "load_u32 m addr =
     (let b0 = ucast (load_u8 m addr); b1 = ucast (load_u8 m (addr + 1));
          b2 = ucast (load_u8 m (addr + 2)); b3 = ucast (load_u8 m (addr + 3))
      in b0 OR push_bit 8 b1 OR push_bit 16 b2 OR push_bit 24 b3)"

definition store_u8 :: "Memory \<Rightarrow> u32 \<Rightarrow> u8 \<Rightarrow> Memory" where
  "store_u8 m addr v =
     (let key = addr AND NOT PAGE_MASK;
          pg = (case mem_pages m key of None \<Rightarrow> zero_page | Some pg \<Rightarrow> pg)
      in m\<lparr>mem_pages := (mem_pages m)(key \<mapsto> pg(addr AND PAGE_MASK := v))\<rparr>)"

definition store_u16 :: "Memory \<Rightarrow> u32 \<Rightarrow> u16 \<Rightarrow> Memory" where
  "store_u16 m addr v =
     store_u8 (store_u8 m addr (ucast v)) (addr + 1) (ucast (drop_bit 8 v))"

definition store_u32 :: "Memory \<Rightarrow> u32 \<Rightarrow> u32 \<Rightarrow> Memory" where
  "store_u32 m addr v =
     (let m1 = store_u8 m addr (ucast v);
          m2 = store_u8 m1 (addr + 1) (ucast (drop_bit 8 v));
          m3 = store_u8 m2 (addr + 2) (ucast (drop_bit 16 v))
      in store_u8 m3 (addr + 3) (ucast (drop_bit 24 v)))"

primrec write_bytes :: "Memory \<Rightarrow> u32 \<Rightarrow> u8 list \<Rightarrow> Memory" where
  "write_bytes m addr [] = m"
| "write_bytes m addr (b # bs) = write_bytes (store_u8 m addr b) (addr + 1) bs"

section \<open>The byte-memory interface\<close>

text \<open>An access of \<open>n\<close> bytes through byte operations, lowest address first.\<close>

primrec bytes_store :: "('m \<Rightarrow> u32 \<Rightarrow> u8 \<Rightarrow> 'm) \<Rightarrow> 'm \<Rightarrow> u32 \<Rightarrow> nat \<Rightarrow> u32 \<Rightarrow> 'm" where
  "bytes_store st m addr 0 v = m"
| "bytes_store st m addr (Suc n) v =
     st (bytes_store st m addr n v) (addr + of_nat n) (ucast (drop_bit (8 * n) v))"

primrec bytes_load :: "('m \<Rightarrow> u32 \<Rightarrow> u8) \<Rightarrow> 'm \<Rightarrow> u32 \<Rightarrow> nat \<Rightarrow> u32" where
  "bytes_load ld m addr 0 = 0"
| "bytes_load ld m addr (Suc n) =
     bytes_load ld m addr n OR push_bit (8 * n) (ucast (ld m (addr + of_nat n)))"

lemma bytes_load_cong:
  "(\<And>i. i < n \<Longrightarrow> ld m (a + of_nat i) = ld' m' (a + of_nat i)) \<Longrightarrow>
   bytes_load ld m a n = bytes_load ld' m' a n"
  by (induction n) auto

lemma bytes_load_of_bytes:
  assumes "\<And>i. i < n \<Longrightarrow> ld m (a + of_nat i) = ucast (drop_bit (8 * i) v)"
  shows "bytes_load ld m a n = take_bit (8 * n) v"
  using assms
proof (induction n)
  case 0
  then show ?case by simp
next
  case (Suc n)
  then have "bytes_load ld m a (Suc n) =
      take_bit (8 * n) v OR push_bit (8 * n) (ucast (ucast (drop_bit (8 * n) v) :: u8))"
    by simp
  also have "\<dots> = take_bit (8 * Suc n) v"
    by (rule bit_word_eqI) (auto simp: bit_simps)
  finally show ?case .
qed

locale byte_memory =
  fixes ld :: "'m \<Rightarrow> u32 \<Rightarrow> u8" and st :: "'m \<Rightarrow> u32 \<Rightarrow> u8 \<Rightarrow> 'm"
  assumes ld_st: "ld (st m a v) x = (if x = a then v else ld m x)"
begin

lemma ld_bytes_store:
  assumes "n \<le> 2 ^ 32"
  shows "ld (bytes_store st m a n v) x =
    (if unat (x - a) < n then ucast (drop_bit (8 * unat (x - a)) v) else ld m x)"
  using assms
proof (induction n)
  case 0
  then show ?case by simp
next
  case (Suc n)
  have "x = a + of_nat n \<longleftrightarrow> unat (x - a) = n"
  proof
    assume "x = a + of_nat n"
    with Suc.prems show "unat (x - a) = n" by (simp add: unat_of_nat32)
  next
    assume "unat (x - a) = n"
    then have "x - a = of_nat n" by auto
    then show "x = a + of_nat n" by (simp add: algebra_simps)
  qed
  with Suc show ?case by (auto simp: ld_st less_Suc_eq)
qed

lemma load_after_store:
  assumes "n \<le> 2 ^ 32"
  shows "bytes_load ld (bytes_store st m a n v) a n = take_bit (8 * n) v"
proof (rule bytes_load_of_bytes)
  fix i assume "i < n"
  with assms show "ld (bytes_store st m a n v) (a + of_nat i) = ucast (drop_bit (8 * i) v)"
    by (simp add: ld_bytes_store unat_of_nat32)
qed

lemma load_frame:
  assumes "n \<le> 2 ^ 32" and "\<And>i. i < k \<Longrightarrow> n \<le> unat (b + of_nat i - a)"
  shows "bytes_load ld (bytes_store st m a n v) b k = bytes_load ld m b k"
proof (rule bytes_load_cong)
  fix i assume "i < k"
  with assms(2) have "n \<le> unat (b + of_nat i - a)" .
  with assms(1) show "ld (bytes_store st m a n v) (b + of_nat i) = ld m (b + of_nat i)"
    by (simp add: ld_bytes_store)
qed

end

section \<open>The paged store provides it\<close>

lemma page_split_inj:
  fixes x a :: u32
  assumes "x AND NOT PAGE_MASK = a AND NOT PAGE_MASK" and "x AND PAGE_MASK = a AND PAGE_MASK"
  shows "x = a"
proof -
  have split: "y = (y AND PAGE_MASK) OR (y AND NOT PAGE_MASK)" for y :: u32
    by (rule bit_word_eqI) (auto simp: bit_simps)
  show ?thesis
    using split [of x] split [of a] assms by simp
qed

lemma load_store_u8 [simp]:
  "load_u8 (store_u8 m a v) x = (if x = a then v else load_u8 m x)"
  by (auto simp: load_u8_def store_u8_def zero_page_def Let_def dest: page_split_inj split: option.splits)

interpretation mem: byte_memory load_u8 store_u8
  by unfold_locales (rule load_store_u8)

section \<open>The typed accesses are byte runs\<close>

lemma of_nat_u32_literals: "(of_nat 2 :: u32) = 2" "(of_nat 3 :: u32) = 3"
  by simp_all

lemmas unroll = numeral_eq_Suc of_nat_u32_literals

lemma load_u8_bytes: "ucast (load_u8 m a) = bytes_load load_u8 m a 1"
  by simp

lemma load_u16_bytes: "ucast (load_u16 m a) = bytes_load load_u8 m a 2"
proof -
  have "bytes_load load_u8 m a (Suc (Suc 0)) =
      ucast (load_u8 m a) OR push_bit 8 (ucast (load_u8 m (a + 1)))" by simp
  moreover have "(ucast (ucast (ucast b0 OR push_bit 8 (ucast b1 :: u32) :: u32) :: u16) :: u32) =
      ucast b0 OR push_bit 8 (ucast b1)" for b0 b1 :: u8
    by (rule bit_word_eqI) (auto simp: bit_simps dest: bit_imp_le_length)
  ultimately show ?thesis by (simp add: load_u16_def Let_def numeral_2_eq_2)
qed

lemma load_u32_bytes: "load_u32 m a = bytes_load load_u8 m a 4"
proof -
  have "bytes_load load_u8 m a (Suc (Suc (Suc (Suc 0)))) = load_u32 m a"
    by (simp add: load_u32_def Let_def or.assoc)
  then show ?thesis by (simp add: eval_nat_numeral)
qed

lemma store_u8_bytes: "store_u8 m a (ucast v) = bytes_store store_u8 m a 1 v"
  by simp

lemma store_u16_bytes: "store_u16 m a (ucast v) = bytes_store store_u8 m a 2 v"
proof -
  have "bytes_store store_u8 m a (Suc (Suc 0)) v =
      store_u8 (store_u8 m a (ucast v)) (a + 1) (ucast (drop_bit 8 v))" by simp
  moreover have "(ucast (drop_bit 8 (ucast v :: u16)) :: u8) = ucast (drop_bit 8 v)"
    by (rule bit_word_eqI) (auto simp: bit_simps)
  moreover have "(ucast (ucast v :: u16) :: u8) = ucast v"
    by (rule bit_word_eqI) (auto simp: bit_simps)
  ultimately show ?thesis by (simp add: store_u16_def numeral_2_eq_2)
qed

lemma store_u32_bytes: "store_u32 m a v = bytes_store store_u8 m a 4 v"
proof -
  have "bytes_store store_u8 m a (Suc (Suc (Suc (Suc 0)))) v = store_u32 m a v"
    by (simp add: store_u32_def Let_def)
  then show ?thesis by (simp add: eval_nat_numeral)
qed

lemma load_u8_write_bytes:
  "length bs \<le> 2 ^ 32 \<Longrightarrow> load_u8 (write_bytes m a bs) x =
     (if unat (x - a) < length bs then bs ! unat (x - a) else load_u8 m x)"
proof (induction bs arbitrary: m a)
  case Nil
  then show ?case by simp
next
  case (Cons b bs)
  show ?case
  proof (cases "x = a")
    case True
    have "x - (a + 1) = 0xFFFFFFFF" using True by simp
    then have "unat (x - (a + 1)) = 2 ^ 32 - 1" by (simp only: unsigned_numeral) simp
    with Cons True show ?thesis by simp
  next
    case False
    then have nz: "x - a \<noteq> 0" by simp
    then have "unat (x - a - 1) = unat (x - a) - 1" by (rule unat_minus_one)
    moreover from nz have "0 < unat (x - a)" by (simp add: unat_gt_0)
    ultimately have u: "unat (x - a) = Suc (unat (x - (a + 1)))"
      by (simp add: diff_diff_eq)
    from Cons False u show ?thesis by simp
  qed
qed

lemma has_page_store_u8:
  "has_page (store_u8 m a v) x \<longleftrightarrow> has_page m x \<or> x AND NOT PAGE_MASK = a AND NOT PAGE_MASK"
  by (auto simp: has_page_def store_u8_def Let_def)

section \<open>Properties\<close>

text \<open>C37: A stored byte, halfword or word is read back by the load of its width at any
  address, page and address-space boundaries included.\<close>

theorem memory_store_load:
  "load_u8 (store_u8 m a b) a = b \<and> load_u16 (store_u16 m a h) a = h \<and>
   load_u32 (store_u32 m a w) a = w"
proof -
  have "(ucast (load_u16 (store_u16 m a h) a) :: u32) = ucast h"
  proof -
    have h: "h = ucast (ucast h :: u32)" by (rule bit_word_eqI) (auto simp: bit_simps)
    have "ucast (load_u16 (store_u16 m a (ucast (ucast h :: u32))) a) = take_bit 16 (ucast h :: u32)"
      by (simp only: load_u16_bytes store_u16_bytes) (simp add: mem.load_after_store)
    also have "\<dots> = ucast h" by (rule bit_word_eqI) (auto simp: bit_simps dest: bit_imp_le_length)
    finally show ?thesis using h by simp
  qed
  then have "(ucast (ucast (load_u16 (store_u16 m a h) a) :: u32) :: u16) = ucast (ucast h :: u32)"
    by simp
  moreover have "(ucast (ucast v :: u32) :: u16) = v" for v
    by (rule bit_word_eqI) (auto simp: bit_simps)
  ultimately have "load_u16 (store_u16 m a h) a = h" by simp
  moreover have "load_u32 (store_u32 m a w) a = w"
    by (simp only: load_u32_bytes store_u32_bytes) (simp add: mem.load_after_store take_bit_word_eq_self)
  ultimately show ?thesis by simp
qed

text \<open>A word store changes no byte outside the four it names, and \<open>write_bytes\<close> lays a
  program image down byte by byte, wrapping at the end of the address space, and changes
  nothing else.\<close>

theorem memory_frame:
  assumes "length bs \<le> 2 ^ 32"
  shows "load_u8 (store_u32 m a w) x =
      (if unat (x - a) < 4 then ucast (drop_bit (8 * unat (x - a)) w) else load_u8 m x) \<and>
    load_u8 (write_bytes m a bs) x =
      (if unat (x - a) < length bs then bs ! unat (x - a) else load_u8 m x)"
  by (simp_all add: store_u32_bytes mem.ld_bytes_store load_u8_write_bytes [OF assms])

text \<open>Three bytes written across the end of the address space.\<close>

theorem memory_frame_witness:
  "load_u8 (store_u32 empty_memory 0x1000 7) 0x1004 = 0 \<and>
   load_u8 (write_bytes empty_memory 0xFFFFFFFF [1, 2, 3]) 1 = 3"
  using memory_frame [where bs = "[1, 2, 3]" and m = empty_memory and a = "0x1000" and w = 7 and x = "0x1004"]
    memory_frame [where bs = "[1, 2, 3]" and m = empty_memory and a = "0xFFFFFFFF" and w = 7 and x = 1]
  by (simp add: load_u8_def empty_memory_def)

end
