(* ===== verification/Ring.thy ===== *)
theory Ring
  imports Prelude
begin

text \<open>
  Circular storage seen as the list of its live entries, oldest first, and the interface
  of a bounded first-in first-out buffer over such a list. The reorder buffer and the load
  and store queues are instances.
\<close>

section \<open>The live entries of a ring\<close>

definition ring_slot :: "'a list \<Rightarrow> nat \<Rightarrow> nat \<Rightarrow> nat" where
  "ring_slot slots head k = (head + k) mod length slots"

definition ring_list :: "'a list \<Rightarrow> nat \<Rightarrow> nat \<Rightarrow> 'a list" where
  "ring_list slots head count = map (\<lambda>k. slots ! ring_slot slots head k) [0..<count]"

lemma length_ring_list [simp]: "length (ring_list slots head count) = count"
  by (simp add: ring_list_def)

lemma ring_list_0 [simp]: "ring_list slots head 0 = []"
  by (simp add: ring_list_def)

lemma nth_ring_list [simp]:
  "k < count \<Longrightarrow> ring_list slots head count ! k = slots ! ring_slot slots head k"
  by (simp add: ring_list_def)

lemma ring_slot_less: "slots \<noteq> [] \<Longrightarrow> ring_slot slots head k < length slots"
  by (simp add: ring_slot_def)

lemma ring_slot_inj:
  "ring_slot slots head i = ring_slot slots head j \<Longrightarrow> i < length slots \<Longrightarrow> j < length slots \<Longrightarrow> i = j"
  unfolding ring_slot_def by (rule wrap_inj)

lemma ring_slot_update [simp]: "ring_slot (slots[i := x]) head k = ring_slot slots head k"
  by (simp add: ring_slot_def)

lemma ring_list_push:
  assumes "count < length slots"
  shows "ring_list (slots[ring_slot slots head count := x]) head (Suc count) =
    ring_list slots head count @ [x]"
proof (rule nth_equalityI)
  fix k assume "k < length (ring_list (slots[ring_slot slots head count := x]) head (Suc count))"
  then have k: "k < Suc count" by simp
  have ne: "slots \<noteq> []" using assms by auto
  show "ring_list (slots[ring_slot slots head count := x]) head (Suc count) ! k =
      (ring_list slots head count @ [x]) ! k"
  proof (cases "k = count")
    case True
    then show ?thesis using ring_slot_less [OF ne] by (simp add: nth_append)
  next
    case False
    with k have "k < count" by simp
    moreover from this have "ring_slot slots head count \<noteq> ring_slot slots head k"
      using assms ring_slot_inj [of slots head count k] by auto
    ultimately show ?thesis by (simp add: nth_append)
  qed
qed simp

lemma ring_list_pop:
  "ring_list slots (Suc head mod length slots) (count - 1) = tl (ring_list slots head count)"
proof (rule nth_equalityI)
  fix k assume "k < length (ring_list slots (Suc head mod length slots) (count - 1))"
  then have k: "Suc k < count" by simp
  have "ring_slot slots (Suc head mod length slots) k = ring_slot slots head (Suc k)"
    by (simp add: ring_slot_def mod_simps)
  with k show "ring_list slots (Suc head mod length slots) (count - 1) ! k =
      tl (ring_list slots head count) ! k"
    by (simp add: nth_tl)
qed simp

lemma ring_list_head_mod:
  "ring_list slots (head mod length slots) count = ring_list slots head count"
  by (simp add: ring_list_def ring_slot_def mod_simps)

lemma ring_list_take: "keep \<le> count \<Longrightarrow> ring_list slots head keep = take keep (ring_list slots head count)"
  by (rule nth_equalityI) (simp_all add: min_def)

lemma ring_list_update:
  assumes "k < count" "count \<le> length slots"
  shows "ring_list (slots[ring_slot slots head k := x]) head count =
    (ring_list slots head count)[k := x]"
proof (rule nth_equalityI)
  fix j assume "j < length (ring_list (slots[ring_slot slots head k := x]) head count)"
  then have j: "j < count" by simp
  have ne: "slots \<noteq> []" using assms by auto
  have "ring_slot slots head k = ring_slot slots head j \<longleftrightarrow> k = j"
    using ring_slot_inj [of slots head k j] assms j by auto
  with j assms ring_slot_less [OF ne, of head k]
  show "ring_list (slots[ring_slot slots head k := x]) head count ! j =
      (ring_list slots head count)[k := x] ! j"
    by (auto simp: nth_list_update)
qed simp

lemma ring_list_update_dead:
  assumes "i < length slots" "\<forall>k < count. ring_slot slots head k \<noteq> i"
  shows "ring_list (slots[i := x]) head count = ring_list slots head count"
  by (rule nth_equalityI) (use assms in \<open>auto simp: nth_list_update\<close>)

text \<open>The age of a slot: its distance from the head, as \<open>age_of\<close> computes it.\<close>

lemma ring_age:
  assumes "head < length slots" "idx < length slots"
  shows "ring_slot slots head ((idx + length slots - head) mod length slots) = idx"
proof -
  have "(head + (idx + length slots - head) mod length slots) mod length slots =
      (head + (idx + length slots - head)) mod length slots"
    by (simp only: mod_add_right_eq)
  also have "head + (idx + length slots - head) = idx + length slots" using assms by simp
  finally show ?thesis using assms by (simp add: ring_slot_def)
qed

lemma ring_age_slot:
  assumes "head < length slots" "k < length slots"
  shows "(ring_slot slots head k + length slots - head) mod length slots = k"
proof -
  have ne: "slots \<noteq> []" using assms by auto
  have "ring_slot slots head ((ring_slot slots head k + length slots - head) mod length slots) =
      ring_slot slots head k"
    by (rule ring_age) (simp_all add: assms ring_slot_less [OF ne])
  then show ?thesis by (rule ring_slot_inj) (use ne assms in simp_all)
qed

section \<open>The interface of a bounded first-in first-out buffer\<close>

locale fifo_buffer =
  fixes contents :: "'q \<Rightarrow> 'e list" and room :: "'q \<Rightarrow> nat" and invar :: "'q \<Rightarrow> bool"
    and made :: "'a \<Rightarrow> 'q \<Rightarrow> 'e" and push :: "'a \<Rightarrow> 'q \<Rightarrow> 'q" and pop :: "'q \<Rightarrow> 'q"
    and keep :: "nat \<Rightarrow> 'q \<Rightarrow> 'q"
  assumes bounded: "invar q \<Longrightarrow> length (contents q) \<le> room q"
    and push: "invar q \<Longrightarrow> length (contents q) < room q \<Longrightarrow>
      invar (push x q) \<and> room (push x q) = room q \<and> contents (push x q) = contents q @ [made x q]"
    and pop: "invar q \<Longrightarrow>
      invar (pop q) \<and> room (pop q) = room q \<and> contents (pop q) = tl (contents q)"
    and keep: "invar q \<Longrightarrow> n \<le> length (contents q) \<Longrightarrow>
      invar (keep n q) \<and> room (keep n q) = room q \<and> contents (keep n q) = take n (contents q)"
begin

lemma push_pop:
  assumes "invar q" "contents q = []" "0 < room q"
  shows "contents (pop (push x q)) = []"
  using push [of q x] pop [of "push x q"] assms by simp

lemma push_keep:
  assumes "invar q" "length (contents q) < room q"
  shows "contents (keep (length (contents q)) (push x q)) = contents q"
  using push [OF assms, of x] keep [of "push x q" "length (contents q)"] by simp

text \<open>Pushing a batch and squashing it again leaves the buffer as it was.\<close>

lemma pushes:
  assumes "invar q" "length (contents q) + length xs \<le> room q"
  shows "invar (fold push xs q) \<and> room (fold push xs q) = room q \<and>
    length (contents (fold push xs q)) = length (contents q) + length xs \<and>
    take (length (contents q)) (contents (fold push xs q)) = contents q"
  using assms
proof (induction xs arbitrary: q)
  case Nil
  then show ?case by simp
next
  case (Cons x xs)
  then have p: "invar (push x q)" "room (push x q) = room q"
    "contents (push x q) = contents q @ [made x q]"
    using push [of q x] by auto
  with Cons have "invar (fold push xs (push x q)) \<and> room (fold push xs (push x q)) = room q \<and>
      length (contents (fold push xs (push x q))) = length (contents q) + Suc (length xs) \<and>
      take (Suc (length (contents q))) (contents (fold push xs (push x q))) = contents q @ [made x q]"
    using Cons.IH [of "push x q"] by simp
  then show ?case
    by (simp, metis append_eq_conv_conj take_take length_append_singleton butlast_snoc min_def nat_le_linear not_less_eq_eq take_butlast)
qed

lemma squash_restores:
  assumes "invar q" "length (contents q) + length xs \<le> room q"
  shows "contents (keep (length (contents q)) (fold push xs q)) = contents q"
  using pushes [OF assms] keep [of "fold push xs q" "length (contents q)"] by simp

end

section \<open>The interface of a queue kept in program order\<close>

text \<open>
  \<open>squash_after seq\<close> drops what is younger than the surviving branch. The issue queue
  filters, the load and store queues shrink from the tail; on a queue in program order
  both keep the elements not younger than \<open>seq\<close>.
\<close>

definition program_ordered :: "('e \<Rightarrow> SeqNum) \<Rightarrow> 'e list \<Rightarrow> bool" where
  "program_ordered stamp es \<longleftrightarrow> sorted_wrt (\<lambda>x y. stamp x < stamp y) es"

lemma program_ordered_Nil [simp]: "program_ordered stamp []"
  by (simp add: program_ordered_def)

lemma program_ordered_append:
  "program_ordered stamp (es @ [e]) \<longleftrightarrow> program_ordered stamp es \<and> (\<forall>x \<in> set es. stamp x < stamp e)"
  by (auto simp: program_ordered_def sorted_wrt_append)

lemma program_ordered_filter: "program_ordered stamp es \<Longrightarrow> program_ordered stamp (filter P es)"
  by (simp add: program_ordered_def sorted_wrt_filter)

lemma program_ordered_tl: "program_ordered stamp es \<Longrightarrow> program_ordered stamp (tl es)"
  by (cases es) (simp_all add: program_ordered_def)

lemma program_ordered_map:
  "(\<And>e. stamp (f e) = stamp e) \<Longrightarrow> program_ordered stamp (map f es) = program_ordered stamp es"
  by (simp add: program_ordered_def sorted_wrt_map)

lemma program_ordered_distinct:
  "program_ordered stamp es \<Longrightarrow> distinct (map stamp es)"
  by (induction es) (auto simp: program_ordered_def)

lemma program_ordered_takeWhile:
  "program_ordered stamp es \<Longrightarrow> filter (\<lambda>e. stamp e \<le> s) es = takeWhile (\<lambda>e. stamp e \<le> s) es"
proof (induction es)
  case Nil
  then show ?case by simp
next
  case (Cons e es)
  then have tail: "filter (\<lambda>e. stamp e \<le> s) es = takeWhile (\<lambda>e. stamp e \<le> s) es"
    by (simp add: program_ordered_def)
  show ?case
  proof (cases "stamp e \<le> s")
    case False
    with Cons.prems have "filter (\<lambda>e. stamp e \<le> s) es = []"
      by (auto simp: program_ordered_def filter_empty_conv)
    with False show ?thesis by simp
  qed (simp add: tail)
qed

locale program_order =
  fixes elems :: "'q \<Rightarrow> 'e list" and stamp :: "'e \<Rightarrow> SeqNum" and invar :: "'q \<Rightarrow> bool"
    and squash :: "SeqNum \<Rightarrow> 'q \<Rightarrow> 'q"
  assumes squash: "invar q \<Longrightarrow> program_ordered stamp (elems q) \<Longrightarrow>
    invar (squash s q) \<and> elems (squash s q) = filter (\<lambda>e. stamp e \<le> s) (elems q)"
begin

lemma squash_ordered:
  "invar q \<Longrightarrow> program_ordered stamp (elems q) \<Longrightarrow> program_ordered stamp (elems (squash s q))"
  by (simp add: squash program_ordered_filter)

lemma squash_prefix:
  "invar q \<Longrightarrow> program_ordered stamp (elems q) \<Longrightarrow>
   elems (squash s q) = takeWhile (\<lambda>e. stamp e \<le> s) (elems q)"
  by (simp add: squash program_ordered_takeWhile)

lemma squash_squash:
  assumes "invar q" "program_ordered stamp (elems q)"
  shows "elems (squash s (squash t q)) = elems (squash (min s t) q)"
  using assms squash [of q t] squash [of "squash t q" s] squash_ordered [of q t] squash [of q "min s t"]
  by (auto intro: filter_cong)

lemma squash_id:
  assumes "invar q" "program_ordered stamp (elems q)" "\<forall>e \<in> set (elems q). stamp e \<le> s"
  shows "elems (squash s q) = elems q"
  using assms by (simp add: squash)

end

end
