(* ===== verification/Lsq.thy ===== *)
theory Lsq
  imports Memory Ring
begin

text \<open>
  \<^verbatim>\<open>src/src/lsq.h\<close>: the load and store queues. A queue is a ring of in-flight accesses;
  \<open>search_older_stores\<close> walks the older stores and forwards, clears or replays a load.
  The main results: the walk equals a declarative choice by the youngest relevant store,
  and what it answers agrees with memory once the older stores have been performed.
\<close>

record LsqEntry =
  lq_seq :: SeqNum
  lq_addr :: u32
  lq_data :: u32
  lq_size :: nat
  lq_addr_ready :: bool
  lq_data_ready :: bool

definition default_lsq_entry :: LsqEntry where
  "default_lsq_entry = \<lparr>lq_seq = INVALID_SEQNUM, lq_addr = 0, lq_data = 0, lq_size = 4,
     lq_addr_ready = False, lq_data_ready = False\<rparr>"

datatype Forward = NO_MATCH | FORWARD | REPLAY

record ForwardResult =
  fwd_kind :: Forward
  fwd_data :: u32

section \<open>A queue of accesses\<close>

record LsqQueue =
  lqq_slots :: "LsqEntry list"
  lqq_capacity :: nat
  lqq_head :: nat
  lqq_count :: nat

definition make_lsq_queue :: "nat \<Rightarrow> LsqQueue" where
  "make_lsq_queue capacity =
     \<lparr>lqq_slots = replicate (if capacity = 0 then 1 else capacity) default_lsq_entry,
      lqq_capacity = capacity, lqq_head = 0, lqq_count = 0\<rparr>"

definition lqq_full :: "LsqQueue \<Rightarrow> bool" where
  "lqq_full q \<longleftrightarrow> lqq_capacity q \<le> lqq_count q"

definition lqq_wrap :: "LsqQueue \<Rightarrow> nat \<Rightarrow> nat" where
  "lqq_wrap q v = v mod length (lqq_slots q)"

definition lqq_alloc :: "LsqQueue \<Rightarrow> SeqNum \<Rightarrow> nat \<Rightarrow> (nat \<times> LsqQueue) option" where
  "lqq_alloc q s n =
     (if lqq_full q then None
      else let idx = lqq_wrap q (lqq_head q + lqq_count q);
               e = \<lparr>lq_seq = s, lq_addr = 0, lq_data = 0, lq_size = n,
                    lq_addr_ready = False, lq_data_ready = False\<rparr>
           in Some (idx, q\<lparr>lqq_slots := (lqq_slots q)[idx := e], lqq_count := lqq_count q + 1\<rparr>))"

definition lqq_at :: "LsqQueue \<Rightarrow> nat \<Rightarrow> LsqEntry" where
  "lqq_at q idx = lqq_slots q ! idx"

definition lqq_modify :: "LsqQueue \<Rightarrow> nat \<Rightarrow> (LsqEntry \<Rightarrow> LsqEntry) \<Rightarrow> LsqQueue" where
  "lqq_modify q idx f = q\<lparr>lqq_slots := (lqq_slots q)[idx := f (lqq_slots q ! idx)]\<rparr>"

definition lqq_nth :: "LsqQueue \<Rightarrow> nat \<Rightarrow> LsqEntry" where
  "lqq_nth q k = lqq_slots q ! lqq_wrap q (lqq_head q + k)"

definition lqq_pop_head :: "LsqQueue \<Rightarrow> LsqQueue" where
  "lqq_pop_head q =
     (if lqq_count q = 0 then q
      else q\<lparr>lqq_head := lqq_wrap q (lqq_head q + 1), lqq_count := lqq_count q - 1\<rparr>)"

function lqq_squash_after :: "SeqNum \<Rightarrow> LsqQueue \<Rightarrow> LsqQueue" where
  "lqq_squash_after s q =
     (if 0 < lqq_count q \<and> s < lq_seq (lqq_nth q (lqq_count q - 1))
      then lqq_squash_after s (q\<lparr>lqq_count := lqq_count q - 1\<rparr>)
      else q)"
  by pat_completeness auto
termination
  by (relation "measure (\<lambda>(s, q). lqq_count q)") auto

declare lqq_squash_after.simps [simp del]

definition lqq_clear :: "LsqQueue \<Rightarrow> LsqQueue" where
  "lqq_clear q = q\<lparr>lqq_head := 0, lqq_count := 0\<rparr>"

section \<open>Both queues\<close>

record Lsq =
  lsq_loads :: LsqQueue
  lsq_stores :: LsqQueue

definition make_lsq :: "nat \<Rightarrow> nat \<Rightarrow> Lsq" where
  "make_lsq nl ns =
     \<lparr>lsq_loads = make_lsq_queue nl, lsq_stores = make_lsq_queue ns\<rparr>"

definition alloc_load :: "Lsq \<Rightarrow> SeqNum \<Rightarrow> nat \<Rightarrow> (nat \<times> Lsq) option" where
  "alloc_load l s n = (case lqq_alloc (lsq_loads l) s n of
       None \<Rightarrow> None
     | Some (i, q) \<Rightarrow> Some (i, l\<lparr>lsq_loads := q\<rparr>))"

definition alloc_store :: "Lsq \<Rightarrow> SeqNum \<Rightarrow> nat \<Rightarrow> (nat \<times> Lsq) option" where
  "alloc_store l s n = (case lqq_alloc (lsq_stores l) s n of
       None \<Rightarrow> None
     | Some (i, q) \<Rightarrow> Some (i, l\<lparr>lsq_stores := q\<rparr>))"

definition resolve_load_addr :: "Lsq \<Rightarrow> nat \<Rightarrow> u32 \<Rightarrow> Lsq" where
  "resolve_load_addr l idx a =
     l\<lparr>lsq_loads := lqq_modify (lsq_loads l) idx (\<lambda>e. e\<lparr>lq_addr := a, lq_addr_ready := True\<rparr>)\<rparr>"

definition resolve_addr :: "Lsq \<Rightarrow> nat \<Rightarrow> u32 \<Rightarrow> Lsq" where
  "resolve_addr l idx a =
     l\<lparr>lsq_stores := lqq_modify (lsq_stores l) idx (\<lambda>e. e\<lparr>lq_addr := a, lq_addr_ready := True\<rparr>)\<rparr>"

definition resolve_data :: "Lsq \<Rightarrow> nat \<Rightarrow> u32 \<Rightarrow> Lsq" where
  "resolve_data l idx v =
     l\<lparr>lsq_stores := lqq_modify (lsq_stores l) idx (\<lambda>e. e\<lparr>lq_data := v, lq_data_ready := True\<rparr>)\<rparr>"

definition lsq_extract :: "LsqEntry \<Rightarrow> LsqEntry \<Rightarrow> u32" where
  "lsq_extract st ld =
     (let off = lq_addr ld - lq_addr st;
          v = drop_bit (unat (8 * off)) (lq_data st)
      in if lq_size ld < 4 then v AND (push_bit (8 * lq_size ld) 1 - 1) else v)"

text \<open>
  The loop of \<open>search_older_stores\<close>. The bounds are 64-bit sums of a 32-bit address and a
  size, so they do not wrap and are naturals here.
\<close>

primrec search_scan :: "LsqEntry \<Rightarrow> LsqEntry list \<Rightarrow> bool \<Rightarrow> ForwardResult \<Rightarrow> bool \<times> ForwardResult" where
  "search_scan ld [] ambiguous out = (ambiguous, out)"
| "search_scan ld (st # sts) ambiguous out =
     (if lq_seq ld < lq_seq st then (ambiguous, out)
      else if \<not> lq_addr_ready st then search_scan ld sts True out
      else let lo = unat (lq_addr ld); hi = lo + lq_size ld;
               slo = unat (lq_addr st); shi = slo + lq_size st
           in if shi \<le> lo \<or> hi \<le> slo then search_scan ld sts ambiguous out
              else if (slo \<le> lo \<and> hi \<le> shi) \<and> lq_data_ready st
              then search_scan ld sts False \<lparr>fwd_kind = FORWARD, fwd_data = lsq_extract st ld\<rparr>
              else search_scan ld sts True (out\<lparr>fwd_kind := NO_MATCH\<rparr>))"

definition search_older_stores :: "Lsq \<Rightarrow> nat \<Rightarrow> ForwardResult" where
  "search_older_stores l load_idx =
     (let ld = lqq_at (lsq_loads l) load_idx; out = \<lparr>fwd_kind = NO_MATCH, fwd_data = 0\<rparr>
      in if \<not> lq_addr_ready ld then out\<lparr>fwd_kind := REPLAY\<rparr>
         else case search_scan ld (map (lqq_nth (lsq_stores l)) [0..<lqq_count (lsq_stores l)]) False out
              of (ambiguous, out) \<Rightarrow>
                if ambiguous then out\<lparr>fwd_kind := REPLAY, fwd_data := 0\<rparr> else out)"

definition lsq_squash_after :: "SeqNum \<Rightarrow> Lsq \<Rightarrow> Lsq" where
  "lsq_squash_after s l =
     l\<lparr>lsq_loads := lqq_squash_after s (lsq_loads l), lsq_stores := lqq_squash_after s (lsq_stores l)\<rparr>"

definition lsq_clear :: "Lsq \<Rightarrow> Lsq" where
  "lsq_clear l = l\<lparr>lsq_loads := lqq_clear (lsq_loads l), lsq_stores := lqq_clear (lsq_stores l)\<rparr>"

section \<open>A queue is the list of its live entries\<close>

definition lqq_list :: "LsqQueue \<Rightarrow> LsqEntry list" where
  "lqq_list q = ring_list (lqq_slots q) (lqq_head q) (lqq_count q)"

definition lqq_ok :: "LsqQueue \<Rightarrow> bool" where
  "lqq_ok q \<longleftrightarrow> lqq_head q < length (lqq_slots q) \<and> lqq_count q \<le> lqq_capacity q \<and>
     lqq_capacity q \<le> length (lqq_slots q)"

lemma lqq_nth_list: "map (lqq_nth q) [0..<lqq_count q] = lqq_list q"
  by (simp add: lqq_list_def ring_list_def lqq_nth_def lqq_wrap_def ring_slot_def)

lemma lqq_nth_nth: "k < lqq_count q \<Longrightarrow> lqq_nth q k = lqq_list q ! k"
  by (simp add: lqq_list_def lqq_nth_def lqq_wrap_def ring_slot_def)

lemma length_lqq_list [simp]: "length (lqq_list q) = lqq_count q"
  by (simp add: lqq_list_def)

lemma make_lsq_queue_ok [simp]: "lqq_ok (make_lsq_queue n)" "lqq_list (make_lsq_queue n) = []"
  by (simp_all add: lqq_ok_def make_lsq_queue_def lqq_list_def)

lemma lqq_alloc_list:
  assumes "lqq_ok q" "lqq_alloc q s n = Some (i, q')"
  shows "lqq_list q' = lqq_list q @ [\<lparr>lq_seq = s, lq_addr = 0, lq_data = 0, lq_size = n,
      lq_addr_ready = False, lq_data_ready = False\<rparr>]"
    and "lqq_ok q'" and "lqq_capacity q' = lqq_capacity q"
    and "i = ring_slot (lqq_slots q') (lqq_head q') (lqq_count q)"
    and "lqq_count q' = Suc (lqq_count q)"
proof -
  have c: "lqq_count q < lqq_capacity q"
    and i: "i = ring_slot (lqq_slots q) (lqq_head q) (lqq_count q)"
    and q': "q' = q\<lparr>lqq_slots := (lqq_slots q)[i := \<lparr>lq_seq = s, lq_addr = 0, lq_data = 0,
      lq_size = n, lq_addr_ready = False, lq_data_ready = False\<rparr>], lqq_count := lqq_count q + 1\<rparr>"
    using assms(2) by (auto simp: lqq_alloc_def lqq_full_def Let_def lqq_wrap_def ring_slot_def
        split: if_splits)
  with assms(1) have "lqq_count q < length (lqq_slots q)" by (simp add: lqq_ok_def)
  from ring_list_push [OF this]
  show "lqq_list q' = lqq_list q @ [\<lparr>lq_seq = s, lq_addr = 0, lq_data = 0, lq_size = n,
      lq_addr_ready = False, lq_data_ready = False\<rparr>]"
    by (simp add: lqq_list_def q' i)
  show "lqq_ok q'" "lqq_capacity q' = lqq_capacity q"
    "i = ring_slot (lqq_slots q') (lqq_head q') (lqq_count q)" "lqq_count q' = Suc (lqq_count q)"
    using assms(1) c by (simp_all add: q' lqq_ok_def i)
qed

lemma lqq_alloc_Some: "lqq_count q < lqq_capacity q \<Longrightarrow> \<exists>i q'. lqq_alloc q s n = Some (i, q')"
  by (simp add: lqq_alloc_def lqq_full_def Let_def)

lemma lqq_pop_list:
  assumes "lqq_ok q"
  shows "lqq_list (lqq_pop_head q) = tl (lqq_list q)" and "lqq_ok (lqq_pop_head q)"
    and "lqq_capacity (lqq_pop_head q) = lqq_capacity q"
proof -
  show "lqq_list (lqq_pop_head q) = tl (lqq_list q)"
    using ring_list_pop [of "lqq_slots q" "lqq_head q" "lqq_count q"]
    by (auto simp: lqq_pop_head_def lqq_list_def lqq_wrap_def)
  show "lqq_ok (lqq_pop_head q)" "lqq_capacity (lqq_pop_head q) = lqq_capacity q"
    using assms by (auto simp: lqq_ok_def lqq_pop_head_def lqq_wrap_def intro: mod_less_divisor)
qed

lemma lqq_clear_list [simp]: "lqq_list (lqq_clear q) = []" "lqq_ok q \<Longrightarrow> lqq_ok (lqq_clear q)"
  by (auto simp: lqq_clear_def lqq_list_def lqq_ok_def)

lemma lqq_modify_list:
  assumes "lqq_ok q" "k < lqq_count q"
  shows "lqq_list (lqq_modify q (ring_slot (lqq_slots q) (lqq_head q) k) f) =
      (lqq_list q)[k := f (lqq_list q ! k)]"
  using assms ring_list_update [of k "lqq_count q" "lqq_slots q" "lqq_head q"]
  by (simp add: lqq_modify_def lqq_list_def lqq_ok_def)

lemma lqq_modify_frame [simp]:
  "lqq_ok (lqq_modify q i f) = lqq_ok q" "lqq_count (lqq_modify q i f) = lqq_count q"
  "lqq_head (lqq_modify q i f) = lqq_head q" "lqq_capacity (lqq_modify q i f) = lqq_capacity q"
  "length (lqq_slots (lqq_modify q i f)) = length (lqq_slots q)"
  by (simp_all add: lqq_modify_def lqq_ok_def)

lemma lqq_list_count: "k \<le> lqq_count q \<Longrightarrow> lqq_list (q\<lparr>lqq_count := k\<rparr>) = take k (lqq_list q)"
  by (simp add: lqq_list_def ring_list_take)

lemma lqq_squash_after_ok: "lqq_ok q \<Longrightarrow> lqq_ok (lqq_squash_after s q)"
proof (induction s q rule: lqq_squash_after.induct)
  case (1 s q)
  have shrink: "lqq_ok (q\<lparr>lqq_count := lqq_count q - 1\<rparr>)" using 1 by (auto simp: lqq_ok_def)
  show ?case
    using 1 shrink by (subst lqq_squash_after.simps) simp
qed

lemma lqq_squash_after_list:
  "program_ordered lq_seq (lqq_list q) \<Longrightarrow>
   lqq_list (lqq_squash_after s q) = filter (\<lambda>e. lq_seq e \<le> s) (lqq_list q)"
proof (induction s q rule: lqq_squash_after.induct)
  case (1 s q)
  show ?case
  proof (cases "lqq_count q")
    case 0
    then have "lqq_list q = []" by (simp flip: length_0_conv)
    with 0 show ?thesis by (subst lqq_squash_after.simps) simp
  next
    case (Suc k)
    define q1 where "q1 = q\<lparr>lqq_count := k\<rparr>"
    have split: "lqq_list q = lqq_list q1 @ [lqq_nth q k]"
      using Suc by (simp add: q1_def lqq_list_count lqq_nth_nth flip: take_Suc_conv_app_nth)
    have ord: "program_ordered lq_seq (lqq_list q1)" "\<forall>e \<in> set (lqq_list q1). lq_seq e < lq_seq (lqq_nth q k)"
      using "1.prems" by (simp_all add: split program_ordered_append)
    show ?thesis
    proof (cases "s < lq_seq (lqq_nth q k)")
      case True
      with 1 Suc ord have "lqq_list (lqq_squash_after s q1) = filter (\<lambda>e. lq_seq e \<le> s) (lqq_list q1)"
        by (simp add: q1_def)
      with True Suc show ?thesis
        by (subst lqq_squash_after.simps) (simp add: split flip: q1_def)
    next
      case False
      then have "\<forall>e \<in> set (lqq_list q1). lq_seq e \<le> s" using ord(2) by auto
      with False Suc show ?thesis
        by (subst lqq_squash_after.simps) (simp add: split filter_id_conv)
    qed
  qed
qed

interpretation lsqq: program_order lqq_list lq_seq lqq_ok lqq_squash_after
  by unfold_locales (simp add: lqq_squash_after_ok lqq_squash_after_list)

interpretation lsq_fifo: fifo_buffer lqq_list lqq_capacity lqq_ok
  "\<lambda>(s, n) q. \<lparr>lq_seq = s, lq_addr = 0, lq_data = 0, lq_size = n,
     lq_addr_ready = False, lq_data_ready = False\<rparr>"
  "\<lambda>(s, n) q. snd (the (lqq_alloc q s n))" lqq_pop_head "\<lambda>n q. q\<lparr>lqq_count := n\<rparr>"
proof
  fix q :: LsqQueue and x :: "SeqNum \<times> nat" and n
  obtain s m where x: "x = (s, m)" by (cases x)
  show "lqq_ok q \<Longrightarrow> length (lqq_list q) \<le> lqq_capacity q"
    by (simp add: lqq_ok_def)
  show "lqq_ok q \<Longrightarrow> length (lqq_list q) < lqq_capacity q \<Longrightarrow>
      lqq_ok ((\<lambda>(s, n) q. snd (the (lqq_alloc q s n))) x q) \<and>
      lqq_capacity ((\<lambda>(s, n) q. snd (the (lqq_alloc q s n))) x q) = lqq_capacity q \<and>
      lqq_list ((\<lambda>(s, n) q. snd (the (lqq_alloc q s n))) x q) = lqq_list q @
        [(\<lambda>(s, n) q. \<lparr>lq_seq = s, lq_addr = 0, lq_data = 0, lq_size = n,
          lq_addr_ready = False, lq_data_ready = False\<rparr>) x q]"
    using lqq_alloc_Some [of q s m] lqq_alloc_list [of q s m] by (auto simp: x)
  show "lqq_ok q \<Longrightarrow> lqq_ok (lqq_pop_head q) \<and> lqq_capacity (lqq_pop_head q) = lqq_capacity q \<and>
      lqq_list (lqq_pop_head q) = tl (lqq_list q)"
    by (simp add: lqq_pop_list)
  show "lqq_ok q \<Longrightarrow> n \<le> length (lqq_list q) \<Longrightarrow> lqq_ok (q\<lparr>lqq_count := n\<rparr>) \<and>
      lqq_capacity (q\<lparr>lqq_count := n\<rparr>) = lqq_capacity q \<and>
      lqq_list (q\<lparr>lqq_count := n\<rparr>) = take n (lqq_list q)"
    by (simp add: lqq_list_count) (simp add: lqq_ok_def)
qed

section \<open>The search\<close>

text \<open>
  A store is relevant to a load when its address is unknown or its bytes overlap the
  load's. The walk is decided by the youngest relevant older store alone.
\<close>

definition overlaps :: "LsqEntry \<Rightarrow> LsqEntry \<Rightarrow> bool" where
  "overlaps st ld \<longleftrightarrow> unat (lq_addr ld) < unat (lq_addr st) + lq_size st \<and>
     unat (lq_addr st) < unat (lq_addr ld) + lq_size ld"

definition covers :: "LsqEntry \<Rightarrow> LsqEntry \<Rightarrow> bool" where
  "covers st ld \<longleftrightarrow> unat (lq_addr st) \<le> unat (lq_addr ld) \<and>
     unat (lq_addr ld) + lq_size ld \<le> unat (lq_addr st) + lq_size st"

definition relevant :: "LsqEntry \<Rightarrow> LsqEntry \<Rightarrow> bool" where
  "relevant ld st \<longleftrightarrow> \<not> lq_addr_ready st \<or> overlaps st ld"

definition older_stores :: "LsqEntry \<Rightarrow> LsqEntry list \<Rightarrow> LsqEntry list" where
  "older_stores ld sts = takeWhile (\<lambda>st. lq_seq st \<le> lq_seq ld) sts"

definition search_spec :: "LsqEntry \<Rightarrow> LsqEntry list \<Rightarrow> ForwardResult" where
  "search_spec ld older =
     (case rev (filter (relevant ld) older) of
        [] \<Rightarrow> \<lparr>fwd_kind = NO_MATCH, fwd_data = 0\<rparr>
      | st # _ \<Rightarrow>
          if lq_addr_ready st \<and> covers st ld \<and> lq_data_ready st
          then \<lparr>fwd_kind = FORWARD, fwd_data = lsq_extract st ld\<rparr>
          else \<lparr>fwd_kind = REPLAY, fwd_data = 0\<rparr>)"

definition close_scan :: "bool \<times> ForwardResult \<Rightarrow> ForwardResult" where
  "close_scan r = (if fst r then \<lparr>fwd_kind = REPLAY, fwd_data = 0\<rparr> else snd r)"

definition decides :: "LsqEntry \<Rightarrow> LsqEntry \<Rightarrow> bool" where
  "decides ld st \<longleftrightarrow> lq_addr_ready st \<and> covers st ld \<and> lq_data_ready st"

lemma search_scan_step:
  assumes "\<not> lq_seq ld < lq_seq st"
  shows "\<not> relevant ld st \<Longrightarrow> search_scan ld (st # sts) amb out = search_scan ld sts amb out"
    and "relevant ld st \<Longrightarrow> decides ld st \<Longrightarrow> search_scan ld (st # sts) amb out =
      search_scan ld sts False \<lparr>fwd_kind = FORWARD, fwd_data = lsq_extract st ld\<rparr>"
    and "relevant ld st \<Longrightarrow> \<not> decides ld st \<Longrightarrow>
      \<exists>out'. search_scan ld (st # sts) amb out = search_scan ld sts True out'"
proof -
  note defs = relevant_def overlaps_def decides_def covers_def Let_def not_less not_le
  show "\<not> relevant ld st \<Longrightarrow> search_scan ld (st # sts) amb out = search_scan ld sts amb out"
    "relevant ld st \<Longrightarrow> decides ld st \<Longrightarrow> search_scan ld (st # sts) amb out =
      search_scan ld sts False \<lparr>fwd_kind = FORWARD, fwd_data = lsq_extract st ld\<rparr>"
    using assms by (auto simp: defs)
  assume "relevant ld st" "\<not> decides ld st"
  then have "search_scan ld (st # sts) amb out =
      search_scan ld sts True (if lq_addr_ready st then out\<lparr>fwd_kind := NO_MATCH\<rparr> else out)"
    using assms by (auto simp: defs)
  then show "\<exists>out'. search_scan ld (st # sts) amb out = search_scan ld sts True out'" ..
qed

lemma search_spec_cons:
  "search_spec ld (st # rest) =
     (if filter (relevant ld) rest \<noteq> [] then search_spec ld rest
      else if \<not> relevant ld st then \<lparr>fwd_kind = NO_MATCH, fwd_data = 0\<rparr>
      else if decides ld st then \<lparr>fwd_kind = FORWARD, fwd_data = lsq_extract st ld\<rparr>
      else \<lparr>fwd_kind = REPLAY, fwd_data = 0\<rparr>)"
  by (cases "rev (filter (relevant ld) rest)") (auto simp: search_spec_def decides_def)

lemma search_scan_eq:
  "close_scan (search_scan ld sts amb out) =
     (if filter (relevant ld) (older_stores ld sts) = [] then close_scan (amb, out)
      else search_spec ld (older_stores ld sts))"
proof (induction sts arbitrary: amb out)
  case Nil
  then show ?case by (simp add: older_stores_def)
next
  case (Cons st sts)
  show ?case
  proof (cases "lq_seq ld < lq_seq st")
    case True
    then show ?thesis by (simp add: older_stores_def)
  next
    case False
    then have older: "older_stores ld (st # sts) = st # older_stores ld sts"
      by (simp add: older_stores_def)
    note step = search_scan_step [OF False, of sts amb out]
    consider "\<not> relevant ld st" | "relevant ld st" "decides ld st" | "relevant ld st" "\<not> decides ld st"
      by blast
    then show ?thesis
    proof cases
      case 1
      then show ?thesis unfolding older search_spec_cons step(1) [OF 1] Cons.IH by simp
    next
      case 2
      then show ?thesis unfolding older search_spec_cons step(2) [OF 2] Cons.IH
        by (simp add: close_scan_def)
    next
      case 3
      obtain out' where "search_scan ld (st # sts) amb out = search_scan ld sts True out'"
        using step(3) [OF 3] by blast
      with 3 show ?thesis unfolding older search_spec_cons by (simp only: Cons.IH) (simp add: close_scan_def)
    qed
  qed
qed

lemma search_older_stores_eq:
  assumes "lq_addr_ready (lqq_at (lsq_loads l) i)"
  shows "search_older_stores l i =
    search_spec (lqq_at (lsq_loads l) i) (older_stores (lqq_at (lsq_loads l) i) (lqq_list (lsq_stores l)))"
proof -
  define ld where "ld = lqq_at (lsq_loads l) i"
  have "search_older_stores l i =
      close_scan (search_scan ld (lqq_list (lsq_stores l)) False \<lparr>fwd_kind = NO_MATCH, fwd_data = 0\<rparr>)"
    using assms by (simp add: search_older_stores_def Let_def lqq_nth_list close_scan_def ld_def
        split: prod.splits)
  also have "\<dots> = search_spec ld (older_stores ld (lqq_list (lsq_stores l)))"
    by (simp add: search_scan_eq) (simp add: search_spec_def close_scan_def)
  finally show ?thesis by (simp add: ld_def)
qed

section \<open>Forwarding agrees with memory\<close>

text \<open>What a store does to memory at commit, and the memory after a run of stores.\<close>

definition store_bytes :: "LsqEntry \<Rightarrow> Memory \<Rightarrow> Memory" where
  "store_bytes st m = bytes_store store_u8 m (lq_addr st) (lq_size st) (lq_data st)"

definition drain :: "LsqEntry list \<Rightarrow> Memory \<Rightarrow> Memory" where
  "drain sts m = fold store_bytes sts m"

text \<open>The access stays inside the address space and is at most a word.\<close>

definition in_space :: "LsqEntry \<Rightarrow> bool" where
  "in_space e \<longleftrightarrow> 0 < lq_size e \<and> lq_size e \<le> 4 \<and> unat (lq_addr e) + lq_size e \<le> 2 ^ 32"

text \<open>\<open>st'\<close> is what the queued store \<open>st\<close> turns out to be once it has executed.\<close>

definition resolves_to :: "LsqEntry \<Rightarrow> LsqEntry \<Rightarrow> bool" where
  "resolves_to st st' \<longleftrightarrow> lq_size st' = lq_size st \<and> in_space st' \<and>
     (lq_addr_ready st \<longrightarrow> lq_addr st' = lq_addr st) \<and>
     (lq_data_ready st \<longrightarrow> lq_data st' = lq_data st)"

lemma unat_add_small: "unat (a :: u32) + k < 2 ^ 32 \<Longrightarrow> unat (a + of_nat k) = unat a + k"
  by (subst unat_add_lem [THEN iffD1]) (simp_all add: unat_of_nat32)

lemma load_disjoint:
  assumes "in_space st" "in_space ld" "\<not> overlaps st ld"
  shows "bytes_load load_u8 (store_bytes st m) (lq_addr ld) (lq_size ld) =
    bytes_load load_u8 m (lq_addr ld) (lq_size ld)"
  unfolding store_bytes_def
proof (rule mem.load_frame)
  show "lq_size st \<le> 2 ^ 32" using assms(1) by (simp add: in_space_def)
  fix i assume i: "i < lq_size ld"
  let ?x = "lq_addr ld + of_nat i"
  have x: "unat ?x = unat (lq_addr ld) + i"
    using assms(2) i by (intro unat_add_small) (simp add: in_space_def)
  show "lq_size st \<le> unat (?x - lq_addr st)"
  proof (cases "lq_addr st \<le> ?x")
    case True
    then have "unat (?x - lq_addr st) = unat ?x - unat (lq_addr st)" by (rule unat_sub)
    with assms i True show ?thesis by (auto simp: overlaps_def x word_le_nat_alt)
  next
    case False
    then have "unat (?x - lq_addr st) = unat ?x + 2 ^ 32 - unat (lq_addr st)"
      by (simp add: unat_sub_if' word_le_nat_alt)
    with assms(1) show ?thesis unfolding in_space_def by linarith
  qed
qed

lemma load_covered:
  assumes "in_space st" "in_space ld" "covers st ld"
  shows "bytes_load load_u8 (store_bytes st m) (lq_addr ld) (lq_size ld) = lsq_extract st ld"
proof -
  define k where "k = unat (lq_addr ld) - unat (lq_addr st)"
  have k: "unat (lq_addr ld - lq_addr st) = k"
    using assms(3) by (simp add: k_def covers_def unat_sub word_le_nat_alt)
  have room: "k + lq_size ld \<le> lq_size st"
    using assms(3) unfolding k_def covers_def by linarith
  have "bytes_load load_u8 (store_bytes st m) (lq_addr ld) (lq_size ld) =
      take_bit (8 * lq_size ld) (drop_bit (8 * k) (lq_data st))"
  proof (rule bytes_load_of_bytes)
    fix i assume i: "i < lq_size ld"
    have "lq_addr ld + of_nat i - lq_addr st = (lq_addr ld - lq_addr st) + of_nat i"
      by (simp add: algebra_simps)
    moreover have "unat ((lq_addr ld - lq_addr st) + of_nat i) = k + i"
      using i room assms(1) k unat_add_small [of "lq_addr ld - lq_addr st" i] by (simp add: in_space_def)
    ultimately have "unat (lq_addr ld + of_nat i - lq_addr st) = k + i" by (simp only:)
    then show "load_u8 (store_bytes st m) (lq_addr ld + of_nat i) =
        ucast (drop_bit (8 * i) (drop_bit (8 * k) (lq_data st)))"
      using i room assms(1)
      by (simp add: store_bytes_def mem.ld_bytes_store in_space_def drop_bit_drop_bit algebra_simps)
  qed
  also have "\<dots> = lsq_extract st ld"
  proof -
    have "k < 4" using room assms by (simp add: in_space_def)
    then have off: "unat (8 * (lq_addr ld - lq_addr st)) = 8 * k"
      using unat_mult_lem [of 8 "lq_addr ld - lq_addr st"] k by (simp del: distrib_left right_diff_distrib_numeral)
    have mask: "push_bit (8 * n) (1::u32) - 1 = mask (8 * n)" for n
      by (simp add: mask_eq_exp_minus_1 push_bit_eq_mult)
    have "lsq_extract st ld = (if lq_size ld < 4
        then take_bit (8 * lq_size ld) (drop_bit (8 * k) (lq_data st)) else drop_bit (8 * k) (lq_data st))"
      unfolding lsq_extract_def Let_def off mask take_bit_eq_mask ..
    moreover have "lq_size ld = 4" if "\<not> lq_size ld < 4"
      using that assms(2) by (simp add: in_space_def)
    ultimately show ?thesis by (auto simp: take_bit_word_eq_self)
  qed
  finally show ?thesis .
qed

lemma drain_disjoint:
  assumes "in_space ld" "\<forall>st \<in> set sts. in_space st \<and> \<not> overlaps st ld"
  shows "bytes_load load_u8 (drain sts m) (lq_addr ld) (lq_size ld) =
    bytes_load load_u8 m (lq_addr ld) (lq_size ld)"
  using assms(2)
proof (induction sts arbitrary: m)
  case Nil
  then show ?case by (simp add: drain_def)
next
  case (Cons st sts)
  then have "bytes_load load_u8 (drain sts (store_bytes st m)) (lq_addr ld) (lq_size ld) =
      bytes_load load_u8 (store_bytes st m) (lq_addr ld) (lq_size ld)" by simp
  with Cons.prems show ?case by (simp add: drain_def load_disjoint assms(1))
qed

lemma resolved_irrelevant:
  "resolves_to st st' \<Longrightarrow> \<not> relevant ld st \<Longrightarrow> in_space st' \<and> \<not> overlaps st' ld"
  by (auto simp: resolves_to_def relevant_def overlaps_def)

lemma resolved_list_irrelevant:
  assumes "list_all2 resolves_to sts sts'" "filter (relevant ld) sts = []"
  shows "\<forall>st' \<in> set sts'. in_space st' \<and> \<not> overlaps st' ld"
  using assms
proof (induction sts sts' rule: list_all2_induct)
  case Nil
  then show ?case by simp
next
  case (Cons st sts st' sts')
  then show ?case using resolved_irrelevant [of st st' ld] by (auto split: if_splits)
qed

lemma search_no_match:
  assumes "fwd_kind (search_spec ld older) = NO_MATCH" "list_all2 resolves_to older older'" "in_space ld"
  shows "bytes_load load_u8 (drain older' m) (lq_addr ld) (lq_size ld) =
    bytes_load load_u8 m (lq_addr ld) (lq_size ld)"
proof -
  have "filter (relevant ld) older = []"
    using assms(1) by (auto simp: search_spec_def split: list.splits if_splits)
  then show ?thesis
    using resolved_list_irrelevant [OF assms(2)] assms(3) by (intro drain_disjoint)
qed

lemma last_relevant_split:
  assumes "rev (filter P xs) = y # ys"
  obtains us vs where "xs = us @ y # vs" "P y" "filter P vs = []"
proof -
  have "filter P (rev xs) = y # ys" using assms by (simp add: rev_filter)
  then obtain us vs where "rev xs = us @ y # vs" "\<forall>u \<in> set us. \<not> P u" "P y"
    by (auto simp: filter_eq_Cons_iff)
  then have "xs = rev vs @ y # rev us" "filter P (rev us) = []"
    by (simp_all add: rev_swap filter_empty_conv)
  then show thesis using \<open>P y\<close> by (intro that)
qed

lemma search_forward:
  assumes "fwd_kind (search_spec ld older) = FORWARD" "list_all2 resolves_to older older'" "in_space ld"
  shows "bytes_load load_u8 (drain older' m) (lq_addr ld) (lq_size ld) = fwd_data (search_spec ld older)"
proof -
  obtain st ys where r: "rev (filter (relevant ld) older) = st # ys"
    and st: "lq_addr_ready st" "covers st ld" "lq_data_ready st"
    and d: "fwd_data (search_spec ld older) = lsq_extract st ld"
    using assms(1) by (auto simp: search_spec_def split: list.splits if_splits)
  obtain us vs where older: "older = us @ st # vs" and vs: "filter (relevant ld) vs = []"
    using r by (rule last_relevant_split)
  obtain us' st' vs' where older': "older' = us' @ st' # vs'"
    and st': "resolves_to st st'" and vs': "list_all2 resolves_to vs vs'"
    using assms(2) by (auto simp: older list_all2_append1 list_all2_Cons1)
  have same: "covers st' ld" "in_space st'" "lsq_extract st' ld = lsq_extract st ld"
    using st st' by (auto simp: resolves_to_def covers_def lsq_extract_def)
  have "drain older' m = drain vs' (store_bytes st' (drain us' m))"
    by (simp add: drain_def older')
  then show ?thesis
    using drain_disjoint [OF assms(3) resolved_list_irrelevant [OF vs' vs]]
      load_covered [OF same(2) assms(3) same(1)] same(3) d by simp
qed

section \<open>Properties\<close>

text \<open>C17: The one-pass walk over the older stores, with its ambiguity flag, gives the answer of
  the youngest older store that matters: none relevant means memory, a fully covering store
  with known data forwards, anything else replays.\<close>

theorem search_is_youngest_relevant:
  assumes "lq_addr_ready (lqq_at (lsq_loads l) i)"
  shows "search_older_stores l i =
    search_spec (lqq_at (lsq_loads l) i) (older_stores (lqq_at (lsq_loads l) i) (lqq_list (lsq_stores l)))"
  using assms by (rule search_older_stores_eq)

text \<open>A load between two stores, of which the younger is not older than the load.\<close>

definition example_lsq :: Lsq where
  "example_lsq = \<lparr>lsq_loads = \<lparr>lqq_slots =
       [\<lparr>lq_seq = 2, lq_addr = 0x101, lq_data = 0, lq_size = 1, lq_addr_ready = True, lq_data_ready = False\<rparr>],
       lqq_capacity = 1, lqq_head = 0, lqq_count = 1\<rparr>,
     lsq_stores = \<lparr>lqq_slots =
       [\<lparr>lq_seq = 3, lq_addr = 0x100, lq_data = 0, lq_size = 4, lq_addr_ready = True, lq_data_ready = True\<rparr>,
        \<lparr>lq_seq = 1, lq_addr = 0x100, lq_data = 0xAABBCCDD, lq_size = 4, lq_addr_ready = True, lq_data_ready = True\<rparr>],
       lqq_capacity = 2, lqq_head = 1, lqq_count = 2\<rparr>\<rparr>"

lemma example_lsq_seats:
  "lqq_at (lsq_loads example_lsq) 0 = \<lparr>lq_seq = 2, lq_addr = 0x101, lq_data = 0, lq_size = 1,
     lq_addr_ready = True, lq_data_ready = False\<rparr>"
  "lqq_list (lsq_stores example_lsq) =
     [\<lparr>lq_seq = 1, lq_addr = 0x100, lq_data = 0xAABBCCDD, lq_size = 4, lq_addr_ready = True, lq_data_ready = True\<rparr>,
      \<lparr>lq_seq = 3, lq_addr = 0x100, lq_data = 0, lq_size = 4, lq_addr_ready = True, lq_data_ready = True\<rparr>]"
  "lqq_ok (lsq_stores example_lsq)"
  by (simp_all add: example_lsq_def lqq_at_def lqq_list_def lqq_ok_def ring_list_def ring_slot_def upt_rec)

theorem search_is_youngest_relevant_witness:
  "search_older_stores example_lsq 0 = \<lparr>fwd_kind = FORWARD, fwd_data = 0xCC\<rparr>"
  using search_is_youngest_relevant [of example_lsq 0]
  by (simp add: example_lsq_seats older_stores_def search_spec_def relevant_def overlaps_def covers_def
      lsq_extract_def Let_def)

text \<open>C15: Store-to-load forwarding is sound. When \<open>search_older_stores\<close> answers FORWARD, the data it
  returns are the bytes the load would read from memory after every older store has been performed,
  and when it answers NO_MATCH, memory itself already holds them; both for every way in which the
  older stores with unknown address or data can still resolve. Accesses that wrap around the end
  of the address space are excluded.\<close>

theorem forwarding_sound:
  assumes "list_all2 resolves_to (older_stores (lqq_at (lsq_loads l) i) (lqq_list (lsq_stores l))) older'"
    and "in_space (lqq_at (lsq_loads l) i)"
  shows "(fwd_kind (search_older_stores l i) = FORWARD \<longrightarrow>
      bytes_load load_u8 (drain older' m) (lq_addr (lqq_at (lsq_loads l) i)) (lq_size (lqq_at (lsq_loads l) i)) =
      fwd_data (search_older_stores l i)) \<and>
    (fwd_kind (search_older_stores l i) = NO_MATCH \<longrightarrow>
      bytes_load load_u8 (drain older' m) (lq_addr (lqq_at (lsq_loads l) i)) (lq_size (lqq_at (lsq_loads l) i)) =
      bytes_load load_u8 m (lq_addr (lqq_at (lsq_loads l) i)) (lq_size (lqq_at (lsq_loads l) i)))"
proof (cases "lq_addr_ready (lqq_at (lsq_loads l) i)")
  case True
  show ?thesis
    unfolding search_older_stores_eq [OF True] using search_forward [OF _ assms] search_no_match [OF _ assms] by blast
next
  case False
  then show ?thesis by (simp add: search_older_stores_def Let_def)
qed

text \<open>A store with unknown address, then a covering one: the older one cannot matter.\<close>

definition shadowed_lsq :: Lsq where
  "shadowed_lsq = \<lparr>lsq_loads = \<lparr>lqq_slots =
       [\<lparr>lq_seq = 2, lq_addr = 0x100, lq_data = 0, lq_size = 4, lq_addr_ready = True, lq_data_ready = False\<rparr>],
       lqq_capacity = 1, lqq_head = 0, lqq_count = 1\<rparr>,
     lsq_stores = \<lparr>lqq_slots =
       [\<lparr>lq_seq = 0, lq_addr = 0, lq_data = 0, lq_size = 4, lq_addr_ready = False, lq_data_ready = False\<rparr>,
        \<lparr>lq_seq = 1, lq_addr = 0x100, lq_data = 7, lq_size = 4, lq_addr_ready = True, lq_data_ready = True\<rparr>],
       lqq_capacity = 2, lqq_head = 0, lqq_count = 2\<rparr>\<rparr>"

theorem forwarding_sound_witness:
  "fwd_kind (search_older_stores shadowed_lsq 0) = FORWARD \<and>
   bytes_load load_u8 (drain
      [\<lparr>lq_seq = 0, lq_addr = 0x102, lq_data = 9, lq_size = 4, lq_addr_ready = False, lq_data_ready = False\<rparr>,
       \<lparr>lq_seq = 1, lq_addr = 0x100, lq_data = 7, lq_size = 4, lq_addr_ready = True, lq_data_ready = True\<rparr>]
      empty_memory) 0x100 4 = 7"
proof -
  have ld: "lqq_at (lsq_loads shadowed_lsq) 0 =
      \<lparr>lq_seq = 2, lq_addr = 0x100, lq_data = 0, lq_size = 4, lq_addr_ready = True, lq_data_ready = False\<rparr>"
    by (simp add: shadowed_lsq_def lqq_at_def)
  have sts: "lqq_list (lsq_stores shadowed_lsq) =
      [\<lparr>lq_seq = 0, lq_addr = 0, lq_data = 0, lq_size = 4, lq_addr_ready = False, lq_data_ready = False\<rparr>,
       \<lparr>lq_seq = 1, lq_addr = 0x100, lq_data = 7, lq_size = 4, lq_addr_ready = True, lq_data_ready = True\<rparr>]"
    by (simp add: shadowed_lsq_def lqq_list_def ring_list_def ring_slot_def upt_rec)
  have s: "search_older_stores shadowed_lsq 0 = \<lparr>fwd_kind = FORWARD, fwd_data = 7\<rparr>"
    by (simp add: search_older_stores_def lqq_nth_list ld sts lsq_extract_def Let_def)
  show ?thesis
    using forwarding_sound [of shadowed_lsq 0 "[\<lparr>lq_seq = 0, lq_addr = 0x102, lq_data = 9, lq_size = 4,
        lq_addr_ready = False, lq_data_ready = False\<rparr>, \<lparr>lq_seq = 1, lq_addr = 0x100, lq_data = 7, lq_size = 4,
        lq_addr_ready = True, lq_data_ready = True\<rparr>]" empty_memory]
    by (simp add: s ld sts older_stores_def resolves_to_def in_space_def)
qed

text \<open>C40: The exclusion is needed: \<open>search_older_stores\<close> compares addresses without wrapping while a
  store wraps. Whatever its data, an older store that runs over the end of the address space is not
  seen by a load of the bytes it puts at the beginning: the search answers NO_MATCH, which sends the
  load to memory, where those bytes are not yet.\<close>

theorem forwarding_misses_wrapped_store:
  assumes "lqq_list (lsq_stores l) = [st]" "lq_seq st \<le> lq_seq (lqq_at (lsq_loads l) i)"
    and "lq_addr_ready st" "lq_addr_ready (lqq_at (lsq_loads l) i)"
    and "lq_size st \<le> 4" "lq_size (lqq_at (lsq_loads l) i) \<le> 4"
    and "k < lq_size st" "2 ^ 32 \<le> unat (lq_addr st) + k" "lq_addr (lqq_at (lsq_loads l) i) = lq_addr st + of_nat k"
  shows "search_older_stores l i = \<lparr>fwd_kind = NO_MATCH, fwd_data = 0\<rparr> \<and>
    load_u8 (drain [st] m) (lq_addr (lqq_at (lsq_loads l) i)) = ucast (drop_bit (8 * k) (lq_data st))"
proof
  have "unat (lq_addr st + of_nat k) = (unat (lq_addr st) + k) mod 2 ^ 32"
    by (simp add: unat_word_ariths unat_of_nat mod_simps)
  also have "\<dots> = unat (lq_addr st) + k - 2 ^ 32"
  proof -
    have "unat (lq_addr st) < 2 ^ 32" using unsigned_less [of "lq_addr st"] by simp
    then show ?thesis using assms(5,7,8) by (simp add: le_mod_geq)
  qed
  finally have at: "unat (lq_addr (lqq_at (lsq_loads l) i)) = unat (lq_addr st) + k - 2 ^ 32" by (simp add: assms(9))
  then have "unat (lq_addr (lqq_at (lsq_loads l) i)) + lq_size (lqq_at (lsq_loads l) i) \<le> unat (lq_addr st)"
    using assms(5,6,7,8) by simp
  then show "search_older_stores l i = \<lparr>fwd_kind = NO_MATCH, fwd_data = 0\<rparr>"
    using assms(1-4) by (simp add: search_older_stores_def lqq_nth_list Let_def not_less)
  show "load_u8 (drain [st] m) (lq_addr (lqq_at (lsq_loads l) i)) = ucast (drop_bit (8 * k) (lq_data st))"
    using assms(5,7) by (simp add: drain_def store_bytes_def mem.ld_bytes_store assms(9) unat_of_nat32)
qed

text \<open>A word stored at \<open>0xFFFFFFFE\<close> and a load of address 0.\<close>

definition wrapped_lsq :: Lsq where
  "wrapped_lsq = \<lparr>lsq_loads = \<lparr>lqq_slots =
       [\<lparr>lq_seq = 1, lq_addr = 0, lq_data = 0, lq_size = 1, lq_addr_ready = True, lq_data_ready = False\<rparr>],
       lqq_capacity = 1, lqq_head = 0, lqq_count = 1\<rparr>,
     lsq_stores = \<lparr>lqq_slots =
       [\<lparr>lq_seq = 0, lq_addr = 0xFFFFFFFE, lq_data = 0xAABBCCDD, lq_size = 4, lq_addr_ready = True, lq_data_ready = True\<rparr>],
       lqq_capacity = 1, lqq_head = 0, lqq_count = 1\<rparr>\<rparr>"

theorem forwarding_misses_wrapped_store_witness:
  "fwd_kind (search_older_stores wrapped_lsq 0) = NO_MATCH \<and> load_u8 empty_memory 0 = 0 \<and>
   load_u8 (drain (lqq_list (lsq_stores wrapped_lsq)) empty_memory) 0 = 0xBB"
proof -
  define st where "st = \<lparr>lq_seq = 0, lq_addr = 0xFFFFFFFE, lq_data = 0xAABBCCDD, lq_size = 4,
      lq_addr_ready = True, lq_data_ready = True\<rparr>"
  have sts: "lqq_list (lsq_stores wrapped_lsq) = [st]"
    by (simp add: wrapped_lsq_def lqq_list_def ring_list_def ring_slot_def upt_rec st_def)
  have ld: "lqq_at (lsq_loads wrapped_lsq) 0 =
      \<lparr>lq_seq = 1, lq_addr = 0, lq_data = 0, lq_size = 1, lq_addr_ready = True, lq_data_ready = False\<rparr>"
    by (simp add: wrapped_lsq_def lqq_at_def)
  have "(lq_addr st :: u32) + of_nat 2 = 0" "(ucast (drop_bit (8 * 2) (lq_data st)) :: u8) = 0xBB"
    by (simp_all add: st_def)
  then have "search_older_stores wrapped_lsq 0 = \<lparr>fwd_kind = NO_MATCH, fwd_data = 0\<rparr> \<and>
      load_u8 (drain [st] empty_memory) 0 = 0xBB"
    using forwarding_misses_wrapped_store [OF sts, of 0 2 empty_memory] by (simp add: ld) (simp add: st_def)
  moreover have "load_u8 empty_memory 0 = 0" by (simp add: load_u8_def empty_memory_def)
  ultimately show ?thesis by (simp add: sts)
qed

text \<open>Recovery shrinks a load or store queue from the tail to the accesses that are not
  younger than the branch, and a second recovery to the older of two branches gives the
  same queue as recovering to it directly.\<close>

theorem lsq_squash_keeps_older:
  assumes "lqq_ok q" "program_ordered lq_seq (lqq_list q)"
  shows "lqq_list (lqq_squash_after s q) = takeWhile (\<lambda>e. lq_seq e \<le> s) (lqq_list q) \<and>
    lqq_list (lqq_squash_after s (lqq_squash_after t q)) = lqq_list (lqq_squash_after (min s t) q) \<and>
    lqq_ok (lqq_squash_after s q)"
  using lsqq.squash_prefix [OF assms] lsqq.squash_squash [OF assms] lqq_squash_after_ok [OF assms(1)]
  by simp

theorem lsq_squash_keeps_older_witness:
  "map lq_seq (lqq_list (lqq_squash_after 2 (lsq_stores example_lsq))) = [1]"
proof -
  have "program_ordered lq_seq (lqq_list (lsq_stores example_lsq))"
    by (simp add: example_lsq_seats program_ordered_def)
  then show ?thesis
    using lsq_squash_keeps_older [of "lsq_stores example_lsq" 2 2] by (simp add: example_lsq_seats)
qed

end
