(* ===== verification/Uop.thy ===== *)
theory Uop
  imports Rename Lsq
begin

text \<open>
  The in-flight instruction of \<^verbatim>\<open>src/src/cpu.h\<close> (\<open>struct Uop\<close>) and the pure parts of
  \<^verbatim>\<open>src/src/cpu.cpp\<close>: \<open>access_size\<close>, \<open>extend_load\<close> and \<open>execute_uop\<close>.
\<close>

datatype TrapCause = Trap_NONE | Trap_ILLEGAL | Trap_EBREAK | Trap_ECALL_UNKNOWN

record StageCycles =
  at_fetch :: nat
  at_decode :: nat
  at_rename :: nat
  at_dispatch :: nat
  at_issue :: nat
  at_complete :: nat

record Uop =
  u_seq :: SeqNum
  u_rob :: RobIndex
  u_pc :: u32
  u_raw :: u32
  u_dec :: Decoded
  u_uid :: nat
  u_at :: StageCycles
  u_src1 :: PhysReg
  u_src2 :: PhysReg
  u_dest :: PhysReg
  u_stale :: PhysReg
  u_val1 :: u32
  u_val2 :: u32
  u_result :: u32
  u_has_result :: bool
  u_next_pc :: u32
  u_mem_addr :: u32
  u_store_data :: u32
  u_lsq_idx :: nat
  u_wb_cycle :: nat
  u_trap :: TrapCause
  u_pred_taken :: bool
  u_pred_target :: u32
  u_btb_hit :: bool
  u_from_ras :: bool
  u_pht_index :: nat
  u_bkind :: BranchKind
  u_ckpt :: CheckpointId
  u_fe_snap :: Snapshot

definition default_uop :: Uop where
  "default_uop = \<lparr>u_seq = INVALID_SEQNUM, u_rob = INVALID_ROBINDEX, u_pc = 0, u_raw = 0,
     u_dec = decoded_zero, u_uid = 0,
     u_at = \<lparr>at_fetch = 0, at_decode = 0, at_rename = 0, at_dispatch = 0, at_issue = 0,
             at_complete = 0\<rparr>,
     u_src1 = 0, u_src2 = 0, u_dest = INVALID_PHYSREG, u_stale = INVALID_PHYSREG,
     u_val1 = 0, u_val2 = 0, u_result = 0, u_has_result = False, u_next_pc = 0,
     u_mem_addr = 0, u_store_data = 0, u_lsq_idx = 0, u_wb_cycle = 0, u_trap = Trap_NONE,
     u_pred_taken = False, u_pred_target = 0, u_btb_hit = False, u_from_ras = False,
     u_pht_index = 0, u_bkind = Branch_NONE, u_ckpt = INVALID_CHECKPOINT,
     u_fe_snap = default_snapshot\<rparr>"

definition access_size :: "Op \<Rightarrow> nat" where
  "access_size op = (case op of
       Op_LB \<Rightarrow> 1 | Op_LBU \<Rightarrow> 1 | Op_SB \<Rightarrow> 1
     | Op_LH \<Rightarrow> 2 | Op_LHU \<Rightarrow> 2 | Op_SH \<Rightarrow> 2
     | _ \<Rightarrow> 4)"

definition extend_load :: "Op \<Rightarrow> u32 \<Rightarrow> u32" where
  "extend_load op v = (case op of
       Op_LB \<Rightarrow> scast (ucast v :: u8)
     | Op_LH \<Rightarrow> scast (ucast v :: u16)
     | _ \<Rightarrow> v)"

definition u_value :: "u32 \<Rightarrow> Uop \<Rightarrow> Uop" where
  "u_value v u = u\<lparr>u_result := v, u_has_result := True\<rparr>"

definition execute_uop :: "Uop \<Rightarrow> Uop" where
  "execute_uop u =
     (let d = u_dec u; rs1 = u_val1 u; rs2 = u_val2 u; imm = d_imm d;
          opb = (if uses_immediate d then imm else rs2);
          branch = (if branch_taken (d_op d) rs1 rs2
                    then u\<lparr>u_next_pc := branch_target (u_pc u) (d_imm d)\<rparr> else u);
          store = u\<lparr>u_mem_addr := rs1 + imm, u_store_data := rs2\<rparr>
      in case d_op d of
       Op_ADD \<Rightarrow> u_value (alu_add rs1 opb) u
     | Op_SUB \<Rightarrow> u_value (alu_sub rs1 rs2) u
     | Op_SLL \<Rightarrow> u_value (alu_sll rs1 opb) u
     | Op_SRL \<Rightarrow> u_value (alu_srl rs1 opb) u
     | Op_SRA \<Rightarrow> u_value (alu_sra rs1 opb) u
     | Op_AND \<Rightarrow> u_value (alu_and rs1 opb) u
     | Op_OR \<Rightarrow> u_value (alu_or rs1 opb) u
     | Op_XOR \<Rightarrow> u_value (alu_xor rs1 opb) u
     | Op_SLT \<Rightarrow> u_value (alu_slt rs1 opb) u
     | Op_SLTU \<Rightarrow> u_value (alu_sltu rs1 opb) u
     | Op_LUI \<Rightarrow> u_value imm u
     | Op_AUIPC \<Rightarrow> u_value (u_pc u + imm) u
     | Op_MUL \<Rightarrow> u_value (alu_mul rs1 rs2) u
     | Op_MULH \<Rightarrow> u_value (alu_mulh rs1 rs2) u
     | Op_MULHSU \<Rightarrow> u_value (alu_mulhsu rs1 rs2) u
     | Op_MULHU \<Rightarrow> u_value (alu_mulhu rs1 rs2) u
     | Op_DIV \<Rightarrow> u_value (alu_div rs1 rs2) u
     | Op_DIVU \<Rightarrow> u_value (alu_divu rs1 rs2) u
     | Op_REM \<Rightarrow> u_value (alu_rem rs1 rs2) u
     | Op_REMU \<Rightarrow> u_value (alu_remu rs1 rs2) u
     | Op_BEQ \<Rightarrow> branch | Op_BNE \<Rightarrow> branch | Op_BLT \<Rightarrow> branch
     | Op_BGE \<Rightarrow> branch | Op_BLTU \<Rightarrow> branch | Op_BGEU \<Rightarrow> branch
     | Op_JAL \<Rightarrow> (u_value (link_address (u_pc u)) u)
                    \<lparr>u_next_pc := branch_target (u_pc u) (d_imm d)\<rparr>
     | Op_JALR \<Rightarrow> (u_value (link_address (u_pc u)) u)\<lparr>u_next_pc := jalr_target rs1 (d_imm d)\<rparr>
     | Op_LB \<Rightarrow> u | Op_LH \<Rightarrow> u | Op_LW \<Rightarrow> u | Op_LBU \<Rightarrow> u | Op_LHU \<Rightarrow> u
     | Op_SB \<Rightarrow> store | Op_SH \<Rightarrow> store | Op_SW \<Rightarrow> store
     | Op_FENCE \<Rightarrow> u | Op_FENCE_I \<Rightarrow> u | Op_ECALL \<Rightarrow> u | Op_EBREAK \<Rightarrow> u
     | Op_INVALID \<Rightarrow> u\<lparr>u_trap := Trap_ILLEGAL\<rparr>)"

text \<open>Where the front end went after a uop.\<close>

definition predicted_pc :: "Uop \<Rightarrow> u32" where
  "predicted_pc u = (if u_pred_taken u then u_pred_target u else u_pc u + 4)"

lemma execute_uop_frame [simp]:
  "u_seq (execute_uop u) = u_seq u" "u_rob (execute_uop u) = u_rob u"
  "u_pc (execute_uop u) = u_pc u" "u_raw (execute_uop u) = u_raw u"
  "u_dec (execute_uop u) = u_dec u" "u_uid (execute_uop u) = u_uid u"
  "u_dest (execute_uop u) = u_dest u" "u_stale (execute_uop u) = u_stale u"
  "u_src1 (execute_uop u) = u_src1 u" "u_src2 (execute_uop u) = u_src2 u"
  "u_lsq_idx (execute_uop u) = u_lsq_idx u" "u_ckpt (execute_uop u) = u_ckpt u"
  "u_wb_cycle (execute_uop u) = u_wb_cycle u" "u_bkind (execute_uop u) = u_bkind u"
  "u_pred_taken (execute_uop u) = u_pred_taken u" "u_pred_target (execute_uop u) = u_pred_target u"
  "u_fe_snap (execute_uop u) = u_fe_snap u" "u_btb_hit (execute_uop u) = u_btb_hit u"
  by (cases "d_op (u_dec u)"; simp add: execute_uop_def Let_def u_value_def)+

lemma access_size_cases: "access_size op \<in> {1, 2, 4}"
  by (cases op) (simp_all add: access_size_def)

end
