(* ===== verification/Rob.thy ===== *)
theory Rob
  imports Config Ring
begin

text \<open>
  \<^verbatim>\<open>src/src/rob.h\<close>: the reorder buffer. Its ring stands for the list of in-flight
  entries, oldest first; \<open>allocate\<close> appends and stamps a 32-bit sequence number,
  \<open>pop_head_if_complete\<close> retires, \<open>truncate_to\<close> and \<open>squash_all\<close> return what they drop
  youngest first.
\<close>

record RobEntry =
  re_seq :: SeqNum
  re_pc :: u32
  re_next_pc :: u32
  re_dest_arch :: ArchReg
  re_dest_phys :: PhysReg
  re_stale_phys :: PhysReg
  re_is_branch :: bool
  re_is_store :: bool
  re_complete :: bool
  re_mispredicted :: bool
  re_ckpt :: CheckpointId

definition default_rob_entry :: RobEntry where
  "default_rob_entry = \<lparr>re_seq = INVALID_SEQNUM, re_pc = 0, re_next_pc = 0,
     re_dest_arch = INVALID_ARCHREG, re_dest_phys = INVALID_PHYSREG,
     re_stale_phys = INVALID_PHYSREG, re_is_branch = False, re_is_store = False,
     re_complete = False, re_mispredicted = False, re_ckpt = INVALID_CHECKPOINT\<rparr>"

record Rob =
  rob_slots :: "RobEntry list"
  rob_hd :: RobIndex
  rob_count :: nat
  rob_next_seq :: SeqNum

definition make_rob :: "nat \<Rightarrow> Rob" where
  "make_rob capacity =
     \<lparr>rob_slots = replicate capacity default_rob_entry, rob_hd = 0, rob_count = 0,
      rob_next_seq = 0\<rparr>"

definition rob_capacity :: "Rob \<Rightarrow> nat" where "rob_capacity r = length (rob_slots r)"
definition rob_empty :: "Rob \<Rightarrow> bool" where "rob_empty r \<longleftrightarrow> rob_count r = 0"
definition rob_full :: "Rob \<Rightarrow> bool" where "rob_full r \<longleftrightarrow> rob_count r = rob_capacity r"

definition rob_wrap :: "Rob \<Rightarrow> nat \<Rightarrow> nat" where
  "rob_wrap r v = v mod rob_capacity r"

definition rob_head :: "Rob \<Rightarrow> RobIndex" where
  "rob_head r = (if rob_empty r then INVALID_ROBINDEX else rob_hd r)"

definition rob_tail :: "Rob \<Rightarrow> RobIndex" where
  "rob_tail r = rob_wrap r (rob_hd r + rob_count r)"

definition rob_nth :: "Rob \<Rightarrow> nat \<Rightarrow> RobIndex" where
  "rob_nth r k = (if k < rob_count r then rob_wrap r (rob_hd r + k) else INVALID_ROBINDEX)"

definition rob_at :: "Rob \<Rightarrow> RobIndex \<Rightarrow> RobEntry" where
  "rob_at r idx = rob_slots r ! idx"

definition rob_nth_entry :: "Rob \<Rightarrow> nat \<Rightarrow> RobEntry" where
  "rob_nth_entry r k = rob_slots r ! rob_wrap r (rob_hd r + k)"

text \<open>A write through the reference \<open>at(idx)\<close>.\<close>

definition rob_modify :: "Rob \<Rightarrow> RobIndex \<Rightarrow> (RobEntry \<Rightarrow> RobEntry) \<Rightarrow> Rob" where
  "rob_modify r idx f = r\<lparr>rob_slots := (rob_slots r)[idx := f (rob_slots r ! idx)]\<rparr>"

definition rob_age_of :: "Rob \<Rightarrow> RobIndex \<Rightarrow> nat" where
  "rob_age_of r idx =
     (if rob_capacity r \<le> idx then rob_capacity r
      else rob_wrap r (idx + rob_capacity r - rob_hd r))"

definition rob_in_flight :: "Rob \<Rightarrow> RobIndex \<Rightarrow> bool" where
  "rob_in_flight r idx \<longleftrightarrow> rob_age_of r idx < rob_count r"

definition rob_allocate :: "RobEntry \<Rightarrow> Rob \<Rightarrow> RobIndex \<times> Rob" where
  "rob_allocate e r =
     (let e = e\<lparr>re_seq := rob_next_seq r\<rparr>;
          r = r\<lparr>rob_next_seq := rob_next_seq r + 1\<rparr>;
          idx = rob_tail r
      in (idx, r\<lparr>rob_slots := (rob_slots r)[idx := e], rob_count := rob_count r + 1\<rparr>))"

definition rob_pop_head_if_complete :: "Rob \<Rightarrow> (RobEntry \<times> Rob) option" where
  "rob_pop_head_if_complete r =
     (if rob_empty r \<or> \<not> re_complete (rob_slots r ! rob_hd r) then None
      else Some (rob_slots r ! rob_hd r,
                 r\<lparr>rob_hd := rob_wrap r (rob_hd r + 1), rob_count := rob_count r - 1\<rparr>))"

function rob_drop_to :: "nat \<Rightarrow> Rob \<Rightarrow> RobEntry list \<times> Rob" where
  "rob_drop_to keep r =
     (if keep < rob_count r then
        (let r1 = r\<lparr>rob_count := rob_count r - 1\<rparr>;
             e = rob_slots r1 ! rob_wrap r1 (rob_hd r1 + rob_count r1)
         in case rob_drop_to keep r1 of (es, r2) \<Rightarrow> (e # es, r2))
      else ([], r))"
  by pat_completeness auto
termination
  by (relation "measure (\<lambda>(keep, r). rob_count r)") auto

declare rob_drop_to.simps [simp del]

definition rob_truncate_to :: "RobIndex \<Rightarrow> Rob \<Rightarrow> RobEntry list \<times> Rob" where
  "rob_truncate_to idx r =
     (if \<not> rob_in_flight r idx then ([], r) else rob_drop_to (rob_age_of r idx + 1) r)"

definition rob_squash_all :: "Rob \<Rightarrow> RobEntry list \<times> Rob" where
  "rob_squash_all r = rob_drop_to 0 r"

section \<open>The list of in-flight entries\<close>

definition rob_list :: "Rob \<Rightarrow> RobEntry list" where
  "rob_list r = ring_list (rob_slots r) (rob_hd r) (rob_count r)"

definition rob_ok :: "Rob \<Rightarrow> bool" where
  "rob_ok r \<longleftrightarrow> rob_hd r < rob_capacity r \<and> rob_count r \<le> rob_capacity r"

lemma rob_wrap_slot: "rob_wrap r (rob_hd r + k) = ring_slot (rob_slots r) (rob_hd r) k"
  by (simp add: rob_wrap_def rob_capacity_def ring_slot_def)

lemma length_rob_list [simp]: "length (rob_list r) = rob_count r"
  by (simp add: rob_list_def)

lemma make_rob_ok: "0 < n \<Longrightarrow> rob_ok (make_rob n)"
  by (simp add: rob_ok_def make_rob_def rob_capacity_def)

lemma make_rob_list [simp]: "rob_list (make_rob n) = []"
  by (simp add: rob_list_def make_rob_def)

lemma rob_nth_entry_list: "k < rob_count r \<Longrightarrow> rob_nth_entry r k = rob_list r ! k"
  by (simp add: rob_nth_entry_def rob_list_def rob_wrap_slot)

lemma rob_at_nth: "k < rob_count r \<Longrightarrow> rob_at r (rob_nth r k) = rob_list r ! k"
  by (simp add: rob_at_def rob_nth_def rob_list_def rob_wrap_slot)

lemma rob_nth_less: "rob_ok r \<Longrightarrow> k < rob_count r \<Longrightarrow> rob_nth r k < rob_capacity r"
  by (simp add: rob_nth_def rob_wrap_def rob_ok_def)

lemma rob_nth_inj:
  "rob_ok r \<Longrightarrow> i < rob_count r \<Longrightarrow> j < rob_count r \<Longrightarrow> rob_nth r i = rob_nth r j \<Longrightarrow> i = j"
  using ring_slot_inj [of "rob_slots r" "rob_hd r" i j]
  by (auto simp: rob_nth_def rob_wrap_slot rob_ok_def rob_capacity_def)

lemma rob_age_of_nth: "rob_ok r \<Longrightarrow> k < rob_count r \<Longrightarrow> rob_age_of r (rob_nth r k) = k"
  using rob_nth_less [of r k] ring_age_slot [of "rob_hd r" "rob_slots r" k]
  by (auto simp: rob_age_of_def rob_nth_def rob_wrap_slot rob_ok_def)
    (auto simp: rob_wrap_def rob_capacity_def)

lemma rob_in_flight_nth:
  assumes "rob_ok r"
  shows "rob_in_flight r idx \<longleftrightarrow> (\<exists>k < rob_count r. rob_nth r k = idx)"
proof
  assume live: "rob_in_flight r idx"
  with assms have "idx < rob_capacity r"
    by (auto simp: rob_in_flight_def rob_age_of_def rob_ok_def split: if_splits)
  then have "rob_nth r (rob_age_of r idx) = idx"
    using live assms ring_age [of "rob_hd r" "rob_slots r" idx]
    by (simp add: rob_nth_def rob_in_flight_def rob_wrap_slot)
      (simp add: rob_age_of_def rob_wrap_def rob_capacity_def rob_ok_def)
  with live show "\<exists>k < rob_count r. rob_nth r k = idx"
    by (auto simp: rob_in_flight_def)
next
  assume "\<exists>k < rob_count r. rob_nth r k = idx"
  with assms show "rob_in_flight r idx"
    by (auto simp: rob_in_flight_def rob_age_of_nth)
qed

lemma rob_allocate_list:
  assumes "rob_ok r" "\<not> rob_full r" "rob_allocate e r = (idx, r')"
  shows "rob_list r' = rob_list r @ [e\<lparr>re_seq := rob_next_seq r\<rparr>]"
    and "rob_ok r'" and "rob_capacity r' = rob_capacity r"
    and "rob_next_seq r' = rob_next_seq r + 1" and "idx = rob_nth r' (rob_count r)"
    and "rob_count r' = rob_count r + 1" and "rob_hd r' = rob_hd r"
proof -
  have c: "rob_count r < length (rob_slots r)"
    using assms(1,2) by (auto simp: rob_ok_def rob_full_def rob_capacity_def)
  have eqs: "idx = ring_slot (rob_slots r) (rob_hd r) (rob_count r)"
    "r' = r\<lparr>rob_next_seq := rob_next_seq r + 1,
       rob_slots := (rob_slots r)[idx := e\<lparr>re_seq := rob_next_seq r\<rparr>], rob_count := rob_count r + 1\<rparr>"
    using assms(3)
    by (auto simp: rob_allocate_def Let_def rob_tail_def rob_wrap_def ring_slot_def rob_capacity_def)
  show "rob_list r' = rob_list r @ [e\<lparr>re_seq := rob_next_seq r\<rparr>]"
    using ring_list_push [OF c] by (simp add: rob_list_def eqs)
  show "rob_ok r'" "rob_capacity r' = rob_capacity r" "rob_next_seq r' = rob_next_seq r + 1"
    "rob_count r' = rob_count r + 1" "rob_hd r' = rob_hd r"
    using assms(1) c by (simp_all add: rob_ok_def rob_capacity_def eqs)
  show "idx = rob_nth r' (rob_count r)"
    by (simp add: rob_nth_def rob_wrap_slot) (simp add: eqs)
qed

lemma rob_pop_list:
  assumes "rob_ok r" "rob_pop_head_if_complete r = Some (e, r')"
  shows "rob_list r = e # rob_list r'" and "re_complete e" and "rob_ok r'"
    and "rob_capacity r' = rob_capacity r" and "rob_next_seq r' = rob_next_seq r"
    and "rob_count r = Suc (rob_count r')"
proof -
  have ne: "rob_count r \<noteq> 0" and e: "e = rob_slots r ! rob_hd r" and c: "re_complete e"
    and r': "r' = r\<lparr>rob_hd := rob_wrap r (rob_hd r + 1), rob_count := rob_count r - 1\<rparr>"
    using assms(2) by (auto simp: rob_pop_head_if_complete_def rob_empty_def split: if_splits)
  have "rob_list r' = tl (rob_list r)"
    using ring_list_pop [of "rob_slots r" "rob_hd r" "rob_count r"]
    by (simp add: r' rob_list_def rob_wrap_def rob_capacity_def)
  moreover have "hd (rob_list r) = e"
    using ne assms(1) by (simp add: hd_conv_nth rob_list_def e ring_slot_def rob_ok_def rob_capacity_def
        flip: length_0_conv)
  ultimately show "rob_list r = e # rob_list r'"
    using ne by (metis length_0_conv length_rob_list list.collapse)
  show "re_complete e" by (rule c)
  show "rob_ok r'" "rob_capacity r' = rob_capacity r" "rob_next_seq r' = rob_next_seq r"
    "rob_count r = Suc (rob_count r')"
    using assms(1) ne by (auto simp: r' rob_ok_def rob_capacity_def rob_wrap_def intro: mod_less_divisor)
qed

lemma rob_drop_to_eq:
  "rob_drop_to n r = (rev (drop n (rob_list r)), r\<lparr>rob_count := min n (rob_count r)\<rparr>)"
proof (induction n r rule: rob_drop_to.induct)
  case (1 n r)
  show ?case
  proof (cases "n < rob_count r")
    case False
    then show ?thesis by (subst rob_drop_to.simps) (simp add: min_def)
  next
    case True
    define r1 where "r1 = r\<lparr>rob_count := rob_count r - 1\<rparr>"
    have l1: "rob_list r1 = butlast (rob_list r)"
      using ring_list_take [of "rob_count r - 1" "rob_count r" "rob_slots r" "rob_hd r"]
      by (simp add: r1_def rob_list_def butlast_conv_take)
    have last: "rob_slots r ! rob_wrap r1 (rob_hd r + rob_count r - 1) = last (rob_list r)"
      using True by (simp add: r1_def rob_list_def rob_wrap_def rob_capacity_def ring_slot_def
          last_conv_nth flip: length_0_conv)
    have "drop n (rob_list r) = drop n (butlast (rob_list r)) @ [last (rob_list r)]"
    proof -
      have ne: "rob_list r \<noteq> []" using True by (metis length_rob_list list.size(3) not_less0)
      have "drop n (rob_list r) = drop n (butlast (rob_list r) @ [last (rob_list r)])"
        using ne by simp
      also have "\<dots> = drop n (butlast (rob_list r)) @ [last (rob_list r)]"
        using True by simp
      finally show ?thesis .
    qed
    moreover have "rob_drop_to n r1 = (rev (drop n (rob_list r1)), r1\<lparr>rob_count := min n (rob_count r1)\<rparr>)"
      using 1 [OF True r1_def refl] by simp
    ultimately show ?thesis
      using True last by (subst rob_drop_to.simps) (simp add: Let_def l1 flip: r1_def, simp add: r1_def)
  qed
qed

lemma rob_truncate_eq:
  assumes "rob_ok r" "k < rob_count r"
  shows "rob_truncate_to (rob_nth r k) r =
    (rev (drop (Suc k) (rob_list r)), r\<lparr>rob_count := Suc k\<rparr>)"
  using assms by (simp add: rob_truncate_to_def rob_in_flight_def rob_age_of_nth rob_drop_to_eq min_def)

lemma rob_squash_all_eq: "rob_squash_all r = (rev (rob_list r), r\<lparr>rob_count := 0\<rparr>)"
  by (simp add: rob_squash_all_def rob_drop_to_eq)

lemma rob_list_count: "k \<le> rob_count r \<Longrightarrow> rob_list (r\<lparr>rob_count := k\<rparr>) = take k (rob_list r)"
  by (simp add: rob_list_def ring_list_take)

lemma rob_modify_list:
  assumes "rob_ok r" "k < rob_count r"
  shows "rob_list (rob_modify r (rob_nth r k) f) = (rob_list r)[k := f (rob_list r ! k)]"
  using assms ring_list_update [of k "rob_count r" "rob_slots r" "rob_hd r"]
  by (simp add: rob_modify_def rob_list_def rob_nth_def rob_wrap_slot rob_ok_def rob_capacity_def)

lemma rob_modify_simps [simp]:
  "rob_count (rob_modify r i f) = rob_count r" "rob_hd (rob_modify r i f) = rob_hd r"
  "rob_next_seq (rob_modify r i f) = rob_next_seq r" "rob_capacity (rob_modify r i f) = rob_capacity r"
  "rob_ok (rob_modify r i f) = rob_ok r" "rob_nth (rob_modify r i f) k = rob_nth r k"
  by (simp_all add: rob_modify_def rob_capacity_def rob_ok_def rob_nth_def rob_wrap_def)

interpretation rob: fifo_buffer rob_list rob_capacity rob_ok
  "\<lambda>e r. e\<lparr>re_seq := rob_next_seq r\<rparr>" "\<lambda>e r. snd (rob_allocate e r)"
  "\<lambda>r. r\<lparr>rob_hd := rob_wrap r (rob_hd r + 1), rob_count := rob_count r - 1\<rparr>"
  "\<lambda>n r. snd (rob_drop_to n r)"
proof
  fix q :: Rob and x n
  show "rob_ok q \<Longrightarrow> length (rob_list q) \<le> rob_capacity q"
    by (simp add: rob_ok_def)
  show "rob_ok q \<Longrightarrow> length (rob_list q) < rob_capacity q \<Longrightarrow>
      rob_ok (snd (rob_allocate x q)) \<and> rob_capacity (snd (rob_allocate x q)) = rob_capacity q \<and>
      rob_list (snd (rob_allocate x q)) = rob_list q @ [x\<lparr>re_seq := rob_next_seq q\<rparr>]"
    by (cases "rob_allocate x q")
      (auto simp: rob_full_def rob_allocate_list(1-3) [of q x])
  show "rob_ok q \<Longrightarrow>
      rob_ok (q\<lparr>rob_hd := rob_wrap q (rob_hd q + 1), rob_count := rob_count q - 1\<rparr>) \<and>
      rob_capacity (q\<lparr>rob_hd := rob_wrap q (rob_hd q + 1), rob_count := rob_count q - 1\<rparr>) = rob_capacity q \<and>
      rob_list (q\<lparr>rob_hd := rob_wrap q (rob_hd q + 1), rob_count := rob_count q - 1\<rparr>) = tl (rob_list q)"
    using ring_list_pop [of "rob_slots q" "rob_hd q" "rob_count q"]
    by (auto simp: rob_ok_def rob_list_def rob_wrap_def rob_capacity_def intro: mod_less_divisor)
  show "rob_ok q \<Longrightarrow> n \<le> length (rob_list q) \<Longrightarrow>
      rob_ok (snd (rob_drop_to n q)) \<and> rob_capacity (snd (rob_drop_to n q)) = rob_capacity q \<and>
      rob_list (snd (rob_drop_to n q)) = take n (rob_list q)"
    by (simp add: rob_drop_to_eq rob_list_count) (simp add: rob_ok_def rob_capacity_def)
qed

section \<open>Properties\<close>

text \<open>C19: A misprediction at the \<open>k\<close>-th oldest entry removes exactly the younger entries,
  returns them youngest first, and leaves the older ones and the branch in place and in
  order; squashing everything returns all of them youngest first.\<close>

theorem rob_squash_youngest_first:
  assumes "rob_ok r" "k < rob_count r"
  shows "fst (rob_truncate_to (rob_nth r k) r) = rev (drop (Suc k) (rob_list r)) \<and>
    rob_list (snd (rob_truncate_to (rob_nth r k) r)) = take (Suc k) (rob_list r) \<and>
    rob_ok (snd (rob_truncate_to (rob_nth r k) r)) \<and>
    rob_next_seq (snd (rob_truncate_to (rob_nth r k) r)) = rob_next_seq r \<and>
    fst (rob_squash_all r) = rev (rob_list r) \<and> rob_list (snd (rob_squash_all r)) = []"
  using assms rob_list_count [of "Suc k" r] rob_list_count [of 0 r]
  by (simp add: rob_truncate_eq rob_squash_all_eq) (simp add: rob_ok_def rob_capacity_def)

theorem rob_squash_youngest_first_witness:
  "let r = snd (rob_allocate default_rob_entry (snd (rob_allocate default_rob_entry (make_rob 2))))
   in map re_seq (fst (rob_truncate_to (rob_nth r 0) r)) = [1]"
proof -
  define r where "r = snd (rob_allocate default_rob_entry (snd (rob_allocate default_rob_entry (make_rob 2))))"
  have r: "rob_ok r \<and> 0 < rob_count r" "map re_seq (drop (Suc 0) (rob_list r)) = [1]"
    by (simp_all add: r_def rob_allocate_def make_rob_def rob_ok_def rob_capacity_def Let_def
        rob_tail_def rob_wrap_def rob_list_def ring_list_def ring_slot_def upt_rec nth_list_update)
  then show ?thesis
    using rob_squash_youngest_first [of r 0] by (simp add: rev_map [symmetric] flip: r_def)
qed

text \<open>C20: The reorder buffer is a first-in first-out list: allocation appends the entry with
  the next sequence number and reports the slot it can be reached at, and only the oldest
  entry, once complete, retires.\<close>

theorem rob_allocate_and_retire:
  assumes "rob_ok r"
  shows "(\<not> rob_full r \<longrightarrow> (case rob_allocate e r of (idx, r') \<Rightarrow>
      rob_list r' = rob_list r @ [e\<lparr>re_seq := rob_next_seq r\<rparr>] \<and> rob_ok r' \<and>
      idx = rob_nth r' (rob_count r) \<and> rob_at r' idx = e\<lparr>re_seq := rob_next_seq r\<rparr>)) \<and>
    (case rob_pop_head_if_complete r of
       None \<Rightarrow> rob_list r = [] \<or> \<not> re_complete (hd (rob_list r))
     | Some (h, r') \<Rightarrow> rob_list r = h # rob_list r' \<and> re_complete h \<and> rob_ok r')"
proof (intro conjI impI)
  assume "\<not> rob_full r"
  obtain idx r' where a: "rob_allocate e r = (idx, r')" by fastforce
  note l = rob_allocate_list [OF assms \<open>\<not> rob_full r\<close> a]
  have "rob_at r' idx = rob_list r' ! rob_count r" unfolding l(5) by (rule rob_at_nth) (simp add: l(6))
  then show "case rob_allocate e r of (idx, r') \<Rightarrow>
      rob_list r' = rob_list r @ [e\<lparr>re_seq := rob_next_seq r\<rparr>] \<and> rob_ok r' \<and>
      idx = rob_nth r' (rob_count r) \<and> rob_at r' idx = e\<lparr>re_seq := rob_next_seq r\<rparr>"
    using l by (simp add: a nth_append)
next
  show "case rob_pop_head_if_complete r of
      None \<Rightarrow> rob_list r = [] \<or> \<not> re_complete (hd (rob_list r))
    | Some (h, r') \<Rightarrow> rob_list r = h # rob_list r' \<and> re_complete h \<and> rob_ok r'"
  proof (cases "rob_pop_head_if_complete r")
    case None
    have "rob_list r = [] \<or> \<not> re_complete (hd (rob_list r))"
    proof (cases "rob_count r")
      case 0
      then show ?thesis by (simp flip: length_0_conv)
    next
      case (Suc n)
      then have "hd (rob_list r) = rob_slots r ! rob_hd r"
        using assms by (simp add: hd_conv_nth rob_list_def ring_slot_def rob_ok_def rob_capacity_def
            flip: length_0_conv)
      with None Suc show ?thesis
        by (auto simp: rob_pop_head_if_complete_def rob_empty_def split: if_splits)
    qed
    with None show ?thesis by simp
  next
    case (Some hr)
    then obtain h r' where "rob_pop_head_if_complete r = Some (h, r')" by (cases hr) auto
    then show ?thesis using rob_pop_list [OF assms] by simp
  qed
qed

theorem rob_allocate_and_retire_witness:
  "rob_list (snd (rob_allocate default_rob_entry (make_rob 2))) = [default_rob_entry\<lparr>re_seq := 0\<rparr>] \<and>
   rob_pop_head_if_complete (make_rob 2) = None"
proof -
  have "rob_ok (make_rob 2)" by (rule make_rob_ok) simp
  moreover have "\<not> rob_full (make_rob 2)" "rob_next_seq (make_rob 2) = 0"
    by (simp_all add: rob_full_def make_rob_def rob_capacity_def)
  ultimately show ?thesis
    using rob_allocate_and_retire [of "make_rob 2" default_rob_entry]
    by (auto split: prod.splits option.splits)
qed

text \<open>Speculation leaves no trace in the reorder buffer: whatever batch of entries that
  fits is allocated and then squashed again, the list of in-flight entries is as before.\<close>

theorem rob_squash_restores:
  assumes "rob_ok r" "rob_count r + length es \<le> rob_capacity r"
  shows "rob_list (snd (rob_drop_to (rob_count r) (fold (\<lambda>e q. snd (rob_allocate e q)) es r))) = rob_list r"
  using rob.squash_restores [of r es] assms by simp

theorem rob_squash_restores_witness:
  "rob_list (snd (rob_drop_to 0 (fold (\<lambda>e q. snd (rob_allocate e q))
     [default_rob_entry, default_rob_entry] (make_rob 2)))) = []"
  using rob_squash_restores [of "make_rob 2" "[default_rob_entry, default_rob_entry]"] make_rob_ok [of 2]
  by (simp add: rob_capacity_def) (simp add: make_rob_def)

end
