(* ===== verification/IssueQueue.thy ===== *)
theory IssueQueue
  imports Instruction Ring
begin

text \<open>
  \<^verbatim>\<open>src/src/issue_queue.h\<close>: the issue queue. Entries hold physical tags and ready bits in
  dispatch order; \<open>wakeup\<close> is a tag broadcast and \<open>select\<close> an oldest-first scan.
\<close>

record IqEntry =
  iq_seq :: SeqNum
  iq_rob :: RobIndex
  iq_kind :: OpKind
  iq_src1 :: PhysReg
  iq_src2 :: PhysReg
  iq_dest :: PhysReg
  iq_src1_ready :: bool
  iq_src2_ready :: bool
  iq_latency :: nat

definition iq_ready :: "IqEntry \<Rightarrow> bool" where
  "iq_ready e \<longleftrightarrow> iq_src1_ready e \<and> iq_src2_ready e"

record IssueQueue =
  iq_entries :: "IqEntry list"
  iq_capacity :: nat

definition make_iq :: "nat \<Rightarrow> IssueQueue" where
  "make_iq capacity = \<lparr>iq_entries = [], iq_capacity = capacity\<rparr>"

definition iq_full :: "IssueQueue \<Rightarrow> bool" where
  "iq_full q \<longleftrightarrow> iq_capacity q \<le> length (iq_entries q)"

definition iq_insert :: "IqEntry \<Rightarrow> IssueQueue \<Rightarrow> IssueQueue" where
  "iq_insert e q = q\<lparr>iq_entries := iq_entries q @ [e]\<rparr>"

definition wake_entry :: "PhysReg \<Rightarrow> IqEntry \<Rightarrow> IqEntry" where
  "wake_entry p e =
     (let e = (if \<not> iq_src1_ready e \<and> iq_src1 e = p then e\<lparr>iq_src1_ready := True\<rparr> else e)
      in if \<not> iq_src2_ready e \<and> iq_src2 e = p then e\<lparr>iq_src2_ready := True\<rparr> else e)"

definition iq_wakeup :: "PhysReg \<Rightarrow> IssueQueue \<Rightarrow> IssueQueue" where
  "iq_wakeup p q =
     (if p = INVALID_PHYSREG then q else q\<lparr>iq_entries := map (wake_entry p) (iq_entries q)\<rparr>)"

text \<open>The scan of \<open>select\<close>: \<open>out\<close> is what has been collected so far.\<close>

primrec select_scan :: "nat \<Rightarrow> IqEntry list \<Rightarrow> IqEntry list \<Rightarrow> IqEntry list" where
  "select_scan limit out [] = out"
| "select_scan limit out (e # es) =
     (if limit \<le> length out then out
      else select_scan limit (if iq_ready e then out @ [e] else out) es)"

definition iq_select :: "nat \<Rightarrow> IssueQueue \<Rightarrow> IqEntry list" where
  "iq_select limit q = select_scan limit [] (iq_entries q)"

primrec erase_first :: "SeqNum \<Rightarrow> IqEntry list \<Rightarrow> IqEntry list" where
  "erase_first s [] = []"
| "erase_first s (e # es) = (if iq_seq e = s then es else e # erase_first s es)"

definition iq_erase :: "SeqNum \<Rightarrow> IssueQueue \<Rightarrow> IssueQueue" where
  "iq_erase s q = q\<lparr>iq_entries := erase_first s (iq_entries q)\<rparr>"

definition iq_squash_after :: "SeqNum \<Rightarrow> IssueQueue \<Rightarrow> IssueQueue" where
  "iq_squash_after s q = q\<lparr>iq_entries := filter (\<lambda>e. iq_seq e \<le> s) (iq_entries q)\<rparr>"

definition iq_clear :: "IssueQueue \<Rightarrow> IssueQueue" where
  "iq_clear q = q\<lparr>iq_entries := []\<rparr>"

section \<open>Select\<close>

lemma select_scan_eq:
  "length out \<le> limit \<Longrightarrow>
   select_scan limit out es = out @ take (limit - length out) (filter iq_ready es)"
proof (induction es arbitrary: out)
  case Nil
  then show ?case by simp
next
  case (Cons e es)
  show ?case
  proof (cases "limit \<le> length out")
    case True
    with Cons.prems show ?thesis by simp
  next
    case False
    then obtain k where "limit - length out = Suc k" by (metis Suc_diff_Suc not_le)
    moreover from this have "limit - Suc (length out) = k" by simp
    ultimately show ?thesis using False Cons.IH [of "out @ [e]"] Cons.IH [of out]
      by (simp add: Suc_leI)
  qed
qed

lemma iq_select_eq: "iq_select limit q = take limit (filter iq_ready (iq_entries q))"
  by (simp add: iq_select_def select_scan_eq)

lemma iq_select_all: "iq_select (length (iq_entries q)) q = filter iq_ready (iq_entries q)"
  by (simp add: iq_select_eq)

section \<open>Wakeup\<close>

lemma wake_entry_tags [simp]:
  "iq_seq (wake_entry p e) = iq_seq e" "iq_rob (wake_entry p e) = iq_rob e"
  "iq_src1 (wake_entry p e) = iq_src1 e" "iq_src2 (wake_entry p e) = iq_src2 e"
  "iq_dest (wake_entry p e) = iq_dest e" "iq_kind (wake_entry p e) = iq_kind e"
  "iq_latency (wake_entry p e) = iq_latency e"
  by (simp_all add: wake_entry_def Let_def)

lemma wake_entry_bits:
  "iq_src1_ready (wake_entry p e) \<longleftrightarrow> iq_src1_ready e \<or> iq_src1 e = p"
  "iq_src2_ready (wake_entry p e) \<longleftrightarrow> iq_src2_ready e \<or> iq_src2 e = p"
  by (auto simp: wake_entry_def Let_def)

section \<open>Erase\<close>

lemma erase_first_eq:
  "distinct (map iq_seq es) \<Longrightarrow> erase_first s es = filter (\<lambda>e. iq_seq e \<noteq> s) es"
proof (induction es)
  case Nil
  then show ?case by simp
next
  case (Cons e es)
  then have "filter (\<lambda>x. iq_seq x \<noteq> s) es = es" if "iq_seq e = s"
    using that unfolding filter_id_conv by (metis distinct.simps(2) image_eqI image_set list.simps(9))
  with Cons show ?case by simp
qed

lemma set_erase_first: "set (erase_first s es) \<subseteq> set es"
  by (induction es) auto

lemma length_erase_first:
  "s \<in> iq_seq ` set es \<Longrightarrow> length es = Suc (length (erase_first s es))"
  by (induction es) auto

interpretation iq: program_order iq_entries iq_seq "\<lambda>_. True" iq_squash_after
  by unfold_locales (simp add: iq_squash_after_def)

section \<open>Properties\<close>

text \<open>C36: Select offers the oldest ready entries: the first \<open>limit\<close> entries, in program
  order, whose two operands are available, and no other.\<close>

theorem select_oldest_ready:
  "iq_select limit q = take limit (filter iq_ready (iq_entries q))"
  by (rule iq_select_eq)

text \<open>Broadcasting a tag makes ready exactly the operands that wait on it: the queue keeps
  its order and its tags, an operand is available afterwards if it was before or names the
  broadcast tag, and the sentinel tag wakes nothing.\<close>

theorem wakeup_is_tag_compare:
  "iq_entries (iq_wakeup p q) = map (\<lambda>e. e
     \<lparr>iq_src1_ready := (iq_src1_ready e \<or> p \<noteq> INVALID_PHYSREG \<and> iq_src1 e = p),
      iq_src2_ready := (iq_src2_ready e \<or> p \<noteq> INVALID_PHYSREG \<and> iq_src2 e = p)\<rparr>) (iq_entries q)"
  by (auto simp: iq_wakeup_def wake_entry_def Let_def intro!: map_idI [symmetric])

text \<open>Recovery keeps the entries that are not younger than the branch, and recovering
  twice is recovering to the older of the two branches.\<close>

theorem issue_queue_squash:
  assumes "program_ordered iq_seq (iq_entries q)"
  shows "iq_entries (iq_squash_after s q) = takeWhile (\<lambda>e. iq_seq e \<le> s) (iq_entries q) \<and>
    iq_entries (iq_squash_after s (iq_squash_after t q)) = iq_entries (iq_squash_after (min s t) q)"
  using iq.squash_prefix [of q s] iq.squash_squash [of q s t] assms by simp


theorem issue_queue_squash_witness:
  "let e = \<lparr>iq_seq = 4, iq_rob = 0, iq_kind = Kind_ALU, iq_src1 = 1, iq_src2 = 2, iq_dest = 40,
            iq_src1_ready = True, iq_src2_ready = False, iq_latency = 1\<rparr>;
       q = iq_insert (e\<lparr>iq_seq := 7\<rparr>) (iq_insert e (make_iq 4))
   in map iq_seq (iq_entries (iq_squash_after 5 q)) = [4]"
proof -
  define e where "e = \<lparr>iq_seq = 4, iq_rob = 0, iq_kind = Kind_ALU, iq_src1 = 1, iq_src2 = 2,
    iq_dest = 40, iq_src1_ready = True, iq_src2_ready = False, iq_latency = 1\<rparr>"
  define q where "q = iq_insert (e\<lparr>iq_seq := 7\<rparr>) (iq_insert e (make_iq 4))"
  have q: "iq_entries q = [e, e\<lparr>iq_seq := 7\<rparr>]" by (simp add: q_def iq_insert_def make_iq_def)
  then have "program_ordered iq_seq (iq_entries q)" by (simp add: program_ordered_def e_def)
  then have "map iq_seq (iq_entries (iq_squash_after 5 q)) = [4]"
    using issue_queue_squash [of q 5 5] by (simp add: q e_def)
  then show ?thesis by (simp only: Let_def q_def e_def)
qed

end
