(* ===== verification/Stats.thy ===== *)
theory Stats
  imports Prelude
begin

text \<open>
  \<^verbatim>\<open>src/src/stats.h\<close>: the counters and the stall breakdown. The floating-point rates
  are reporting and are left out. Counters are naturals.
\<close>

datatype Stall =
    Stall_ROB_FULL | Stall_PHYSREG | Stall_CHECKPOINT | Stall_IQ_FULL | Stall_LQ_FULL
  | Stall_SQ_FULL | Stall_ALU_PORT | Stall_BRANCH_PORT | Stall_MUL_PORT | Stall_DIV_PORT
  | Stall_MEM_PORT | Stall_CDB | Stall_OPERANDS | Stall_STORE_ORDER | Stall_COUNT

definition all_stalls :: "Stall list" where
  "all_stalls = [Stall_ROB_FULL, Stall_PHYSREG, Stall_CHECKPOINT, Stall_IQ_FULL, Stall_LQ_FULL,
     Stall_SQ_FULL, Stall_ALU_PORT, Stall_BRANCH_PORT, Stall_MUL_PORT, Stall_DIV_PORT,
     Stall_MEM_PORT, Stall_CDB, Stall_OPERANDS, Stall_STORE_ORDER, Stall_COUNT]"

text \<open>\<open>static_cast\<close> from the enumeration to an index.\<close>

definition stall_index :: "Stall \<Rightarrow> nat" where
  "stall_index s = (case s of
       Stall_ROB_FULL \<Rightarrow> 0 | Stall_PHYSREG \<Rightarrow> 1 | Stall_CHECKPOINT \<Rightarrow> 2 | Stall_IQ_FULL \<Rightarrow> 3
     | Stall_LQ_FULL \<Rightarrow> 4 | Stall_SQ_FULL \<Rightarrow> 5 | Stall_ALU_PORT \<Rightarrow> 6 | Stall_BRANCH_PORT \<Rightarrow> 7
     | Stall_MUL_PORT \<Rightarrow> 8 | Stall_DIV_PORT \<Rightarrow> 9 | Stall_MEM_PORT \<Rightarrow> 10 | Stall_CDB \<Rightarrow> 11
     | Stall_OPERANDS \<Rightarrow> 12 | Stall_STORE_ORDER \<Rightarrow> 13 | Stall_COUNT \<Rightarrow> 14)"

lemma stall_index_inj: "stall_index s = stall_index t \<Longrightarrow> s = t"
  by (cases s; cases t) (simp_all add: stall_index_def)

lemma stall_index_le: "stall_index s \<le> 14"
  by (cases s) (simp_all add: stall_index_def)

lemma stall_index_COUNT: "stall_index s = 14 \<longleftrightarrow> s = Stall_COUNT"
  by (cases s) (simp_all add: stall_index_def)

lemma all_stalls_nth: "all_stalls ! stall_index s = s" "stall_index s < length all_stalls"
  by (cases s, simp_all add: stall_index_def all_stalls_def)+

lemma stall_index_nth: "i < 15 \<Longrightarrow> stall_index (all_stalls ! i) = i"
  unfolding all_stalls_def
  by (auto simp: stall_index_def less_Suc_eq eval_nat_numeral)

text \<open>The enumeration's order, in which the breakdown is scanned.\<close>

instantiation Stall :: linorder
begin

definition less_eq_Stall :: "Stall \<Rightarrow> Stall \<Rightarrow> bool" where
  "less_eq_Stall s t \<longleftrightarrow> stall_index s \<le> stall_index t"

definition less_Stall :: "Stall \<Rightarrow> Stall \<Rightarrow> bool" where
  "less_Stall s t \<longleftrightarrow> stall_index s < stall_index t"

instance
  by standard (auto simp: less_eq_Stall_def less_Stall_def dest: stall_index_inj)

end

record Stats =
  st_cycles :: nat
  st_fetched :: nat
  st_decoded :: nat
  st_renamed :: nat
  st_dispatched :: nat
  st_issued :: nat
  st_wrote_back :: nat
  st_retired :: nat
  st_squashed :: nat
  st_branches :: nat
  st_mispredicts :: nat
  st_btb_lookups :: nat
  st_btb_hits :: nat
  st_ras_pops :: nat
  st_ras_hits :: nat
  st_loads :: nat
  st_stores :: nat
  st_load_forwards :: nat
  st_load_replays :: nat
  st_load_memory :: nat
  st_stalls :: "nat list"

definition zero_stats :: Stats where
  "zero_stats = \<lparr>st_cycles = 0, st_fetched = 0, st_decoded = 0, st_renamed = 0,
     st_dispatched = 0, st_issued = 0, st_wrote_back = 0, st_retired = 0, st_squashed = 0,
     st_branches = 0, st_mispredicts = 0, st_btb_lookups = 0, st_btb_hits = 0, st_ras_pops = 0,
     st_ras_hits = 0, st_loads = 0, st_stores = 0, st_load_forwards = 0, st_load_replays = 0,
     st_load_memory = 0, st_stalls = replicate 14 0\<rparr>"

definition stats_stall :: "Stall \<Rightarrow> Stats \<Rightarrow> Stats" where
  "stats_stall s t = t\<lparr>st_stalls := (st_stalls t)[stall_index s := st_stalls t ! stall_index s + 1]\<rparr>"

definition stall_count :: "Stats \<Rightarrow> Stall \<Rightarrow> nat" where
  "stall_count t s = st_stalls t ! stall_index s"

primrec dominant_scan :: "Stats \<Rightarrow> nat list \<Rightarrow> Stall \<Rightarrow> nat \<Rightarrow> Stall" where
  "dominant_scan t [] best most = best"
| "dominant_scan t (i # is) best most =
     (if all_stalls ! i = Stall_OPERANDS then dominant_scan t is best most
      else if most < st_stalls t ! i then dominant_scan t is (all_stalls ! i) (st_stalls t ! i)
      else dominant_scan t is best most)"

definition dominant_stall :: "Stats \<Rightarrow> Stall" where
  "dominant_stall t = dominant_scan t [0..<length (st_stalls t)] Stall_COUNT 0"

section \<open>The dominant stall\<close>

text \<open>The first cause with the largest positive count, operand waits excepted.\<close>

definition blamed :: "Stats \<Rightarrow> Stall \<Rightarrow> nat" where
  "blamed t s = (if s = Stall_OPERANDS \<or> s = Stall_COUNT then 0 else stall_count t s)"

definition leads :: "Stats \<Rightarrow> nat \<Rightarrow> Stall \<Rightarrow> nat \<Rightarrow> bool" where
  "leads t k best most \<longleftrightarrow>
     (best = Stall_COUNT \<and> most = 0 \<or> 0 < most \<and> most = blamed t best \<and> stall_index best < k) \<and>
     (\<forall>s. stall_index s < k \<longrightarrow> blamed t s \<le> most \<and> (blamed t s = most \<and> 0 < most \<longrightarrow> best \<le> s))"

lemma leads_step:
  assumes "leads t k best most" "k < 14"
  defines "c \<equiv> all_stalls ! k"
  shows "leads t (Suc k) (if most < blamed t c then c else best) (if most < blamed t c then blamed t c else most)"
proof -
  have ck: "stall_index c = k" using assms(2) by (simp add: c_def stall_index_nth)
  have up_to_k: "stall_index s < Suc k \<longleftrightarrow> stall_index s < k \<or> s = c" for s
    using ck stall_index_inj [of s c] by (auto simp: less_Suc_eq)
  have old: "blamed t s \<le> most" "blamed t s = most \<Longrightarrow> 0 < most \<Longrightarrow> best \<le> s"
    if "stall_index s < k" for s
    using assms(1) that by (auto simp: leads_def)
  have best: "best = Stall_COUNT \<and> most = 0 \<or> 0 < most \<and> most = blamed t best \<and> stall_index best < k"
    using assms(1) by (simp add: leads_def)
  show ?thesis
  proof (cases "most < blamed t c")
    case True
    then have "0 < blamed t c" by simp
    moreover have "blamed t s \<le> blamed t c \<and> (blamed t s = blamed t c \<longrightarrow> c \<le> s)"
      if "stall_index s < Suc k" for s
      using that True old(1) [of s] by (auto simp: up_to_k)
    ultimately show ?thesis using True ck by (simp add: leads_def)
  next
    case False
    have "best \<le> c" if "0 < most"
      using best that ck by (auto simp: less_eq_Stall_def)
    then show ?thesis
      using False best old unfolding leads_def up_to_k by (auto simp: not_less less_Suc_eq)
  qed
qed

lemma dominant_scan_step:
  assumes "k < 14" "all_stalls ! k \<noteq> Stall_COUNT"
  shows "dominant_scan t (k # is) best most =
    (if most < blamed t (all_stalls ! k) then dominant_scan t is (all_stalls ! k) (blamed t (all_stalls ! k))
     else dominant_scan t is best most)"
  using assms by (simp add: blamed_def stall_count_def stall_index_nth)

lemma dominant_scan_leads:
  "leads t k best most \<Longrightarrow> k + n \<le> 14 \<Longrightarrow>
   \<exists>m. leads t (k + n) (dominant_scan t [k..<k + n] best most) m"
proof (induction n arbitrary: k best most)
  case 0
  then show ?case by auto
next
  case (Suc n)
  let ?c = "all_stalls ! k"
  have k: "k < 14" using Suc.prems(2) by simp
  then have nc: "?c \<noteq> Stall_COUNT" using stall_index_nth [of k] stall_index_COUNT [of ?c] by auto
  then have step: "dominant_scan t [k..<k + Suc n] best most =
      dominant_scan t [Suc k..<Suc k + n] (if most < blamed t ?c then ?c else best)
        (if most < blamed t ?c then blamed t ?c else most)"
  proof -
    have "[k..<k + Suc n] = k # [Suc k..<Suc k + n]" by (simp only: upt_conv_Cons add_Suc_right add_Suc less_add_Suc1)
    then show ?thesis using dominant_scan_step [OF k nc] by simp
  qed
  show ?case
    using Suc.IH [OF leads_step [OF Suc.prems(1) k]] Suc.prems(2) unfolding step by simp
qed

lemma dominant_stall_leads:
  assumes "length (st_stalls t) = 14"
  shows "\<exists>m. leads t 14 (dominant_stall t) m"
  using dominant_scan_leads [of t 0 Stall_COUNT 0 14] assms
  by (simp add: dominant_stall_def leads_def)

section \<open>Properties\<close>

text \<open>The dominant stall is the first cause with the largest count, operand waits
  excluded, and the sentinel when nothing stalled.\<close>

theorem dominant_stall_correct:
  assumes "length (st_stalls t) = 14"
  shows "(dominant_stall t = Stall_COUNT \<longleftrightarrow>
      (\<forall>s \<in> set all_stalls. s = Stall_OPERANDS \<or> s = Stall_COUNT \<or> stall_count t s = 0)) \<and>
    (\<forall>s. s \<noteq> Stall_OPERANDS \<and> s \<noteq> Stall_COUNT \<and> dominant_stall t \<noteq> Stall_COUNT \<longrightarrow>
      stall_count t s \<le> stall_count t (dominant_stall t) \<and>
      (stall_count t s = stall_count t (dominant_stall t) \<longrightarrow> dominant_stall t \<le> s))"
proof -
  define d where "d = dominant_stall t"
  obtain m where lead: "leads t 14 d m" using dominant_stall_leads [OF assms] by (auto simp: d_def)
  have idx: "stall_index s < 14" if "s \<noteq> Stall_COUNT" for s
    using stall_index_le [of s] stall_index_COUNT [of s] that by linarith
  have all: "s \<in> set all_stalls" for s using all_stalls_nth [of s] nth_mem by metis
  have d: "d = Stall_COUNT \<and> m = 0 \<or> 0 < m \<and> m = blamed t d \<and> d \<noteq> Stall_COUNT"
    using lead stall_index_COUNT [of d] by (auto simp: leads_def)
  have max: "blamed t s \<le> m \<and> (blamed t s = m \<and> 0 < m \<longrightarrow> d \<le> s)" if "s \<noteq> Stall_COUNT" for s
    using lead idx [OF that] by (simp add: leads_def)
  show ?thesis
    unfolding d_def [symmetric]
  proof (intro conjI)
    show "d = Stall_COUNT \<longleftrightarrow>
        (\<forall>s \<in> set all_stalls. s = Stall_OPERANDS \<or> s = Stall_COUNT \<or> stall_count t s = 0)"
    proof
      assume "d = Stall_COUNT"
      then have "blamed t s = 0" if "s \<noteq> Stall_COUNT" for s using d max [OF that] by simp
      then show "\<forall>s \<in> set all_stalls. s = Stall_OPERANDS \<or> s = Stall_COUNT \<or> stall_count t s = 0"
        unfolding blamed_def by metis
    next
      assume none: "\<forall>s \<in> set all_stalls. s = Stall_OPERANDS \<or> s = Stall_COUNT \<or> stall_count t s = 0"
      have "blamed t d = 0" using bspec [OF none all [of d]] by (auto simp: blamed_def)
      with d show "d = Stall_COUNT" by auto
    qed
    show "\<forall>s. s \<noteq> Stall_OPERANDS \<and> s \<noteq> Stall_COUNT \<and> d \<noteq> Stall_COUNT \<longrightarrow>
        stall_count t s \<le> stall_count t d \<and> (stall_count t s = stall_count t d \<longrightarrow> d \<le> s)"
    proof (intro allI impI)
      fix s assume s: "s \<noteq> Stall_OPERANDS \<and> s \<noteq> Stall_COUNT \<and> d \<noteq> Stall_COUNT"
      with d have m: "0 < m" "m = blamed t d" by auto
      then have "blamed t d = stall_count t d" by (auto simp: blamed_def split: if_splits)
      moreover have "blamed t s = stall_count t s" using s by (simp add: blamed_def)
      ultimately show "stall_count t s \<le> stall_count t d \<and> (stall_count t s = stall_count t d \<longrightarrow> d \<le> s)"
        using max [of s] m s by simp
    qed
  qed
qed

theorem dominant_stall_correct_witness:
  "let t = stats_stall Stall_CDB (stats_stall Stall_OPERANDS (stats_stall Stall_OPERANDS zero_stats))
   in dominant_stall t \<noteq> Stall_COUNT \<and> stall_count t Stall_ROB_FULL \<le> stall_count t (dominant_stall t)"
proof -
  define t where "t = stats_stall Stall_CDB (stats_stall Stall_OPERANDS (stats_stall Stall_OPERANDS zero_stats))"
  have "length (st_stalls t) = 14" by (simp add: t_def stats_stall_def zero_stats_def)
  moreover have "stall_count t Stall_CDB = 1"
    by (simp add: t_def stats_stall_def zero_stats_def stall_count_def stall_index_def)
  ultimately show ?thesis
    using dominant_stall_correct [of t] by (auto simp: all_stalls_def simp flip: t_def)
qed

end
