(* ===== verification/Ref.thy ===== *)
theory Ref
  imports Instruction Memory
begin

text \<open>
  \<^verbatim>\<open>src/tests/ref.h\<close>: the in-order interpreter the pipeline is validated against. Its
  \<open>run\<close> stops on a halt, a trap, or the instruction budget, so it is a total function.
  The optional printed trace is not modelled.
\<close>

definition SYS_EXIT :: u32 where "SYS_EXIT = 93"
definition REG_A0 :: ArchReg where "REG_A0 = 10"
definition REG_A7 :: ArchReg where "REG_A7 = 17"

record Result =
  rs_regs :: "u32 list"
  rs_pc :: u32
  rs_exit_code :: u32
  rs_retired :: nat
  rs_halted :: bool
  rs_trapped :: bool
  rs_budget :: bool

definition start_result :: "u32 \<Rightarrow> Result" where
  "start_result pc = \<lparr>rs_regs = replicate 32 0, rs_pc = pc, rs_exit_code = 0, rs_retired = 0,
     rs_halted = False, rs_trapped = False, rs_budget = False\<rparr>"

definition rs_done :: "Result \<Rightarrow> bool" where
  "rs_done st \<longleftrightarrow> rs_halted st \<or> rs_trapped st"

text \<open>The local variables the switch of \<open>step\<close> assigns, with memory and the result struct.\<close>

record Effect =
  ef_next_pc :: u32
  ef_result :: u32
  ef_has_result :: bool
  ef_mem :: Memory
  ef_st :: Result

definition ef_value :: "u32 \<Rightarrow> Effect \<Rightarrow> Effect" where
  "ef_value v e = e\<lparr>ef_result := v, ef_has_result := True\<rparr>"

definition ref_switch :: "Decoded \<Rightarrow> u32 \<Rightarrow> u32 \<Rightarrow> u32 \<Rightarrow> Effect \<Rightarrow> Effect" where
  "ref_switch d pc rs1 rs2 e =
     (let imm = d_imm d;
          opb = (if uses_immediate d then imm else rs2);
          mem = ef_mem e; st = ef_st e
      in case d_op d of
       Op_ADD \<Rightarrow> ef_value (alu_add rs1 opb) e
     | Op_SUB \<Rightarrow> ef_value (alu_sub rs1 rs2) e
     | Op_SLL \<Rightarrow> ef_value (alu_sll rs1 opb) e
     | Op_SRL \<Rightarrow> ef_value (alu_srl rs1 opb) e
     | Op_SRA \<Rightarrow> ef_value (alu_sra rs1 opb) e
     | Op_AND \<Rightarrow> ef_value (alu_and rs1 opb) e
     | Op_OR \<Rightarrow> ef_value (alu_or rs1 opb) e
     | Op_XOR \<Rightarrow> ef_value (alu_xor rs1 opb) e
     | Op_SLT \<Rightarrow> ef_value (alu_slt rs1 opb) e
     | Op_SLTU \<Rightarrow> ef_value (alu_sltu rs1 opb) e
     | Op_LUI \<Rightarrow> ef_value imm e
     | Op_AUIPC \<Rightarrow> ef_value (pc + imm) e
     | Op_MUL \<Rightarrow> ef_value (alu_mul rs1 rs2) e
     | Op_MULH \<Rightarrow> ef_value (alu_mulh rs1 rs2) e
     | Op_MULHSU \<Rightarrow> ef_value (alu_mulhsu rs1 rs2) e
     | Op_MULHU \<Rightarrow> ef_value (alu_mulhu rs1 rs2) e
     | Op_DIV \<Rightarrow> ef_value (alu_div rs1 rs2) e
     | Op_DIVU \<Rightarrow> ef_value (alu_divu rs1 rs2) e
     | Op_REM \<Rightarrow> ef_value (alu_rem rs1 rs2) e
     | Op_REMU \<Rightarrow> ef_value (alu_remu rs1 rs2) e
     | Op_BEQ \<Rightarrow> (if alu_beq rs1 rs2 then e\<lparr>ef_next_pc := pc + imm\<rparr> else e)
     | Op_BNE \<Rightarrow> (if alu_bne rs1 rs2 then e\<lparr>ef_next_pc := pc + imm\<rparr> else e)
     | Op_BLT \<Rightarrow> (if alu_blt rs1 rs2 then e\<lparr>ef_next_pc := pc + imm\<rparr> else e)
     | Op_BGE \<Rightarrow> (if alu_bge rs1 rs2 then e\<lparr>ef_next_pc := pc + imm\<rparr> else e)
     | Op_BLTU \<Rightarrow> (if alu_bltu rs1 rs2 then e\<lparr>ef_next_pc := pc + imm\<rparr> else e)
     | Op_BGEU \<Rightarrow> (if alu_bgeu rs1 rs2 then e\<lparr>ef_next_pc := pc + imm\<rparr> else e)
     | Op_JAL \<Rightarrow> (ef_value (pc + 4) e)\<lparr>ef_next_pc := pc + imm\<rparr>
     | Op_JALR \<Rightarrow> (ef_value (pc + 4) e)\<lparr>ef_next_pc := (rs1 + imm) AND NOT 1\<rparr>
     | Op_LB \<Rightarrow> ef_value (scast (load_u8 mem (rs1 + imm))) e
     | Op_LH \<Rightarrow> ef_value (scast (load_u16 mem (rs1 + imm))) e
     | Op_LW \<Rightarrow> ef_value (load_u32 mem (rs1 + imm)) e
     | Op_LBU \<Rightarrow> ef_value (ucast (load_u8 mem (rs1 + imm))) e
     | Op_LHU \<Rightarrow> ef_value (ucast (load_u16 mem (rs1 + imm))) e
     | Op_SB \<Rightarrow> e\<lparr>ef_mem := store_u8 mem (rs1 + imm) (ucast rs2)\<rparr>
     | Op_SH \<Rightarrow> e\<lparr>ef_mem := store_u16 mem (rs1 + imm) (ucast rs2)\<rparr>
     | Op_SW \<Rightarrow> e\<lparr>ef_mem := store_u32 mem (rs1 + imm) rs2\<rparr>
     | Op_FENCE \<Rightarrow> e
     | Op_FENCE_I \<Rightarrow> e
     | Op_ECALL \<Rightarrow>
         (if rs_regs st ! REG_A7 = SYS_EXIT
          then e\<lparr>ef_st := st\<lparr>rs_exit_code := rs_regs st ! REG_A0, rs_halted := True\<rparr>\<rparr>
          else e\<lparr>ef_st := st\<lparr>rs_trapped := True\<rparr>\<rparr>)
     | Op_EBREAK \<Rightarrow> e\<lparr>ef_st := st\<lparr>rs_trapped := True\<rparr>\<rparr>
     | Op_INVALID \<Rightarrow> e\<lparr>ef_st := st\<lparr>rs_trapped := True\<rparr>\<rparr>)"

definition ref_step :: "Memory \<times> Result \<Rightarrow> Memory \<times> Result" where
  "ref_step ms =
     (let (mem, st) = ms;
          pc = rs_pc st;
          d = decode (load_u32 mem pc);
          e = ref_switch d pc (rs_regs st ! d_rs1 d) (rs_regs st ! d_rs2 d)
                \<lparr>ef_next_pc = pc + 4, ef_result = 0, ef_has_result = False, ef_mem = mem, ef_st = st\<rparr>;
          st = ef_st e;
          regs = (if ef_has_result e \<and> d_writes_rd d then (rs_regs st)[d_rd d := ef_result e]
                  else rs_regs st);
          st = st\<lparr>rs_regs := regs[0 := 0]\<rparr>;
          st = st\<lparr>rs_pc := (if rs_done st then pc else ef_next_pc e)\<rparr>
      in (ef_mem e, st\<lparr>rs_retired := rs_retired st + 1\<rparr>))"

lemmas ref_switch_simps = ref_switch_def ef_value_def Let_def

lemma ref_switch_retired [simp]:
  "rs_retired (ef_st (ref_switch d pc a b e)) = rs_retired (ef_st e)"
  "rs_regs (ef_st (ref_switch d pc a b e)) = rs_regs (ef_st e)"
  "rs_budget (ef_st (ref_switch d pc a b e)) = rs_budget (ef_st e)"
  by (cases "d_op d"; simp add: ref_switch_simps)+

lemma ref_step_retired [simp]: "rs_retired (snd (ref_step ms)) = Suc (rs_retired (snd ms))"
  by (simp add: ref_step_def Let_def split_beta)

function ref_run :: "nat \<Rightarrow> Memory \<times> Result \<Rightarrow> Memory \<times> Result" where
  "ref_run max_insts ms =
     (if rs_done (snd ms) then ms
      else if max_insts \<le> rs_retired (snd ms) then (fst ms, (snd ms)\<lparr>rs_budget := True\<rparr>)
      else ref_run max_insts (ref_step ms))"
  by pat_completeness auto
termination
  by (relation "measure (\<lambda>(n, ms). n - rs_retired (snd ms))") auto

declare ref_run.simps [simp del]

text \<open>What every reachable result satisfies: 32 registers, \<open>x0\<close> zero.\<close>

definition regs_ok :: "u32 list \<Rightarrow> bool" where
  "regs_ok regs \<longleftrightarrow> length regs = 32 \<and> regs ! 0 = 0"

lemma ref_step_regs_ok: "regs_ok (rs_regs (snd ms)) \<Longrightarrow> regs_ok (rs_regs (snd (ref_step ms)))"
  by (simp add: ref_step_def Let_def split_beta regs_ok_def)

lemma ref_run_stops:
  "let st = snd (ref_run n ms) in rs_done st \<or> rs_budget st \<and> n \<le> rs_retired st"
proof (induction n ms rule: ref_run.induct)
  case (1 n ms)
  then show ?case
    by (subst ref_run.simps) (auto simp: Let_def rs_done_def)
qed

section \<open>Properties\<close>

text \<open>C38: The reference interpreter is total: with an instruction budget it stops on every
  program, either halted or trapped, or with the budget flag after exactly the budgeted
  number of instructions, and \<open>x0\<close> reads zero in the result.\<close>

theorem reference_run_stops:
  "let st = snd (ref_run n (m, start_result pc)) in
     (rs_done st \<or> rs_budget st \<and> rs_retired st = n) \<and> rs_retired st \<le> n \<and> regs_ok (rs_regs st)"
proof -
  have "rs_retired (snd ms) \<le> n \<Longrightarrow> regs_ok (rs_regs (snd ms)) \<Longrightarrow>
      rs_retired (snd (ref_run n ms)) \<le> n \<and> regs_ok (rs_regs (snd (ref_run n ms)))" for ms
  proof (induction n ms rule: ref_run.induct)
    case (1 n ms)
    then show ?case by (subst (1 2) ref_run.simps) (simp add: ref_step_regs_ok)
  qed
  from this [of "(m, start_result pc)"] show ?thesis
    using ref_run_stops [of n "(m, start_result pc)"]
    by (auto simp: Let_def start_result_def regs_ok_def)
qed

end
