(* ===== verification/Cpu.thy ===== *)
theory Cpu
  imports Uop Rob IssueQueue Stats Ref
begin

text \<open>
  \<^verbatim>\<open>src/src/cpu.h\<close> and \<^verbatim>\<open>src/src/cpu.cpp\<close>: the machine state and its eight stage
  functions, each loop as a bounded scan over the work the code walks, and \<open>tick\<close> and \<open>run\<close>.
  What an observer records lives in a record of its own; an event line is a constructor
  with the arguments of its format string. Reading a checkpoint outside the pool is
  undefined in C++; the model records it in \<open>c_undefined\<close>.
\<close>

section \<open>State\<close>

datatype Event =
    Ev_predict u32 u32 bool
  | Ev_rename SeqNum u32 "(ArchReg \<times> PhysReg \<times> PhysReg) option"
  | Ev_replay SeqNum
  | Ev_issue SeqNum "(nat \<times> nat) option" nat
  | Ev_mispredict SeqNum nat u32
  | Ev_forward SeqNum u32 u32
  | Ev_writeback SeqNum "(PhysReg \<times> u32) option"
  | Ev_retire SeqNum u32
  | Ev_trap u32
  | Ev_halt u32
  | Ev_squashed nat

record DecodeRecord =
  dr_cycle :: nat
  dr_pc :: u32
  dr_raw :: u32

record RenameRecord =
  rr_cycle :: nat
  rr_seq :: SeqNum
  rr_pc :: u32
  rr_rd :: ArchReg
  rr_dest :: PhysReg
  rr_stale :: PhysReg
  rr_src1 :: PhysReg
  rr_src2 :: PhysReg

record IssueRecord =
  ir_cycle :: nat
  ir_seq :: SeqNum
  ir_pc :: u32
  ir_dest :: PhysReg
  ir_wb_cycle :: nat

record Observer =
  o_observing :: bool
  o_events :: "Event list"
  o_squashed_seqs :: "SeqNum list"
  o_retired_seqs :: "SeqNum list"
  o_record_decode :: bool
  o_record_rename :: bool
  o_record_issue :: bool
  o_decode_log :: "DecodeRecord list"
  o_rename_log :: "RenameRecord list"
  o_issue_log :: "IssueRecord list"

definition quiet :: Observer where
  "quiet = \<lparr>o_observing = False, o_events = [], o_squashed_seqs = [], o_retired_seqs = [],
     o_record_decode = False, o_record_rename = False, o_record_issue = False,
     o_decode_log = [], o_rename_log = [], o_issue_log = []\<rparr>"

datatype Fu = Fu_ALU | Fu_BRANCH | Fu_MUL | Fu_DIV | Fu_MEM | Fu_NONE

definition fu_index :: "Fu \<Rightarrow> nat" where
  "fu_index f = (case f of Fu_ALU \<Rightarrow> 0 | Fu_BRANCH \<Rightarrow> 1 | Fu_MUL \<Rightarrow> 2 | Fu_DIV \<Rightarrow> 3
     | Fu_MEM \<Rightarrow> 4 | Fu_NONE \<Rightarrow> 5)"

record Cpu =
  c_mem :: Memory
  c_cfg :: Config
  c_rob :: Rob
  c_prf :: Prf
  c_free_list :: FreeList
  c_rat :: Rat
  c_ckpts :: CheckpointPool
  c_iq :: IssueQueue
  c_lsq :: Lsq
  c_bpred :: BranchPredictor
  c_inflight :: "Uop list"
  c_arch_rat :: "PhysReg list"
  c_pc :: u32
  c_arch_pc :: u32
  c_fetch_q :: "Uop list"
  c_decode_q :: "Uop list"
  c_rename_q :: "Uop list"
  c_executing :: "Uop list"
  c_wb_fast :: "Uop list"
  c_wb_slow :: "Uop list"
  c_fu_free_at :: "nat list list"
  c_cdb_booked :: "nat list"
  c_cdb_window :: nat
  c_queue_cap :: nat
  c_fetch_stalled :: bool
  c_cycle :: nat
  c_halted :: bool
  c_trapped :: bool
  c_exit_code :: u32
  c_trap_cause :: TrapCause
  c_commit_in_order :: bool
  c_last_committed_seq :: SeqNum
  c_stats :: Stats
  c_next_uid :: nat
  c_obs :: Observer
  c_undefined :: bool

definition make_cpu :: "Memory \<Rightarrow> Config \<Rightarrow> u32 \<Rightarrow> Cpu" where
  "make_cpu mem cfg entry_pc =
     (let window = cdb_window_of cfg
      in \<lparr>c_mem = mem, c_cfg = cfg, c_rob = make_rob (cfg_rob_size cfg),
          c_prf = make_prf (cfg_prf_size cfg), c_free_list = make_free_list (cfg_prf_size cfg),
          c_rat = make_rat, c_ckpts = make_checkpoint_pool (cfg_num_checkpoints cfg),
          c_iq = make_iq (cfg_iq_size cfg), c_lsq = make_lsq (cfg_lq_size cfg) (cfg_sq_size cfg),
          c_bpred = make_predictor cfg,
          c_inflight = replicate (cfg_rob_size cfg) default_uop,
          c_arch_rat = [0..<32], c_pc = entry_pc, c_arch_pc = entry_pc,
          c_fetch_q = [], c_decode_q = [], c_rename_q = [], c_executing = [], c_wb_fast = [],
          c_wb_slow = [],
          c_fu_free_at = [replicate (cfg_num_alu cfg) 0, replicate (cfg_num_branch cfg) 0,
            replicate (cfg_num_mul cfg) 0, replicate (cfg_num_div cfg) 0,
            replicate (cfg_num_mem cfg) 0],
          c_cdb_booked = replicate window 0, c_cdb_window = window,
          c_queue_cap = queue_cap_of cfg, c_fetch_stalled = False, c_cycle = 0,
          c_halted = False, c_trapped = False, c_exit_code = 0, c_trap_cause = Trap_NONE,
          c_commit_in_order = True, c_last_committed_seq = INVALID_SEQNUM, c_stats = zero_stats,
          c_next_uid = 0, c_obs = quiet, c_undefined = False\<rparr>)"

definition cpu_done :: "Cpu \<Rightarrow> bool" where
  "cpu_done c \<longleftrightarrow> c_halted c \<or> c_trapped c"

definition cpu_reg :: "Cpu \<Rightarrow> ArchReg \<Rightarrow> u32" where
  "cpu_reg c r = prf_read (c_prf c) (c_arch_rat c ! r)"

definition cpu_regs :: "Cpu \<Rightarrow> u32 list" where
  "cpu_regs c = map (\<lambda>a. prf_read (c_prf c) (c_arch_rat c ! a)) [0..<32]"

definition cpu_idle :: "Cpu \<Rightarrow> bool" where
  "cpu_idle c \<longleftrightarrow> c_fetch_q c = [] \<and> c_decode_q c = [] \<and> c_rename_q c = [] \<and>
     iq_entries (c_iq c) = [] \<and> c_executing c = [] \<and> c_wb_fast c = [] \<and> c_wb_slow c = [] \<and>
     rob_empty (c_rob c) \<and> lqq_count (lsq_loads (c_lsq c)) = 0 \<and>
     lqq_count (lsq_stores (c_lsq c)) = 0"

definition upd_stats :: "(Stats \<Rightarrow> Stats) \<Rightarrow> Cpu \<Rightarrow> Cpu" where
  "upd_stats f c = c\<lparr>c_stats := f (c_stats c)\<rparr>"

abbreviation cpu_stall :: "Stall \<Rightarrow> Cpu \<Rightarrow> Cpu" where
  "cpu_stall s \<equiv> upd_stats (stats_stall s)"

definition upd_obs :: "(Observer \<Rightarrow> Observer) \<Rightarrow> Cpu \<Rightarrow> Cpu" where
  "upd_obs f c = c\<lparr>c_obs := f (c_obs c)\<rparr>"

definition event :: "Event \<Rightarrow> Cpu \<Rightarrow> Cpu" where
  "event e = upd_obs (\<lambda>b. if o_observing b then b\<lparr>o_events := o_events b @ [e]\<rparr> else b)"

definition note_squashed :: "SeqNum \<Rightarrow> Cpu \<Rightarrow> Cpu" where
  "note_squashed s =
     upd_obs (\<lambda>b. if o_observing b then b\<lparr>o_squashed_seqs := o_squashed_seqs b @ [s]\<rparr> else b)"

definition note_retired :: "SeqNum \<Rightarrow> Cpu \<Rightarrow> Cpu" where
  "note_retired s =
     upd_obs (\<lambda>b. if o_observing b then b\<lparr>o_retired_seqs := o_retired_seqs b @ [s]\<rparr> else b)"

section \<open>Fetch\<close>

definition fetch_one :: "Cpu \<Rightarrow> Cpu \<times> bool" where
  "fetch_one c =
     (if c_queue_cap c \<le> length (c_fetch_q c) then (c, False)
      else
        let pc = c_pc c;
            ghr_before = gs_ghr (bp_gshare (c_bpred c));
            (pr, bp) = bp_predict (c_bpred c) pc;
            u = default_uop\<lparr>u_uid := c_next_uid c,
                  u_at := (u_at default_uop)\<lparr>at_fetch := c_cycle c\<rparr>,
                  u_pc := pc, u_raw := load_u32 (c_mem c) pc,
                  u_pred_taken := pr_taken pr, u_pred_target := pr_target pr,
                  u_btb_hit := pr_btb_hit pr, u_from_ras := pr_from_ras pr,
                  u_pht_index := pr_pht_index pr,
                  u_fe_snap := \<lparr>snap_ghr = ghr_before, snap_ras = bp_ras bp\<rparr>\<rparr>;
            c = c\<lparr>c_next_uid := (c_next_uid c + 1) mod 2 ^ 32, c_bpred := bp,
                  c_pc := (if pr_taken pr then pr_target pr else pc + 4),
                  c_fetch_q := c_fetch_q c @ [u]\<rparr>;
            c = upd_stats (\<lambda>s. s\<lparr>st_fetched := st_fetched s + 1\<rparr>) c
        in if pr_taken pr then (event (Ev_predict pc (pr_target pr) (pr_from_ras pr)) c, False)
           else (c, True))"

definition fetch :: "Cpu \<Rightarrow> Cpu" where
  "fetch c = (if c_fetch_stalled c then c else stage_loop (cfg_width (c_cfg c)) fetch_one c)"

section \<open>Decode\<close>

definition log_decode :: "Uop \<Rightarrow> Cpu \<Rightarrow> Cpu" where
  "log_decode u c = upd_obs (\<lambda>b. if o_record_decode b
      then b\<lparr>o_decode_log := o_decode_log b @ [\<lparr>dr_cycle = c_cycle c, dr_pc = u_pc u, dr_raw = u_raw u\<rparr>]\<rparr>
      else b) c"

definition decode_uop :: "nat \<Rightarrow> Uop \<Rightarrow> Uop" where
  "decode_uop cycle u =
     (let d = decode (u_raw u);
          u = u\<lparr>u_at := (u_at u)\<lparr>at_decode := cycle\<rparr>, u_dec := d, u_next_pc := u_pc u + 4,
               u_bkind := classify d\<rparr>
      in if d_op d = Op_INVALID then u\<lparr>u_trap := Trap_ILLEGAL\<rparr> else u)"

definition decode_one :: "Cpu \<Rightarrow> Cpu \<times> bool" where
  "decode_one c =
     (case c_fetch_q c of
        [] \<Rightarrow> (c, False)
      | f # rest \<Rightarrow>
          if c_queue_cap c \<le> length (c_decode_q c) then (c, False)
          else
            let u = decode_uop (c_cycle c) f;
                c = c\<lparr>c_fetch_q := rest, c_decode_q := c_decode_q c @ [u]\<rparr>;
                c = upd_stats (\<lambda>s. s\<lparr>st_decoded := st_decoded s + 1\<rparr>) c;
                c = log_decode u c
            in if d_kind (u_dec u) = Kind_TRAP
               then (c\<lparr>c_fetch_q := [], c_fetch_stalled := True\<rparr>, False)
               else (c, True))"

definition decode_stage :: "Cpu \<Rightarrow> Cpu" where
  "decode_stage c = stage_loop (cfg_width (c_cfg c)) decode_one c"

section \<open>Rename\<close>

definition log_rename :: "Uop \<Rightarrow> Cpu \<Rightarrow> Cpu" where
  "log_rename u c = upd_obs (\<lambda>b. if o_record_rename b
      then b\<lparr>o_rename_log := o_rename_log b @ [\<lparr>rr_cycle = c_cycle c, rr_seq = u_seq u,
             rr_pc = u_pc u, rr_rd = (if d_writes_rd (u_dec u) then d_rd (u_dec u) else INVALID_ARCHREG),
             rr_dest = u_dest u, rr_stale = u_stale u, rr_src1 = u_src1 u, rr_src2 = u_src2 u\<rparr>]\<rparr>
      else b) c"

text \<open>The destination: a free register, or the sentinel when the uop writes none.\<close>

definition take_dest :: "bool \<Rightarrow> Cpu \<Rightarrow> (PhysReg \<times> Cpu) option" where
  "take_dest needs_reg c =
     (if needs_reg then
        (case fl_alloc (c_free_list c) of
           None \<Rightarrow> None
         | Some (r, f) \<Rightarrow> Some (r, c\<lparr>c_free_list := f\<rparr>))
      else Some (INVALID_PHYSREG, c))"

text \<open>Steps 1 to 5 of the transaction: sources, displaced mapping, new mapping, pending.\<close>

definition map_regs :: "PhysReg \<Rightarrow> Uop \<Rightarrow> Cpu \<Rightarrow> Uop \<times> Cpu" where
  "map_regs dest u c =
     (let u = u\<lparr>u_src1 := rat_map (c_rat c) (d_rs1 (u_dec u)),
               u_src2 := rat_map (c_rat c) (d_rs2 (u_dec u))\<rparr>
      in if d_writes_rd (u_dec u) then
           (u\<lparr>u_stale := rat_map (c_rat c) (d_rd (u_dec u)), u_dest := dest\<rparr>,
            c\<lparr>c_rat := rat_set (c_rat c) (d_rd (u_dec u)) dest,
              c_prf := prf_mark_pending (c_prf c) dest\<rparr>)
         else (u, c))"

text \<open>A branch snapshots the mapping, its own destination included.\<close>

definition take_checkpoint :: "Uop \<Rightarrow> Cpu \<Rightarrow> Uop \<times> Cpu" where
  "take_checkpoint u c =
     (if d_is_branch (u_dec u) then
        (case cp_alloc (c_ckpts c) of
           None \<Rightarrow> (u, c\<lparr>c_undefined := True\<rparr>)
         | Some (i, p) \<Rightarrow>
             (u\<lparr>u_ckpt := i\<rparr>,
              c\<lparr>c_ckpts := cp_write p i \<lparr>ck_rat = c_rat c, ck_front_end = u_fe_snap u\<rparr>\<rparr>))
      else (u, c))"

definition rob_entry_of :: "Uop \<Rightarrow> RobEntry" where
  "rob_entry_of u = default_rob_entry\<lparr>re_pc := u_pc u, re_next_pc := u_next_pc u,
     re_dest_arch := (if d_writes_rd (u_dec u) then d_rd (u_dec u) else INVALID_ARCHREG),
     re_dest_phys := u_dest u, re_stale_phys := u_stale u,
     re_is_branch := d_is_branch (u_dec u), re_is_store := d_is_store (u_dec u),
     re_ckpt := u_ckpt u\<rparr>"

definition enter_rob :: "Uop \<Rightarrow> Cpu \<Rightarrow> Uop \<times> Cpu" where
  "enter_rob u c =
     (let (idx, rob) = rob_allocate (rob_entry_of u) (c_rob c);
          u = u\<lparr>u_rob := idx, u_seq := re_seq (rob_at rob idx)\<rparr>
      in (u, c\<lparr>c_rob := rob, c_inflight := (c_inflight c)[idx := u],
               c_rename_q := c_rename_q c @ [u]\<rparr>))"

definition rename_uop :: "PhysReg \<Rightarrow> Uop \<Rightarrow> Cpu \<Rightarrow> Cpu" where
  "rename_uop dest u c =
     (let u = u\<lparr>u_at := (u_at u)\<lparr>at_rename := c_cycle c\<rparr>\<rparr>;
          (u, c) = map_regs dest u c;
          (u, c) = take_checkpoint u c;
          (u, c) = enter_rob u c;
          c = upd_stats (\<lambda>s. s\<lparr>st_renamed := st_renamed s + 1\<rparr>) c;
          c = event (Ev_rename (u_seq u) (u_pc u)
                (if d_writes_rd (u_dec u) then Some (d_rd (u_dec u), u_dest u, u_stale u) else None)) c
      in log_rename u c)"

definition rename_one :: "Cpu \<Rightarrow> Cpu \<times> bool" where
  "rename_one c =
     (case c_decode_q c of
        [] \<Rightarrow> (c, False)
      | u # rest \<Rightarrow>
          if c_queue_cap c \<le> length (c_rename_q c) then (c, False)
          else if rob_full (c_rob c) then (cpu_stall Stall_ROB_FULL c, False)
          else if d_is_branch (u_dec u) \<and> cp_free (c_ckpts c) = []
          then (cpu_stall Stall_CHECKPOINT c, False)
          else
            (case take_dest (d_writes_rd (u_dec u)) c of
               None \<Rightarrow> (cpu_stall Stall_PHYSREG c, False)
             | Some (dest, c) \<Rightarrow> (rename_uop dest u (c\<lparr>c_decode_q := rest\<rparr>), True)))"

definition rename_stage :: "Cpu \<Rightarrow> Cpu" where
  "rename_stage c = stage_loop (cfg_width (c_cfg c)) rename_one c"

section \<open>Dispatch\<close>

definition unit_of :: "Decoded \<Rightarrow> Fu" where
  "unit_of d = (case d_kind d of
       Kind_ALU \<Rightarrow> Fu_ALU | Kind_BRANCH \<Rightarrow> Fu_BRANCH | Kind_MUL \<Rightarrow> Fu_MUL | Kind_DIV \<Rightarrow> Fu_DIV
     | Kind_LOAD \<Rightarrow> Fu_MEM | Kind_STORE \<Rightarrow> Fu_MEM | Kind_NOP \<Rightarrow> Fu_NONE | Kind_TRAP \<Rightarrow> Fu_NONE)"

definition port_stall :: "Fu \<Rightarrow> Stall" where
  "port_stall f = (case f of
       Fu_ALU \<Rightarrow> Stall_ALU_PORT | Fu_BRANCH \<Rightarrow> Stall_BRANCH_PORT | Fu_MUL \<Rightarrow> Stall_MUL_PORT
     | Fu_DIV \<Rightarrow> Stall_DIV_PORT | Fu_MEM \<Rightarrow> Stall_MEM_PORT | Fu_NONE \<Rightarrow> Stall_MEM_PORT)"

definition latency_of :: "Config \<Rightarrow> Decoded \<Rightarrow> nat" where
  "latency_of cfg d = max 1 (case d_kind d of
       Kind_ALU \<Rightarrow> cfg_alu_latency cfg | Kind_BRANCH \<Rightarrow> cfg_branch_latency cfg
     | Kind_MUL \<Rightarrow> cfg_mul_latency cfg | Kind_DIV \<Rightarrow> cfg_div_latency cfg
     | Kind_LOAD \<Rightarrow> cfg_mem_latency cfg | Kind_STORE \<Rightarrow> 1 | Kind_NOP \<Rightarrow> 1 | Kind_TRAP \<Rightarrow> 1)"

definition pipelined :: "Fu \<Rightarrow> bool" where
  "pipelined f \<longleftrightarrow> f = Fu_MUL"

definition take_seat :: "Uop \<Rightarrow> Cpu \<Rightarrow> Stall + Uop \<times> Cpu" where
  "take_seat u c =
     (if d_is_load (u_dec u) then
        (case alloc_load (c_lsq c) (u_seq u) (access_size (d_op (u_dec u))) of
           None \<Rightarrow> Inl Stall_LQ_FULL
         | Some (i, l) \<Rightarrow> Inr (u\<lparr>u_lsq_idx := i\<rparr>, c\<lparr>c_lsq := l\<rparr>))
      else if d_is_store (u_dec u) then
        (case alloc_store (c_lsq c) (u_seq u) (access_size (d_op (u_dec u))) of
           None \<Rightarrow> Inl Stall_SQ_FULL
         | Some (i, l) \<Rightarrow> Inr (u\<lparr>u_lsq_idx := i\<rparr>, c\<lparr>c_lsq := l\<rparr>))
      else Inr (u, c))"

definition iq_entry_of :: "Prf \<Rightarrow> Config \<Rightarrow> Uop \<Rightarrow> IqEntry" where
  "iq_entry_of prf cfg u =
     \<lparr>iq_seq = u_seq u, iq_rob = u_rob u, iq_kind = d_kind (u_dec u), iq_src1 = u_src1 u,
      iq_src2 = u_src2 u, iq_dest = u_dest u, iq_src1_ready = prf_is_ready prf (u_src1 u),
      iq_src2_ready = prf_is_ready prf (u_src2 u), iq_latency = latency_of cfg (u_dec u)\<rparr>"

definition dispatch_one :: "Cpu \<Rightarrow> Cpu \<times> bool" where
  "dispatch_one c =
     (case c_rename_q c of
        [] \<Rightarrow> (c, False)
      | u # rest \<Rightarrow>
          if iq_full (c_iq c) then (cpu_stall Stall_IQ_FULL c, False)
          else
            (case take_seat u c of
               Inl s \<Rightarrow> (cpu_stall s c, False)
             | Inr (u, c) \<Rightarrow>
                 let u = u\<lparr>u_at := (u_at u)\<lparr>at_dispatch := c_cycle c\<rparr>\<rparr>;
                     c = c\<lparr>c_rename_q := rest, c_inflight := (c_inflight c)[u_rob u := u],
                           c_iq := iq_insert (iq_entry_of (c_prf c) (c_cfg c) u) (c_iq c)\<rparr>
                 in (upd_stats (\<lambda>s. s\<lparr>st_dispatched := st_dispatched s + 1\<rparr>) c, True)))"

definition dispatch :: "Cpu \<Rightarrow> Cpu" where
  "dispatch c = stage_loop (cfg_width (c_cfg c)) dispatch_one c"

end
