(* ===== verification/Backend.thy ===== *)
theory Backend
  imports Cpu
begin

text \<open>
  The back half of \<^verbatim>\<open>src/src/cpu.cpp\<close>: function units and writeback ports, issue and
  recovery, execute, writeback, commit, the halt squash, and \<open>tick\<close>.
\<close>

section \<open>Function units and writeback ports\<close>

primrec first_free :: "nat \<Rightarrow> nat list \<Rightarrow> nat \<Rightarrow> nat option" where
  "first_free cycle [] i = None"
| "first_free cycle (t # ts) i = (if t \<le> cycle then Some i else first_free cycle ts (i + 1))"

text \<open>\<open>free_unit\<close> answers -1 when every unit is busy.\<close>

definition free_unit :: "Cpu \<Rightarrow> Fu \<Rightarrow> nat option" where
  "free_unit c f =
     (if f = Fu_NONE then Some 0 else first_free (c_cycle c) (c_fu_free_at c ! fu_index f) 0)"

definition occupy_unit :: "Fu \<Rightarrow> nat \<Rightarrow> nat \<Rightarrow> Cpu \<Rightarrow> Cpu" where
  "occupy_unit f i until c =
     c\<lparr>c_fu_free_at := (c_fu_free_at c)[fu_index f := (c_fu_free_at c ! fu_index f)[i := until]]\<rparr>"

definition cdb_slot :: "Cpu \<Rightarrow> nat \<Rightarrow> nat" where
  "cdb_slot c cycle = cycle mod c_cdb_window c"

definition cdb_reserved_at :: "Cpu \<Rightarrow> nat \<Rightarrow> nat" where
  "cdb_reserved_at c cycle = c_cdb_booked c ! cdb_slot c cycle"

definition reserve_cdb :: "nat \<Rightarrow> Cpu \<Rightarrow> Cpu option" where
  "reserve_cdb at_cycle c =
     (let slot = cdb_slot c at_cycle in
      if cfg_num_cdb (c_cfg c) \<le> c_cdb_booked c ! slot then None
      else Some (c\<lparr>c_cdb_booked := (c_cdb_booked c)[slot := c_cdb_booked c ! slot + 1]\<rparr>))"

definition release_cdb :: "Uop \<Rightarrow> Cpu \<Rightarrow> Cpu" where
  "release_cdb u c =
     (if \<not> d_writes_rd (u_dec u) \<or> d_is_load (u_dec u) then c
      else if u_wb_cycle u \<le> c_cycle c then c
      else let slot = cdb_slot c (u_wb_cycle u) in
        if 0 < c_cdb_booked c ! slot
        then c\<lparr>c_cdb_booked := (c_cdb_booked c)[slot := c_cdb_booked c ! slot - 1]\<rparr> else c)"

section \<open>Recovery\<close>

text \<open>\<open>squash_queue\<close>: the survivors, and the ports the others give back.\<close>

primrec squash_queue :: "SeqNum \<Rightarrow> Uop list \<Rightarrow> Cpu \<Rightarrow> Uop list \<times> Cpu" where
  "squash_queue s [] c = ([], c)"
| "squash_queue s (u # us) c =
     (if u_seq u \<le> s
      then (case squash_queue s us c of (kept, c') \<Rightarrow> (u # kept, c'))
      else squash_queue s us (release_cdb u c))"

definition kill_entry :: "RobEntry \<Rightarrow> Cpu \<Rightarrow> Cpu" where
  "kill_entry e c =
     (let c = c\<lparr>c_free_list := fl_release (c_free_list c) (re_dest_phys e),
               c_ckpts := cp_release (c_ckpts c) (re_ckpt e)\<rparr>;
          c = upd_stats (\<lambda>s. s\<lparr>st_squashed := st_squashed s + 1\<rparr>) c
      in note_squashed (re_seq e) c)"

definition squash_queues :: "SeqNum \<Rightarrow> Cpu \<Rightarrow> Cpu" where
  "squash_queues s c =
     (let (kept, c) = squash_queue s (c_executing c) c; c = c\<lparr>c_executing := kept\<rparr>;
          (kept, c) = squash_queue s (c_wb_fast c) c; c = c\<lparr>c_wb_fast := kept\<rparr>;
          (kept, c) = squash_queue s (c_wb_slow c) c
      in c\<lparr>c_wb_slow := kept\<rparr>)"

definition restore_front_end :: "Uop \<Rightarrow> Cpu \<Rightarrow> Cpu" where
  "restore_front_end br c =
     (let c = (case cp_at (c_ckpts c) (u_ckpt br) of
                 None \<Rightarrow> c\<lparr>c_undefined := True\<rparr>
               | Some ck \<Rightarrow> c\<lparr>c_rat := ck_rat ck, c_bpred := bp_restore (c_bpred c) (ck_front_end ck)\<rparr>)
      in if u_btb_hit br \<and> u_bkind br = Branch_CONDITIONAL
         then c\<lparr>c_bpred := bp_shift_history (c_bpred c) (u_next_pc br \<noteq> u_pc br + 4)\<rparr> else c)"

definition recover :: "Uop \<Rightarrow> Cpu \<Rightarrow> Cpu" where
  "recover br c =
     (let (killed, rob) = rob_truncate_to (u_rob br) (c_rob c);
          c = fold kill_entry killed (c\<lparr>c_rob := rob\<rparr>);
          c = c\<lparr>c_iq := iq_squash_after (u_seq br) (c_iq c),
               c_lsq := lsq_squash_after (u_seq br) (c_lsq c)\<rparr>;
          c = squash_queues (u_seq br) c;
          c = restore_front_end br c;
          c = c\<lparr>c_fetch_q := [], c_decode_q := [], c_rename_q := [], c_fetch_stalled := False,
               c_pc := u_next_pc br\<rparr>;
          c = upd_stats (\<lambda>s. s\<lparr>st_mispredicts := st_mispredicts s + 1\<rparr>) c
      in event (Ev_mispredict (u_seq br) (length killed) (u_next_pc br)) c)"

section \<open>Issue\<close>

definition load_memory :: "Memory \<Rightarrow> Op \<Rightarrow> u32 \<Rightarrow> u32" where
  "load_memory m op addr = (case op of
       Op_LB \<Rightarrow> extend_load Op_LB (ucast (load_u8 m addr))
     | Op_LH \<Rightarrow> extend_load Op_LH (ucast (load_u16 m addr))
     | Op_LBU \<Rightarrow> ucast (load_u8 m addr)
     | Op_LHU \<Rightarrow> ucast (load_u16 m addr)
     | _ \<Rightarrow> load_u32 m addr)"

text \<open>\<open>None\<close> in the first component: the load must replay.\<close>

definition execute_load :: "Uop \<Rightarrow> nat \<Rightarrow> Cpu \<Rightarrow> (Uop \<times> nat) option \<times> Cpu" where
  "execute_load u latency c =
     (let addr = u_val1 u + d_imm (u_dec u);
          c = c\<lparr>c_lsq := resolve_load_addr (c_lsq c) (u_lsq_idx u) addr\<rparr>;
          f = search_older_stores (c_lsq c) (u_lsq_idx u)
      in if fwd_kind f = REPLAY then (None, c)
         else
           let u = u\<lparr>u_mem_addr := addr, u_has_result := True\<rparr> in
           if fwd_kind f = FORWARD then
             (let u = u\<lparr>u_result := extend_load (d_op (u_dec u)) (fwd_data f)\<rparr>;
                  c = upd_stats (\<lambda>s. s\<lparr>st_load_forwards := st_load_forwards s + 1\<rparr>) c
              in (Some (u, 1), event (Ev_forward (u_seq u) addr (u_result u)) c))
           else
             (let u = u\<lparr>u_result := load_memory (c_mem c) (d_op (u_dec u)) addr\<rparr>
              in (Some (u, latency), upd_stats (\<lambda>s. s\<lparr>st_load_memory := st_load_memory s + 1\<rparr>) c)))"

text \<open>The loop variables of \<open>issue\<close>.\<close>

record Issue =
  is_cpu :: Cpu
  is_issued :: nat
  is_offender :: "Uop option"
  is_blocked :: "Stall list"

definition block_on :: "Stall \<Rightarrow> Cpu \<Rightarrow> Issue \<Rightarrow> Issue" where
  "block_on s c st = st\<lparr>is_cpu := c, is_blocked := is_blocked st @ [s]\<rparr>"

definition execute_other :: "Uop \<Rightarrow> nat \<Rightarrow> Cpu \<Rightarrow> (Uop \<times> Cpu) option" where
  "execute_other u lat c =
     (case (if d_writes_rd (u_dec u) then reserve_cdb (c_cycle c + lat) c else Some c) of
        None \<Rightarrow> None
      | Some c \<Rightarrow>
          let u = (if u_trap u = Trap_NONE then execute_uop u else u);
              c = (if d_is_store (u_dec u)
                   then c\<lparr>c_lsq := resolve_data (resolve_addr (c_lsq c) (u_lsq_idx u) (u_mem_addr u))
                                     (u_lsq_idx u) (u_store_data u)\<rparr>
                   else c)
          in Some (u, c))"

definition log_issue :: "Uop \<Rightarrow> Cpu \<Rightarrow> Cpu" where
  "log_issue u c = upd_obs (\<lambda>b. if o_record_issue b
      then b\<lparr>o_issue_log := o_issue_log b @ [\<lparr>ir_cycle = c_cycle c, ir_seq = u_seq u,
             ir_pc = u_pc u, ir_dest = u_dest u, ir_wb_cycle = u_wb_cycle u\<rparr>]\<rparr>
      else b) c"

definition enqueue_result :: "Uop \<Rightarrow> nat \<Rightarrow> Cpu \<Rightarrow> Cpu" where
  "enqueue_result u lat c =
     (if 1 < lat then c\<lparr>c_executing := c_executing c @ [u]\<rparr>
      else if d_is_load (u_dec u) then c\<lparr>c_wb_slow := c_wb_slow c @ [u]\<rparr>
      else c\<lparr>c_wb_fast := c_wb_fast c @ [u]\<rparr>)"

definition mispredicted :: "Uop \<Rightarrow> bool" where
  "mispredicted u \<longleftrightarrow> u_next_pc u \<noteq> predicted_pc u"

definition note_offender :: "Uop \<Rightarrow> Uop option \<Rightarrow> Uop option" where
  "note_offender u off =
     (if mispredicted u then
        (case off of None \<Rightarrow> Some u | Some o' \<Rightarrow> if u_seq u < u_seq o' then Some u else Some o')
      else off)"

definition finish_issue :: "IqEntry \<Rightarrow> Fu \<Rightarrow> nat \<Rightarrow> Uop \<Rightarrow> nat \<Rightarrow> Cpu \<Rightarrow> Issue \<Rightarrow> Issue" where
  "finish_issue e f unit u lat c st =
     (let c = (if f \<noteq> Fu_NONE
               then occupy_unit f unit (c_cycle c + (if pipelined f then 1 else lat)) c else c);
          u = u\<lparr>u_wb_cycle := c_cycle c + lat, u_at := (u_at u)\<lparr>at_issue := c_cycle c\<rparr>\<rparr>;
          c = event (Ev_issue (u_seq u) (if f = Fu_NONE then None else Some (fu_index f, unit))
                (u_wb_cycle u)) c;
          c = (if mispredicted u
               then c\<lparr>c_rob := rob_modify (c_rob c) (u_rob u) (\<lambda>r. r\<lparr>re_mispredicted := True\<rparr>)\<rparr>
               else c);
          c = c\<lparr>c_inflight := (c_inflight c)[u_rob u := u], c_iq := iq_erase (iq_seq e) (c_iq c)\<rparr>;
          c = enqueue_result u lat c;
          c = upd_stats (\<lambda>s. s\<lparr>st_issued := st_issued s + 1,
                st_loads := (if d_is_load (u_dec u) then st_loads s + 1 else st_loads s),
                st_stores := (if d_is_store (u_dec u) then st_stores s + 1 else st_stores s)\<rparr>) c;
          c = log_issue u c
      in st\<lparr>is_cpu := c, is_issued := is_issued st + 1,
            is_offender := note_offender u (is_offender st)\<rparr>)"

definition issue_one :: "IqEntry \<Rightarrow> Issue \<Rightarrow> Issue" where
  "issue_one e st =
     (let c = is_cpu st;
          u = c_inflight c ! iq_rob e;
          f = unit_of (u_dec u)
      in case free_unit c f of
           None \<Rightarrow> block_on (port_stall f) c st
         | Some unit \<Rightarrow>
             let lat = iq_latency e;
                 u = u\<lparr>u_val1 := prf_read (c_prf c) (u_src1 u),
                      u_val2 := prf_read (c_prf c) (u_src2 u)\<rparr>
             in if d_is_load (u_dec u) then
                  (case execute_load u lat c of
                     (None, c) \<Rightarrow>
                       let c = occupy_unit Fu_MEM unit (c_cycle c + 1) c;
                           c = upd_stats (\<lambda>s. s\<lparr>st_load_replays := st_load_replays s + 1\<rparr>) c
                       in block_on Stall_STORE_ORDER (event (Ev_replay (u_seq u)) c) st
                   | (Some (u, lat), c) \<Rightarrow> finish_issue e f unit u lat c st)
                else
                  (case execute_other u lat c of
                     None \<Rightarrow> block_on Stall_CDB c st
                   | Some (u, c) \<Rightarrow> finish_issue e f unit u lat c st))"

primrec issue_scan :: "IqEntry list \<Rightarrow> Issue \<Rightarrow> Issue" where
  "issue_scan [] st = st"
| "issue_scan (e # es) st =
     (if cfg_width (c_cfg (is_cpu st)) \<le> is_issued st then st else issue_scan es (issue_one e st))"

text \<open>The unused slots, charged oldest first to what turned candidates away.\<close>

primrec charge :: "Stall list \<Rightarrow> nat \<Rightarrow> Cpu \<Rightarrow> nat \<times> Cpu" where
  "charge [] lost c = (lost, c)"
| "charge (s # ss) lost c = (if lost = 0 then (lost, c) else charge ss (lost - 1) (cpu_stall s c))"

primrec charge_operands :: "nat \<Rightarrow> Cpu \<Rightarrow> Cpu" where
  "charge_operands 0 c = c"
| "charge_operands (Suc lost) c =
     (if iq_entries (c_iq c) = [] then c else charge_operands lost (cpu_stall Stall_OPERANDS c))"

definition issue :: "Cpu \<Rightarrow> Cpu" where
  "issue c =
     (let ready = iq_select (length (iq_entries (c_iq c))) (c_iq c);
          st = issue_scan ready \<lparr>is_cpu = c, is_issued = 0, is_offender = None, is_blocked = []\<rparr>;
          (lost, c) = charge (is_blocked st) (cfg_width (c_cfg c) - is_issued st) (is_cpu st);
          c = charge_operands lost c
      in case is_offender st of None \<Rightarrow> c | Some br \<Rightarrow> recover br c)"

section \<open>Execute and writeback\<close>

primrec execute_scan :: "Uop list \<Rightarrow> Uop list \<Rightarrow> Cpu \<Rightarrow> Cpu" where
  "execute_scan [] still c = c\<lparr>c_executing := still\<rparr>"
| "execute_scan (u # us) still c =
     (if c_cycle c + 1 < u_wb_cycle u then execute_scan us (still @ [u]) c
      else if d_is_load (u_dec u)
      then execute_scan us still (c\<lparr>c_wb_slow := c_wb_slow c @ [u]\<rparr>)
      else execute_scan us still (c\<lparr>c_wb_fast := c_wb_fast c @ [u]\<rparr>))"

definition execute :: "Cpu \<Rightarrow> Cpu" where
  "execute c = execute_scan (c_executing c) [] c"

definition complete :: "Uop \<Rightarrow> Cpu \<Rightarrow> Cpu" where
  "complete u c =
     (let c = (if u_trap u = Trap_NONE \<and> u_has_result u \<and> u_dest u \<noteq> INVALID_PHYSREG
               then c\<lparr>c_prf := prf_write (c_prf c) (u_dest u) (u_result u)\<rparr> else c);
          c = c\<lparr>c_iq := iq_wakeup (u_dest u) (c_iq c),
               c_rob := rob_modify (c_rob c) (u_rob u) (\<lambda>r. r\<lparr>re_complete := True\<rparr>),
               c_inflight := (c_inflight c)
                 [u_rob u := u\<lparr>u_at := (u_at u)\<lparr>at_complete := c_cycle c\<rparr>\<rparr>]\<rparr>;
          c = upd_stats (\<lambda>s. s\<lparr>st_wrote_back := st_wrote_back s + 1\<rparr>) c
      in event (Ev_writeback (u_seq u)
           (if u_has_result u \<and> u_dest u \<noteq> INVALID_PHYSREG then Some (u_dest u, u_result u)
            else None)) c)"

primrec drain_fast :: "Uop list \<Rightarrow> nat \<Rightarrow> Cpu \<Rightarrow> nat \<times> Cpu" where
  "drain_fast [] ports c = (ports, c)"
| "drain_fast (u # us) ports c =
     (if d_writes_rd (u_dec u) then
        (if ports = 0 then (ports, c)
         else drain_fast us (ports - 1) ((complete u c)\<lparr>c_wb_fast := us\<rparr>))
      else drain_fast us ports ((complete u c)\<lparr>c_wb_fast := us\<rparr>))"

primrec drain_slow :: "Uop list \<Rightarrow> nat \<Rightarrow> Cpu \<Rightarrow> Cpu" where
  "drain_slow [] ports c = c"
| "drain_slow (u # us) ports c =
     (if 0 < ports then drain_slow us (ports - 1) ((complete u c)\<lparr>c_wb_slow := us\<rparr>) else c)"

definition writeback :: "Cpu \<Rightarrow> Cpu" where
  "writeback c =
     (let (ports, c) = drain_fast (c_wb_fast c) (cfg_num_cdb (c_cfg c)) c;
          c = drain_slow (c_wb_slow c) ports c
      in c\<lparr>c_cdb_booked := (c_cdb_booked c)[cdb_slot c (c_cycle c) := 0]\<rparr>)"

section \<open>Commit\<close>

definition squash_in_flight :: "Cpu \<Rightarrow> Cpu" where
  "squash_in_flight c =
     (let (killed, rob) = rob_squash_all (c_rob c);
          c = fold kill_entry killed (c\<lparr>c_rob := rob\<rparr>);
          c = (if 0 < length killed then event (Ev_squashed (length killed)) c else c)
      in c\<lparr>c_rat := c_arch_rat c, c_lsq := lsq_clear (c_lsq c), c_fetch_q := [], c_decode_q := [],
           c_rename_q := [], c_iq := iq_clear (c_iq c), c_executing := [], c_wb_fast := [],
           c_wb_slow := [], c_cdb_booked := map (\<lambda>_. 0) (c_cdb_booked c),
           c_fetch_stalled := False\<rparr>)"

definition commit_branch :: "Uop \<Rightarrow> Cpu \<Rightarrow> Cpu" where
  "commit_branch u c =
     (if d_is_branch (u_dec u) then
        (let taken = (u_next_pc u \<noteq> u_pc u + 4);
             c = c\<lparr>c_bpred := bp_commit (c_bpred c) (u_pc u) (u_pht_index u) (u_bkind u) taken (u_next_pc u),
                  c_ckpts := cp_release (c_ckpts c) (u_ckpt u)\<rparr>
         in upd_stats (\<lambda>s. s\<lparr>st_branches := st_branches s + 1, st_btb_lookups := st_btb_lookups s + 1,
              st_btb_hits := (if u_btb_hit u then st_btb_hits s + 1 else st_btb_hits s),
              st_ras_pops := (if u_from_ras u then st_ras_pops s + 1 else st_ras_pops s),
              st_ras_hits := (if u_from_ras u \<and> u_pred_target u = u_next_pc u
                              then st_ras_hits s + 1 else st_ras_hits s)\<rparr>) c)
      else c)"

definition commit_store :: "Op \<Rightarrow> Cpu \<Rightarrow> Cpu" where
  "commit_store op c =
     (let st = lqq_nth (lsq_stores (c_lsq c)) 0;
          mem = (if op = Op_SB then store_u8 (c_mem c) (lq_addr st) (ucast (lq_data st))
                 else if op = Op_SH then store_u16 (c_mem c) (lq_addr st) (ucast (lq_data st))
                 else store_u32 (c_mem c) (lq_addr st) (lq_data st))
      in c\<lparr>c_mem := mem, c_lsq := (c_lsq c)\<lparr>lsq_stores := lqq_pop_head (lsq_stores (c_lsq c))\<rparr>\<rparr>)"

text \<open>The switch on the operation, and the trap cause it leaves.\<close>

definition commit_effect :: "Uop \<Rightarrow> Cpu \<Rightarrow> TrapCause \<times> Cpu" where
  "commit_effect u c =
     (if u_trap u \<noteq> Trap_NONE then (u_trap u, c)
      else case d_op (u_dec u) of
          Op_SB \<Rightarrow> (Trap_NONE, commit_store Op_SB c)
        | Op_SH \<Rightarrow> (Trap_NONE, commit_store Op_SH c)
        | Op_SW \<Rightarrow> (Trap_NONE, commit_store Op_SW c)
        | Op_ECALL \<Rightarrow>
            if cpu_reg c REG_A7 = SYS_EXIT
            then (Trap_NONE, c\<lparr>c_exit_code := cpu_reg c REG_A0, c_halted := True\<rparr>)
            else (Trap_ECALL_UNKNOWN, c)
        | Op_EBREAK \<Rightarrow> (Trap_EBREAK, c)
        | _ \<Rightarrow> (Trap_NONE, c))"

definition commit_mapping :: "Uop \<Rightarrow> Cpu \<Rightarrow> Cpu" where
  "commit_mapping u c =
     (if u_dest u \<noteq> INVALID_PHYSREG
      then c\<lparr>c_arch_rat := (c_arch_rat c)[d_rd (u_dec u) := u_dest u],
             c_free_list := fl_release (c_free_list c) (u_stale u)\<rparr>
      else c)"

definition commit_trap :: "TrapCause \<Rightarrow> Uop \<Rightarrow> Cpu \<Rightarrow> Cpu" where
  "commit_trap cause u c =
     (if cause \<noteq> Trap_NONE then event (Ev_trap (u_pc u)) (c\<lparr>c_trapped := True, c_trap_cause := cause\<rparr>)
      else if c_halted c then event (Ev_halt (c_exit_code c)) c else c)"

definition commit_order :: "Uop \<Rightarrow> Cpu \<Rightarrow> Cpu" where
  "commit_order u c =
     (let c = (if 0 < st_retired (c_stats c) \<and> u_seq u \<le> c_last_committed_seq c
               then c\<lparr>c_commit_in_order := False\<rparr> else c);
          c = note_retired (u_seq u) (c\<lparr>c_last_committed_seq := u_seq u\<rparr>)
      in event (Ev_retire (u_seq u) (u_pc u)) c)"

definition commit_load :: "Uop \<Rightarrow> Cpu \<Rightarrow> Cpu" where
  "commit_load u c =
     (if d_is_load (u_dec u)
      then c\<lparr>c_lsq := (c_lsq c)\<lparr>lsq_loads := lqq_pop_head (lsq_loads (c_lsq c))\<rparr>\<rparr> else c)"

definition commit_uop :: "Uop \<Rightarrow> Cpu \<Rightarrow> Cpu" where
  "commit_uop u c =
     (let c = commit_order u c;
          c = commit_load u c;
          c = commit_branch u c;
          (cause, c) = commit_effect u c;
          c = commit_mapping u c;
          c = commit_trap cause u c;
          c = c\<lparr>c_arch_pc := (if cpu_done c then u_pc u else u_next_pc u)\<rparr>
      in upd_stats (\<lambda>s. s\<lparr>st_retired := st_retired s + 1\<rparr>) c)"

definition commit_one :: "Cpu \<Rightarrow> Cpu \<times> bool" where
  "commit_one c =
     (let idx = rob_head (c_rob c) in
      if idx = INVALID_ROBINDEX \<or> \<not> re_complete (rob_at (c_rob c) idx) then (c, False)
      else
        let rob = (case rob_pop_head_if_complete (c_rob c) of Some (_, r) \<Rightarrow> r | None \<Rightarrow> c_rob c);
            c = commit_uop (c_inflight c ! idx) (c\<lparr>c_rob := rob\<rparr>)
        in if cpu_done c then (squash_in_flight c, False) else (c, True))"

definition commit :: "Cpu \<Rightarrow> Cpu" where
  "commit c = stage_loop (cfg_width (c_cfg c)) commit_one c"

section \<open>The cycle\<close>

definition begin_cycle :: "Cpu \<Rightarrow> Cpu" where
  "begin_cycle c =
     (let c = c\<lparr>c_cycle := c_cycle c + 1\<rparr>;
          c = upd_stats (\<lambda>s. s\<lparr>st_cycles := st_cycles s + 1\<rparr>) c
      in upd_obs (\<lambda>b. b\<lparr>o_events := [], o_squashed_seqs := [], o_retired_seqs := []\<rparr>) c)"

definition back_stages :: "Cpu \<Rightarrow> Cpu" where
  "back_stages c = fetch (decode_stage (rename_stage (dispatch (issue (execute (writeback c))))))"

definition tick :: "Cpu \<Rightarrow> Cpu" where
  "tick c =
     (if cpu_done c then c
      else let c = commit (begin_cycle c) in if cpu_done c then c else back_stages c)"

end
