(* ===== verification/Frames.thy ===== *)
theory Frames
  imports Backend
begin

text \<open>
  What each stage leaves alone: the clock and the configuration, the committed state, and
  the predictor's tables. The stages compose these with \<open>stage_loop_frame\<close>.
\<close>

section \<open>Counters and observation touch nothing else\<close>

lemma upd_stats_frame [simp]:
  "c_mem (upd_stats f c) = c_mem c" "c_cfg (upd_stats f c) = c_cfg c"
  "c_rob (upd_stats f c) = c_rob c" "c_prf (upd_stats f c) = c_prf c"
  "c_free_list (upd_stats f c) = c_free_list c" "c_rat (upd_stats f c) = c_rat c"
  "c_ckpts (upd_stats f c) = c_ckpts c" "c_iq (upd_stats f c) = c_iq c"
  "c_lsq (upd_stats f c) = c_lsq c" "c_bpred (upd_stats f c) = c_bpred c"
  "c_inflight (upd_stats f c) = c_inflight c" "c_arch_rat (upd_stats f c) = c_arch_rat c"
  "c_pc (upd_stats f c) = c_pc c" "c_arch_pc (upd_stats f c) = c_arch_pc c"
  "c_fetch_q (upd_stats f c) = c_fetch_q c" "c_decode_q (upd_stats f c) = c_decode_q c"
  "c_rename_q (upd_stats f c) = c_rename_q c" "c_executing (upd_stats f c) = c_executing c"
  "c_wb_fast (upd_stats f c) = c_wb_fast c" "c_wb_slow (upd_stats f c) = c_wb_slow c"
  "c_fu_free_at (upd_stats f c) = c_fu_free_at c" "c_cdb_booked (upd_stats f c) = c_cdb_booked c"
  "c_cdb_window (upd_stats f c) = c_cdb_window c" "c_queue_cap (upd_stats f c) = c_queue_cap c"
  "c_fetch_stalled (upd_stats f c) = c_fetch_stalled c" "c_cycle (upd_stats f c) = c_cycle c"
  "c_halted (upd_stats f c) = c_halted c" "c_trapped (upd_stats f c) = c_trapped c"
  "c_exit_code (upd_stats f c) = c_exit_code c" "c_trap_cause (upd_stats f c) = c_trap_cause c"
  "c_commit_in_order (upd_stats f c) = c_commit_in_order c"
  "c_last_committed_seq (upd_stats f c) = c_last_committed_seq c"
  "c_stats (upd_stats f c) = f (c_stats c)" "c_next_uid (upd_stats f c) = c_next_uid c"
  "c_obs (upd_stats f c) = c_obs c" "c_undefined (upd_stats f c) = c_undefined c"
  by (simp_all add: upd_stats_def)

lemma upd_obs_frame [simp]:
  "c_mem (upd_obs f c) = c_mem c" "c_cfg (upd_obs f c) = c_cfg c"
  "c_rob (upd_obs f c) = c_rob c" "c_prf (upd_obs f c) = c_prf c"
  "c_free_list (upd_obs f c) = c_free_list c" "c_rat (upd_obs f c) = c_rat c"
  "c_ckpts (upd_obs f c) = c_ckpts c" "c_iq (upd_obs f c) = c_iq c"
  "c_lsq (upd_obs f c) = c_lsq c" "c_bpred (upd_obs f c) = c_bpred c"
  "c_inflight (upd_obs f c) = c_inflight c" "c_arch_rat (upd_obs f c) = c_arch_rat c"
  "c_pc (upd_obs f c) = c_pc c" "c_arch_pc (upd_obs f c) = c_arch_pc c"
  "c_fetch_q (upd_obs f c) = c_fetch_q c" "c_decode_q (upd_obs f c) = c_decode_q c"
  "c_rename_q (upd_obs f c) = c_rename_q c" "c_executing (upd_obs f c) = c_executing c"
  "c_wb_fast (upd_obs f c) = c_wb_fast c" "c_wb_slow (upd_obs f c) = c_wb_slow c"
  "c_fu_free_at (upd_obs f c) = c_fu_free_at c" "c_cdb_booked (upd_obs f c) = c_cdb_booked c"
  "c_cdb_window (upd_obs f c) = c_cdb_window c" "c_queue_cap (upd_obs f c) = c_queue_cap c"
  "c_fetch_stalled (upd_obs f c) = c_fetch_stalled c" "c_cycle (upd_obs f c) = c_cycle c"
  "c_halted (upd_obs f c) = c_halted c" "c_trapped (upd_obs f c) = c_trapped c"
  "c_exit_code (upd_obs f c) = c_exit_code c" "c_trap_cause (upd_obs f c) = c_trap_cause c"
  "c_commit_in_order (upd_obs f c) = c_commit_in_order c"
  "c_last_committed_seq (upd_obs f c) = c_last_committed_seq c"
  "c_stats (upd_obs f c) = c_stats c" "c_next_uid (upd_obs f c) = c_next_uid c"
  "c_obs (upd_obs f c) = f (c_obs c)" "c_undefined (upd_obs f c) = c_undefined c"
  by (simp_all add: upd_obs_def)

lemma cpu_done_frame [simp]:
  "cpu_done (upd_stats f c) = cpu_done c" "cpu_done (upd_obs g c) = cpu_done c"
  by (simp_all add: cpu_done_def)

lemmas obs_defs = event_def note_squashed_def note_retired_def log_decode_def log_rename_def
  log_issue_def

section \<open>The machine's constants and its clock\<close>

text \<open>
  \<open>fixed c\<close> collects what no stage function writes: configuration, clock, queue capacity,
  port window and the structures' sizes.
\<close>

definition fixed :: "Cpu \<Rightarrow> Config \<times> nat \<times> nat \<times> nat" where
  "fixed c = (c_cfg c, c_cycle c, c_queue_cap c, c_cdb_window c)"

text \<open>The committed state: memory, mapping, PC, exit status, order flag.\<close>

definition committed ::
    "Cpu \<Rightarrow> Memory \<times> PhysReg list \<times> u32 \<times> bool \<times> bool \<times> u32 \<times> TrapCause \<times> bool \<times> SeqNum" where
  "committed c = (c_mem c, c_arch_rat c, c_arch_pc c, c_halted c, c_trapped c, c_exit_code c,
     c_trap_cause c, c_commit_in_order c, c_last_committed_seq c)"

text \<open>The trained part of the predictor.\<close>

definition tables :: "Cpu \<Rightarrow> u32 \<times> nat list \<times> Btb" where
  "tables c = (gs_mask (bp_gshare (c_bpred c)), gs_pht (bp_gshare (c_bpred c)), bp_btb (c_bpred c))"

lemmas frame_defs = fixed_def committed_def tables_def

lemma upd_frames [simp]:
  "fixed (upd_stats f c) = fixed c" "committed (upd_stats f c) = committed c"
  "tables (upd_stats f c) = tables c" "fixed (upd_obs g c) = fixed c"
  "committed (upd_obs g c) = committed c" "tables (upd_obs g c) = tables c"
  by (simp_all add: frame_defs)


section \<open>The front end\<close>

lemma bp_frames [simp]:
  "gs_mask (bp_gshare (bp_restore b s)) = gs_mask (bp_gshare b)"
  "gs_pht (bp_gshare (bp_restore b s)) = gs_pht (bp_gshare b)" "bp_btb (bp_restore b s) = bp_btb b"
  "gs_mask (bp_gshare (bp_shift_history b t)) = gs_mask (bp_gshare b)"
  "gs_pht (bp_gshare (bp_shift_history b t)) = gs_pht (bp_gshare b)"
  "bp_btb (bp_shift_history b t) = bp_btb b"
  by (simp_all add: bp_restore_def bp_shift_history_def gs_set_ghr_def gs_shift_def)

lemma fetch_one_frames [simp]:
  "fixed (fst (fetch_one c)) = fixed c" "committed (fst (fetch_one c)) = committed c"
  "tables (fst (fetch_one c)) = tables c"
  using bp_predict_tables [of "c_bpred c" "c_pc c"]
  by (auto simp: fetch_one_def Let_def frame_defs obs_defs split: prod.splits)

lemma decode_one_frames [simp]:
  "fixed (fst (decode_one c)) = fixed c" "committed (fst (decode_one c)) = committed c"
  "tables (fst (decode_one c)) = tables c"
  by (auto simp: decode_one_def Let_def frame_defs obs_defs split: list.splits)

lemma take_dest_frames:
  assumes "take_dest b c = Some (d, c')"
  shows "fixed c' = fixed c" "committed c' = committed c" "tables c' = tables c"
  using assms by (auto simp: take_dest_def frame_defs split: if_splits option.splits)

lemma map_regs_frames [simp]:
  "fixed (snd (map_regs d u c)) = fixed c" "committed (snd (map_regs d u c)) = committed c"
  "tables (snd (map_regs d u c)) = tables c"
  by (auto simp: map_regs_def Let_def frame_defs)

lemma take_checkpoint_frames [simp]:
  "fixed (snd (take_checkpoint u c)) = fixed c" "committed (snd (take_checkpoint u c)) = committed c"
  "tables (snd (take_checkpoint u c)) = tables c"
  by (auto simp: take_checkpoint_def frame_defs split: option.splits)

lemma enter_rob_frames [simp]:
  "fixed (snd (enter_rob u c)) = fixed c" "committed (snd (enter_rob u c)) = committed c"
  "tables (snd (enter_rob u c)) = tables c"
  by (auto simp: enter_rob_def Let_def frame_defs split: prod.splits)

lemma rename_uop_frames [simp]:
  "fixed (rename_uop d u c) = fixed c" "committed (rename_uop d u c) = committed c"
  "tables (rename_uop d u c) = tables c"
  by (simp_all add: rename_uop_def Let_def split_beta obs_defs)

lemma queue_frames [simp]:
  "fixed (c\<lparr>c_decode_q := q\<rparr>) = fixed c" "committed (c\<lparr>c_decode_q := q\<rparr>) = committed c"
  "tables (c\<lparr>c_decode_q := q\<rparr>) = tables c"
  by (simp_all add: frame_defs)

lemma rename_one_frames [simp]:
  "fixed (fst (rename_one c)) = fixed c" "committed (fst (rename_one c)) = committed c"
  "tables (fst (rename_one c)) = tables c"
  by (auto simp: rename_one_def dest: take_dest_frames split: list.splits option.splits)

lemma take_seat_frames:
  assumes "take_seat u c = Inr (u', c')"
  shows "fixed c' = fixed c" "committed c' = committed c" "tables c' = tables c"
  using assms by (auto simp: take_seat_def frame_defs split: if_splits option.splits)

lemma dispatch_one_frames [simp]:
  "fixed (fst (dispatch_one c)) = fixed c" "committed (fst (dispatch_one c)) = committed c"
  "tables (fst (dispatch_one c)) = tables c"
  by (auto simp: dispatch_one_def Let_def frame_defs dest: take_seat_frames [unfolded frame_defs]
      split: list.splits sum.splits)

lemma front_frames [simp]:
  "fixed (fetch c) = fixed c" "committed (fetch c) = committed c" "tables (fetch c) = tables c"
  "fixed (decode_stage c) = fixed c" "committed (decode_stage c) = committed c"
  "tables (decode_stage c) = tables c"
  "fixed (rename_stage c) = fixed c" "committed (rename_stage c) = committed c"
  "tables (rename_stage c) = tables c"
  "fixed (dispatch c) = fixed c" "committed (dispatch c) = committed c"
  "tables (dispatch c) = tables c"
  by (simp_all add: fetch_def decode_stage_def rename_stage_def dispatch_def stage_loop_frame)

section \<open>The back end\<close>

lemma occupy_unit_frames [simp]:
  "fixed (occupy_unit f i t c) = fixed c" "committed (occupy_unit f i t c) = committed c"
  "tables (occupy_unit f i t c) = tables c"
  by (simp_all add: occupy_unit_def frame_defs)

lemma reserve_cdb_frames:
  assumes "reserve_cdb t c = Some c'"
  shows "fixed c' = fixed c" "committed c' = committed c" "tables c' = tables c"
  using assms by (auto simp: reserve_cdb_def Let_def frame_defs split: if_splits)

lemma release_cdb_frames [simp]:
  "fixed (release_cdb u c) = fixed c" "committed (release_cdb u c) = committed c"
  "tables (release_cdb u c) = tables c"
  by (simp_all add: release_cdb_def Let_def frame_defs)

lemma squash_queue_eq:
  "squash_queue s us c =
     (filter (\<lambda>u. u_seq u \<le> s) us, fold release_cdb (filter (\<lambda>u. \<not> u_seq u \<le> s) us) c)"
  by (induction us arbitrary: c) simp_all

lemma release_fold_frames [simp]:
  "fixed (fold release_cdb us c) = fixed c" "committed (fold release_cdb us c) = committed c"
  "tables (fold release_cdb us c) = tables c"
  by (induction us arbitrary: c) simp_all

lemma squash_queue_frames [simp]:
  "fixed (snd (squash_queue s us c)) = fixed c"
  "committed (snd (squash_queue s us c)) = committed c"
  "tables (snd (squash_queue s us c)) = tables c"
  by (simp_all add: squash_queue_eq)

lemma kill_entry_frames [simp]:
  "fixed (kill_entry e c) = fixed c" "committed (kill_entry e c) = committed c"
  "tables (kill_entry e c) = tables c"
  by (simp_all add: kill_entry_def Let_def obs_defs) (simp_all add: frame_defs)

lemma kill_fold_frames [simp]:
  "fixed (fold kill_entry es c) = fixed c" "committed (fold kill_entry es c) = committed c"
  "tables (fold kill_entry es c) = tables c"
  by (induction es arbitrary: c) simp_all

lemma squash_queues_frames [simp]:
  "fixed (squash_queues s c) = fixed c" "committed (squash_queues s c) = committed c"
  "tables (squash_queues s c) = tables c"
proof -
  have upd [simp]: "fixed (c\<lparr>c_executing := k\<rparr>) = fixed c" "fixed (c\<lparr>c_wb_fast := k\<rparr>) = fixed c"
    "fixed (c\<lparr>c_wb_slow := k\<rparr>) = fixed c" "committed (c\<lparr>c_executing := k\<rparr>) = committed c"
    "committed (c\<lparr>c_wb_fast := k\<rparr>) = committed c" "committed (c\<lparr>c_wb_slow := k\<rparr>) = committed c"
    "tables (c\<lparr>c_executing := k\<rparr>) = tables c" "tables (c\<lparr>c_wb_fast := k\<rparr>) = tables c"
    "tables (c\<lparr>c_wb_slow := k\<rparr>) = tables c" for k c
    by (simp_all add: frame_defs)
  show "fixed (squash_queues s c) = fixed c" "committed (squash_queues s c) = committed c"
    "tables (squash_queues s c) = tables c"
    by (simp_all add: squash_queues_def Let_def split_beta)
qed

lemma restore_front_end_frames [simp]:
  "fixed (restore_front_end u c) = fixed c" "committed (restore_front_end u c) = committed c"
  "tables (restore_front_end u c) = tables c"
  by (simp_all add: restore_front_end_def Let_def frame_defs split: option.splits)

lemma structure_frames [simp]:
  "fixed (c\<lparr>c_rob := r\<rparr>) = fixed c" "committed (c\<lparr>c_rob := r\<rparr>) = committed c"
  "tables (c\<lparr>c_rob := r\<rparr>) = tables c"
  "fixed (c\<lparr>c_iq := i\<rparr>) = fixed c" "committed (c\<lparr>c_iq := i\<rparr>) = committed c"
  "tables (c\<lparr>c_iq := i\<rparr>) = tables c"
  "fixed (c\<lparr>c_lsq := l\<rparr>) = fixed c" "committed (c\<lparr>c_lsq := l\<rparr>) = committed c"
  "tables (c\<lparr>c_lsq := l\<rparr>) = tables c"
  "fixed (c\<lparr>c_prf := f\<rparr>) = fixed c" "committed (c\<lparr>c_prf := f\<rparr>) = committed c"
  "tables (c\<lparr>c_prf := f\<rparr>) = tables c"
  "fixed (c\<lparr>c_inflight := n\<rparr>) = fixed c" "committed (c\<lparr>c_inflight := n\<rparr>) = committed c"
  "tables (c\<lparr>c_inflight := n\<rparr>) = tables c"
  "fixed (c\<lparr>c_fetch_q := q\<rparr>) = fixed c" "committed (c\<lparr>c_fetch_q := q\<rparr>) = committed c"
  "tables (c\<lparr>c_fetch_q := q\<rparr>) = tables c"
  "fixed (c\<lparr>c_rename_q := q\<rparr>) = fixed c" "committed (c\<lparr>c_rename_q := q\<rparr>) = committed c"
  "tables (c\<lparr>c_rename_q := q\<rparr>) = tables c"
  "fixed (c\<lparr>c_wb_fast := q\<rparr>) = fixed c" "committed (c\<lparr>c_wb_fast := q\<rparr>) = committed c"
  "tables (c\<lparr>c_wb_fast := q\<rparr>) = tables c"
  "fixed (c\<lparr>c_wb_slow := q\<rparr>) = fixed c" "committed (c\<lparr>c_wb_slow := q\<rparr>) = committed c"
  "tables (c\<lparr>c_wb_slow := q\<rparr>) = tables c"
  "fixed (c\<lparr>c_executing := q\<rparr>) = fixed c" "committed (c\<lparr>c_executing := q\<rparr>) = committed c"
  "tables (c\<lparr>c_executing := q\<rparr>) = tables c"
  "fixed (c\<lparr>c_fetch_stalled := b\<rparr>) = fixed c" "committed (c\<lparr>c_fetch_stalled := b\<rparr>) = committed c"
  "tables (c\<lparr>c_fetch_stalled := b\<rparr>) = tables c"
  "fixed (c\<lparr>c_pc := p\<rparr>) = fixed c" "committed (c\<lparr>c_pc := p\<rparr>) = committed c"
  "tables (c\<lparr>c_pc := p\<rparr>) = tables c"
  "fixed (c\<lparr>c_cdb_booked := k\<rparr>) = fixed c" "committed (c\<lparr>c_cdb_booked := k\<rparr>) = committed c"
  "tables (c\<lparr>c_cdb_booked := k\<rparr>) = tables c"
  by (simp_all add: frame_defs)

lemma recover_frames [simp]:
  "fixed (recover br c) = fixed c" "committed (recover br c) = committed c"
  "tables (recover br c) = tables c"
  by (simp_all add: recover_def Let_def split_beta obs_defs)

lemma execute_load_frames [simp]:
  "fixed (snd (execute_load u l c)) = fixed c" "committed (snd (execute_load u l c)) = committed c"
  "tables (snd (execute_load u l c)) = tables c"
  by (simp_all add: execute_load_def Let_def obs_defs)

lemma execute_other_frames:
  assumes "execute_other u l c = Some (u', c')"
  shows "fixed c' = fixed c" "committed c' = committed c" "tables c' = tables c"
  using assms by (auto simp: execute_other_def Let_def dest: reserve_cdb_frames split: option.splits if_splits)

lemma enqueue_result_frames [simp]:
  "fixed (enqueue_result u l c) = fixed c" "committed (enqueue_result u l c) = committed c"
  "tables (enqueue_result u l c) = tables c"
  by (simp_all add: enqueue_result_def)

lemma finish_issue_frames [simp]:
  "fixed (is_cpu (finish_issue e f i u l c st)) = fixed c"
  "committed (is_cpu (finish_issue e f i u l c st)) = committed c"
  "tables (is_cpu (finish_issue e f i u l c st)) = tables c"
  by (simp_all add: finish_issue_def Let_def obs_defs)

lemma block_on_frames [simp]: "is_cpu (block_on s c st) = c"
  by (simp add: block_on_def)

lemma issue_one_cases:
  fixes c u f
  assumes "c = is_cpu st" "f = unit_of (u_dec (c_inflight c ! iq_rob e))"
    "u = (c_inflight c ! iq_rob e)\<lparr>u_val1 := prf_read (c_prf c) (u_src1 (c_inflight c ! iq_rob e)),
       u_val2 := prf_read (c_prf c) (u_src2 (c_inflight c ! iq_rob e))\<rparr>"
  obtains
    (busy) "free_unit c f = None" "issue_one e st = block_on (port_stall f) c st"
  | (replay) unit c1 where "free_unit c f = Some unit" "d_is_load (u_dec u)"
      "execute_load u (iq_latency e) c = (None, c1)"
      "issue_one e st = block_on Stall_STORE_ORDER (event (Ev_replay (u_seq u))
         (upd_stats (\<lambda>s. s\<lparr>st_load_replays := st_load_replays s + 1\<rparr>)
           (occupy_unit Fu_MEM unit (c_cycle c1 + 1) c1))) st"
  | (load) unit u1 lat c1 where "free_unit c f = Some unit" "d_is_load (u_dec u)"
      "execute_load u (iq_latency e) c = (Some (u1, lat), c1)"
      "issue_one e st = finish_issue e f unit u1 lat c1 st"
  | (no_port) unit where "free_unit c f = Some unit" "\<not> d_is_load (u_dec u)"
      "execute_other u (iq_latency e) c = None" "issue_one e st = block_on Stall_CDB c st"
  | (other) unit u1 c1 where "free_unit c f = Some unit" "\<not> d_is_load (u_dec u)"
      "execute_other u (iq_latency e) c = Some (u1, c1)"
      "issue_one e st = finish_issue e f unit u1 (iq_latency e) c1 st"
proof (cases "free_unit c f")
  case None
  then show thesis using assms by (intro busy) (simp_all add: issue_one_def Let_def)
next
  case (Some unit)
  show thesis
  proof (cases "d_is_load (u_dec u)")
    case True
    obtain r c1 where x: "execute_load u (iq_latency e) c = (r, c1)" by fastforce
    show thesis
    proof (cases r)
      case None
      with x Some True show thesis using assms
        by (intro replay) (simp_all add: issue_one_def Let_def)
    next
      case (Some r1)
      then obtain u1 lat where "r = Some (u1, lat)" by (cases r1) auto
      with x \<open>free_unit c f = Some unit\<close> True show thesis using assms
        by (intro load [of unit u1 lat c1]) (simp_all add: issue_one_def Let_def)
    qed
  next
    case False
    show thesis
    proof (cases "execute_other u (iq_latency e) c")
      case None
      with Some False show thesis using assms
        by (intro no_port) (simp_all add: issue_one_def Let_def)
    next
      case (Some r1)
      then obtain u1 c1 where "execute_other u (iq_latency e) c = Some (u1, c1)" by (cases r1) auto
      with \<open>free_unit c f = Some unit\<close> False show thesis using assms
        by (intro other [of unit u1 c1]) (simp_all add: issue_one_def Let_def)
    qed
  qed
qed

lemma issue_one_frames [simp]:
  "fixed (is_cpu (issue_one e st)) = fixed (is_cpu st)"
  "committed (is_cpu (issue_one e st)) = committed (is_cpu st)"
  "tables (is_cpu (issue_one e st)) = tables (is_cpu st)"
proof -
  have "fixed (is_cpu (issue_one e st)) = fixed (is_cpu st) \<and>
    committed (is_cpu (issue_one e st)) = committed (is_cpu st) \<and>
    tables (is_cpu (issue_one e st)) = tables (is_cpu st)"
  proof (rule issue_one_cases [OF refl refl refl, of st e], goal_cases)
    case (2 unit c1)
    then show ?case
      using execute_load_frames by (metis (no_types, lifting) block_on_frames event_def
          occupy_unit_frames snd_conv upd_frames)
  next
    case (3 unit u1 lat c1)
    then show ?case using execute_load_frames by (metis finish_issue_frames snd_conv)
  next
    case (5 unit u1 c1)
    then show ?case using execute_other_frames by (metis finish_issue_frames)
  qed simp_all
  then show "fixed (is_cpu (issue_one e st)) = fixed (is_cpu st)"
    "committed (is_cpu (issue_one e st)) = committed (is_cpu st)"
    "tables (is_cpu (issue_one e st)) = tables (is_cpu st)" by auto
qed

lemma issue_scan_frames [simp]:
  "fixed (is_cpu (issue_scan es st)) = fixed (is_cpu st)"
  "committed (is_cpu (issue_scan es st)) = committed (is_cpu st)"
  "tables (is_cpu (issue_scan es st)) = tables (is_cpu st)"
  by (induction es arbitrary: st) simp_all

lemma charge_frames [simp]:
  "fixed (snd (charge ss n c)) = fixed c" "committed (snd (charge ss n c)) = committed c"
  "tables (snd (charge ss n c)) = tables c"
  by (induction ss arbitrary: n c) simp_all

lemma charge_operands_frames [simp]:
  "fixed (charge_operands n c) = fixed c" "committed (charge_operands n c) = committed c"
  "tables (charge_operands n c) = tables c"
  by (induction n arbitrary: c) simp_all

lemma issue_frames [simp]:
  "fixed (issue c) = fixed c" "committed (issue c) = committed c" "tables (issue c) = tables c"
  by (simp_all add: issue_def Let_def split_beta split: option.splits)

lemma execute_scan_frames [simp]:
  "fixed (execute_scan us still c) = fixed c" "committed (execute_scan us still c) = committed c"
  "tables (execute_scan us still c) = tables c"
  by (induction us arbitrary: still c) simp_all

lemma complete_frames [simp]:
  "fixed (complete u c) = fixed c" "committed (complete u c) = committed c"
  "tables (complete u c) = tables c"
  by (simp_all add: complete_def Let_def obs_defs)

lemma drain_frames [simp]:
  "fixed (snd (drain_fast us n c)) = fixed c" "committed (snd (drain_fast us n c)) = committed c"
  "tables (snd (drain_fast us n c)) = tables c"
  "fixed (drain_slow us n c) = fixed c" "committed (drain_slow us n c) = committed c"
  "tables (drain_slow us n c) = tables c"
  by (induction us arbitrary: n c) simp_all

lemma writeback_frames [simp]:
  "fixed (writeback c) = fixed c" "committed (writeback c) = committed c" "tables (writeback c) = tables c"
  by (simp_all add: writeback_def Let_def split_beta)

lemma back_stages_frames [simp]:
  "fixed (back_stages c) = fixed c" "committed (back_stages c) = committed c"
  "tables (back_stages c) = tables c"
  by (simp_all add: back_stages_def execute_def)

section \<open>Commit and the cycle\<close>

lemma fixed_committed_updates [simp]:
  "fixed (c\<lparr>c_mem := m\<rparr>) = fixed c" "fixed (c\<lparr>c_arch_rat := a\<rparr>) = fixed c"
  "fixed (c\<lparr>c_arch_pc := p\<rparr>) = fixed c" "fixed (c\<lparr>c_free_list := l\<rparr>) = fixed c"
  "fixed (c\<lparr>c_ckpts := k\<rparr>) = fixed c" "fixed (c\<lparr>c_bpred := b\<rparr>) = fixed c"
  "fixed (c\<lparr>c_exit_code := x\<rparr>) = fixed c" "fixed (c\<lparr>c_halted := h\<rparr>) = fixed c"
  "fixed (c\<lparr>c_trapped := h\<rparr>) = fixed c" "fixed (c\<lparr>c_trap_cause := t\<rparr>) = fixed c"
  "fixed (c\<lparr>c_commit_in_order := o'\<rparr>) = fixed c" "fixed (c\<lparr>c_last_committed_seq := s\<rparr>) = fixed c"
  "fixed (c\<lparr>c_rat := r\<rparr>) = fixed c"
  by (simp_all add: fixed_def)

lemma commit_parts_fixed [simp]:
  "fixed (commit_order u c) = fixed c" "fixed (commit_load u c) = fixed c"
  "fixed (commit_branch u c) = fixed c" "fixed (commit_store op c) = fixed c"
  "fixed (snd (commit_effect u c)) = fixed c" "fixed (commit_mapping u c) = fixed c"
  "fixed (commit_trap t u c) = fixed c" "fixed (squash_in_flight c) = fixed c"
  by (simp_all add: commit_order_def commit_load_def commit_branch_def commit_store_def
      commit_effect_def commit_mapping_def commit_trap_def squash_in_flight_def Let_def split_beta
      obs_defs split: Op.splits)

lemma commit_one_fixed [simp]: "fixed (fst (commit_one c)) = fixed c"
  by (auto simp: commit_one_def commit_uop_def Let_def split_beta split: option.splits)

lemma commit_fixed [simp]: "fixed (commit c) = fixed c"
  by (simp add: commit_def stage_loop_frame)

lemma tick_clock:
  "\<not> cpu_done c \<Longrightarrow> c_cycle (tick c) = Suc (c_cycle c)"
  "c_cfg (tick c) = c_cfg c" "c_queue_cap (tick c) = c_queue_cap c"
  "c_cdb_window (tick c) = c_cdb_window c"
proof -
  have "fixed (tick c) = (if cpu_done c then fixed c else fixed (begin_cycle c))"
    by (simp add: tick_def Let_def)
  then show "\<not> cpu_done c \<Longrightarrow> c_cycle (tick c) = Suc (c_cycle c)"
    "c_cfg (tick c) = c_cfg c" "c_queue_cap (tick c) = c_queue_cap c"
    "c_cdb_window (tick c) = c_cdb_window c"
    by (auto simp: fixed_def begin_cycle_def Let_def split: if_splits)
qed

text \<open>\<open>run\<close> advances the clock at every step, so the cycle budget bounds it.\<close>

function run_cpu :: "nat \<Rightarrow> Cpu \<Rightarrow> bool \<times> Cpu" where
  "run_cpu max_cycles c =
     (if \<not> cpu_done c \<and> c_cycle c < max_cycles then run_cpu max_cycles (tick c)
      else (cpu_done c, c))"
  by pat_completeness auto
termination
  by (relation "measure (\<lambda>(n, c). n - c_cycle c)") (auto simp: tick_clock)

declare run_cpu.simps [simp del]

lemma run_cpu_result:
  "run_cpu n c = (ok, c') \<Longrightarrow> (ok \<longleftrightarrow> cpu_done c') \<and> (ok \<or> n \<le> c_cycle c')"
proof (induction n c rule: run_cpu.induct)
  case (1 n c)
  show ?case
  proof (cases "\<not> cpu_done c \<and> c_cycle c < n")
    case True
    with 1 show ?thesis by (auto simp: run_cpu.simps [of n c])
  next
    case False
    with 1(2) show ?thesis by (auto simp: run_cpu.simps [of n c])
  qed
qed

lemma run_cpu_clock: "c_cycle (snd (run_cpu n c)) \<le> max n (c_cycle c)"
proof (induction n c rule: run_cpu.induct)
  case (1 n c)
  then show ?case
    using tick_clock(1) [of c] by (subst run_cpu.simps) auto
qed

text \<open>States a machine can reach by ticking.\<close>

inductive reachable :: "Cpu \<Rightarrow> Cpu \<Rightarrow> bool" for c0 where
  reach_start: "reachable c0 c0"
| reach_tick: "reachable c0 c \<Longrightarrow> reachable c0 (tick c)"

inductive_cases reachable_tickE: "reachable c0 c"

lemma reachable_invariant:
  assumes "reachable c0 c" "P c0" "\<And>c. P c \<Longrightarrow> P (tick c)"
  shows "P c"
  using assms(1) by induction (simp_all add: assms(2,3))

lemma run_cpu_reachable: "reachable c0 c \<Longrightarrow> reachable c0 (snd (run_cpu n c))"
proof (induction n c rule: run_cpu.induct)
  case (1 n c)
  then show ?case
    by (subst run_cpu.simps) (simp add: reach_tick)
qed

section \<open>Properties\<close>


text \<open>C16: Speculation cannot reach committed state: writeback, execute, issue with its recovery,
  dispatch, rename, decode and fetch leave memory, the committed register mapping, the
  committed PC, the exit status, the order flag and the trained predictor tables as they
  were; within a cycle only commit changes them.\<close>

theorem only_commit_changes_committed_state:
  "committed (back_stages c) = committed c \<and> tables (back_stages c) = tables c \<and>
   committed (tick c) = (if cpu_done c then committed c else committed (commit (begin_cycle c))) \<and>
   tables (tick c) = (if cpu_done c then tables c else tables (commit (begin_cycle c)))"
  by (simp add: tick_def Let_def)

end
