(* ===== verification/Semantics.thy ===== *)
theory Semantics
  imports Frames
begin

text \<open>
  What an instruction computes: the pipeline's \<open>execute_uop\<close>, \<open>execute_load\<close> and the store
  at commit against the switch of the reference interpreter.
\<close>

definition ref_effect :: "Uop \<Rightarrow> Memory \<Rightarrow> Result \<Rightarrow> Effect" where
  "ref_effect u m st = ref_switch (u_dec u) (u_pc u) (u_val1 u) (u_val2 u)
     \<lparr>ef_next_pc = u_pc u + 4, ef_result = 0, ef_has_result = False, ef_mem = m, ef_st = st\<rparr>"

lemma is_load_ops: "wf_decoded d \<Longrightarrow> d_is_load d \<longleftrightarrow> d_op d \<in> {Op_LB, Op_LH, Op_LW, Op_LBU, Op_LHU}"
  by (cases "d_op d") (simp_all add: wf_decoded_def kind_of_op_def)

lemma is_store_ops: "wf_decoded d \<Longrightarrow> d_is_store d \<longleftrightarrow> d_op d \<in> {Op_SB, Op_SH, Op_SW}"
  by (cases "d_op d") (simp_all add: wf_decoded_def kind_of_op_def)

section \<open>Everything but memory\<close>

text \<open>Next PC, whether there is a result, and the result.\<close>

definition agrees :: "Uop \<Rightarrow> Effect \<Rightarrow> bool" where
  "agrees u e \<longleftrightarrow> u_next_pc u = ef_next_pc e \<and> u_has_result u = ef_has_result e \<and>
     (u_has_result u \<longrightarrow> u_result u = ef_result e)"

lemma execute_uop_ref:
  assumes "d_op (u_dec u) \<notin> {Op_LB, Op_LH, Op_LW, Op_LBU, Op_LHU}"
    "u_next_pc u = u_pc u + 4" "\<not> u_has_result u"
  shows "agrees (execute_uop u) (ref_effect u m st)"
  using assms
  by (cases "d_op (u_dec u)";
      simp_all only: execute_uop_def ref_effect_def ref_switch_def Let_def Op.case;
      simp_all add: agrees_def u_value_def ef_value_def branch_taken_def branch_target_def
        jalr_target_def link_address_def)

section \<open>Loads\<close>

lemma scast_ucast_low: "(scast (ucast (ucast b :: u32) :: u8) :: u32) = scast (b :: u8)"
  "(scast (ucast (ucast h :: u32) :: u16) :: u32) = scast (h :: u16)"
proof -
  have "(ucast (ucast b :: u32) :: u8) = b" by (rule bit_word_eqI) (auto simp: bit_simps)
  then show "(scast (ucast (ucast b :: u32) :: u8) :: u32) = scast b" by simp
  have "(ucast (ucast h :: u32) :: u16) = h" by (rule bit_word_eqI) (auto simp: bit_simps)
  then show "(scast (ucast (ucast h :: u32) :: u16) :: u32) = scast h" by simp
qed

lemma load_ref:
  assumes "wf_decoded (u_dec u)" "d_is_load (u_dec u)"
  shows "ef_result (ref_effect u m st) =
      extend_load (d_op (u_dec u))
        (bytes_load load_u8 m (u_val1 u + d_imm (u_dec u)) (access_size (d_op (u_dec u))))"
    and "ef_result (ref_effect u m st) = load_memory m (d_op (u_dec u)) (u_val1 u + d_imm (u_dec u))"
    and "ef_has_result (ref_effect u m st)"
proof -
  have ops: "d_op (u_dec u) \<in> {Op_LB, Op_LH, Op_LW, Op_LBU, Op_LHU}"
    using assms is_load_ops by blast
  then show "ef_result (ref_effect u m st) =
      extend_load (d_op (u_dec u))
        (bytes_load load_u8 m (u_val1 u + d_imm (u_dec u)) (access_size (d_op (u_dec u))))"
    unfolding insert_iff empty_iff
    by (elim disjE; simp only: ref_effect_def ref_switch_def ef_value_def Let_def extend_load_def
        access_size_def Op.case load_u8_bytes [symmetric] load_u16_bytes [symmetric]
        load_u32_bytes [symmetric] scast_ucast_low; simp)
  from ops show "ef_result (ref_effect u m st) =
      load_memory m (d_op (u_dec u)) (u_val1 u + d_imm (u_dec u))"
    unfolding insert_iff empty_iff
    by (elim disjE; simp only: ref_effect_def ref_switch_def ef_value_def Let_def load_memory_def
        extend_load_def Op.case scast_ucast_low; simp)
  from ops show "ef_has_result (ref_effect u m st)"
    unfolding insert_iff empty_iff
    by (elim disjE; simp only: ref_effect_def ref_switch_def ef_value_def Let_def Op.case; simp)
qed

text \<open>
  A load that issues: the search answers for every way the older stores can still resolve.
\<close>

definition seat_of :: "Uop \<Rightarrow> Cpu \<Rightarrow> LsqEntry" where
  "seat_of u c = lqq_at (lsq_loads (c_lsq c)) (u_lsq_idx u)"

definition resolved_seat :: "Uop \<Rightarrow> Cpu \<Rightarrow> LsqEntry" where
  "resolved_seat u c = (seat_of u c)
     \<lparr>lq_addr := u_val1 u + d_imm (u_dec u), lq_addr_ready := True\<rparr>"

lemma seat_after_resolve:
  assumes "u_lsq_idx u < length (lqq_slots (lsq_loads (c_lsq c)))"
  shows "lqq_at (lsq_loads (resolve_load_addr (c_lsq c) (u_lsq_idx u) (u_val1 u + d_imm (u_dec u))))
      (u_lsq_idx u) = resolved_seat u c"
  using assms by (simp_all add: resolve_load_addr_def lqq_modify_def lqq_at_def resolved_seat_def seat_of_def)

lemma resolve_load_addr_stores [simp]: "lsq_stores (resolve_load_addr l i a) = lsq_stores l"
  by (simp add: resolve_load_addr_def)

lemma execute_load_ref:
  assumes load: "wf_decoded (u_dec u)" "d_is_load (u_dec u)"
    and seat: "u_lsq_idx u < length (lqq_slots (lsq_loads (c_lsq c)))"
      "lq_size (seat_of u c) = access_size (d_op (u_dec u))"
    and space: "unat (u_val1 u + d_imm (u_dec u)) + access_size (d_op (u_dec u)) \<le> 2 ^ 32"
    and older: "older = older_stores (resolved_seat u c) (lqq_list (lsq_stores (c_lsq c)))"
    and later: "list_all2 resolves_to older older'"
    and issued: "execute_load u lat c = (Some (u', lat'), c')"
  shows "u_result u' = ef_result (ref_effect u (drain older' (c_mem c)) st) \<and> u_has_result u'"
proof -
  define addr where "addr = u_val1 u + d_imm (u_dec u)"
  define ld where "ld = resolved_seat u c"
  define f where "f = search_spec ld older"
  have ld: "lq_addr ld = addr" "lq_size ld = access_size (d_op (u_dec u))" "lq_addr_ready ld"
    by (simp_all add: ld_def resolved_seat_def addr_def seat)
  have inside: "in_space ld"
    using space access_size_cases [of "d_op (u_dec u)"] by (auto simp: in_space_def ld addr_def)
  have search: "search_older_stores (resolve_load_addr (c_lsq c) (u_lsq_idx u) addr) (u_lsq_idx u) = f"
    using search_older_stores_eq [of "resolve_load_addr (c_lsq c) (u_lsq_idx u) addr" "u_lsq_idx u"] ld(3)
    by (simp add: addr_def seat_after_resolve seat(1) f_def older flip: ld_def)
  define b where "b = bytes_load load_u8 (drain older' (c_mem c)) addr (access_size (d_op (u_dec u)))"
  have spec: "ef_result (ref_effect u (drain older' (c_mem c)) st) = extend_load (d_op (u_dec u)) b"
    using load_ref(1) [OF load] by (simp add: b_def addr_def)
  show ?thesis
  proof (cases "fwd_kind f")
    case REPLAY
    with issued search show ?thesis by (simp add: execute_load_def Let_def flip: addr_def)
  next
    case FORWARD
    have "b = fwd_data f"
      using search_forward [OF FORWARD [unfolded f_def] later inside] by (simp add: b_def ld f_def)
    with FORWARD issued search spec show ?thesis
      by (auto simp: execute_load_def Let_def simp flip: addr_def)
  next
    case NO_MATCH
    have "b = bytes_load load_u8 (c_mem c) addr (access_size (d_op (u_dec u)))"
      using search_no_match [OF NO_MATCH [unfolded f_def] later inside] by (simp add: b_def ld)
    then have "extend_load (d_op (u_dec u)) b = load_memory (c_mem c) (d_op (u_dec u)) addr"
      using load_ref(1,2) [OF load, where m = "c_mem c" and st = st] by (simp add: addr_def)
    with NO_MATCH issued search spec show ?thesis
      by (auto simp: execute_load_def Let_def simp flip: addr_def)
  qed
qed

section \<open>Stores\<close>

text \<open>The queue seat a store fills at issue is what commit writes and the reference stores.\<close>

definition store_seat :: "Uop \<Rightarrow> LsqEntry \<Rightarrow> bool" where
  "store_seat u st \<longleftrightarrow> lq_addr st = u_val1 u + d_imm (u_dec u) \<and> lq_data st = u_val2 u \<and>
     lq_size st = access_size (d_op (u_dec u))"

lemma store_ref:
  assumes "wf_decoded (u_dec u)" "d_is_store (u_dec u)" "store_seat u st"
  shows "store_bytes st m = ef_mem (ref_effect u m r)"
proof -
  have "d_op (u_dec u) \<in> {Op_SB, Op_SH, Op_SW}" using assms is_store_ops by blast
  then show ?thesis
    using assms(3) unfolding insert_iff empty_iff store_bytes_def store_seat_def
    by (elim disjE; simp only: ref_effect_def ref_switch_def Let_def access_size_def Op.case
        store_u16_bytes store_u32_bytes; simp)
qed

lemma commit_store_mem:
  assumes "op \<in> {Op_SB, Op_SH, Op_SW}" "lq_size (lqq_nth (lsq_stores (c_lsq c)) 0) = access_size op"
  shows "c_mem (commit_store op c) = store_bytes (lqq_nth (lsq_stores (c_lsq c)) 0) (c_mem c)"
  using assms
  by (auto simp: commit_store_def Let_def store_bytes_def access_size_def store_u16_bytes store_u32_bytes)

section \<open>Properties\<close>

text \<open>C6: For every operation but a load, the out-of-order machine's \<open>execute_uop\<close> computes
  what the independently written switch of the reference interpreter computes: the same
  next PC, a result exactly when the reference has one, and the same result.\<close>

theorem execute_agrees_with_reference:
  assumes "d_op (u_dec u) \<notin> {Op_LB, Op_LH, Op_LW, Op_LBU, Op_LHU}"
    "u_next_pc u = u_pc u + 4" "\<not> u_has_result u"
  shows "agrees (execute_uop u) (ref_effect u m st)"
  using assms by (rule execute_uop_ref)

theorem execute_agrees_with_reference_witness:
  "agrees (execute_uop (default_uop\<lparr>u_pc := 8, u_next_pc := 12, u_dec := decode 0x00208463, u_val1 := 5, u_val2 := 5\<rparr>))
     (ref_effect (default_uop\<lparr>u_pc := 8, u_next_pc := 12, u_dec := decode 0x00208463, u_val1 := 5, u_val2 := 5\<rparr>)
        empty_memory (start_result 8))"
  by (rule execute_agrees_with_reference)
    (simp_all add: default_uop_def decode_def field_defs decode_branch_def decode_fields_def decoded_zero_def)

text \<open>C5: A load that issues gets the value the reference interpreter would load once all older
  stores have been performed, whether it was forwarded or read from memory while those
  stores were still in the queue.\<close>

theorem issued_load_agrees_with_reference:
  assumes "wf_decoded (u_dec u)" "d_is_load (u_dec u)"
    and "u_lsq_idx u < length (lqq_slots (lsq_loads (c_lsq c)))"
    and "lq_size (seat_of u c) = access_size (d_op (u_dec u))"
    and "unat (u_val1 u + d_imm (u_dec u)) + access_size (d_op (u_dec u)) \<le> 2 ^ 32"
    and "older = older_stores (resolved_seat u c) (lqq_list (lsq_stores (c_lsq c)))"
    and "list_all2 resolves_to older older'"
    and "execute_load u lat c = (Some (u', lat'), c')"
  shows "u_result u' = ef_result (ref_effect u (drain older' (c_mem c)) st) \<and> u_has_result u'"
  using assms by (rule execute_load_ref)

text \<open>A byte load from an address an older queued word store covers.\<close>

definition example_load_cpu :: Cpu where
  "example_load_cpu = (make_cpu empty_memory default_config 0)\<lparr>c_lsq := example_lsq\<rparr>"

definition example_load_uop :: Uop where
  "example_load_uop = default_uop\<lparr>u_dec := decoded_zero\<lparr>d_op := Op_LB, d_kind := Kind_LOAD, d_is_load := True,
     d_imm := 1\<rparr>, u_val1 := 0x100, u_lsq_idx := 0\<rparr>"

lemma example_searched:
  "search_older_stores (resolve_load_addr (c_lsq example_load_cpu) 0 0x101) 0 =
     \<lparr>fwd_kind = FORWARD, fwd_data = 0xCC\<rparr>"
  by (simp add: example_load_cpu_def example_lsq_def resolve_load_addr_def lqq_modify_def
      search_older_stores_def lqq_at_def lqq_nth_def lqq_wrap_def lsq_extract_def Let_def upt_rec)

theorem issued_load_agrees_with_reference_witness:
  "u_result (fst (the (fst (execute_load example_load_uop 2 example_load_cpu)))) = 0xFFFFFFCC \<and>
   ef_result (ref_effect example_load_uop
     (drain (older_stores (resolved_seat example_load_uop example_load_cpu)
        (lqq_list (lsq_stores example_lsq))) empty_memory) (start_result 0)) = 0xFFFFFFCC"
proof -
  let ?u = example_load_uop and ?c = example_load_cpu
  obtain u' lat' c' where x: "execute_load ?u 2 ?c = (Some (u', lat'), c')" and r: "u_result u' = 0xFFFFFFCC"
    by (auto simp: execute_load_def Let_def example_searched example_load_uop_def extend_load_def)
  have "u_lsq_idx ?u < length (lqq_slots (lsq_loads (c_lsq ?c)))"
    "lq_size (seat_of ?u ?c) = access_size (d_op (u_dec ?u))" "wf_decoded (u_dec ?u)" "d_is_load (u_dec ?u)"
    "unat (u_val1 ?u + d_imm (u_dec ?u)) + access_size (d_op (u_dec ?u)) \<le> 2 ^ 32"
    by (simp_all add: example_load_uop_def example_load_cpu_def example_lsq_def seat_of_def lqq_at_def
        access_size_def wf_decoded_def kind_of_op_def op_writes_rd_def decoded_zero_def default_uop_def)
  moreover have "list_all2 resolves_to (older_stores (resolved_seat ?u ?c) (lqq_list (lsq_stores (c_lsq ?c))))
      (older_stores (resolved_seat ?u ?c) (lqq_list (lsq_stores (c_lsq ?c))))"
    by (simp add: example_load_cpu_def example_lsq_seats older_stores_def resolved_seat_def seat_of_def
        example_load_uop_def resolves_to_def in_space_def)
  moreover have "c_mem ?c = empty_memory" by (simp add: example_load_cpu_def make_cpu_def Let_def)
  ultimately show ?thesis
    using issued_load_agrees_with_reference [OF _ _ _ _ _ refl _ x] r x
    by (simp add: example_load_cpu_def)
qed

text \<open>C21: A store writes at commit what the reference interpreter stores: the queue seat filled
  at issue holds the address, the data and the width of the instruction, and draining the
  oldest seat is that store.\<close>

theorem committed_store_agrees_with_reference:
  assumes "wf_decoded (u_dec u)" "d_is_store (u_dec u)" "store_seat u (lqq_nth (lsq_stores (c_lsq c)) 0)"
  shows "c_mem (commit_store (d_op (u_dec u)) c) = ef_mem (ref_effect u (c_mem c) st)"
proof -
  have "d_op (u_dec u) \<in> {Op_SB, Op_SH, Op_SW}" using assms is_store_ops by blast
  with assms show ?thesis
    by (subst commit_store_mem) (simp_all add: store_seat_def store_ref)
qed

theorem committed_store_agrees_with_reference_witness:
  "let u = default_uop\<lparr>u_dec := decoded_zero\<lparr>d_op := Op_SW, d_kind := Kind_STORE, d_is_store := True\<rparr>,
             u_val1 := 0x100, u_val2 := 0xAABBCCDD\<rparr>
   in c_mem (commit_store Op_SW example_load_cpu) = ef_mem (ref_effect u (c_mem example_load_cpu) (start_result 0))"
proof -
  define u where "u = default_uop\<lparr>u_dec := decoded_zero\<lparr>d_op := Op_SW, d_kind := Kind_STORE, d_is_store := True\<rparr>,
    u_val1 := 0x100, u_val2 := 0xAABBCCDD\<rparr>"
  have "wf_decoded (u_dec u)" "d_is_store (u_dec u)" "d_op (u_dec u) = Op_SW"
    by (simp_all add: u_def wf_decoded_def kind_of_op_def op_writes_rd_def decoded_zero_def)
  moreover have "store_seat u (lqq_nth (lsq_stores (c_lsq example_load_cpu)) 0)"
    by (simp add: u_def store_seat_def example_load_cpu_def example_lsq_def lqq_nth_def lqq_wrap_def
        access_size_def decoded_zero_def)
  ultimately show ?thesis
    using committed_store_agrees_with_reference [of u example_load_cpu "start_result 0"]
    by (simp add: Let_def flip: u_def)
qed

end
