(* ===== verification/Golden.thy ===== *)
theory Golden
  imports Semantics
begin

text \<open>
  The run of the reference interpreter as the sequence of its states, and what an in-flight
  uop has to hold to agree with the reference state at its place in the sequence.
\<close>

section \<open>The reference run\<close>

definition golden :: "Memory \<Rightarrow> u32 \<Rightarrow> nat \<Rightarrow> Memory \<times> Result" where
  "golden mem pc i = (ref_step ^^ i) (mem, start_result pc)"

lemma golden_0 [simp]: "golden mem pc 0 = (mem, start_result pc)"
  by (simp add: golden_def)

lemma golden_Suc: "golden mem pc (Suc i) = ref_step (golden mem pc i)"
  by (simp add: golden_def)

text \<open>The instruction the reference executes in a state.\<close>

definition insn_at :: "Memory \<times> Result \<Rightarrow> Decoded" where
  "insn_at ms = decode (load_u32 (fst ms) (rs_pc (snd ms)))"

text \<open>
  What the pipeline asks of a program: a data access stays below the end of the address space
  (\<open>search_older_stores\<close> compares unwrapped bounds), and an instruction is not overwritten
  while the program runs (nothing flushes what was fetched, or the branch target buffer).
\<close>

definition access_fits :: "Memory \<times> Result \<Rightarrow> bool" where
  "access_fits ms \<longleftrightarrow> (let d = insn_at ms in d_is_load d \<or> d_is_store d \<longrightarrow>
     unat (rs_regs (snd ms) ! d_rs1 d + d_imm d) + access_size (d_op d) \<le> 2 ^ 32)"

definition tame :: "(nat \<Rightarrow> Memory \<times> Result) \<Rightarrow> bool" where
  "tame G \<longleftrightarrow> (\<forall>i. \<not> rs_done (snd (G i)) \<longrightarrow> access_fits (G i) \<and>
     (\<forall>j. \<not> rs_done (snd (G j)) \<longrightarrow>
       load_u32 (fst (G j)) (rs_pc (snd (G i))) = load_u32 (fst (G i)) (rs_pc (snd (G i)))))"

text \<open>A sequence of reference states from a start with 32 registers and \<open>x0\<close> zero.\<close>

definition golden_run :: "(nat \<Rightarrow> Memory \<times> Result) \<Rightarrow> bool" where
  "golden_run G \<longleftrightarrow> tame G \<and> regs_ok (rs_regs (snd (G 0))) \<and> (\<forall>i. G (Suc i) = ref_step (G i))"

lemma golden_run_golden: "tame (golden mem pc) \<Longrightarrow> golden_run (golden mem pc)"
  by (simp add: golden_run_def golden_Suc regs_ok_def start_result_def)

lemma golden_run_step: "golden_run G \<Longrightarrow> G (Suc i) = ref_step (G i)"
  by (simp add: golden_run_def)

lemma golden_code:
  assumes "golden_run G" "\<not> rs_done (snd (G i))" "\<not> rs_done (snd (G j))"
  shows "load_u32 (fst (G j)) (rs_pc (snd (G i))) = load_u32 (fst (G i)) (rs_pc (snd (G i)))"
  using assms unfolding golden_run_def tame_def by blast

text \<open>A finished run stays finished.\<close>

lemma ref_step_done: "rs_done (snd ms) \<Longrightarrow> rs_done (snd (ref_step ms))"
proof -
  have "rs_done st \<Longrightarrow> rs_done (ef_st (ref_switch d pc a b \<lparr>ef_next_pc = n, ef_result = r, ef_has_result = h, ef_mem = m, ef_st = st\<rparr>))"
    for st d pc a b n r h m
    by (cases "d_op d"; simp_all only: ref_switch_def Let_def Op.case; simp_all add: ef_value_def rs_done_def)
  then show "rs_done (snd ms) \<Longrightarrow> rs_done (snd (ref_step ms))"
    by (simp add: ref_step_def Let_def split_beta) (simp add: rs_done_def)
qed

lemma golden_running: "golden_run G \<Longrightarrow> \<not> rs_done (snd (G i)) \<Longrightarrow> j \<le> i \<Longrightarrow> \<not> rs_done (snd (G j))"
proof (induction i)
  case 0
  then show ?case by simp
next
  case (Suc i)
  then have "\<not> rs_done (snd (G i))" using ref_step_done golden_run_step by metis
  with Suc show ?case by (cases "j = Suc i") simp_all
qed

lemma golden_regs_ok: "golden_run G \<Longrightarrow> regs_ok (rs_regs (snd (G i)))"
  by (induction i) (simp_all add: golden_run_def ref_step_regs_ok)

section \<open>A uop at a reference state\<close>

text \<open>\<open>u\<close> is the instruction the reference is about to execute.\<close>

definition on_path :: "Memory \<times> Result \<Rightarrow> Uop \<Rightarrow> bool" where
  "on_path ms u \<longleftrightarrow> \<not> rs_done (snd ms) \<and> u_pc u = rs_pc (snd ms)"

definition fetched :: "Memory \<times> Result \<Rightarrow> Uop \<Rightarrow> bool" where
  "fetched ms u \<longleftrightarrow> u_raw u = load_u32 (fst ms) (u_pc u)"

definition decoded_uop :: "Uop \<Rightarrow> bool" where
  "decoded_uop u \<longleftrightarrow> u_dec u = decode (u_raw u) \<and>
     u_trap u = (if d_op (u_dec u) = Op_INVALID then Trap_ILLEGAL else Trap_NONE)"

text \<open>Its operands are the reference's and so is everything it computed but memory.\<close>

definition operands_right :: "Memory \<times> Result \<Rightarrow> Uop \<Rightarrow> bool" where
  "operands_right ms u \<longleftrightarrow> u_val1 u = rs_regs (snd ms) ! d_rs1 (u_dec u) \<and>
     u_val2 u = rs_regs (snd ms) ! d_rs2 (u_dec u)"

definition executed :: "Memory \<times> Result \<Rightarrow> Uop \<Rightarrow> bool" where
  "executed ms u \<longleftrightarrow> operands_right ms u \<and> agrees u (ref_effect u (fst ms) (snd ms))"

text \<open>A step of the reference through the uop that carries its instruction.\<close>

lemma ref_step_uop:
  assumes "on_path ms u" "fetched ms u" "decoded_uop u" "operands_right ms u" "regs_ok (rs_regs (snd ms))"
  defines "e \<equiv> ref_effect u (fst ms) (snd ms)"
  shows "fst (ref_step ms) = ef_mem e"
    and "rs_regs (snd (ref_step ms)) = (if ef_has_result e \<and> d_writes_rd (u_dec u)
      then (rs_regs (snd ms))[d_rd (u_dec u) := ef_result e] else rs_regs (snd ms))"
    and "rs_halted (snd (ref_step ms)) = rs_halted (ef_st e)"
    and "rs_trapped (snd (ref_step ms)) = rs_trapped (ef_st e)"
    and "rs_exit_code (snd (ref_step ms)) = rs_exit_code (ef_st e)"
    and "rs_pc (snd (ref_step ms)) = (if rs_done (snd (ref_step ms)) then u_pc u else ef_next_pc e)"
proof -
  obtain m st where ms: "ms = (m, st)" by (cases ms)
  have d: "u_dec u = decode (load_u32 m (rs_pc st))" "u_pc u = rs_pc st"
    using assms by (simp_all add: on_path_def fetched_def decoded_uop_def ms)
  have wf: "wf_decoded (u_dec u)" by (simp add: d(1) wf_decode)
  have e: "e = ref_switch (u_dec u) (rs_pc st) (rs_regs st ! d_rs1 (u_dec u)) (rs_regs st ! d_rs2 (u_dec u))
      \<lparr>ef_next_pc = rs_pc st + 4, ef_result = 0, ef_has_result = False, ef_mem = m, ef_st = st\<rparr>"
    using assms(4) by (simp add: e_def ref_effect_def operands_right_def ms d(2))
  have regs: "rs_regs (ef_st e) = rs_regs st" "rs_retired (ef_st e) = rs_retired st" by (simp_all add: e)
  have zero: "r[0 := 0] = r" if "regs_ok r" for r
    using that by (metis list_update_id regs_ok_def)
  have out: "ref_step ms = (ef_mem e,
      (let st' = (ef_st e)\<lparr>rs_regs := (if ef_has_result e \<and> d_writes_rd (u_dec u)
              then (rs_regs st)[d_rd (u_dec u) := ef_result e] else rs_regs st)[0 := 0]\<rparr>
       in (st'\<lparr>rs_pc := (if rs_done st' then rs_pc st else ef_next_pc e)\<rparr>)\<lparr>rs_retired := rs_retired (ef_st e) + 1\<rparr>))"
    by (simp add: ref_step_def ms Let_def regs flip: d(1) e)
  have "regs_ok (rs_regs st)" using assms(5) by (simp add: ms)
  moreover have "regs_ok ((rs_regs st)[d_rd (u_dec u) := v])" if "d_writes_rd (u_dec u)" for v
    using wf that calculation by (simp add: wf_decoded_def regs_ok_def)
  ultimately show "rs_regs (snd (ref_step ms)) = (if ef_has_result e \<and> d_writes_rd (u_dec u)
      then (rs_regs (snd ms))[d_rd (u_dec u) := ef_result e] else rs_regs (snd ms))"
    unfolding out by (simp add: Let_def ms zero)
  show "fst (ref_step ms) = ef_mem e" "rs_halted (snd (ref_step ms)) = rs_halted (ef_st e)"
    "rs_trapped (snd (ref_step ms)) = rs_trapped (ef_st e)"
    "rs_exit_code (snd (ref_step ms)) = rs_exit_code (ef_st e)"
    "rs_pc (snd (ref_step ms)) = (if rs_done (snd (ref_step ms)) then u_pc u else ef_next_pc e)"
    unfolding out by (simp_all add: Let_def rs_done_def d(2))
qed

section \<open>The effect of one operation\<close>

lemma effect_frame:
  assumes wf: "wf_decoded (u_dec u)"
  shows "d_writes_rd (u_dec u) \<Longrightarrow> ef_has_result (ref_effect u m st)"
    and "\<not> d_is_store (u_dec u) \<Longrightarrow> ef_mem (ref_effect u m st) = m"
    and "d_kind (u_dec u) \<noteq> Kind_TRAP \<Longrightarrow> ef_st (ref_effect u m st) = st"
    and "\<not> d_is_branch (u_dec u) \<Longrightarrow> ef_next_pc (ref_effect u m st) = u_pc u + 4"
proof -
  have op: "d_kind (u_dec u) = kind_of_op (d_op (u_dec u))"
    "d_is_store (u_dec u) \<longleftrightarrow> kind_of_op (d_op (u_dec u)) = Kind_STORE"
    "d_is_branch (u_dec u) \<longleftrightarrow> kind_of_op (d_op (u_dec u)) = Kind_BRANCH"
    "d_writes_rd (u_dec u) \<Longrightarrow> op_writes_rd (d_op (u_dec u))"
    using wf by (simp_all add: wf_decoded_def)
  show "ef_mem (ref_effect u m st) = m" if "\<not> d_is_store (u_dec u)"
    using that unfolding op(2)
    by (cases "d_op (u_dec u)"; simp_all only: ref_effect_def ref_switch_def Let_def Op.case;
        simp_all add: ef_value_def kind_of_op_def)
  show "ef_st (ref_effect u m st) = st" if "d_kind (u_dec u) \<noteq> Kind_TRAP"
    using that unfolding op(1)
    by (cases "d_op (u_dec u)"; simp_all only: ref_effect_def ref_switch_def Let_def Op.case;
        simp_all add: ef_value_def kind_of_op_def)
  show "ef_next_pc (ref_effect u m st) = u_pc u + 4" if "\<not> d_is_branch (u_dec u)"
    using that unfolding op(3)
    by (cases "d_op (u_dec u)"; simp_all only: ref_effect_def ref_switch_def Let_def Op.case;
        simp_all add: ef_value_def kind_of_op_def)
  show "ef_has_result (ref_effect u m st)" if "d_writes_rd (u_dec u)"
    using op(4) [OF that]
    by (cases "d_op (u_dec u)"; simp_all only: ref_effect_def ref_switch_def Let_def Op.case;
        simp_all add: ef_value_def kind_of_op_def op_writes_rd_def)
qed

section \<open>The stores of a stretch of the run\<close>

text \<open>The seat a store would fill at the reference state, and those of consecutive uops.\<close>

definition ref_seat :: "Memory \<times> Result \<Rightarrow> Uop \<Rightarrow> LsqEntry" where
  "ref_seat ms u = \<lparr>lq_seq = u_seq u, lq_addr = rs_regs (snd ms) ! d_rs1 (u_dec u) + d_imm (u_dec u),
     lq_data = rs_regs (snd ms) ! d_rs2 (u_dec u), lq_size = access_size (d_op (u_dec u)),
     lq_addr_ready = True, lq_data_ready = True\<rparr>"

primrec ref_stores :: "(nat \<Rightarrow> Memory \<times> Result) \<Rightarrow> nat \<Rightarrow> Uop list \<Rightarrow> LsqEntry list" where
  "ref_stores G n [] = []"
| "ref_stores G n (u # us) =
     (if d_is_store (u_dec u) then ref_seat (G n) u # ref_stores G (Suc n) us else ref_stores G (Suc n) us)"

text \<open>Consecutive uops that follow the run.\<close>

primrec along :: "(nat \<Rightarrow> Memory \<times> Result) \<Rightarrow> nat \<Rightarrow> Uop list \<Rightarrow> bool" where
  "along G n [] = True"
| "along G n (u # us) \<longleftrightarrow> on_path (G n) u \<and> fetched (G n) u \<and> decoded_uop u \<and> along G (Suc n) us"

lemma golden_store:
  assumes G: "golden_run G" and u: "on_path (G n) u" "fetched (G n) u" "decoded_uop u"
  shows "fst (G (Suc n)) = (if d_is_store (u_dec u) then store_bytes (ref_seat (G n) u) (fst (G n)) else fst (G n))"
    and "d_is_store (u_dec u) \<Longrightarrow> in_space (ref_seat (G n) u)"
proof -
  define u' where "u' = u\<lparr>u_val1 := rs_regs (snd (G n)) ! d_rs1 (u_dec u), u_val2 := rs_regs (snd (G n)) ! d_rs2 (u_dec u)\<rparr>"
  have u': "on_path (G n) u'" "fetched (G n) u'" "decoded_uop u'" "operands_right (G n) u'"
    using u by (simp_all add: u'_def on_path_def fetched_def decoded_uop_def operands_right_def)
  have wf: "wf_decoded (u_dec u')" using u'(3) by (simp add: decoded_uop_def wf_decode)
  have step: "fst (G (Suc n)) = ef_mem (ref_effect u' (fst (G n)) (snd (G n)))"
    using ref_step_uop(1) [OF u' golden_regs_ok [OF G]] by (simp add: golden_run_step [OF G])
  show "fst (G (Suc n)) = (if d_is_store (u_dec u) then store_bytes (ref_seat (G n) u) (fst (G n)) else fst (G n))"
  proof (cases "d_is_store (u_dec u)")
    case True
    then have "store_bytes (ref_seat (G n) u) (fst (G n)) = ef_mem (ref_effect u' (fst (G n)) (snd (G n)))"
      using wf by (intro store_ref) (simp_all add: u'_def store_seat_def ref_seat_def)
    with True step show ?thesis by simp
  next
    case False
    then show ?thesis using step effect_frame(2) [OF wf] by (simp add: u'_def)
  qed
  have "insn_at (G n) = u_dec u" using u by (simp add: insn_at_def on_path_def fetched_def decoded_uop_def)
  then show "d_is_store (u_dec u) \<Longrightarrow> in_space (ref_seat (G n) u)"
    using G u(1) access_size_cases [of "d_op (u_dec u)"]
    by (auto simp: golden_run_def tame_def access_fits_def in_space_def ref_seat_def on_path_def Let_def)
qed

lemma drain_ref_stores:
  assumes G: "golden_run G"
  shows "along G n us \<Longrightarrow> drain (ref_stores G n us) (fst (G n)) = fst (G (n + length us))"
proof (induction us arbitrary: n)
  case Nil
  then show ?case by (simp add: drain_def)
next
  case (Cons u us)
  then have "drain (ref_stores G (Suc n) us) (fst (G (Suc n))) = fst (G (Suc n + length us))" by simp
  moreover have "fst (G (Suc n)) = (if d_is_store (u_dec u) then store_bytes (ref_seat (G n) u) (fst (G n)) else fst (G n))"
    using golden_store(1) [OF G] Cons.prems by simp
  ultimately show ?case by (auto simp: drain_def)
qed

text \<open>Registers along the run: a uop's result, and what it leaves alone.\<close>

lemma golden_regs:
  assumes G: "golden_run G" and u: "on_path (G n) u" "fetched (G n) u" "decoded_uop u" "a < 32"
  shows "\<not> (d_writes_rd (u_dec u) \<and> a = d_rd (u_dec u)) \<Longrightarrow> rs_regs (snd (G (Suc n))) ! a = rs_regs (snd (G n)) ! a"
    and "executed (G n) u \<Longrightarrow> d_writes_rd (u_dec u) \<Longrightarrow> rs_regs (snd (G (Suc n))) ! d_rd (u_dec u) = u_result u"
proof -
  have wf: "wf_decoded (u_dec u)" using u(3) by (simp add: decoded_uop_def wf_decode)
  define u' where "u' = u\<lparr>u_val1 := rs_regs (snd (G n)) ! d_rs1 (u_dec u), u_val2 := rs_regs (snd (G n)) ! d_rs2 (u_dec u)\<rparr>"
  have u': "on_path (G n) u'" "fetched (G n) u'" "decoded_uop u'" "operands_right (G n) u'"
    using u by (simp_all add: u'_def on_path_def fetched_def decoded_uop_def operands_right_def)
  have "u_dec u' = u_dec u" by (simp add: u'_def)
  then show "\<not> (d_writes_rd (u_dec u) \<and> a = d_rd (u_dec u)) \<Longrightarrow> rs_regs (snd (G (Suc n))) ! a = rs_regs (snd (G n)) ! a"
    using ref_step_uop(2) [OF u' golden_regs_ok [OF G]] by (auto simp: golden_run_step [OF G])
  show "executed (G n) u \<Longrightarrow> d_writes_rd (u_dec u) \<Longrightarrow> rs_regs (snd (G (Suc n))) ! d_rd (u_dec u) = u_result u"
  proof -
    assume x: "executed (G n) u" and w: "d_writes_rd (u_dec u)"
    define e where "e = ref_effect u (fst (G n)) (snd (G n))"
    have "ef_has_result e" using effect_frame(1) [OF wf w] by (simp add: e_def)
    moreover from this have "u_result u = ef_result e" using x by (simp add: executed_def agrees_def e_def)
    moreover have "rs_regs (snd (G (Suc n))) = (if ef_has_result e \<and> d_writes_rd (u_dec u)
        then (rs_regs (snd (G n)))[d_rd (u_dec u) := ef_result e] else rs_regs (snd (G n)))"
      using ref_step_uop(2) [OF u(1-3) _ golden_regs_ok [OF G]] x
      by (simp add: golden_run_step [OF G] executed_def e_def)
    moreover have "d_rd (u_dec u) < length (rs_regs (snd (G n)))"
      using golden_regs_ok [OF G, of n] wf by (simp add: regs_ok_def wf_decoded_def)
    ultimately show ?thesis using w by simp
  qed
qed

end
