(* ===== verification/Seats.thy ===== *)
theory Seats
  imports Golden
begin

text \<open>
  The load and store queues against the dispatched uops: each access owns one seat, in program
  order, at the index the uop carries, and a store's seat is filled exactly once it has issued.
  One lemma per queue operation, and the value an issuing load gets.
\<close>

section \<open>A queue as slots and entries\<close>

definition lqq_pairs :: "LsqQueue \<Rightarrow> (nat \<times> LsqEntry) list" where
  "lqq_pairs q = map (\<lambda>k. (ring_slot (lqq_slots q) (lqq_head q) k, lqq_nth q k)) [0..<lqq_count q]"

lemma lqq_pairs_entries: "map snd (lqq_pairs q) = lqq_list q"
  by (simp add: lqq_pairs_def comp_def lqq_nth_list)

lemma length_lqq_pairs [simp]: "length (lqq_pairs q) = lqq_count q"
  by (simp add: lqq_pairs_def)

lemma lqq_pairs_nth: "k < lqq_count q \<Longrightarrow> lqq_pairs q ! k = (ring_slot (lqq_slots q) (lqq_head q) k, lqq_list q ! k)"
  by (simp add: lqq_pairs_def lqq_nth_nth)

lemma lqq_pairs_empty: "lqq_count q = 0 \<Longrightarrow> lqq_pairs q = []"
  by (simp add: lqq_pairs_def)

lemma lqq_pairs_at: "lqq_ok q \<Longrightarrow> (i, e) \<in> set (lqq_pairs q) \<Longrightarrow> lqq_at q i = e \<and> i < length (lqq_slots q)"
  by (auto simp: lqq_pairs_def lqq_at_def lqq_nth_def lqq_wrap_def ring_slot_def lqq_ok_def
      intro: mod_less_divisor)

lemma lqq_pairs_alloc:
  assumes "lqq_ok q" "lqq_alloc q s n = Some (i, q')"
  shows "lqq_pairs q' = lqq_pairs q @ [(i, \<lparr>lq_seq = s, lq_addr = 0, lq_data = 0, lq_size = n,
      lq_addr_ready = False, lq_data_ready = False\<rparr>)]"
proof -
  note l = lqq_alloc_list [OF assms]
  have slots: "length (lqq_slots q') = length (lqq_slots q)" "lqq_head q' = lqq_head q"
    using assms(2) by (auto simp: lqq_alloc_def Let_def split: if_splits)
  show ?thesis
  proof (rule nth_equalityI)
    fix k assume "k < length (lqq_pairs q')"
    then have k: "k < Suc (lqq_count q)" by (simp add: l(5))
    then show "lqq_pairs q' ! k = (lqq_pairs q @ [(i, \<lparr>lq_seq = s, lq_addr = 0, lq_data = 0, lq_size = n,
        lq_addr_ready = False, lq_data_ready = False\<rparr>)]) ! k"
      using l(1,4,5) slots
      by (cases "k < lqq_count q") (auto simp: lqq_pairs_nth nth_append ring_slot_def less_Suc_eq)
  qed (simp add: l(5))
qed

lemma lqq_pairs_pop: "lqq_ok q \<Longrightarrow> lqq_pairs (lqq_pop_head q) = tl (lqq_pairs q)"
proof (rule nth_equalityI)
  assume ok: "lqq_ok q"
  show len: "length (lqq_pairs (lqq_pop_head q)) = length (tl (lqq_pairs q))" by (simp add: lqq_pop_head_def)
  fix k assume "k < length (lqq_pairs (lqq_pop_head q))"
  then have k: "Suc k < lqq_count q" by (simp add: lqq_pop_head_def split: if_splits)
  have "ring_slot (lqq_slots q) (Suc (lqq_head q) mod length (lqq_slots q)) k = ring_slot (lqq_slots q) (lqq_head q) (Suc k)"
    by (simp add: ring_slot_def mod_simps)
  with k show "lqq_pairs (lqq_pop_head q) ! k = tl (lqq_pairs q) ! k"
    using lqq_pop_list(1) [OF ok] by (simp add: nth_tl lqq_pairs_nth lqq_pop_head_def lqq_wrap_def)
qed

lemma lqq_pairs_modify:
  assumes ok: "lqq_ok q" and p: "lqq_pairs q = us @ (i, e) # vs"
  shows "lqq_pairs (lqq_modify q i f) = us @ (i, f e) # vs"
proof -
  define m where "m = length us"
  have m: "m < lqq_count q" using p length_lqq_pairs [of q] by (simp add: m_def)
  have i: "i = ring_slot (lqq_slots q) (lqq_head q) m" "lqq_list q ! m = e"
    using lqq_pairs_nth [OF m] by (simp_all add: p m_def nth_append)
  have "lqq_pairs (lqq_modify q i f) = (lqq_pairs q)[m := (i, f e)]"
  proof (rule nth_equalityI)
    fix k assume "k < length (lqq_pairs (lqq_modify q i f))"
    then have k: "k < lqq_count q" by simp
    then show "lqq_pairs (lqq_modify q i f) ! k = (lqq_pairs q)[m := (i, f e)] ! k"
      using lqq_modify_list [OF ok m, of f, folded i(1)] i m
      by (cases "k = m") (simp_all add: lqq_pairs_nth ring_slot_def nth_list_update)
  qed simp
  then show ?thesis by (simp add: p m_def)
qed

lemma lqq_pairs_squash:
  assumes "program_ordered lq_seq (lqq_list q)"
  shows "lqq_pairs (lqq_squash_after s q) = filter (\<lambda>p. lq_seq (snd p) \<le> s) (lqq_pairs q)"
  using assms
proof (induction s q rule: lqq_squash_after.induct)
  case (1 s q)
  show ?case
  proof (cases "lqq_count q")
    case 0
    then show ?thesis by (subst lqq_squash_after.simps) (simp add: lqq_pairs_empty)
  next
    case (Suc k)
    define q1 where "q1 = q\<lparr>lqq_count := k\<rparr>"
    have split: "lqq_list q = lqq_list q1 @ [lqq_nth q k]"
      using Suc by (simp add: q1_def lqq_list_count lqq_nth_nth flip: take_Suc_conv_app_nth)
    have pairs: "lqq_pairs q = lqq_pairs q1 @ [(ring_slot (lqq_slots q) (lqq_head q) k, lqq_nth q k)]"
      using Suc by (simp add: lqq_pairs_def q1_def lqq_nth_def lqq_wrap_def)
    have ord: "program_ordered lq_seq (lqq_list q1)" "\<forall>e \<in> set (lqq_list q1). lq_seq e < lq_seq (lqq_nth q k)"
      using "1.prems" by (simp_all add: split program_ordered_append)
    have old: "\<forall>p \<in> set (lqq_pairs q1). lq_seq (snd p) < lq_seq (lqq_nth q k)"
      using ord(2) by (simp flip: lqq_pairs_entries)
    show ?thesis
    proof (cases "s < lq_seq (lqq_nth q k)")
      case True
      with 1 Suc ord have "lqq_pairs (lqq_squash_after s q1) = filter (\<lambda>p. lq_seq (snd p) \<le> s) (lqq_pairs q1)"
        by (simp add: q1_def)
      with True Suc show ?thesis
        by (subst lqq_squash_after.simps) (simp add: pairs flip: q1_def)
    next
      case False
      then have "\<forall>p \<in> set (lqq_pairs q1). lq_seq (snd p) \<le> s" using old by auto
      with False Suc show ?thesis
        by (subst lqq_squash_after.simps) (simp add: pairs filter_id_conv)
    qed
  qed
qed

section \<open>The seats of the dispatched uops\<close>

definition load_at :: "Uop \<Rightarrow> nat \<times> LsqEntry \<Rightarrow> bool" where
  "load_at u p \<longleftrightarrow> fst p = u_lsq_idx u \<and> lq_seq (snd p) = u_seq u \<and>
     lq_size (snd p) = access_size (d_op (u_dec u))"

text \<open>\<open>I\<close> holds the sequence numbers of the uops that have not issued.\<close>

definition store_at :: "SeqNum set \<Rightarrow> Uop \<Rightarrow> nat \<times> LsqEntry \<Rightarrow> bool" where
  "store_at I u p \<longleftrightarrow> fst p = u_lsq_idx u \<and> lq_seq (snd p) = u_seq u \<and>
     lq_size (snd p) = access_size (d_op (u_dec u)) \<and>
     (if u_seq u \<in> I then \<not> lq_addr_ready (snd p) \<and> \<not> lq_data_ready (snd p)
      else store_seat u (snd p))"

definition loads :: "Uop list \<Rightarrow> Uop list" where
  "loads us = filter (\<lambda>u. d_is_load (u_dec u)) us"

definition stores :: "Uop list \<Rightarrow> Uop list" where
  "stores us = filter (\<lambda>u. d_is_store (u_dec u)) us"

lemma loads_stores_simps [simp]:
  "loads [] = []" "stores [] = []" "loads (us @ vs) = loads us @ loads vs" "stores (us @ vs) = stores us @ stores vs"
  "loads (u # us) = (if d_is_load (u_dec u) then u # loads us else loads us)"
  "stores (u # us) = (if d_is_store (u_dec u) then u # stores us else stores us)"
  by (simp_all add: loads_def stores_def)

definition seats :: "SeqNum set \<Rightarrow> Uop list \<Rightarrow> Lsq \<Rightarrow> bool" where
  "seats I ds l \<longleftrightarrow> lqq_ok (lsq_loads l) \<and> lqq_ok (lsq_stores l) \<and>
     list_all2 load_at (loads ds) (lqq_pairs (lsq_loads l)) \<and>
     list_all2 (store_at I) (stores ds) (lqq_pairs (lsq_stores l))"

text \<open>Only these fields of a uop matter to its seat.\<close>

definition seat_view where
  "seat_view u = (u_seq u, u_lsq_idx u, u_dec u, u_val1 u, u_val2 u)"

lemma seat_view_eqs:
  assumes "seat_view u' = seat_view u"
  shows "u_seq u' = u_seq u" "u_lsq_idx u' = u_lsq_idx u" "u_dec u' = u_dec u" "u_val1 u' = u_val1 u" "u_val2 u' = u_val2 u"
  using assms unfolding seat_view_def prod.inject by blast+

lemma seats_payload:
  assumes "seats I (ds @ u # es) l" "seat_view u' = seat_view u"
  shows "seats I (ds @ u' # es) l"
  using assms(1) seat_view_eqs [OF assms(2)]
  by (auto simp: seats_def load_at_def store_at_def store_seat_def list_all2_append1 list_all2_Cons1 split: if_splits)

lemma store_at_idle:
  assumes "\<And>u. u \<in> set ds \<Longrightarrow> u_seq u \<in> J \<longleftrightarrow> u_seq u \<in> I"
  shows "list_all2 (store_at J) (stores ds) ps \<longleftrightarrow> list_all2 (store_at I) (stores ds) ps"
  using assms by (intro list.rel_cong refl) (auto simp: store_at_def stores_def)

lemma store_at_other:
  "s \<notin> u_seq ` set ds \<Longrightarrow>
   list_all2 (store_at (I - {s})) (stores ds) ps \<longleftrightarrow> list_all2 (store_at I) (stores ds) ps"
  by (rule store_at_idle) auto

lemma seats_idle:
  assumes "seats I ds l" "\<And>u. u \<in> set ds \<Longrightarrow> u_seq u \<in> J \<longleftrightarrow> u_seq u \<in> I"
  shows "seats J ds l"
  using assms(1) store_at_idle [OF assms(2)] by (simp add: seats_def)

section \<open>What the pipeline does to the seats\<close>

lemma seats_clear [simp]: "lqq_ok (lsq_loads l) \<Longrightarrow> lqq_ok (lsq_stores l) \<Longrightarrow> seats I [] (lsq_clear l)"
  by (simp add: seats_def lsq_clear_def lqq_pairs_empty lqq_clear_def lqq_ok_def) auto

lemma seats_reset [simp]: "seats I [] (make_lsq nl ns)"
  by (simp add: seats_def make_lsq_def lqq_pairs_empty) (simp add: lqq_pairs_def make_lsq_queue_def)

text \<open>Dispatch.\<close>

lemma seats_dispatch_load:
  assumes "seats I ds l" "alloc_load l (u_seq u) (access_size (d_op (u_dec u))) = Some (u_lsq_idx u, l')"
    "d_is_load (u_dec u)" "\<not> d_is_store (u_dec u)"
  shows "seats I (ds @ [u]) l'"
proof -
  obtain q where q: "lqq_alloc (lsq_loads l) (u_seq u) (access_size (d_op (u_dec u))) = Some (u_lsq_idx u, q)"
    "l' = l\<lparr>lsq_loads := q\<rparr>" using assms(2) by (auto simp: alloc_load_def split: option.splits)
  have "lqq_ok (lsq_loads l)" using assms(1) by (simp add: seats_def)
  then show ?thesis
    using assms lqq_pairs_alloc [OF _ q(1)] lqq_alloc_list(2) [OF _ q(1)]
    by (simp add: seats_def q(2) load_at_def list_all2_appendI)
qed

lemma seats_dispatch_store:
  assumes "seats I ds l" "alloc_store l (u_seq u) (access_size (d_op (u_dec u))) = Some (u_lsq_idx u, l')"
    "d_is_store (u_dec u)" "\<not> d_is_load (u_dec u)" "u_seq u \<in> I"
  shows "seats I (ds @ [u]) l'"
proof -
  obtain q where q: "lqq_alloc (lsq_stores l) (u_seq u) (access_size (d_op (u_dec u))) = Some (u_lsq_idx u, q)"
    "l' = l\<lparr>lsq_stores := q\<rparr>" using assms(2) by (auto simp: alloc_store_def split: option.splits)
  have "lqq_ok (lsq_stores l)" using assms(1) by (simp add: seats_def)
  then show ?thesis
    using assms lqq_pairs_alloc [OF _ q(1)] lqq_alloc_list(2) [OF _ q(1)]
    by (simp add: seats_def q(2) store_at_def list_all2_appendI)
qed

lemma seats_dispatch_other:
  "seats I ds l \<Longrightarrow> \<not> d_is_load (u_dec u) \<Longrightarrow> \<not> d_is_store (u_dec u) \<Longrightarrow> seats I (ds @ [u]) l"
  by (simp add: seats_def)

text \<open>Issue.\<close>

lemma seat_of_load:
  assumes "seats I (ds @ u # es) l" "d_is_load (u_dec u)"
  shows "u_lsq_idx u < length (lqq_slots (lsq_loads l))"
    and "lq_seq (lqq_at (lsq_loads l) (u_lsq_idx u)) = u_seq u"
    and "lq_size (lqq_at (lsq_loads l) (u_lsq_idx u)) = access_size (d_op (u_dec u))"
    and "seats I (ds @ u # es) (resolve_load_addr l (u_lsq_idx u) a)"
proof -
  obtain xs e ys where p: "lqq_pairs (lsq_loads l) = xs @ (u_lsq_idx u, e) # ys" "lq_seq e = u_seq u"
      "lq_size e = access_size (d_op (u_dec u))" "list_all2 load_at (loads ds) xs" "list_all2 load_at (loads es) ys"
    using assms by (auto simp: seats_def list_all2_append1 list_all2_Cons1 load_at_def)
  have ok: "lqq_ok (lsq_loads l)" using assms(1) by (simp add: seats_def)
  show "u_lsq_idx u < length (lqq_slots (lsq_loads l))" "lq_seq (lqq_at (lsq_loads l) (u_lsq_idx u)) = u_seq u"
    "lq_size (lqq_at (lsq_loads l) (u_lsq_idx u)) = access_size (d_op (u_dec u))"
    using lqq_pairs_at [OF ok, of "u_lsq_idx u" e] p by simp_all
  show "seats I (ds @ u # es) (resolve_load_addr l (u_lsq_idx u) a)"
    using assms p lqq_pairs_modify [OF ok p(1)]
    by (simp add: seats_def resolve_load_addr_def load_at_def list_all2_appendI)
qed

lemma seats_issue_other:
  assumes "seats I (ds @ u # es) l" "\<not> d_is_store (u_dec u)" "u_seq u' = u_seq u" "u_dec u' = u_dec u"
    "u_lsq_idx u' = u_lsq_idx u" "u_seq u \<notin> u_seq ` (set ds \<union> set es)"
  shows "seats (I - {u_seq u}) (ds @ u' # es) l"
proof -
  have "u_seq u \<notin> u_seq ` set (ds @ es)" using assms(6) by auto
  note same = store_at_other [OF this]
  show ?thesis
    using assms(1-5) same
    by (auto simp: seats_def list_all2_append1 list_all2_Cons1 load_at_def split: if_splits)
qed

lemma seats_issue_store:
  assumes "seats I (ds @ u # es) l" "d_is_store (u_dec u)" "\<not> d_is_load (u_dec u)"
    "u_seq u' = u_seq u" "u_dec u' = u_dec u" "u_lsq_idx u' = u_lsq_idx u"
    "u_seq u \<notin> u_seq ` (set ds \<union> set es)"
  shows "seats (I - {u_seq u}) (ds @ u' # es)
    (resolve_data (resolve_addr l (u_lsq_idx u) (u_val1 u' + d_imm (u_dec u))) (u_lsq_idx u) (u_val2 u'))"
proof -
  let ?J = "I - {u_seq u}"
  obtain xs e ys where p: "lqq_pairs (lsq_stores l) = xs @ (u_lsq_idx u, e) # ys" "lq_seq e = u_seq u"
      "lq_size e = access_size (d_op (u_dec u))" "list_all2 (store_at I) (stores ds) xs" "list_all2 (store_at I) (stores es) ys"
    using assms by (auto simp: seats_def list_all2_append1 list_all2_Cons1 store_at_def)
  have ok: "lqq_ok (lsq_stores l)" using assms(1) by (simp add: seats_def)
  define q where "q = lqq_modify (lsq_stores l) (u_lsq_idx u) (\<lambda>e. e\<lparr>lq_addr := u_val1 u' + d_imm (u_dec u), lq_addr_ready := True\<rparr>)"
  have q: "lqq_ok q" "lqq_pairs q = xs @ (u_lsq_idx u, e\<lparr>lq_addr := u_val1 u' + d_imm (u_dec u), lq_addr_ready := True\<rparr>) # ys"
    using ok lqq_pairs_modify [OF ok p(1)] by (simp_all add: q_def)
  have "list_all2 (store_at ?J) (stores ds) xs" "list_all2 (store_at ?J) (stores es) ys"
    using p(4,5) assms(7) by (simp_all add: store_at_other image_Un)
  then show ?thesis
    using assms p(2,3) q lqq_pairs_modify [OF q]
    by (simp add: seats_def resolve_addr_def resolve_data_def flip: q_def)
      (simp add: store_at_def store_seat_def list_all2_appendI)
qed

text \<open>Commit takes the oldest uop's seat.\<close>

lemma seats_pop:
  assumes "seats I (u # ds) l" "wf_decoded (u_dec u)"
  shows "d_is_load (u_dec u) \<Longrightarrow> seats I ds (l\<lparr>lsq_loads := lqq_pop_head (lsq_loads l)\<rparr>)"
    and "d_is_store (u_dec u) \<Longrightarrow> seats I ds (l\<lparr>lsq_stores := lqq_pop_head (lsq_stores l)\<rparr>)"
    and "d_is_store (u_dec u) \<Longrightarrow> u_seq u \<notin> I \<Longrightarrow> store_seat u (lqq_nth (lsq_stores l) 0)"
    and "\<not> d_is_load (u_dec u) \<Longrightarrow> \<not> d_is_store (u_dec u) \<Longrightarrow> seats I ds l"
proof -
  have ok: "lqq_ok (lsq_loads l)" "lqq_ok (lsq_stores l)" using assms(1) by (simp_all add: seats_def)
  have excl: "\<not> (d_is_load (u_dec u) \<and> d_is_store (u_dec u))" using assms(2) by (auto simp: wf_decoded_def)
  show "d_is_load (u_dec u) \<Longrightarrow> seats I ds (l\<lparr>lsq_loads := lqq_pop_head (lsq_loads l)\<rparr>)"
    "d_is_store (u_dec u) \<Longrightarrow> seats I ds (l\<lparr>lsq_stores := lqq_pop_head (lsq_stores l)\<rparr>)"
    "\<not> d_is_load (u_dec u) \<Longrightarrow> \<not> d_is_store (u_dec u) \<Longrightarrow> seats I ds l"
    using assms(1) ok excl lqq_pop_list(2) lqq_pairs_pop
    by (auto simp: seats_def list_all2_Cons1 split: if_splits)
  show "store_seat u (lqq_nth (lsq_stores l) 0)" if "d_is_store (u_dec u)" "u_seq u \<notin> I"
  proof -
    note u = that
    obtain i e ys where "lqq_pairs (lsq_stores l) = (i, e) # ys" "store_seat u e"
      using assms(1) u by (auto simp: seats_def list_all2_Cons1 store_at_def)
    moreover from this have "0 < lqq_count (lsq_stores l)" using length_lqq_pairs [of "lsq_stores l"] by simp
    ultimately show ?thesis using lqq_pairs_nth [of 0 "lsq_stores l"] lqq_nth_nth [of 0 "lsq_stores l"] by simp
  qed
qed

text \<open>Recovery.\<close>

lemma list_all2_filter:
  "list_all2 R xs ys \<Longrightarrow> (\<And>x y. R x y \<Longrightarrow> P x \<longleftrightarrow> Q y) \<Longrightarrow> list_all2 R (filter P xs) (filter Q ys)"
  by (induction rule: list_all2_induct) auto

lemma seat_seqs: "list_all2 R xs ys \<Longrightarrow> (\<And>x y. R x y \<Longrightarrow> lq_seq (snd y) = u_seq x) \<Longrightarrow>
    map (lq_seq \<circ> snd) ys = map u_seq xs"
  by (induction rule: list_all2_induct) auto

lemma program_ordered_sorted: "program_ordered f xs = sorted_wrt (<) (map f xs)"
  by (simp add: program_ordered_def sorted_wrt_map)

lemma seats_ordered:
  assumes "seats I ds l" "program_ordered u_seq ds"
  shows "program_ordered lq_seq (lqq_list (lsq_loads l))" "program_ordered lq_seq (lqq_list (lsq_stores l))"
proof -
  have sub: "program_ordered u_seq (loads ds)" "program_ordered u_seq (stores ds)"
    using assms(2) by (simp_all add: loads_def stores_def program_ordered_filter)
  have "map lq_seq (lqq_list (lsq_loads l)) = map u_seq (loads ds)"
    "map lq_seq (lqq_list (lsq_stores l)) = map u_seq (stores ds)"
    using assms(1) seat_seqs [of load_at "loads ds"] seat_seqs [of "store_at I" "stores ds"]
    by (auto simp: seats_def load_at_def store_at_def simp flip: lqq_pairs_entries)
  with sub show "program_ordered lq_seq (lqq_list (lsq_loads l))" "program_ordered lq_seq (lqq_list (lsq_stores l))"
    by (simp_all add: program_ordered_sorted)
qed

lemma seats_squash:
  assumes "seats I ds l" "program_ordered u_seq ds"
  shows "seats I (filter (\<lambda>u. u_seq u \<le> s) ds) (lsq_squash_after s l)"
proof -
  have comm: "loads (filter (\<lambda>u. u_seq u \<le> s) ds) = filter (\<lambda>u. u_seq u \<le> s) (loads ds)"
    "stores (filter (\<lambda>u. u_seq u \<le> s) ds) = filter (\<lambda>u. u_seq u \<le> s) (stores ds)"
    by (simp_all add: loads_def stores_def conj_commute)
  show ?thesis
    using assms(1) seats_ordered [OF assms]
    by (auto simp: seats_def comm lsq_squash_after_def lqq_squash_after_ok lqq_pairs_squash load_at_def store_at_def
        intro!: list_all2_filter)
qed

section \<open>The value of an issuing load\<close>

text \<open>Older stores: issued ones have the address and data they will commit.\<close>

lemma store_resolves:
  assumes "store_at I u (i, e)" "u_seq u \<notin> I \<Longrightarrow> operands_right ms u" "in_space (ref_seat ms u)"
  shows "resolves_to e (ref_seat ms u)"
  using assms by (auto simp: store_at_def resolves_to_def ref_seat_def store_seat_def operands_right_def split: if_splits)

lemma stores_resolve:
  assumes G: "golden_run G"
  shows "list_all2 (store_at I) (stores us) ps \<Longrightarrow> along G n us \<Longrightarrow>
    \<forall>k < length us. u_seq (us ! k) \<notin> I \<longrightarrow> operands_right (G (n + k)) (us ! k) \<Longrightarrow>
    list_all2 resolves_to (map snd ps) (ref_stores G n us)"
proof (induction us arbitrary: n ps)
  case Nil
  then show ?case by simp
next
  case (Cons u us)
  have rest: "\<forall>k < length us. u_seq (us ! k) \<notin> I \<longrightarrow> operands_right (G (Suc n + k)) (us ! k)"
    and first: "u_seq u \<notin> I \<longrightarrow> operands_right (G n) u"
    using Cons.prems(3) by (auto simp: All_less_Suc2)
  show ?case
  proof (cases "d_is_store (u_dec u)")
    case True
    then obtain i e ps' where ps: "ps = (i, e) # ps'" "store_at I u (i, e)" "list_all2 (store_at I) (stores us) ps'"
      using Cons.prems(1) by (auto simp: list_all2_Cons1)
    have "resolves_to e (ref_seat (G n) u)"
      using store_resolves [OF ps(2)] first golden_store(2) [OF G] Cons.prems(2) True by simp
    with True ps Cons.IH [OF ps(3) _ rest] Cons.prems(2) show ?thesis by simp
  next
    case False
    with Cons.IH [OF _ _ rest] Cons.prems(1,2) show ?thesis by simp
  qed
qed

lemma takeWhile_older:
  assumes "\<forall>x \<in> set xs. lq_seq x \<le> s" "\<forall>y \<in> set ys. s < lq_seq y"
  shows "takeWhile (\<lambda>e. lq_seq e \<le> s) (xs @ ys) = xs"
  using assms by (cases ys) (auto simp: takeWhile_append)

lemma issued_load_value:
  assumes G: "golden_run G" and s: "seats I (ds @ u # es) (c_lsq c)" and mem: "c_mem c = fst (G n)"
    and order: "program_ordered u_seq (ds @ u # es)" and path: "along G n (ds @ [u])"
    and older: "\<forall>k < length ds. u_seq (ds ! k) \<notin> I \<longrightarrow> operands_right (G (n + k)) (ds ! k)"
    and load: "d_is_load (u_dec u)" "operands_right (G (n + length ds)) u"
    and x: "execute_load u lat c = (Some (u', lat'), c')"
  shows "u_result u' = ef_result (ref_effect u (fst (G (n + length ds))) st)" and "u_has_result u'"
proof -
  have at: "on_path (G (n + length ds)) u" "fetched (G (n + length ds)) u" "decoded_uop u" and ds: "along G n ds"
  proof -
    have "along G n (xs @ ys) \<longleftrightarrow> along G n xs \<and> along G (n + length xs) ys" for n xs ys
      by (induction xs arbitrary: n) auto
    with path show "on_path (G (n + length ds)) u" "fetched (G (n + length ds)) u" "decoded_uop u" "along G n ds"
      by simp_all
  qed
  have wf: "wf_decoded (u_dec u)" using at(3) by (simp add: decoded_uop_def wf_decode)
  note seat = seat_of_load(1-3) [OF s load(1)]
  have "insn_at (G (n + length ds)) = u_dec u" using at by (simp add: insn_at_def on_path_def fetched_def decoded_uop_def)
  then have fits: "unat (u_val1 u + d_imm (u_dec u)) + access_size (d_op (u_dec u)) \<le> 2 ^ 32"
    using G at(1) load by (auto simp: golden_run_def tame_def access_fits_def on_path_def operands_right_def Let_def)
  obtain ps ps' where p: "lqq_pairs (lsq_stores (c_lsq c)) = ps @ ps'"
      "list_all2 (store_at I) (stores ds) ps" "list_all2 (store_at I) (stores es) ps'"
    using s wf load(1) by (auto simp: seats_def list_all2_append1 wf_decoded_def split: if_splits)
  have list: "lqq_list (lsq_stores (c_lsq c)) = map snd ps @ map snd ps'" by (simp add: p(1) flip: lqq_pairs_entries)
  have seqs: "map (lq_seq \<circ> snd) ps = map u_seq (stores ds)" "map (lq_seq \<circ> snd) ps' = map u_seq (stores es)"
    using seat_seqs [OF p(2)] seat_seqs [OF p(3)] by (auto simp: store_at_def)
  have old: "\<forall>x \<in> set (map snd ps). lq_seq x \<le> u_seq u" "\<forall>x \<in> set (map snd ps'). u_seq u < lq_seq x"
  proof -
    have "set (map (lq_seq \<circ> snd) ps) \<subseteq> u_seq ` set ds" "set (map (lq_seq \<circ> snd) ps') \<subseteq> u_seq ` set es"
      by (auto simp: seqs stores_def)
    moreover have "\<forall>x \<in> set ds. u_seq x < u_seq u" "\<forall>x \<in> set es. u_seq u < u_seq x"
      using order by (auto simp: program_ordered_def sorted_wrt_append)
    ultimately show "\<forall>x \<in> set (map snd ps). lq_seq x \<le> u_seq u" "\<forall>x \<in> set (map snd ps'). u_seq u < lq_seq x"
      by fastforce+
  qed
  have "older_stores (resolved_seat u c) (lqq_list (lsq_stores (c_lsq c))) = map snd ps"
    using takeWhile_older [OF old] seat(2)
    by (simp add: list older_stores_def resolved_seat_def seat_of_def)
  moreover have "list_all2 resolves_to (map snd ps) (ref_stores G n ds)"
    by (rule stores_resolve [OF G p(2) ds older])
  ultimately have "u_result u' = ef_result (ref_effect u (drain (ref_stores G n ds) (c_mem c)) st) \<and> u_has_result u'"
    using execute_load_ref [OF wf load(1) seat(1) _ fits refl _ x] seat(3) by (simp add: seat_of_def)
  then show "u_result u' = ef_result (ref_effect u (fst (G (n + length ds))) st)" "u_has_result u'"
    using drain_ref_stores [OF G ds] by (simp_all add: mem)
qed

end
