(* ===== verification/Mappings.thy ===== *)
theory Mappings
  imports Rename Rob
begin

text \<open>
  The renaming transaction over the list of in-flight instructions: every instruction maps
  its destination on top of the mapping before it, remembers the mapping it displaced, and a
  branch snapshots the mapping after it. The invariant is stated once over that list, and
  each pipeline action (rename, commit, recovery, halt squash) keeps it.
\<close>

section \<open>In-flight mappings\<close>

record View =
  v_arch :: ArchReg
  v_dest :: PhysReg
  v_stale :: PhysReg
  v_branch :: bool
  v_ckpt :: CheckpointId

definition entry_view :: "RobEntry \<Rightarrow> View" where
  "entry_view e = \<lparr>v_arch = re_dest_arch e, v_dest = re_dest_phys e, v_stale = re_stale_phys e,
     v_branch = re_is_branch e, v_ckpt = re_ckpt e\<rparr>"

definition v_writes :: "View \<Rightarrow> bool" where
  "v_writes v \<longleftrightarrow> v_dest v \<noteq> INVALID_PHYSREG"

definition map_dest :: "View \<Rightarrow> PhysReg list \<Rightarrow> PhysReg list" where
  "map_dest v m = (if v_writes v then m[v_arch v := v_dest v] else m)"

text \<open>The mapping after the in-flight instructions, from the committed one.\<close>

definition map_after :: "PhysReg list \<Rightarrow> View list \<Rightarrow> PhysReg list" where
  "map_after m vs = fold map_dest vs m"

text \<open>Every instruction displaced what was mapped before it.\<close>

primrec displaced :: "PhysReg list \<Rightarrow> View list \<Rightarrow> bool" where
  "displaced m [] = True"
| "displaced m (v # vs) \<longleftrightarrow>
     (v_writes v \<longrightarrow> 0 < v_arch v \<and> v_arch v < 32 \<and> v_stale v = m ! v_arch v) \<and>
     displaced (map_dest v m) vs"

definition dests :: "View list \<Rightarrow> PhysReg list" where
  "dests vs = map v_dest (filter v_writes vs)"

definition held_ckpts :: "View list \<Rightarrow> CheckpointId list" where
  "held_ckpts vs = map v_ckpt (filter v_branch vs)"

lemma map_after_simps [simp]:
  "map_after m [] = m" "map_after m (v # vs) = map_after (map_dest v m) vs"
  "map_after m (us @ vs) = map_after (map_after m us) vs"
  by (simp_all add: map_after_def)

lemma length_map_dest [simp]: "length (map_dest v m) = length m"
  by (simp add: map_dest_def)

lemma length_map_after [simp]: "length (map_after m vs) = length m"
  by (induction vs arbitrary: m) simp_all

lemma displaced_append [simp]:
  "displaced m (us @ vs) \<longleftrightarrow> displaced m us \<and> displaced (map_after m us) vs"
  by (induction us arbitrary: m) auto

lemma dests_simps [simp]:
  "dests [] = []" "dests (us @ vs) = dests us @ dests vs"
  "dests (v # vs) = (if v_writes v then v_dest v # dests vs else dests vs)"
  by (simp_all add: dests_def)

lemma held_ckpts_simps [simp]:
  "held_ckpts [] = []" "held_ckpts (us @ vs) = held_ckpts us @ held_ckpts vs"
  "held_ckpts (v # vs) = (if v_branch v then v_ckpt v # held_ckpts vs else held_ckpts vs)"
  by (simp_all add: held_ckpts_def)

section \<open>The invariant\<close>

text \<open>
  Registers: p0 maps x0; the free list, the destinations in flight and the other 31 committed
  mappings are together exactly the physical registers above p0, each once.
\<close>

definition regs_inv :: "PhysReg list \<Rightarrow> FreeList \<Rightarrow> View list \<Rightarrow> bool" where
  "regs_inv arch fl vs \<longleftrightarrow>
     length arch = 32 \<and> arch ! 0 = 0 \<and> 32 \<le> fl_capacity fl \<and> fl_capacity fl \<le> uint32_max \<and>
     displaced arch vs \<and>
     mset (fl_free fl) + mset (dests vs) + mset (tl arch) = mset [1..<fl_capacity fl]"

text \<open>
  Checkpoints: the free ones and those held by branches in flight are exactly the pool's, each
  once, and a held one snapshots the mapping after its branch.
\<close>

definition ckpts_inv :: "PhysReg list \<Rightarrow> CheckpointPool \<Rightarrow> View list \<Rightarrow> bool" where
  "ckpts_inv arch cp vs \<longleftrightarrow>
     cp_capacity cp = length (cp_slots cp) \<and> cp_capacity cp \<le> uint32_max \<and>
     mset (cp_free cp) + mset (held_ckpts vs) = mset [0..<cp_capacity cp] \<and>
     (\<forall>v \<in> set vs. \<not> v_branch v \<longrightarrow> v_ckpt v = INVALID_CHECKPOINT) \<and>
     (\<forall>us v ws. vs = us @ v # ws \<and> v_branch v \<longrightarrow>
        ck_rat (cp_slots cp ! v_ckpt v) = map_after arch (us @ [v]))"

lemma regs_inv_members:
  assumes "regs_inv arch fl vs"
  shows "distinct (fl_free fl)" "distinct (dests vs)" "distinct (tl arch)"
    "set (fl_free fl) \<inter> set (dests vs) = {}" "set (fl_free fl) \<inter> set (tl arch) = {}"
    "set (dests vs) \<inter> set (tl arch) = {}"
    "set (fl_free fl) \<union> set (dests vs) \<union> set (tl arch) = {1..<fl_capacity fl}"
proof -
  have m: "mset (fl_free fl @ dests vs @ tl arch) = mset [1..<fl_capacity fl]"
    using assms by (simp add: regs_inv_def add.assoc)
  then have "distinct (fl_free fl @ dests vs @ tl arch)"
    by (metis distinct_upt mset_eq_imp_distinct_iff)
  then show "distinct (fl_free fl)" "distinct (dests vs)" "distinct (tl arch)"
    "set (fl_free fl) \<inter> set (dests vs) = {}" "set (fl_free fl) \<inter> set (tl arch) = {}"
    "set (dests vs) \<inter> set (tl arch) = {}" by auto
  have "set (fl_free fl @ dests vs @ tl arch) = set [1..<fl_capacity fl]"
    using m by (metis set_mset_mset)
  then show "set (fl_free fl) \<union> set (dests vs) \<union> set (tl arch) = {1..<fl_capacity fl}" by auto
qed

lemma held_ckpts_members:
  assumes "ckpts_inv arch cp vs"
  shows "distinct (cp_free cp @ held_ckpts vs)"
    "set (cp_free cp) \<union> set (held_ckpts vs) = {0..<cp_capacity cp}"
proof -
  have m: "mset (cp_free cp @ held_ckpts vs) = mset [0..<cp_capacity cp]"
    using assms by (simp add: ckpts_inv_def)
  show "distinct (cp_free cp @ held_ckpts vs)"
    using m by (metis distinct_upt mset_eq_imp_distinct_iff)
  have "set (cp_free cp @ held_ckpts vs) = set [0..<cp_capacity cp]"
    using m by (metis set_mset_mset)
  then show "set (cp_free cp) \<union> set (held_ckpts vs) = {0..<cp_capacity cp}" by simp
qed

section \<open>Reset\<close>

lemma make_regs_inv:
  assumes "32 \<le> n" "n \<le> uint32_max"
  shows "regs_inv [0..<32] (make_free_list n) []"
proof -
  have "[1..<n] = [1..<32] @ [32..<n]" using assms(1) by (metis le_add_diff_inverse one_le_numeral upt_add_eq_append)
  moreover have "tl [0..<32] = [1..<32]" by (simp add: upt_conv_Cons)
  ultimately show ?thesis
    using assms by (simp add: regs_inv_def make_free_list_def)
qed

lemma make_ckpts_inv: "n \<le> uint32_max \<Longrightarrow> ckpts_inv arch (make_checkpoint_pool n) []"
  by (simp add: ckpts_inv_def make_checkpoint_pool_def)

section \<open>Rename\<close>

lemma rename_regs_inv:
  assumes inv: "regs_inv arch fl vs" and alloc: "fl_alloc fl = Some (d, fl')"
    and v: "v_dest v = d" "v_stale v = map_after arch vs ! v_arch v" "0 < v_arch v" "v_arch v < 32"
  shows "regs_inv arch fl' (vs @ [v])" and "v_writes v"
proof -
  have free: "fl_free fl = d # fl_free fl'" and cap: "fl_capacity fl' = fl_capacity fl"
    using fl.alloc_Some [OF alloc] fl_alloc_capacity [OF alloc] by auto
  have "d < fl_capacity fl" using regs_inv_members(7) [OF inv] free by auto
  then have "d \<noteq> INVALID_PHYSREG" using inv by (simp add: regs_inv_def INVALID_PHYSREG_def)
  then show w: "v_writes v" using v by (simp add: v_writes_def)
  show "regs_inv arch fl' (vs @ [v])"
    using inv v w free cap by (simp add: regs_inv_def)
qed

lemma rename_regs_inv_none:
  "regs_inv arch fl vs \<Longrightarrow> \<not> v_writes v \<Longrightarrow> regs_inv arch fl (vs @ [v])"
  by (simp add: regs_inv_def)

lemma rename_ckpts_inv:
  assumes inv: "ckpts_inv arch cp vs" and alloc: "cp_alloc cp = Some (i, cp')"
    and v: "v_branch v" "v_ckpt v = i" and m: "ck_rat ck = map_after arch (vs @ [v])"
  shows "ckpts_inv arch (cp_write cp' i ck) (vs @ [v])"
proof -
  have free: "cp_free cp = i # cp_free cp'" using cp.alloc_Some [OF alloc] by simp
  have slots: "cp_slots cp' = cp_slots cp" "cp_capacity cp' = cp_capacity cp"
    using cp_alloc_slots [OF alloc] by auto
  have i: "i < length (cp_slots cp)" "i \<notin> set (held_ckpts vs)"
    using held_ckpts_members [OF inv] free inv by (auto simp: ckpts_inv_def)
  have old: "ck_rat ((cp_slots cp)[i := ck] ! v_ckpt u) = map_after arch (us @ [u])"
    if "vs = us @ u # ws" "v_branch u" for us u ws
  proof -
    have "v_ckpt u \<noteq> i" using i(2) that by auto
    with inv that show ?thesis by (simp add: ckpts_inv_def)
  qed
  have "ck_rat ((cp_slots cp)[i := ck] ! v_ckpt u) = map_after arch (us @ [u])"
    if "vs @ [v] = us @ u # ws" "v_branch u" for us u ws
  proof (cases ws rule: rev_cases)
    case Nil
    with that v m i(1) show ?thesis by simp
  next
    case (snoc ws' w)
    with that show ?thesis using old [of us u ws'] by simp
  qed
  moreover have "\<forall>u \<in> set (vs @ [v]). \<not> v_branch u \<longrightarrow> v_ckpt u = INVALID_CHECKPOINT"
    using inv v by (auto simp: ckpts_inv_def)
  moreover have "mset (cp_free cp') + mset (held_ckpts (vs @ [v])) = mset [0..<cp_capacity cp]"
    using inv v free by (simp add: ckpts_inv_def)
  ultimately show ?thesis
    using inv slots by (simp add: ckpts_inv_def cp_write_def)
qed

lemma rename_ckpts_inv_none:
  assumes "ckpts_inv arch cp vs" "\<not> v_branch v" "v_ckpt v = INVALID_CHECKPOINT"
  shows "ckpts_inv arch cp (vs @ [v])"
proof -
  have "ck_rat (cp_slots cp ! v_ckpt u) = map_after arch (us @ [u])"
    if "vs @ [v] = us @ u # ws" "v_branch u" for us u ws
  proof (cases ws rule: rev_cases)
    case Nil
    with that assms show ?thesis by simp
  next
    case (snoc ws' w)
    with that assms(1) show ?thesis by (simp add: ckpts_inv_def)
  qed
  with assms show ?thesis by (auto simp: ckpts_inv_def)
qed

section \<open>Commit\<close>

lemma mset_tl_update:
  assumes "0 < a" "a < length m"
  shows "add_mset (m ! a) (mset (tl (m[a := d]))) = add_mset d (mset (tl m))"
proof -
  obtain x xs where m: "m = x # xs" using assms(2) by (cases m) auto
  obtain j where a: "a = Suc j" using assms(1) by (cases a) auto
  have "j < length xs" using assms(2) by (simp add: m a)
  then show ?thesis by (simp add: m a mset_update)
qed

lemma commit_regs_inv:
  assumes inv: "regs_inv arch fl (v # vs)"
  shows "regs_inv (map_dest v arch) (if v_writes v then fl_release fl (v_stale v) else fl) vs"
proof (cases "v_writes v")
  case False
  with inv show ?thesis by (simp add: regs_inv_def map_dest_def)
next
  case True
  with inv have a: "0 < v_arch v" "v_arch v < 32" "v_stale v = arch ! v_arch v" "length arch = 32"
    by (auto simp: regs_inv_def)
  have "arch ! v_arch v \<in> set (tl arch)"
  proof -
    obtain x xs where "arch = x # xs" using a(4) by (cases arch) auto
    then show ?thesis using a by (cases "v_arch v") auto
  qed
  then have "v_stale v \<in> set (fl_free fl) \<union> set (dests (v # vs)) \<union> set (tl arch)"
    by (simp add: a(3))
  then have "v_stale v \<in> {1..<fl_capacity fl}"
    by (simp only: regs_inv_members(7) [OF inv])
  then have own: "0 < v_stale v \<and> v_stale v < fl_capacity fl" by simp
  then have rel: "fl_free (fl_release fl (v_stale v)) = fl_free fl @ [v_stale v]"
    using inv by (simp add: fl_release_def regs_inv_def INVALID_PHYSREG_def)
  have "mset (fl_free fl) + add_mset (v_dest v) (mset (dests vs)) + mset (tl arch) =
      mset (fl_free fl) + mset (dests vs) + add_mset (v_dest v) (mset (tl arch))" by simp
  also have "add_mset (v_dest v) (mset (tl arch)) =
      add_mset (v_stale v) (mset (tl (arch[v_arch v := v_dest v])))"
    using mset_tl_update [of "v_arch v" arch "v_dest v"] a by simp
  finally have "mset (fl_free fl @ [v_stale v]) + mset (dests vs) + mset (tl (arch[v_arch v := v_dest v])) =
      mset (fl_free fl) + mset (dests (v # vs)) + mset (tl arch)"
    using True by (simp add: ac_simps)
  with inv True a rel show ?thesis
    by (simp add: regs_inv_def map_dest_def)
qed

lemma commit_ckpts_inv:
  assumes inv: "ckpts_inv arch cp (v # vs)"
  shows "ckpts_inv (map_dest v arch) (if v_branch v then cp_release cp (v_ckpt v) else cp) vs"
proof -
  have snap: "ck_rat (cp_slots cp ! v_ckpt u) = map_after (map_dest v arch) (us @ [u])"
    if "vs = us @ u # ws" "v_branch u" for us u ws
  proof -
    have "v # vs = (v # us) @ u # ws" using that(1) by simp
    with inv that(2) have "ck_rat (cp_slots cp ! v_ckpt u) = map_after arch ((v # us) @ [u])"
      unfolding ckpts_inv_def by blast
    then show ?thesis by simp
  qed
  show ?thesis
  proof (cases "v_branch v")
    case True
    then have "v_ckpt v < cp_capacity cp" using held_ckpts_members(2) [OF inv] by auto
    then have "cp_free (cp_release cp (v_ckpt v)) = cp_free cp @ [v_ckpt v]" by (simp add: cp_release_def)
    with inv True snap show ?thesis by (auto simp: ckpts_inv_def)
  next
    case False
    with inv snap show ?thesis by (auto simp: ckpts_inv_def)
  qed
qed

section \<open>Squash\<close>

text \<open>A squash returns the destination and the checkpoint of every dropped instruction.\<close>

definition release_dests :: "View list \<Rightarrow> FreeList \<Rightarrow> FreeList" where
  "release_dests vs fl = fold (\<lambda>r f. fl_release f r) (map v_dest vs) fl"

definition release_ckpts :: "View list \<Rightarrow> CheckpointPool \<Rightarrow> CheckpointPool" where
  "release_ckpts vs cp = fold (\<lambda>i p. cp_release p i) (map v_ckpt vs) cp"

lemma fl_release_fold_capacity: "fl_capacity (fold (\<lambda>r f. fl_release f r) rs fl) = fl_capacity fl"
  by (induction rs arbitrary: fl) simp_all

lemma cp_release_fold_frame:
  "cp_slots (fold (\<lambda>i p. cp_release p i) is cp) = cp_slots cp"
  "cp_capacity (fold (\<lambda>i p. cp_release p i) is cp) = cp_capacity cp"
  by (induction "is" arbitrary: cp) simp_all

lemma filter_owned_dests:
  assumes "regs_inv arch fl (us @ vs)"
  shows "filter (fl_owns fl) (map v_dest vs) = dests vs"
proof -
  have "r \<in> {1..<fl_capacity fl}" if "r \<in> set (dests vs)" for r
    using regs_inv_members(7) [OF assms] that by auto
  then have "fl_owns fl (v_dest v) \<longleftrightarrow> v_writes v" if "v \<in> set vs" for v
    using assms that by (force simp: fl_owns_def v_writes_def dests_def)
  then have "filter (\<lambda>v. fl_owns fl (v_dest v)) vs = filter v_writes vs" by (rule filter_cong [OF refl])
  then show ?thesis by (simp add: dests_def filter_map comp_def)
qed

lemma squash_regs_inv:
  assumes inv: "regs_inv arch fl (us @ vs)"
  shows "regs_inv arch (release_dests (rev vs) fl) us"
proof -
  have "mset (fl_free (release_dests (rev vs) fl)) = mset (fl_free fl) + mset (dests vs)"
    unfolding release_dests_def fl.releases_mset
    using filter_owned_dests [OF inv] by (simp add: rev_map [symmetric] rev_filter [symmetric])
  moreover have "fl_capacity (release_dests (rev vs) fl) = fl_capacity fl"
    by (simp add: release_dests_def fl_release_fold_capacity)
  ultimately show ?thesis using inv by (simp add: regs_inv_def ac_simps)
qed

lemma squash_ckpts_inv:
  assumes inv: "ckpts_inv arch cp (us @ vs)"
  shows "ckpts_inv arch (release_ckpts (rev vs) cp) us"
proof -
  have "cp_owns cp (v_ckpt v) \<longleftrightarrow> v_branch v" if "v \<in> set vs" for v
    using inv held_ckpts_members(2) [OF inv] that
    by (force simp: ckpts_inv_def cp_owns_def held_ckpts_def INVALID_CHECKPOINT_def)
  then have "filter (\<lambda>v. cp_owns cp (v_ckpt v)) vs = filter v_branch vs" by (rule filter_cong [OF refl])
  then have owned: "filter (cp_owns cp) (map v_ckpt vs) = held_ckpts vs"
    by (simp add: held_ckpts_def filter_map comp_def)
  have "mset (cp_free (release_ckpts (rev vs) cp)) = mset (cp_free cp) + mset (held_ckpts vs)"
    unfolding release_ckpts_def cp.releases_mset
    using owned by (simp add: rev_map [symmetric] rev_filter [symmetric])
  moreover have "ck_rat (cp_slots cp ! v_ckpt u) = map_after arch (ts @ [u])"
    if "us = ts @ u # ws" "v_branch u" for ts u ws
  proof -
    have "us @ vs = ts @ u # (ws @ vs)" using that(1) by simp
    with inv that(2) show ?thesis unfolding ckpts_inv_def by blast
  qed
  ultimately show ?thesis
    using inv by (auto simp: ckpts_inv_def release_ckpts_def cp_release_fold_frame ac_simps)
qed

text \<open>Restoring the checkpoint of the surviving branch gives the mapping after it.\<close>

lemma ckpt_restores:
  assumes "ckpts_inv arch cp (us @ v # vs)" "v_branch v"
  shows "cp_at (release_ckpts ws cp) (v_ckpt v) = Some (cp_slots cp ! v_ckpt v)"
    and "ck_rat (cp_slots cp ! v_ckpt v) = map_after arch (us @ [v])"
proof -
  have "v_ckpt v < cp_capacity cp" using held_ckpts_members(2) [OF assms(1)] assms(2) by auto
  then show "cp_at (release_ckpts ws cp) (v_ckpt v) = Some (cp_slots cp ! v_ckpt v)"
    using assms(1) by (simp add: cp_at_def release_ckpts_def cp_release_fold_frame ckpts_inv_def)
  show "ck_rat (cp_slots cp ! v_ckpt v) = map_after arch (us @ [v])"
    using assms unfolding ckpts_inv_def by blast
qed

end
