(* ===== verification/Inflight.thy ===== *)
theory Inflight
  imports Frames Mappings
begin

text \<open>
  The invariant of the machine's in-flight state, in three parts over the structures it
  concerns: the reorder buffer with its payloads and the renaming state; the sequence order;
  and where every unfinished instruction waits. Each action of a stage is one lemma per part.
\<close>

section \<open>Live instructions\<close>

definition uop_view :: "Uop \<Rightarrow> View" where
  "uop_view u = \<lparr>v_arch = (if d_writes_rd (u_dec u) then d_rd (u_dec u) else INVALID_ARCHREG),
     v_dest = u_dest u, v_stale = u_stale u, v_branch = d_is_branch (u_dec u), v_ckpt = u_ckpt u\<rparr>"

text \<open>What the pipeline never changes of an entry: its sequence number and its mapping.\<close>

definition tag :: "RobEntry \<Rightarrow> SeqNum \<times> View" where
  "tag e = (re_seq e, entry_view e)"

definition tags :: "Rob \<Rightarrow> (SeqNum \<times> View) list" where
  "tags r = map tag (rob_list r)"

definition views :: "Rob \<Rightarrow> View list" where
  "views r = map entry_view (rob_list r)"

definition live :: "Rob \<Rightarrow> nat \<Rightarrow> Uop \<Rightarrow> bool" where
  "live r k u \<longleftrightarrow> k < rob_count r \<and> u_rob u = rob_nth r k \<and> (u_seq u, uop_view u) = tags r ! k \<and>
     wf_decoded (u_dec u) \<and> (u_dest u \<noteq> INVALID_PHYSREG \<longrightarrow> d_writes_rd (u_dec u))"

definition pending :: "Rob \<Rightarrow> Uop \<Rightarrow> bool" where
  "pending r u \<longleftrightarrow> (\<exists>k. live r k u)"

definition seated :: "Rob \<Rightarrow> IqEntry \<Rightarrow> bool" where
  "seated r e \<longleftrightarrow> (\<exists>k < rob_count r. iq_rob e = rob_nth r k \<and> iq_seq e = re_seq (rob_list r ! k))"

definition open_seqs :: "Rob \<Rightarrow> SeqNum list" where
  "open_seqs r = map re_seq (filter (\<lambda>e. \<not> re_complete e) (rob_list r))"

lemma length_tags [simp]: "length (tags r) = rob_count r" "length (views r) = rob_count r"
  by (simp_all add: tags_def views_def)

lemma views_tags: "views r = map snd (tags r)"
  by (simp add: views_def tags_def tag_def)

lemma tags_nth: "k < rob_count r \<Longrightarrow> tags r ! k = (re_seq (rob_list r ! k), entry_view (rob_list r ! k))"
  by (simp add: tags_def tag_def)

lemma live_seq: "live r k u \<Longrightarrow> u_seq u = re_seq (rob_list r ! k)"
  by (auto simp: live_def tags_nth)

lemma live_view: "live r k u \<Longrightarrow> uop_view u = views r ! k"
  by (auto simp: live_def tags_nth views_def)

section \<open>The three parts\<close>

definition rob_state ::
    "Rob \<Rightarrow> Uop list \<Rightarrow> PhysReg list \<Rightarrow> PhysReg list \<Rightarrow> FreeList \<Rightarrow> CheckpointPool \<Rightarrow> bool" where
  "rob_state r infl arch rat fl cp \<longleftrightarrow>
     rob_ok r \<and> rob_capacity r \<le> uint32_max \<and> length infl = rob_capacity r \<and>
     regs_inv arch fl (views r) \<and> ckpts_inv arch cp (views r) \<and> rat = map_after arch (views r) \<and>
     (\<forall>k < rob_count r. live r k (infl ! rob_nth r k))"

definition seqs :: "Rob \<Rightarrow> SeqNum list" where
  "seqs r = map re_seq (rob_list r)"

definition order_state :: "Rob \<Rightarrow> nat \<Rightarrow> bool" where
  "order_state r n \<longleftrightarrow> sorted_wrt (<) (seqs r) \<and> rob_next_seq r = of_nat n \<and>
     (\<forall>s \<in> set (seqs r). unat s < n)"

text \<open>
  Every unfinished instruction waits in exactly one place: the rename queue, the issue queue,
  or the multiset \<open>W\<close> of issued work; and the rename queue holds the youngest, in order.
\<close>

definition waiting :: "Rob \<Rightarrow> Uop list \<Rightarrow> IqEntry list \<Rightarrow> Uop multiset \<Rightarrow> bool" where
  "waiting r rq ents W \<longleftrightarrow>
     (\<forall>u \<in> set rq. pending r u) \<and> (\<forall>u \<in># W. pending r u) \<and> (\<forall>e \<in> set ents. seated r e) \<and>
     mset (map u_seq rq) + mset (map iq_seq ents) + image_mset u_seq W = mset (open_seqs r) \<and>
     program_ordered u_seq rq \<and>
     (\<forall>u \<in> set rq. \<forall>s \<in> iq_seq ` set ents \<union> u_seq ` set_mset W. s < u_seq u)"

section \<open>Sequence numbers name entries\<close>

lemma length_seqs [simp]: "length (seqs r) = rob_count r"
  by (simp add: seqs_def)

lemma seqs_tags: "seqs r = map fst (tags r)"
  by (simp add: seqs_def tags_def tag_def)

lemma live_seqs: "live r k u \<Longrightarrow> u_seq u = seqs r ! k \<and> k < rob_count r"
  by (auto simp: live_def tags_nth seqs_def)

lemma seated_seqs: "seated r e \<longleftrightarrow> (\<exists>k < rob_count r. iq_rob e = rob_nth r k \<and> iq_seq e = seqs r ! k)"
  by (simp add: seated_def seqs_def cong: conj_cong)

lemma order_distinct: "order_state r n \<Longrightarrow> distinct (seqs r)"
  by (simp add: order_state_def strict_sorted_iff)

lemma seqs_inj:
  "order_state r n \<Longrightarrow> i < rob_count r \<Longrightarrow> j < rob_count r \<Longrightarrow> seqs r ! i = seqs r ! j \<longleftrightarrow> i = j"
  by (rule nth_eq_iff_index_eq [OF order_distinct]) simp_all

lemma order_nth_le:
  assumes "order_state r n" "i < rob_count r" "j < rob_count r"
  shows "seqs r ! i \<le> seqs r ! j \<longleftrightarrow> i \<le> j"
proof -
  have less: "seqs r ! i < seqs r ! j" if "i < j" "j < rob_count r" for i j
    using that assms(1) by (simp add: order_state_def sorted_wrt_iff_nth_less)
  show ?thesis
    using less [of i j] less [of j i] assms(2,3) by (cases i j rule: linorder_cases) auto
qed

lemma live_unique:
  assumes "order_state r n" "live r i u" "live r j v" "u_seq u = u_seq v"
  shows "i = j"
  using seqs_inj [OF assms(1), of i j] live_seqs [OF assms(2)] live_seqs [OF assms(3)] assms(4) by metis

lemma open_seqs_subset: "set (open_seqs r) \<subseteq> set (seqs r)"
  by (auto simp: open_seqs_def seqs_def)

lemma open_distinct: "order_state r n \<Longrightarrow> distinct (open_seqs r)"
  using order_distinct [of r n] by (simp add: seqs_def open_seqs_def distinct_map_filter)

lemma waiting_distinct:
  assumes "order_state r n" "waiting r rq ents W"
  shows "distinct (map iq_seq ents)"
proof -
  obtain ws where "mset ws = W" using ex_mset by blast
  with assms(2) have "mset (map u_seq rq @ map iq_seq ents @ map u_seq ws) = mset (open_seqs r)"
    by (auto simp: waiting_def add.assoc)
  then have "distinct (map u_seq rq @ map iq_seq ents @ map u_seq ws)"
    using open_distinct [OF assms(1)] mset_eq_imp_distinct_iff by blast
  then show ?thesis by simp
qed

lemma waiting_members:
  assumes "waiting r rq ents W"
  shows "u_seq ` set rq \<union> iq_seq ` set ents \<union> u_seq ` set_mset W = set (open_seqs r)"
proof -
  have "set_mset (mset (map u_seq rq) + mset (map iq_seq ents) + image_mset u_seq W) = set (open_seqs r)"
    using assms by (simp add: waiting_def)
  then show ?thesis by simp
qed

section \<open>Flags change nothing\<close>

lemma tags_modify:
  assumes "rob_ok r" "k < rob_count r" "\<And>e. tag (g e) = tag e"
  shows "tags (rob_modify r (rob_nth r k) g) = tags r"
  using assms by (simp add: tags_def rob_modify_list map_update list_update_same_conv)

lemma live_modify:
  assumes "rob_ok r" "k < rob_count r" "\<And>e. tag (g e) = tag e"
  shows "live (rob_modify r (rob_nth r k) g) j u = live r j u"
  by (simp add: live_def tags_modify [OF assms])

lemma seated_modify:
  assumes "rob_ok r" "k < rob_count r" "\<And>e. tag (g e) = tag e"
  shows "seated (rob_modify r (rob_nth r k) g) e = seated r e"
  by (simp add: seated_seqs seqs_tags tags_modify [OF assms])

lemma rob_state_modify:
  assumes "rob_state r infl arch rat fl cp" "k < rob_count r" "\<And>e. tag (g e) = tag e"
  shows "rob_state (rob_modify r (rob_nth r k) g) infl arch rat fl cp"
  using assms(1) live_modify [OF _ assms(2,3)] tags_modify [OF _ assms(2,3)]
  by (simp add: rob_state_def views_tags)

lemma order_state_modify:
  assumes "order_state r n" "rob_ok r" "k < rob_count r" "\<And>e. tag (g e) = tag e"
  shows "order_state (rob_modify r (rob_nth r k) g) n"
  using assms(1) by (simp add: order_state_def seqs_tags tags_modify [OF assms(2-4)])

text \<open>A new payload for a live slot.\<close>

lemma rob_state_payload:
  assumes "rob_state r infl arch rat fl cp" "live r k u"
  shows "rob_state r (infl[u_rob u := u]) arch rat fl cp"
proof -
  have u: "u_rob u = rob_nth r k" "k < rob_count r" using assms(2) by (simp_all add: live_def)
  have "live r j (infl[u_rob u := u] ! rob_nth r j)" if j: "j < rob_count r" for j
  proof (cases "j = k")
    case True
    with u assms rob_nth_less [of r k] show ?thesis by (simp add: rob_state_def)
  next
    case False
    then have "rob_nth r j \<noteq> rob_nth r k"
      using rob_nth_inj [of r j k] assms(1) j u by (auto simp: rob_state_def)
    with u assms(1) j show ?thesis by (simp add: rob_state_def)
  qed
  with assms(1) show ?thesis by (simp add: rob_state_def)
qed

section \<open>Where instructions wait\<close>

text \<open>Dispatch moves the oldest renamed uop to the issue queue.\<close>

lemma waiting_dispatch:
  assumes "waiting r (u # rq) ents W" "iq_seq e = u_seq u" "iq_rob e = u_rob u"
  shows "waiting r rq (ents @ [e]) W"
proof -
  have "seated r e" using assms by (auto simp: waiting_def pending_def live_def tags_nth seated_def)
  with assms show ?thesis
    by (auto simp: waiting_def program_ordered_def ac_simps)
qed

text \<open>Issue moves a seated entry's uop to the issued work.\<close>

lemma mset_erase_first:
  "s \<in> iq_seq ` set ents \<Longrightarrow> mset (map iq_seq ents) = add_mset s (mset (map iq_seq (erase_first s ents)))"
  by (induction ents) auto

lemma waiting_issue:
  assumes "waiting r rq ents W" "e \<in> set ents" "live r k u" "u_seq u = iq_seq e"
  shows "waiting r rq (erase_first (iq_seq e) ents) (add_mset u W)"
  using assms set_erase_first [of "iq_seq e" ents] mset_erase_first [of "iq_seq e" ents]
  by (auto simp: waiting_def pending_def)

text \<open>Writeback completes a piece of issued work.\<close>

lemma open_seqs_complete:
  assumes "rob_ok r" "order_state r n" "k < rob_count r" "\<not> re_complete (rob_list r ! k)"
  shows "mset (open_seqs r) = add_mset (seqs r ! k)
    (mset (open_seqs (rob_modify r (rob_nth r k) (\<lambda>e. e\<lparr>re_complete := True\<rparr>))))"
proof -
  define es where "es = rob_list r"
  have k: "k < length es" using assms by (simp add: es_def)
  then have split: "es = take k es @ es ! k # drop (Suc k) es" by (simp add: id_take_nth_drop)
  have upd: "es[k := x] = take k es @ x # drop (Suc k) es" for x using k by (simp add: upd_conv_take_nth_drop)
  have "mset (map re_seq (filter (\<lambda>e. \<not> re_complete e) es)) = add_mset (re_seq (es ! k))
      (mset (map re_seq (filter (\<lambda>e. \<not> re_complete e) (es[k := (es ! k)\<lparr>re_complete := True\<rparr>]))))"
    unfolding upd by (subst (1) split) (use assms(4) in \<open>simp add: es_def\<close>)
  then show ?thesis
    using assms by (simp add: open_seqs_def rob_modify_list es_def seqs_def)
qed

lemma waiting_complete:
  assumes ok: "rob_ok r" "order_state r n" and w: "waiting r rq ents (add_mset u W)" and u: "live r k u"
  shows "waiting (rob_modify r (u_rob u) (\<lambda>e. e\<lparr>re_complete := True\<rparr>)) rq ents W"
proof -
  have k: "k < rob_count r" "u_rob u = rob_nth r k" "u_seq u = seqs r ! k"
    using u live_seqs [OF u] by (auto simp: live_def)
  have "u_seq u \<in> set (open_seqs r)" using waiting_members [OF w] by auto
  then obtain j where j: "j < rob_count r" "re_seq (rob_list r ! j) = u_seq u" "\<not> re_complete (rob_list r ! j)"
    by (auto simp: open_seqs_def in_set_conv_nth)
  have "j = k"
    using seqs_inj [OF ok(2) j(1) k(1)] j k by (simp add: seqs_def)
  with j(3) have incomplete: "\<not> re_complete (rob_list r ! k)" by simp
  have tag: "tag (e\<lparr>re_complete := True\<rparr>) = tag e" for e by (simp add: tag_def entry_view_def)
  show ?thesis
    unfolding k(2) waiting_def
    using w open_seqs_complete [OF ok k(1) incomplete] k(3)
    by (auto simp: waiting_def pending_def live_modify [OF ok(1) k(1) tag] seated_modify [OF ok(1) k(1) tag])
qed

lemma waiting_modify:
  assumes "rob_ok r" "k < rob_count r" "\<And>e. tag (g e) = tag e" "\<And>e. re_complete (g e) = re_complete e"
    and w: "waiting r rq ents W"
  shows "waiting (rob_modify r (rob_nth r k) g) rq ents W"
proof -
  have "re_seq (g e) = re_seq e" for e using assms(3) [of e] by (simp add: tag_def)
  then have "open_seqs (rob_modify r (rob_nth r k) g) = open_seqs r"
    using assms(1,2,4) unfolding open_seqs_def rob_modify_list [OF assms(1,2)]
    by (subst (2) list_update_id [symmetric, of "rob_list r" k])
      (simp add: upd_conv_take_nth_drop del: list_update_id)
  then show ?thesis
    using w by (simp add: waiting_def pending_def live_modify [OF assms(1-3)] seated_modify [OF assms(1-3)])
qed

section \<open>Allocation\<close>

lemma rob_nth_prefix:
  "rob_hd r' = rob_hd r \<Longrightarrow> rob_capacity r' = rob_capacity r \<Longrightarrow> k < rob_count r \<Longrightarrow> k < rob_count r' \<Longrightarrow>
   rob_nth r' k = rob_nth r k"
  by (simp add: rob_nth_def rob_wrap_def)

lemma live_prefix:
  assumes "rob_hd r' = rob_hd r" "rob_capacity r' = rob_capacity r" "k < rob_count r" "k < rob_count r'"
    "tags r' ! k = tags r ! k"
  shows "live r' k u = live r k u"
  using assms by (simp add: live_def rob_nth_prefix [OF assms(1-4)])

lemma tag_allocate: "tag (e\<lparr>re_seq := s\<rparr>) = (s, entry_view e)"
  by (simp add: tag_def entry_view_def)

lemma allocate_tags:
  assumes "rob_ok r" "\<not> rob_full r" "rob_allocate e r = (idx, r')"
  shows "tags r' = tags r @ [(rob_next_seq r, entry_view e)]"
    and "live r j u \<Longrightarrow> live r' j u" and "seated r f \<Longrightarrow> seated r' f"
proof -
  note l = rob_allocate_list [OF assms]
  show t: "tags r' = tags r @ [(rob_next_seq r, entry_view e)]"
    by (simp add: tags_def l(1) tag_allocate)
  show "live r' j u" if "live r j u"
  proof -
    have "j < rob_count r" using that by (simp add: live_def)
    then show ?thesis using that live_prefix [of r' r j u] l t by (simp add: nth_append)
  qed
  show "seated r' f" if "seated r f"
    using that l rob_nth_prefix [of r' r] unfolding seated_def
    by (auto simp: nth_append intro: less_SucI)
qed

lemma rob_state_allocate:
  assumes s: "rob_state r infl arch rat fl cp" and full: "\<not> rob_full r"
    and a: "rob_allocate e r = (idx, r')"
    and regs: "regs_inv arch fl' (views r @ [entry_view e])"
    and ckpts: "ckpts_inv arch cp' (views r @ [entry_view e])"
    and rat: "rat' = map_after arch (views r @ [entry_view e])"
    and u: "u_rob u = idx" "u_seq u = rob_next_seq r" "uop_view u = entry_view e"
      "wf_decoded (u_dec u)" "u_dest u \<noteq> INVALID_PHYSREG \<longrightarrow> d_writes_rd (u_dec u)"
  shows "rob_state r' (infl[idx := u]) arch rat' fl' cp'" and "live r' (rob_count r) u"
proof -
  have ok: "rob_ok r" using s by (simp add: rob_state_def)
  note l = rob_allocate_list [OF ok full a] and t = allocate_tags [OF ok full a]
  show new: "live r' (rob_count r) u"
    using u l(5,6) t(1) by (simp add: live_def nth_append)
  have idx: "idx = rob_nth r' (rob_count r)" by (rule l(5))
  have "live r' k (infl[idx := u] ! rob_nth r' k)" if "k < rob_count r'" for k
  proof (cases "k < rob_count r")
    case True
    then have "rob_nth r' k \<noteq> idx"
      using rob_nth_inj [OF l(2), of k "rob_count r"] l(6) idx by auto
    then have "infl[idx := u] ! rob_nth r' k = infl ! rob_nth r k"
      using rob_nth_prefix [OF l(7) l(3) True] l(6) True by simp
    moreover have "live r k (infl ! rob_nth r k)" using s True by (simp add: rob_state_def)
    ultimately show ?thesis using t(2) by simp
  next
    case False
    then have "k = rob_count r" using that l(6) by simp
    moreover have "rob_nth r' (rob_count r) < length infl"
      using rob_nth_less [OF l(2), of "rob_count r"] l(3,6) s by (simp add: rob_state_def)
    ultimately show ?thesis using new idx by simp
  qed
  moreover have "views r' = views r @ [entry_view e]" by (simp add: views_tags t(1))
  ultimately show "rob_state r' (infl[idx := u]) arch rat' fl' cp'"
    using s regs ckpts rat l(2,3) by (simp add: rob_state_def)
qed

lemma order_state_allocate:
  assumes "order_state r n" "rob_ok r" "\<not> rob_full r" "rob_allocate e r = (idx, r')" "n < 2 ^ 32"
  shows "order_state r' (Suc n)" and "s \<in> set (seqs r) \<Longrightarrow> s < rob_next_seq r"
proof -
  have less: "s < rob_next_seq r" if "s \<in> set (seqs r)" for s
    using assms(1) that unat_of_nat32 [OF assms(5)] by (auto simp: order_state_def word_less_nat_alt)
  then show "s \<in> set (seqs r) \<Longrightarrow> s < rob_next_seq r" .
  have "seqs r' = seqs r @ [rob_next_seq r]"
    using allocate_tags(1) [OF assms(2-4)] by (simp add: seqs_tags)
  then show "order_state r' (Suc n)"
    using assms(1) less unat_of_nat32 [OF assms(5)] rob_allocate_list(4) [OF assms(2-4)]
    by (auto simp: order_state_def sorted_wrt_append less_Suc_eq)
qed

lemma waiting_allocate:
  assumes w: "waiting r rq ents W" and o: "order_state r n" "n < 2 ^ 32"
    and a: "rob_ok r" "\<not> rob_full r" "rob_allocate e r = (idx, r')"
    and e: "\<not> re_complete e" and u: "live r' (rob_count r) u" "u_seq u = rob_next_seq r"
  shows "waiting r' (rq @ [u]) ents W"
proof -
  have new: "open_seqs r' = open_seqs r @ [u_seq u]"
    using e u by (simp add: open_seqs_def rob_allocate_list(1) [OF a])
  have young: "s < u_seq u" if "s \<in> set (open_seqs r)" for s
    using that open_seqs_subset [of r] order_state_allocate(2) [OF o(1) a o(2), of s] u(2) by auto
  have older: "\<forall>x \<in> set rq. u_seq x < u_seq u"
    "\<forall>s \<in> iq_seq ` set ents \<union> u_seq ` set_mset W. s < u_seq u"
    using waiting_members [OF w] young by blast+
  have keep: "pending r x \<Longrightarrow> pending r' x" for x
    using allocate_tags(2) [OF a] by (auto simp: pending_def)
  have "pending r' u" using u(1) by (auto simp: pending_def)
  then show ?thesis
    using w older keep new allocate_tags(3) [OF a]
    by (simp add: waiting_def program_ordered_append ball_Un)
qed

section \<open>Retirement\<close>

lemma pop_tags:
  assumes "rob_ok r" "rob_pop_head_if_complete r = Some (e, r')"
  shows "tags r = tag e # tags r'" and "views r = entry_view e # views r'" and "seqs r = re_seq e # seqs r'"
    and "k < rob_count r' \<Longrightarrow> rob_nth r' k = rob_nth r (Suc k)" and "live r' k u = live r (Suc k) u"
proof -
  note l = rob_pop_list [OF assms]
  show t: "tags r = tag e # tags r'" by (simp add: tags_def l(1))
  show "views r = entry_view e # views r'" "seqs r = re_seq e # seqs r'"
    by (simp_all add: views_def seqs_def l(1))
  have "rob_hd r' = rob_wrap r (rob_hd r + 1)"
    using assms(2) by (auto simp: rob_pop_head_if_complete_def split: if_splits)
  then show n: "k < rob_count r' \<Longrightarrow> rob_nth r' k = rob_nth r (Suc k)" for k
    using l(4,6) by (simp add: rob_nth_def rob_wrap_def mod_simps)
  show "live r' k u = live r (Suc k) u"
    using n t l(6) by (auto simp: live_def)
qed

lemma pop_state:
  assumes "rob_state r infl arch rat fl cp" "rob_pop_head_if_complete r = Some (e, r')"
  defines "v \<equiv> entry_view e"
  shows "rob_state r' infl (map_dest v arch) rat
    (if v_writes v then fl_release fl (v_stale v) else fl)
    (if v_branch v then cp_release cp (v_ckpt v) else cp)"
proof -
  have ok: "rob_ok r" using assms(1) by (simp add: rob_state_def)
  note t = pop_tags [OF ok assms(2)] and l = rob_pop_list [OF ok assms(2)]
  have inv: "regs_inv arch fl (v # views r')" "ckpts_inv arch cp (v # views r')"
    using assms(1) t(2) by (simp_all add: rob_state_def v_def)
  have "live r' k (infl ! rob_nth r' k)" if "k < rob_count r'" for k
    using assms(1) that t(4,5) l(6) by (simp add: rob_state_def)
  then show ?thesis
    using assms(1) l(3,4) t(2) commit_regs_inv [OF inv(1)] commit_ckpts_inv [OF inv(2)]
    by (simp add: rob_state_def v_def)
qed

lemma pop_waiting:
  assumes ok: "rob_ok r" and o: "order_state r n" and p: "rob_pop_head_if_complete r = Some (e, r')"
    and w: "waiting r rq ents W"
  shows "order_state r' n" and "waiting r' rq ents W" and "s \<in> set (seqs r') \<Longrightarrow> re_seq e < s"
proof -
  note t = pop_tags [OF ok p] and l = rob_pop_list [OF ok p]
  show o': "order_state r' n" "s \<in> set (seqs r') \<Longrightarrow> re_seq e < s"
    using o l(5) t(3) by (auto simp: order_state_def)
  have opens: "open_seqs r' = open_seqs r" using l(1,2) by (simp add: open_seqs_def)
  have "re_seq e \<notin> set (open_seqs r)"
    using opens open_seqs_subset [of r'] order_distinct [OF o] t(3) by auto
  then have nz: "k \<noteq> 0" if "s = seqs r ! k" "s \<in> set (open_seqs r)" for k s
    using that t(3) by (cases k) auto
  have pend: "pending r' u" if u: "pending r u" "u_seq u \<in> set (open_seqs r)" for u
  proof -
    obtain k where k: "live r k u" using u(1) by (auto simp: pending_def)
    then have "k \<noteq> 0" using nz [of "u_seq u" k] live_seqs [OF k] u(2) by auto
    then show ?thesis using k t(5) by (cases k) (auto simp: pending_def)
  qed
  have seat: "seated r' f" if f: "seated r f" "iq_seq f \<in> set (open_seqs r)" for f
  proof -
    obtain k where k: "k < rob_count r" "iq_rob f = rob_nth r k" "iq_seq f = seqs r ! k"
      using f(1) by (auto simp: seated_seqs)
    then obtain j where "k = Suc j" using nz [of "iq_seq f" k] f(2) by (cases k) auto
    then show ?thesis using k t(3,4) l(6) by (auto simp: seated_seqs)
  qed
  note m = waiting_members [OF w]
  have in_open: "\<And>u. u \<in> set rq \<Longrightarrow> u_seq u \<in> set (open_seqs r)" "\<And>u. u \<in># W \<Longrightarrow> u_seq u \<in> set (open_seqs r)"
    "\<And>f. f \<in> set ents \<Longrightarrow> iq_seq f \<in> set (open_seqs r)" using m by auto
  show "waiting r' rq ents W"
    using w pend seat in_open by (simp add: waiting_def opens)
qed

section \<open>Squash\<close>

lemma truncate_tags:
  assumes "rob_ok r" "k < rob_count r"
  shows "rob_list (r\<lparr>rob_count := Suc k\<rparr>) = take (Suc k) (rob_list r)"
    and "tags (r\<lparr>rob_count := Suc k\<rparr>) = take (Suc k) (tags r)"
    and "seqs (r\<lparr>rob_count := Suc k\<rparr>) = take (Suc k) (seqs r)"
    and "j \<le> k \<Longrightarrow> live (r\<lparr>rob_count := Suc k\<rparr>) j u = live r j u"
    and "j \<le> k \<Longrightarrow> rob_nth (r\<lparr>rob_count := Suc k\<rparr>) j = rob_nth r j"
    and "rob_ok (r\<lparr>rob_count := Suc k\<rparr>)"
proof -
  show l: "rob_list (r\<lparr>rob_count := Suc k\<rparr>) = take (Suc k) (rob_list r)"
    using assms(2) by (simp add: rob_list_count)
  then show t: "tags (r\<lparr>rob_count := Suc k\<rparr>) = take (Suc k) (tags r)"
    and "seqs (r\<lparr>rob_count := Suc k\<rparr>) = take (Suc k) (seqs r)"
    by (simp_all add: tags_def seqs_def take_map)
  show "j \<le> k \<Longrightarrow> rob_nth (r\<lparr>rob_count := Suc k\<rparr>) j = rob_nth r j"
    using assms(2) by (simp add: rob_nth_def rob_wrap_def rob_capacity_def)
  show "j \<le> k \<Longrightarrow> live (r\<lparr>rob_count := Suc k\<rparr>) j u = live r j u"
    using assms(2) t by (intro live_prefix) (simp_all add: rob_capacity_def)
  show "rob_ok (r\<lparr>rob_count := Suc k\<rparr>)"
    using assms by (simp add: rob_ok_def rob_capacity_def)
qed

lemma rob_state_truncate:
  assumes s: "rob_state r infl arch rat fl cp" and k: "k < rob_count r"
  defines "dead \<equiv> rev (drop (Suc k) (views r))"
  shows "rob_state (r\<lparr>rob_count := Suc k\<rparr>) infl arch (map_after arch (take (Suc k) (views r)))
    (release_dests dead fl) (release_ckpts dead cp)"
proof -
  have ok: "rob_ok r" using s by (simp add: rob_state_def)
  note t = truncate_tags [OF ok k]
  have split: "views r = take (Suc k) (views r) @ drop (Suc k) (views r)" by simp
  have inv: "regs_inv arch fl (take (Suc k) (views r) @ drop (Suc k) (views r))"
    "ckpts_inv arch cp (take (Suc k) (views r) @ drop (Suc k) (views r))"
    using s by (simp_all add: rob_state_def)
  have views': "views (r\<lparr>rob_count := Suc k\<rparr>) = take (Suc k) (views r)"
    by (simp add: views_def t(1) take_map)
  have "live (r\<lparr>rob_count := Suc k\<rparr>) j (infl ! rob_nth (r\<lparr>rob_count := Suc k\<rparr>) j)" if "j < Suc k" for j
    using s that k t(4,5) by (simp add: rob_state_def)
  then show ?thesis
    using s k t(6) squash_regs_inv [OF inv(1)] squash_ckpts_inv [OF inv(2)]
    by (simp add: rob_state_def views' dead_def rob_capacity_def)
qed

lemma rob_state_squash_all:
  assumes s: "rob_state r infl arch rat fl cp"
  shows "rob_state (r\<lparr>rob_count := 0\<rparr>) infl arch arch
    (release_dests (rev (views r)) fl) (release_ckpts (rev (views r)) cp)"
proof -
  have e: "views (r\<lparr>rob_count := 0\<rparr>) = []" by (simp add: views_def rob_list_def)
  have inv: "regs_inv arch fl ([] @ views r)" "ckpts_inv arch cp ([] @ views r)"
    using s by (simp_all add: rob_state_def)
  show ?thesis
    using s squash_regs_inv [OF inv(1)] squash_ckpts_inv [OF inv(2)]
    by (simp add: rob_state_def e rob_ok_def rob_capacity_def)
qed

lemma order_state_take:
  assumes "order_state r n" "k \<le> rob_count r"
  shows "order_state (r\<lparr>rob_count := k\<rparr>) n"
proof -
  have "seqs (r\<lparr>rob_count := k\<rparr>) = take k (seqs r)"
    using rob_list_count [OF assms(2)] by (simp add: seqs_def take_map)
  with assms(1) show ?thesis
    by (auto simp: order_state_def sorted_wrt_take dest: in_set_takeD)
qed

lemma open_seqs_truncate:
  assumes "rob_ok r" "order_state r n" "k < rob_count r"
  shows "open_seqs (r\<lparr>rob_count := Suc k\<rparr>) = filter (\<lambda>s. s \<le> seqs r ! k) (open_seqs r)"
proof -
  have low: "re_seq e \<le> seqs r ! k" if e: "e \<in> set (take (Suc k) (rob_list r))" for e
  proof -
    obtain i where "i < length (take (Suc k) (rob_list r))" "e = take (Suc k) (rob_list r) ! i"
      using e unfolding in_set_conv_nth by blast
    then have "i < Suc k" "e = rob_list r ! i" by simp_all
    then show ?thesis using order_nth_le [OF assms(2), of i k] assms(3) by (simp add: seqs_def)
  qed
  have high: "\<not> re_seq e \<le> seqs r ! k" if e: "e \<in> set (drop (Suc k) (rob_list r))" for e
  proof -
    obtain i where "i < rob_count r - Suc k" "e = rob_list r ! (Suc k + i)"
      using e assms(3) by (auto simp: in_set_conv_nth)
    then show ?thesis using order_nth_le [OF assms(2), of "Suc k + i" k] assms(3) by (simp add: seqs_def)
  qed
  have all: "filter (\<lambda>e. re_seq e \<le> seqs r ! k) (take (Suc k) (rob_list r)) = take (Suc k) (rob_list r)"
    using low by (simp add: filter_id_conv)
  have none: "filter (\<lambda>e. re_seq e \<le> seqs r ! k) (drop (Suc k) (rob_list r)) = []"
    using high by (simp add: filter_empty_conv)
  have "filter (\<lambda>e. re_seq e \<le> seqs r ! k) (rob_list r) = take (Suc k) (rob_list r)"
    using all none by (metis append_Nil2 append_take_drop_id filter_append)
  then have take: "take (Suc k) (rob_list r) = filter (\<lambda>e. re_seq e \<le> seqs r ! k) (rob_list r)" by simp
  show ?thesis
    unfolding open_seqs_def truncate_tags(1) [OF assms(1,3)] take
    by (simp add: filter_map comp_def conj_commute)
qed

lemma waiting_truncate:
  assumes ok: "rob_ok r" "order_state r n" and w: "waiting r rq ents W" and u: "live r k u" "u \<in># W"
  shows "waiting (r\<lparr>rob_count := Suc k\<rparr>) [] (filter (\<lambda>e. iq_seq e \<le> u_seq u) ents)
    {#v \<in># W. u_seq v \<le> u_seq u#}"
proof -
  have k: "k < rob_count r" "u_seq u = seqs r ! k" using live_seqs [OF u(1)] by auto
  note t = truncate_tags [OF ok(1) k(1)]
  have old: "j \<le> k" if "seqs r ! j \<le> u_seq u" "j < rob_count r" for j
    using that order_nth_le [OF ok(2) that(2) k(1)] k(2) by simp
  have "pending (r\<lparr>rob_count := Suc k\<rparr>) v" if "v \<in># W" "u_seq v \<le> u_seq u" for v
  proof -
    have "pending r v" using w that(1) by (simp add: waiting_def)
    then obtain j where j: "live r j v" unfolding pending_def ..
    then have "j \<le> k" using old [of j] live_seqs [OF j] that by simp
    then show ?thesis using t(4) j by (auto simp: pending_def)
  qed
  moreover have "seated (r\<lparr>rob_count := Suc k\<rparr>) e" if e: "e \<in> set ents" "iq_seq e \<le> u_seq u" for e
  proof -
    obtain j where j: "j < rob_count r" "iq_rob e = rob_nth r j" "iq_seq e = seqs r ! j"
      using w e by (auto simp: waiting_def seated_seqs)
    then have "j \<le> k" using old [of j] e by simp
    then show ?thesis
      using j t(3) t(5) [of j] unfolding seated_seqs by (intro exI [of _ j]) simp
  qed
  moreover have "mset (map iq_seq (filter (\<lambda>e. iq_seq e \<le> u_seq u) ents)) +
      image_mset u_seq {#v \<in># W. u_seq v \<le> u_seq u#} =
      mset (filter (\<lambda>s. s \<le> u_seq u) (open_seqs r))"
  proof -
    have "\<not> u_seq x \<le> u_seq u" if "x \<in> set rq" for x
      using w u(2) that unfolding waiting_def by (meson UnI2 imageI not_le)
    then have rq: "{#s \<in># mset (map u_seq rq). s \<le> u_seq u#} = {#}"
      by (simp add: filter_mset_eq_conv)
    have "mset (filter (\<lambda>s. s \<le> u_seq u) (open_seqs r)) =
        {#s \<in># mset (map u_seq rq) + mset (map iq_seq ents) + image_mset u_seq W. s \<le> u_seq u#}"
      using w by (simp add: waiting_def)
    also have "\<dots> = {#s \<in># mset (map iq_seq ents). s \<le> u_seq u#} + {#s \<in># image_mset u_seq W. s \<le> u_seq u#}"
      using rq by simp
    finally show ?thesis by (simp add: filter_mset_image_mset)
  qed
  ultimately show ?thesis
    using open_seqs_truncate [OF ok k(1)] k(2) by (simp add: waiting_def)
qed

lemma waiting_squash_all: "waiting (r\<lparr>rob_count := 0\<rparr>) [] [] {#}"
  by (simp add: waiting_def open_seqs_def rob_list_def)

end
