(* ===== verification/Invariant.thy ===== *)
theory Invariant
  imports Inflight
begin

text \<open>
  The invariant of the whole machine: the in-flight state of \<open>Inflight\<close> over the fields of
  the machine record, the fresh uops of the front end and the retirement order. Each stage
  keeps it, so every reachable state has it, until the 32-bit sequence counter wraps or the
  code reads outside the checkpoint pool.
\<close>

section \<open>The invariant\<close>

definition work :: "Cpu \<Rightarrow> Uop multiset" where
  "work c = mset (c_executing c) + mset (c_wb_fast c) + mset (c_wb_slow c)"

definition mapped :: "Cpu \<Rightarrow> bool" where
  "mapped c \<longleftrightarrow> rob_state (c_rob c) (c_inflight c) (c_arch_rat c) (c_rat c) (c_free_list c) (c_ckpts c)"

definition ordered :: "Cpu \<Rightarrow> bool" where
  "ordered c \<longleftrightarrow> order_state (c_rob c) (st_renamed (c_stats c))"

definition waits :: "Cpu \<Rightarrow> bool" where
  "waits c \<longleftrightarrow> waiting (c_rob c) (c_rename_q c) (iq_entries (c_iq c)) (work c)"

definition fresh :: "Uop \<Rightarrow> bool" where
  "fresh u \<longleftrightarrow> u_dest u = INVALID_PHYSREG \<and> u_stale u = INVALID_PHYSREG \<and> u_ckpt u = INVALID_CHECKPOINT"

definition front_ok :: "Cpu \<Rightarrow> bool" where
  "front_ok c \<longleftrightarrow> (\<forall>u \<in> set (c_fetch_q c). fresh u) \<and>
     (\<forall>u \<in> set (c_decode_q c). fresh u \<and> wf_decoded (u_dec u))"

definition retire_ok :: "Cpu \<Rightarrow> bool" where
  "retire_ok c \<longleftrightarrow> c_commit_in_order c \<and>
     (0 < st_retired (c_stats c) \<longrightarrow> (\<forall>s \<in> set (seqs (c_rob c)). c_last_committed_seq c < s) \<and>
       unat (c_last_committed_seq c) < st_renamed (c_stats c))"

definition core :: "Cpu \<Rightarrow> bool" where
  "core c \<longleftrightarrow> mapped c \<and> ordered c \<and> waits c \<and> front_ok c \<and> retire_ok c"

text \<open>Beyond these two events the model promises nothing.\<close>

definition hazard :: "Cpu \<Rightarrow> bool \<times> nat" where
  "hazard c = (c_undefined c, st_renamed (c_stats c))"

definition lost :: "Cpu \<Rightarrow> bool" where
  "lost c \<longleftrightarrow> c_undefined c \<or> 2 ^ 32 \<le> st_renamed (c_stats c)"

definition sound :: "Cpu \<Rightarrow> bool" where
  "sound c \<longleftrightarrow> lost c \<or> core c"

lemmas core_defs = core_def mapped_def ordered_def waits_def front_ok_def retire_ok_def work_def

text \<open>What the invariant reads.\<close>

definition essence where
  "essence c = ((c_rob c, c_inflight c, c_arch_rat c, c_rat c, c_free_list c, c_ckpts c),
     (st_renamed (c_stats c), st_retired (c_stats c), c_commit_in_order c, c_last_committed_seq c),
     (c_rename_q c, iq_entries (c_iq c), work c, c_fetch_q c, c_decode_q c))"

lemma essence_eqs:
  assumes "essence c' = essence c"
  shows "c_rob c' = c_rob c" "c_inflight c' = c_inflight c" "c_arch_rat c' = c_arch_rat c"
    "c_rat c' = c_rat c" "c_free_list c' = c_free_list c" "c_ckpts c' = c_ckpts c"
    "st_renamed (c_stats c') = st_renamed (c_stats c)" "st_retired (c_stats c') = st_retired (c_stats c)"
    "c_commit_in_order c' = c_commit_in_order c" "c_last_committed_seq c' = c_last_committed_seq c"
    "c_rename_q c' = c_rename_q c" "iq_entries (c_iq c') = iq_entries (c_iq c)" "work c' = work c"
    "c_fetch_q c' = c_fetch_q c" "c_decode_q c' = c_decode_q c"
  using assms unfolding essence_def prod.inject by blast+

lemma core_essence:
  assumes "essence c' = essence c"
  shows "core c' = core c"
  unfolding core_def mapped_def ordered_def waits_def front_ok_def retire_ok_def
  by (simp only: essence_eqs [OF assms])

lemma lost_hazard: "hazard c' = hazard c \<Longrightarrow> lost c' = lost c"
  by (simp add: hazard_def lost_def)

lemma sound_unchanged: "essence c' = essence c \<Longrightarrow> hazard c' = hazard c \<Longrightarrow> sound c' = sound c"
  using core_essence [of c' c] lost_hazard [of c' c] by (simp only: sound_def)

text \<open>A step on a sound machine that keeps the counters.\<close>

lemma sound_step:
  assumes "sound c" "hazard c' = hazard c" "core c \<Longrightarrow> core c'"
  shows "sound c'"
  using assms lost_hazard [of c' c] by (auto simp: sound_def)

lemma essence_obs [simp]: "essence (upd_obs f c) = essence c" "hazard (upd_obs f c) = hazard c"
  by (simp_all add: essence_def work_def hazard_def)

lemma core_obs [simp]: "core (upd_obs f c) = core c"
  by (rule core_essence) simp

lemma essence_stats [simp]:
  "st_renamed (f (c_stats c)) = st_renamed (c_stats c) \<Longrightarrow> st_retired (f (c_stats c)) = st_retired (c_stats c) \<Longrightarrow>
   essence (upd_stats f c) = essence c"
  "st_renamed (f (c_stats c)) = st_renamed (c_stats c) \<Longrightarrow> hazard (upd_stats f c) = hazard c"
  by (simp_all add: essence_def work_def hazard_def)

lemma stats_stall_counts [simp]:
  "st_renamed (stats_stall s x) = st_renamed x" "st_retired (stats_stall s x) = st_retired x"
  by (simp_all add: stats_stall_def)

section \<open>Identity of a uop\<close>

definition ident where
  "ident u = (u_seq u, u_rob u, u_dec u, u_dest u, u_stale u, u_ckpt u)"

lemma ident_eqs:
  assumes "ident u' = ident u"
  shows "u_seq u' = u_seq u" "u_rob u' = u_rob u" "u_dec u' = u_dec u" "u_dest u' = u_dest u"
    "u_stale u' = u_stale u" "u_ckpt u' = u_ckpt u"
  using assms unfolding ident_def prod.inject by blast+

lemma live_ident:
  assumes "ident u' = ident u"
  shows "live r k u' = live r k u" "pending r u' = pending r u"
  by (simp_all only: pending_def live_def uop_view_def ident_eqs [OF assms])

lemma ident_execute [simp]: "ident (execute_uop u) = ident u"
  by (simp add: ident_def)

lemma uop_at_seat:
  assumes "core c" "e \<in> set (iq_entries (c_iq c))"
  obtains k where "live (c_rob c) k (c_inflight c ! iq_rob e)" "u_seq (c_inflight c ! iq_rob e) = iq_seq e"
proof -
  have "seated (c_rob c) e" using assms by (simp add: core_def waits_def waiting_def)
  then obtain k where k: "k < rob_count (c_rob c)" "iq_rob e = rob_nth (c_rob c) k"
      "iq_seq e = seqs (c_rob c) ! k"
    by (auto simp: seated_seqs)
  have "live (c_rob c) k (c_inflight c ! iq_rob e)"
    using assms(1) k(1,2) by (simp add: core_def mapped_def rob_state_def)
  with that show ?thesis using k(3) live_seqs by metis
qed

section \<open>Fetch and decode\<close>

lemma fetch_one_essence:
  "core c \<Longrightarrow> core (fst (fetch_one c))" "hazard (fst (fetch_one c)) = hazard c"
  by (auto simp: fetch_one_def Let_def obs_defs core_defs fresh_def default_uop_def hazard_def
      split: prod.splits)

lemma decode_one_essence:
  "core c \<Longrightarrow> core (fst (decode_one c))" "hazard (fst (decode_one c)) = hazard c"
  by (auto simp: decode_one_def Let_def obs_defs core_defs fresh_def decode_uop_def hazard_def wf_decode
      split: list.splits)

lemma front_sound:
  "sound c \<Longrightarrow> sound (fetch c)" "sound c \<Longrightarrow> sound (decode_stage c)"
proof -
  have "sound (fst (fetch_one c))" "sound (fst (decode_one c))" if "sound c" for c
    using that fetch_one_essence decode_one_essence by (blast intro: sound_step)+
  then show "sound c \<Longrightarrow> sound (fetch c)" "sound c \<Longrightarrow> sound (decode_stage c)"
    by (auto simp: fetch_def decode_stage_def intro: stage_loop_invariant)
qed

section \<open>Rename\<close>

lemma view_of_entry: "uop_view u = entry_view (rob_entry_of u)"
  by (simp add: uop_view_def entry_view_def rob_entry_of_def default_rob_entry_def)

definition rename_rest where
  "rename_rest c = (c_rob c, c_inflight c, c_arch_rat c, c_rename_q c, iq_entries (c_iq c), work c,
     c_fetch_q c, c_decode_q c, c_stats c, c_commit_in_order c, c_last_committed_seq c)"

lemma rename_rest_eqs:
  assumes "rename_rest c' = rename_rest c"
  shows "c_rob c' = c_rob c" "c_inflight c' = c_inflight c" "c_arch_rat c' = c_arch_rat c"
    "c_rename_q c' = c_rename_q c" "iq_entries (c_iq c') = iq_entries (c_iq c)" "work c' = work c"
    "c_fetch_q c' = c_fetch_q c" "c_decode_q c' = c_decode_q c" "c_stats c' = c_stats c"
    "c_commit_in_order c' = c_commit_in_order c" "c_last_committed_seq c' = c_last_committed_seq c"
  using assms unfolding rename_rest_def prod.inject by blast+

text \<open>Taking the destination and mapping it.\<close>

lemma rename_registers:
  assumes inv: "regs_inv arch (c_free_list c) vs" and rat: "c_rat c = map_after arch vs"
    and dest: "take_dest (d_writes_rd (u_dec u)) c = Some (dest, c1)"
    and m: "map_regs dest u c1 = (u2, c2)" and u: "fresh u" "wf_decoded (u_dec u)"
    and v: "v_arch v = (if d_writes_rd (u_dec u) then d_rd (u_dec u) else INVALID_ARCHREG)"
      "v_dest v = u_dest u2" "v_stale v = u_stale u2"
  shows "regs_inv arch (c_free_list c2) (vs @ [v])" and "c_rat c2 = map_after arch (vs @ [v])"
    and "u_dec u2 = u_dec u" "u_ckpt u2 = u_ckpt u"
    and "u_dest u2 \<noteq> INVALID_PHYSREG \<longrightarrow> d_writes_rd (u_dec u)"
    and "rename_rest c2 = rename_rest c" "c_ckpts c2 = c_ckpts c" "c_undefined c2 = c_undefined c"
proof -
  show "u_dec u2 = u_dec u" "u_ckpt u2 = u_ckpt u"
    using m by (auto simp: map_regs_def Let_def split: if_splits)
  show "u_dest u2 \<noteq> INVALID_PHYSREG \<longrightarrow> d_writes_rd (u_dec u)"
    using m u(1) by (auto simp: map_regs_def Let_def fresh_def split: if_splits)
  show "rename_rest c2 = rename_rest c" "c_ckpts c2 = c_ckpts c" "c_undefined c2 = c_undefined c"
    using dest m by (auto simp: take_dest_def map_regs_def Let_def rename_rest_def work_def
        split: if_splits option.splits)
  show "regs_inv arch (c_free_list c2) (vs @ [v])" "c_rat c2 = map_after arch (vs @ [v])"
  proof (atomize (full), cases "d_writes_rd (u_dec u)")
    case False
    then have "\<not> v_writes v" "c_free_list c2 = c_free_list c" "c_rat c2 = c_rat c"
      using dest m u(1) v by (auto simp: take_dest_def map_regs_def Let_def v_writes_def fresh_def)
    then show "regs_inv arch (c_free_list c2) (vs @ [v]) \<and> c_rat c2 = map_after arch (vs @ [v])"
      using rename_regs_inv_none [OF inv] rat by (simp add: map_dest_def)
  next
    case True
    have rd: "0 < d_rd (u_dec u)" "d_rd (u_dec u) < 32" using u(2) True by (auto simp: wf_decoded_def)
    obtain fl' where fl: "fl_alloc (c_free_list c) = Some (dest, fl')" "c1 = c\<lparr>c_free_list := fl'\<rparr>"
      using dest True by (auto simp: take_dest_def split: option.splits)
    have c2: "c_free_list c2 = fl'" "c_rat c2 = (c_rat c)[d_rd (u_dec u) := dest]"
      "u_dest u2 = dest" "u_stale u2 = c_rat c ! d_rd (u_dec u)"
      using m True fl(2) rd(1) by (auto simp: map_regs_def Let_def rat_map_def rat_set_def)
    note new = rename_regs_inv [OF inv fl(1), of v]
    have "regs_inv arch fl' (vs @ [v])" "v_writes v" using new v c2 rd rat True by auto
    then show "regs_inv arch (c_free_list c2) (vs @ [v]) \<and> c_rat c2 = map_after arch (vs @ [v])"
      using c2 v True rat by (simp add: map_dest_def)
  qed
qed

text \<open>The checkpoint of a branch.\<close>

lemma rename_checkpoint:
  assumes inv: "ckpts_inv arch (c_ckpts c) vs" and rat: "c_rat c = map_after arch (vs @ [v])"
    and t: "take_checkpoint u c = (u', c')" and free: "d_is_branch (u_dec u) \<Longrightarrow> cp_free (c_ckpts c) \<noteq> []"
    and u: "u_ckpt u = INVALID_CHECKPOINT" and v: "v_branch v = d_is_branch (u_dec u)" "v_ckpt v = u_ckpt u'"
  shows "ckpts_inv arch (c_ckpts c') (vs @ [v])"
    and "rename_rest c' = rename_rest c" "c_undefined c' = c_undefined c"
    and "c_rat c' = c_rat c" "c_free_list c' = c_free_list c"
proof -
  have some: "\<exists>i p. cp_alloc (c_ckpts c) = Some (i, p)" if "d_is_branch (u_dec u)"
    using free [OF that] cp.alloc_None [of "c_ckpts c"] by (cases "cp_alloc (c_ckpts c)") auto
  show "rename_rest c' = rename_rest c" "c_undefined c' = c_undefined c"
    "c_rat c' = c_rat c" "c_free_list c' = c_free_list c"
    using t some by (auto simp: take_checkpoint_def rename_rest_def work_def split: if_splits)
  show "ckpts_inv arch (c_ckpts c') (vs @ [v])"
  proof (cases "d_is_branch (u_dec u)")
    case False
    with t u v inv show ?thesis by (auto simp: take_checkpoint_def intro: rename_ckpts_inv_none)
  next
    case True
    then obtain i p where a: "cp_alloc (c_ckpts c) = Some (i, p)" using some by blast
    then have "c_ckpts c' = cp_write p i \<lparr>ck_rat = c_rat c, ck_front_end = u_fe_snap u\<rparr>" "v_ckpt v = i"
      using t True v by (auto simp: take_checkpoint_def)
    then show ?thesis using rename_ckpts_inv [OF inv a, of v] True v rat by simp
  qed
qed

text \<open>Both, on a machine that has the invariant.\<close>

lemma rename_mapping:
  assumes c: "core c" and u: "fresh u" "wf_decoded (u_dec u)"
    and free: "d_is_branch (u_dec u) \<Longrightarrow> cp_free (c_ckpts c) \<noteq> []"
    and dest: "take_dest (d_writes_rd (u_dec u)) c = Some (dest, c1)"
    and m: "map_regs dest u c1 = (u2, c2)" and t: "take_checkpoint u2 c2 = (u3, c3)"
  defines "vs \<equiv> views (c_rob c) @ [entry_view (rob_entry_of u3)]"
  shows "regs_inv (c_arch_rat c) (c_free_list c3) vs" and "ckpts_inv (c_arch_rat c) (c_ckpts c3) vs"
    and "c_rat c3 = map_after (c_arch_rat c) vs" and "rename_rest c3 = rename_rest c"
    and "c_undefined c3 = c_undefined c" and "u_dec u3 = u_dec u"
    and "u_dest u3 \<noteq> INVALID_PHYSREG \<longrightarrow> d_writes_rd (u_dec u)"
proof -
  define v where "v = entry_view (rob_entry_of u3)"
  have inv: "regs_inv (c_arch_rat c) (c_free_list c) (views (c_rob c))"
    "c_rat c = map_after (c_arch_rat c) (views (c_rob c))"
    "ckpts_inv (c_arch_rat c) (c_ckpts c) (views (c_rob c))"
    using c by (simp_all add: core_def mapped_def rob_state_def)
  have u2: "u_dec u2 = u_dec u" "u_ckpt u2 = INVALID_CHECKPOINT"
    using m u(1) by (auto simp: map_regs_def Let_def fresh_def split: if_splits)
  have u3: "u_dec u3 = u_dec u2" "u_dest u3 = u_dest u2" "u_stale u3 = u_stale u2"
    using t by (auto simp: take_checkpoint_def split: if_splits option.splits)
  have v: "v_arch v = (if d_writes_rd (u_dec u) then d_rd (u_dec u) else INVALID_ARCHREG)"
    "v_dest v = u_dest u2" "v_stale v = u_stale u2" "v_ckpt v = u_ckpt u3"
    "v_branch v = d_is_branch (u_dec u2)"
    by (simp_all add: v_def entry_view_def rob_entry_of_def u2(1) u3)
  note reg = rename_registers [OF inv(1,2) dest m u v(1-3)]
  have inv2: "ckpts_inv (c_arch_rat c) (c_ckpts c2) (views (c_rob c))"
    "d_is_branch (u_dec u2) \<Longrightarrow> cp_free (c_ckpts c2) \<noteq> []"
    using inv(3) reg(7) free u2(1) by simp_all
  note ck = rename_checkpoint [OF inv2(1) reg(2) t inv2(2) u2(2) v(5,4)]
  have vs: "vs = views (c_rob c) @ [v]" by (simp add: vs_def v_def)
  show "regs_inv (c_arch_rat c) (c_free_list c3) vs" "ckpts_inv (c_arch_rat c) (c_ckpts c3) vs"
    "c_rat c3 = map_after (c_arch_rat c) vs" "rename_rest c3 = rename_rest c"
    "c_undefined c3 = c_undefined c"
    using reg(1,2,6,8) ck by (simp_all only: vs)
  show "u_dec u3 = u_dec u" "u_dest u3 \<noteq> INVALID_PHYSREG \<longrightarrow> d_writes_rd (u_dec u)"
    using u2 u3 reg(5) by simp_all
qed

text \<open>The entry, the payload and the rename queue.\<close>

lemma enter_core:
  assumes c: "core c" "\<not> lost c" and u: "fresh u" "wf_decoded (u_dec u)"
    and room: "\<not> rob_full (c_rob c)" and free: "d_is_branch (u_dec u) \<Longrightarrow> cp_free (c_ckpts c) \<noteq> []"
    and dest: "take_dest (d_writes_rd (u_dec u)) c = Some (dest, c1)"
    and m: "map_regs dest u c1 = (u2, c2)" and t: "take_checkpoint u2 c2 = (u3, c3)"
    and e: "enter_rob u3 c3 = (u4, c4)"
  shows "core (upd_stats (\<lambda>s. s\<lparr>st_renamed := st_renamed s + 1\<rparr>) c4)"
proof -
  define n where "n = st_renamed (c_stats c)"
  have st: "rob_state (c_rob c) (c_inflight c) (c_arch_rat c) (c_rat c) (c_free_list c) (c_ckpts c)"
    "order_state (c_rob c) n" "waiting (c_rob c) (c_rename_q c) (iq_entries (c_iq c)) (work c)"
    "front_ok c" "retire_ok c" and less: "n < 2 ^ 32" and ok: "rob_ok (c_rob c)"
    using c by (simp_all add: core_def mapped_def ordered_def waits_def n_def lost_def rob_state_def)
  note map = rename_mapping [OF c(1) u free dest m t]
  note eqs = rename_rest_eqs [OF map(4)]
  obtain idx r' where a: "rob_allocate (rob_entry_of u3) (c_rob c) = (idx, r')" by fastforce
  note al = rob_allocate_list [OF ok room a]
  have "re_seq (rob_at r' idx) = rob_next_seq (c_rob c)"
    using al(1,5,6) by (simp add: rob_at_nth nth_append)
  then have u4: "u4 = u3\<lparr>u_rob := idx, u_seq := rob_next_seq (c_rob c)\<rparr>"
    and c4: "c4 = c3\<lparr>c_rob := r', c_inflight := (c_inflight c)[idx := u4], c_rename_q := c_rename_q c @ [u4]\<rparr>"
    using e a eqs(1,2,4) by (auto simp: enter_rob_def Let_def)
  have name4: "u_rob u4 = idx" "u_seq u4 = rob_next_seq (c_rob c)"
    "uop_view u4 = entry_view (rob_entry_of u3)" "wf_decoded (u_dec u4)"
    "u_dest u4 \<noteq> INVALID_PHYSREG \<longrightarrow> d_writes_rd (u_dec u4)"
    using u(2) map(6,7) by (simp_all add: u4 view_of_entry rob_entry_of_def)
  note rs = rob_state_allocate [OF st(1) room a map(1,2,3) name4]
  have os: "order_state r' (Suc n)" by (rule order_state_allocate(1) [OF st(2) ok room a less])
  have w: "waiting r' (c_rename_q c @ [u4]) (iq_entries (c_iq c)) (work c)"
    using waiting_allocate [OF st(3,2) less ok room a _ rs(2) name4(2)]
    by (simp add: rob_entry_of_def default_rob_entry_def)
  have "seqs r' = seqs (c_rob c) @ [rob_next_seq (c_rob c)]"
    using allocate_tags(1) [OF ok room a] by (simp add: seqs_tags)
  moreover have "c_last_committed_seq c < rob_next_seq (c_rob c)" if "0 < st_retired (c_stats c)"
    using st(2,5) that unat_of_nat32 [OF less]
    by (simp add: retire_ok_def n_def order_state_def word_less_nat_alt)
  ultimately have ro: "0 < st_retired (c_stats c) \<longrightarrow> (\<forall>s \<in> set (seqs r'). c_last_committed_seq c < s) \<and>
      unat (c_last_committed_seq c) < Suc n"
    using st(5) by (auto simp: retire_ok_def n_def less_Suc_eq)
  show ?thesis
    using rs(1) os w ro st(4,5) eqs
    by (simp add: core_def mapped_def ordered_def waits_def front_ok_def retire_ok_def c4 work_def n_def)
qed

lemma rename_uop_core:
  assumes c: "core c" "\<not> lost c" and u: "fresh u" "wf_decoded (u_dec u)"
    and room: "\<not> rob_full (c_rob c)" and free: "d_is_branch (u_dec u) \<Longrightarrow> cp_free (c_ckpts c) \<noteq> []"
    and dest: "take_dest (d_writes_rd (u_dec u)) c = Some (dest, c1)"
  shows "core (rename_uop dest u c1)" and "c_undefined (rename_uop dest u c1) = c_undefined c"
    and "st_renamed (c_stats (rename_uop dest u c1)) = Suc (st_renamed (c_stats c))"
proof -
  define u1 where "u1 = u\<lparr>u_at := (u_at u)\<lparr>at_rename := c_cycle c1\<rparr>\<rparr>"
  obtain u2 c2 where m: "map_regs dest u1 c1 = (u2, c2)" by fastforce
  obtain u3 c3 where t: "take_checkpoint u2 c2 = (u3, c3)" by fastforce
  obtain u4 c4 where e: "enter_rob u3 c3 = (u4, c4)" by fastforce
  have u1: "fresh u1" "wf_decoded (u_dec u1)" "u_dec u1 = u_dec u"
    using u by (simp_all add: u1_def fresh_def)
  note d = free [folded u1(3)] dest [folded u1(3)]
  note map = rename_mapping [OF c(1) u1(1,2) d m t]
  have "rename_uop dest u c1 = log_rename u4 (event (Ev_rename (u_seq u4) (u_pc u4)
      (if d_writes_rd (u_dec u4) then Some (d_rd (u_dec u4), u_dest u4, u_stale u4) else None))
      (upd_stats (\<lambda>s. s\<lparr>st_renamed := st_renamed s + 1\<rparr>) c4))"
    using m t e by (simp add: rename_uop_def Let_def flip: u1_def)
  moreover have "core (upd_stats (\<lambda>s. s\<lparr>st_renamed := st_renamed s + 1\<rparr>) c4)"
    by (rule enter_core [OF c u1(1,2) room d m t e])
  ultimately show "core (rename_uop dest u c1)"
    by (simp add: obs_defs)
  have "c_undefined c4 = c_undefined c3" "c_stats c4 = c_stats c3"
    using e by (auto simp: enter_rob_def Let_def split: prod.splits)
  then show "c_undefined (rename_uop dest u c1) = c_undefined c"
    "st_renamed (c_stats (rename_uop dest u c1)) = Suc (st_renamed (c_stats c))"
    using map(5) rename_rest_eqs(9) [OF map(4)]
    by (simp_all add: rename_uop_def Let_def m t e obs_defs flip: u1_def)
qed

lemma rename_one_sound:
  assumes "sound c"
  shows "sound (fst (rename_one c))"
proof (cases "lost c")
  case True
  then have "lost (fst (rename_one c))"
    by (auto simp: rename_one_def rename_uop_def Let_def obs_defs lost_def take_dest_def map_regs_def
        take_checkpoint_def enter_rob_def split: list.splits option.splits prod.splits if_splits)
  then show ?thesis by (simp add: sound_def)
next
  case False
  with assms have c: "core c" by (simp add: sound_def)
  show ?thesis
  proof (rule ccontr)
    assume bad: "\<not> sound (fst (rename_one c))"
    obtain u rest dest c1 where q: "c_decode_q c = u # rest" "\<not> rob_full (c_rob c)"
        "\<not> (d_is_branch (u_dec u) \<and> cp_free (c_ckpts c) = [])"
        "take_dest (d_writes_rd (u_dec u)) c = Some (dest, c1)"
        "fst (rename_one c) = rename_uop dest u (c1\<lparr>c_decode_q := rest\<rparr>)"
      using bad sound_unchanged [of "cpu_stall _ c" c] assms
      by (auto simp: rename_one_def split: list.splits if_splits option.splits)
    have c0: "core (c\<lparr>c_decode_q := rest\<rparr>)" "\<not> lost (c\<lparr>c_decode_q := rest\<rparr>)"
      using c False q(1) by (simp_all add: core_defs lost_def)
    have "take_dest (d_writes_rd (u_dec u)) (c\<lparr>c_decode_q := rest\<rparr>) = Some (dest, c1\<lparr>c_decode_q := rest\<rparr>)"
      using q(4) by (auto simp: take_dest_def split: if_splits option.splits)
    moreover have "fresh u" "wf_decoded (u_dec u)" using c q(1) by (simp_all add: core_defs)
    ultimately have "core (fst (rename_one c))"
      using rename_uop_core(1) [OF c0] q by simp
    with bad show False by (simp add: sound_def)
  qed
qed

lemma rename_stage_sound: "sound c \<Longrightarrow> sound (rename_stage c)"
  unfolding rename_stage_def by (rule stage_loop_invariant) (rule rename_one_sound)

section \<open>Dispatch\<close>

lemma take_seat_frame:
  assumes "take_seat u c = Inr (u', c')"
  shows "ident u' = ident u" "essence c' = essence c" "hazard c' = hazard c" "c_iq c' = c_iq c"
    "c_inflight c' = c_inflight c" "c_rob c' = c_rob c"
  using assms
  by (auto simp: take_seat_def ident_def essence_def hazard_def work_def split: if_splits option.splits)

text \<open>A new payload under the same identity.\<close>

lemma core_payload:
  assumes "core c" "live (c_rob c) k u"
  shows "core (c\<lparr>c_inflight := (c_inflight c)[u_rob u := u]\<rparr>)"
  using assms rob_state_payload [of "c_rob c" "c_inflight c" "c_arch_rat c" "c_rat c" "c_free_list c" "c_ckpts c" k u]
  by (simp add: core_defs)

lemma dispatch_core:
  assumes "core c" "c_rename_q c = u # rest" "ident u' = ident u"
  shows "core (c\<lparr>c_rename_q := rest, c_inflight := (c_inflight c)[u_rob u' := u'],
    c_iq := iq_insert (iq_entry_of prf cfg u') (c_iq c)\<rparr>)"
proof -
  have w: "waiting (c_rob c) (u # rest) (iq_entries (c_iq c)) (work c)"
    using assms by (simp add: core_def waits_def)
  then obtain k where "live (c_rob c) k u" by (auto simp: waiting_def pending_def)
  then have "core (c\<lparr>c_inflight := (c_inflight c)[u_rob u' := u']\<rparr>)"
    using core_payload [OF assms(1), of k u'] live_ident [OF assms(3)] by simp
  moreover have "waiting (c_rob c) rest (iq_entries (c_iq c) @ [iq_entry_of prf cfg u']) (work c)"
    by (rule waiting_dispatch [OF w]) (simp_all add: iq_entry_of_def ident_eqs [OF assms(3)])
  ultimately show ?thesis
    by (simp add: core_defs iq_insert_def)
qed

lemma dispatch_one_cases:
  obtains
    (idle) "fst (dispatch_one c) = c"
  | (stall) s where "fst (dispatch_one c) = cpu_stall s c"
  | (seat) u rest u' c' where "c_rename_q c = u # rest" "take_seat u c = Inr (u', c')"
      "fst (dispatch_one c) = (let u = u'\<lparr>u_at := (u_at u')\<lparr>at_dispatch := c_cycle c'\<rparr>\<rparr> in
        upd_stats (\<lambda>s. s\<lparr>st_dispatched := st_dispatched s + 1\<rparr>)
          (c'\<lparr>c_rename_q := rest, c_inflight := (c_inflight c')[u_rob u := u],
             c_iq := iq_insert (iq_entry_of (c_prf c') (c_cfg c') u) (c_iq c')\<rparr>))"
proof (cases "c_rename_q c")
  case Nil
  then show thesis by (intro idle) (simp add: dispatch_one_def)
next
  case (Cons u rest)
  show thesis
  proof (cases "iq_full (c_iq c)")
    case True
    with Cons show thesis by (intro stall [of Stall_IQ_FULL]) (simp add: dispatch_one_def)
  next
    case room: False
    show thesis
    proof (cases "take_seat u c")
      case (Inl s)
      with Cons room show thesis by (intro stall [of s]) (simp add: dispatch_one_def)
    next
      case (Inr p)
      then have "take_seat u c = Inr (fst p, snd p)" by simp
      with Cons room show thesis
        by (intro seat [of u rest "fst p" "snd p"]) (simp_all add: dispatch_one_def Let_def split_beta)
    qed
  qed
qed

lemma dispatch_one_sound:
  assumes "sound c"
  shows "sound (fst (dispatch_one c))"
proof (cases rule: dispatch_one_cases [of c])
  case idle
  with assms show ?thesis by simp
next
  case (stall s)
  with assms sound_unchanged [of "cpu_stall s c" c] show ?thesis by simp
next
  case (seat u rest u' c')
  define u1 where "u1 = u'\<lparr>u_at := (u_at u')\<lparr>at_dispatch := c_cycle c'\<rparr>\<rparr>"
  define d where "d = c'\<lparr>c_rename_q := rest, c_inflight := (c_inflight c')[u_rob u1 := u1],
    c_iq := iq_insert (iq_entry_of (c_prf c') (c_cfg c') u1) (c_iq c')\<rparr>"
  note f = take_seat_frame [OF seat(2)]
  have out: "fst (dispatch_one c) = upd_stats (\<lambda>s. s\<lparr>st_dispatched := st_dispatched s + 1\<rparr>) d"
    by (simp add: seat(3) Let_def d_def u1_def)
  have "ident u1 = ident u" unfolding ident_def by (simp add: u1_def ident_eqs [OF f(1)])
  then have "core d" if "core c"
    unfolding d_def
    using that core_essence [OF f(2)] essence_eqs(11) [OF f(2)] seat(1) by (intro dispatch_core) simp_all
  then show ?thesis
    unfolding out
    by (intro sound_step [OF assms]) (simp_all add: core_essence [OF essence_stats(1)] d_def, simp_all add: hazard_def f(3) [unfolded hazard_def])
qed

lemma dispatch_sound: "sound c \<Longrightarrow> sound (dispatch c)"
  unfolding dispatch_def by (rule stage_loop_invariant) (rule dispatch_one_sound)

section \<open>Issue\<close>

text \<open>The part of the issue loop's state the invariant speaks of.\<close>

definition issue_ok :: "Issue \<Rightarrow> bool" where
  "issue_ok st \<longleftrightarrow> core (is_cpu st) \<and>
     (\<forall>br. is_offender st = Some br \<longrightarrow> br \<in># work (is_cpu st))"

lemma work_enqueue [simp]: "work (enqueue_result u lat c) = add_mset u (work c)"
  by (simp add: enqueue_result_def work_def)

lemma enqueue_frame [simp]:
  "c_rob (enqueue_result u lat c) = c_rob c" "c_inflight (enqueue_result u lat c) = c_inflight c"
  "c_arch_rat (enqueue_result u lat c) = c_arch_rat c" "c_rat (enqueue_result u lat c) = c_rat c"
  "c_free_list (enqueue_result u lat c) = c_free_list c" "c_ckpts (enqueue_result u lat c) = c_ckpts c"
  "c_stats (enqueue_result u lat c) = c_stats c" "c_undefined (enqueue_result u lat c) = c_undefined c"
  "c_commit_in_order (enqueue_result u lat c) = c_commit_in_order c"
  "c_last_committed_seq (enqueue_result u lat c) = c_last_committed_seq c"
  "c_rename_q (enqueue_result u lat c) = c_rename_q c" "c_iq (enqueue_result u lat c) = c_iq c"
  "c_fetch_q (enqueue_result u lat c) = c_fetch_q c" "c_decode_q (enqueue_result u lat c) = c_decode_q c"
  by (simp_all add: enqueue_result_def)

lemma occupy_unit_essence [simp]:
  "essence (occupy_unit f i t c) = essence c" "hazard (occupy_unit f i t c) = hazard c"
  by (simp_all add: occupy_unit_def essence_def work_def hazard_def)

lemma finish_issue_ok:
  assumes st: "core c" "\<forall>br. is_offender st = Some br \<longrightarrow> br \<in># work c"
    and e: "e \<in> set (iq_entries (c_iq c))"
    and u: "live (c_rob c) k u" "u_seq u = iq_seq e"
  shows "issue_ok (finish_issue e f unit u lat c st)"
    and "hazard (is_cpu (finish_issue e f unit u lat c st)) = hazard c"
proof -
  define u1 where "u1 = u\<lparr>u_wb_cycle := c_cycle c + lat, u_at := (u_at u)\<lparr>at_issue := c_cycle c\<rparr>\<rparr>"
  have u1: "live (c_rob c) k u1" "u_seq u1 = iq_seq e" "u_rob u1 = rob_nth (c_rob c) k" "k < rob_count (c_rob c)"
    using u live_ident(1) [of u1 u] by (simp_all add: u1_def ident_def) (simp_all add: live_def)
  define r where "r = (if mispredicted u1
    then rob_modify (c_rob c) (u_rob u1) (\<lambda>r. r\<lparr>re_mispredicted := True\<rparr>) else c_rob c)"
  define d where "d = c\<lparr>c_rob := r, c_inflight := (c_inflight c)[u_rob u1 := u1],
    c_iq := iq_erase (iq_seq e) (c_iq c)\<rparr>"
  have ok: "rob_ok (c_rob c)" using st by (simp add: core_def mapped_def rob_state_def)
  have tag: "tag (x\<lparr>re_mispredicted := True\<rparr>) = tag x" for x by (simp add: tag_def entry_view_def)
  note mod = rob_state_modify [OF _ u1(4) tag] order_state_modify [OF _ ok u1(4) tag]
    waiting_modify [OF ok u1(4) tag] live_modify [OF ok u1(4) tag] tags_modify [OF ok u1(4) tag]
  have r: "rob_state r (c_inflight c) (c_arch_rat c) (c_rat c) (c_free_list c) (c_ckpts c)"
    "order_state r (st_renamed (c_stats c))" "waiting r (c_rename_q c) (iq_entries (c_iq c)) (work c)"
    "live r k u1" "seqs r = seqs (c_rob c)"
    using st(1) u1(1,3) mod by (simp_all add: r_def core_defs seqs_tags)
  have "rob_state r ((c_inflight c)[u_rob u1 := u1]) (c_arch_rat c) (c_rat c) (c_free_list c) (c_ckpts c)"
    by (rule rob_state_payload [OF r(1,4)])
  moreover have "waiting r (c_rename_q c) (erase_first (iq_seq e) (iq_entries (c_iq c))) (add_mset u1 (work c))"
    by (rule waiting_issue [OF r(3) e r(4) u1(2)])
  ultimately have core: "core (enqueue_result u1 lat d)"
    using st(1) r(2,5)
    by (simp add: core_def mapped_def ordered_def waits_def front_ok_def retire_ok_def d_def iq_erase_def)
      (simp add: work_def)
  have finish: "essence (is_cpu (finish_issue e f unit u lat c st)) = essence (enqueue_result u1 lat d)"
    "hazard (is_cpu (finish_issue e f unit u lat c st)) = hazard c"
    "is_offender (finish_issue e f unit u lat c st) = note_offender u1 (is_offender st)"
    by (simp_all add: finish_issue_def Let_def obs_defs u1_def d_def r_def essence_def work_def
        hazard_def occupy_unit_def enqueue_result_def iq_erase_def)
  show "hazard (is_cpu (finish_issue e f unit u lat c st)) = hazard c" by (rule finish(2))
  have "work (is_cpu (finish_issue e f unit u lat c st)) = add_mset u1 (work c)"
    using essence_eqs(13) [OF finish(1)] by (simp add: d_def) (simp add: work_def)
  then show "issue_ok (finish_issue e f unit u lat c st)"
    using core core_essence [OF finish(1)] st(2)
    by (auto simp: issue_ok_def finish(3) note_offender_def split: option.splits)
qed

lemma execute_load_frame:
  assumes "execute_load u l c = (r, c')"
  shows "essence c' = essence c" "hazard c' = hazard c" "c_iq c' = c_iq c" "c_rob c' = c_rob c" "work c' = work c"
    and "r = Some (u', l') \<Longrightarrow> ident u' = ident u"
  using assms
  by (auto simp: execute_load_def Let_def obs_defs essence_def hazard_def work_def ident_def split: if_splits)

lemma execute_other_frame:
  assumes "execute_other u l c = Some (u', c')"
  shows "essence c' = essence c" "hazard c' = hazard c" "c_iq c' = c_iq c" "c_rob c' = c_rob c" "work c' = work c"
    and "ident u' = ident u"
  using assms
  by (auto simp: execute_other_def reserve_cdb_def Let_def essence_def hazard_def work_def
      split: if_splits option.splits)

lemma finish_issue_entries:
  "iq_entries (c_iq (is_cpu (finish_issue e f unit u lat c st))) = erase_first (iq_seq e) (iq_entries (c_iq c))"
  by (simp add: finish_issue_def Let_def obs_defs iq_erase_def occupy_unit_def)

text \<open>What one candidate does: nothing the invariant sees, or its uop leaves the queue.\<close>

lemma issue_one_ok:
  assumes st: "issue_ok st" and e: "e \<in> set (iq_entries (c_iq (is_cpu st)))"
  shows "issue_ok (issue_one e st) \<and> hazard (is_cpu (issue_one e st)) = hazard (is_cpu st) \<and>
    iq_entries (c_iq (is_cpu (issue_one e st))) \<in>
      {iq_entries (c_iq (is_cpu st)), erase_first (iq_seq e) (iq_entries (c_iq (is_cpu st)))}"
proof -
  define c where "c = is_cpu st"
  define u0 where "u0 = c_inflight c ! iq_rob e"
  have core: "core c" and off: "\<forall>br. is_offender st = Some br \<longrightarrow> br \<in># work c"
    using st unfolding issue_ok_def c_def by blast+
  obtain k where k: "live (c_rob c) k u0" "u_seq u0 = iq_seq e"
    using uop_at_seat [OF core e [folded c_def]] u0_def by blast
  define u where "u = u0\<lparr>u_val1 := prf_read (c_prf c) (u_src1 u0), u_val2 := prf_read (c_prf c) (u_src2 u0)\<rparr>"
  have id: "ident u = ident u0" by (simp add: u_def ident_def)
  have unseen: "issue_ok (block_on s c' st) \<and> hazard c' = hazard c \<and> iq_entries (c_iq c') = iq_entries (c_iq c)"
    if "essence c' = essence c" "hazard c' = hazard c" for s c'
    using that core off core_essence [OF that(1)] essence_eqs(12,13) [OF that(1)]
    by (simp add: issue_ok_def block_on_def)
  have issued: "issue_ok (finish_issue e f unit u1 lat c1 st) \<and>
      hazard (is_cpu (finish_issue e f unit u1 lat c1 st)) = hazard c \<and>
      iq_entries (c_iq (is_cpu (finish_issue e f unit u1 lat c1 st))) = erase_first (iq_seq e) (iq_entries (c_iq c))"
    if c1: "essence c1 = essence c" "hazard c1 = hazard c" and u1: "ident u1 = ident u" for f unit u1 lat c1
  proof -
    have "core c1" "c_rob c1 = c_rob c" "work c1 = work c" "iq_entries (c_iq c1) = iq_entries (c_iq c)"
      using core core_essence [OF c1(1)] essence_eqs(1,12,13) [OF c1(1)] by simp_all
    moreover have "ident u1 = ident u0" using u1 id by simp
    ultimately show ?thesis
      using finish_issue_ok [of c1 st e k u1 f unit lat] off e k c1(2) live_ident(1) [of u1 u0] ident_eqs(1) [of u1 u0]
      by (simp add: finish_issue_entries flip: c_def)
  qed
  show ?thesis
  proof (rule issue_one_cases [OF c_def refl u_def [unfolded u0_def]], goal_cases)
    case 1
    then show ?case using unseen [of c] by (simp flip: c_def)
  next
    case (2 unit c1)
    then show ?case
      using unseen [of "event (Ev_replay (u_seq u)) (upd_stats (\<lambda>s. s\<lparr>st_load_replays := st_load_replays s + 1\<rparr>)
         (occupy_unit Fu_MEM unit (c_cycle c1 + 1) c1))"] execute_load_frame(1,2) [OF 2(3)]
      by (simp add: obs_defs flip: c_def)
  next
    case (3 unit u1 lat c1)
    then show ?case using issued execute_load_frame [OF 3(3)] by (simp flip: c_def)
  next
    case (4 unit)
    then show ?case using unseen [of c] by (simp flip: c_def)
  next
    case (5 unit u1 c1)
    then show ?case using issued execute_other_frame [OF 5(3)] by (simp flip: c_def)
  qed
qed

lemma erase_keeps_others:
  assumes "distinct (map iq_seq ents)" "iq_seq e \<notin> iq_seq ` set es" "set es \<subseteq> set ents"
  shows "set es \<subseteq> set (erase_first (iq_seq e) ents)"
proof
  fix x assume "x \<in> set es"
  then have "iq_seq x \<noteq> iq_seq e" "x \<in> set ents" using assms(2,3) by (metis image_eqI, blast)
  then show "x \<in> set (erase_first (iq_seq e) ents)" by (simp add: erase_first_eq [OF assms(1)])
qed

lemma issue_scan_ok:
  assumes "issue_ok st" "set es \<subseteq> set (iq_entries (c_iq (is_cpu st)))" "distinct (map iq_seq es)"
  shows "issue_ok (issue_scan es st) \<and> hazard (is_cpu (issue_scan es st)) = hazard (is_cpu st)"
  using assms
proof (induction es arbitrary: st)
  case Nil
  then show ?case by simp
next
  case (Cons e es)
  have one: "issue_ok (issue_one e st)" "hazard (is_cpu (issue_one e st)) = hazard (is_cpu st)"
    "iq_entries (c_iq (is_cpu (issue_one e st))) \<in>
      {iq_entries (c_iq (is_cpu st)), erase_first (iq_seq e) (iq_entries (c_iq (is_cpu st)))}"
    using issue_one_ok [OF Cons.prems(1), of e] Cons.prems(2) by auto
  have "distinct (map iq_seq (iq_entries (c_iq (is_cpu st))))"
    using Cons.prems(1) waiting_distinct by (auto simp: issue_ok_def core_def ordered_def waits_def)
  then have "set es \<subseteq> set (erase_first (iq_seq e) (iq_entries (c_iq (is_cpu st))))"
    using erase_keeps_others [of "iq_entries (c_iq (is_cpu st))" e es] Cons.prems(2,3) by simp
  then have "set es \<subseteq> set (iq_entries (c_iq (is_cpu (issue_one e st))))"
    using one(3) Cons.prems(2) by (elim insertE emptyE) simp_all
  then have "issue_ok (issue_scan es (issue_one e st)) \<and>
      hazard (is_cpu (issue_scan es (issue_one e st))) = hazard (is_cpu (issue_one e st))"
    using Cons.IH [OF one(1)] Cons.prems(3) by simp
  with Cons.prems one(2) show ?case by simp
qed

lemma charge_essence [simp]:
  "essence (snd (charge ss n c)) = essence c" "hazard (snd (charge ss n c)) = hazard c"
  "essence (charge_operands n c) = essence c" "hazard (charge_operands n c) = hazard c"
proof -
  show "essence (snd (charge ss n c)) = essence c" "hazard (snd (charge ss n c)) = hazard c"
    by (induction ss arbitrary: n c) simp_all
  show "essence (charge_operands n c) = essence c" "hazard (charge_operands n c) = hazard c"
    by (induction n arbitrary: c) simp_all
qed

lemma finish_issue_hazard [simp]: "hazard (is_cpu (finish_issue e f unit u lat c st)) = hazard c"
  by (simp add: finish_issue_def Let_def obs_defs hazard_def occupy_unit_def)

lemma issue_scan_hazard [simp]: "hazard (is_cpu (issue_scan es st)) = hazard (is_cpu st)"
proof (induction es arbitrary: st)
  case Nil
  then show ?case by simp
next
  case (Cons e es)
  have "hazard (is_cpu (issue_one e st)) = hazard (is_cpu st)"
  proof (rule issue_one_cases [OF refl refl refl, of st e], goal_cases)
    case (2 unit c1)
    then show ?case using execute_load_frame(2) [OF 2(3)] by (simp add: obs_defs)
  next
    case (3 unit u1 lat c1)
    then show ?case using execute_load_frame(2) [OF 3(3)] by simp
  next
    case (5 unit u1 c1)
    then show ?case using execute_other_frame(2) [OF 5(3)] by simp
  qed simp_all
  with Cons show ?case by simp
qed

section \<open>Recovery\<close>

definition kill_rest where
  "kill_rest c = ((c_rob c, c_inflight c, c_arch_rat c, c_rat c, c_rename_q c, c_iq c, c_fetch_q c, c_decode_q c),
     (c_executing c, c_wb_fast c, c_wb_slow c), (c_commit_in_order c, c_last_committed_seq c, c_undefined c),
     (st_renamed (c_stats c), st_retired (c_stats c)))"

lemma kill_fold_rest [simp]: "kill_rest (fold kill_entry es c) = kill_rest c"
proof (induction es arbitrary: c)
  case (Cons e es)
  have "kill_rest (kill_entry e c) = kill_rest c"
    by (simp add: kill_entry_def Let_def obs_defs kill_rest_def)
  with Cons show ?case by simp
qed simp

lemmas kill_fold_eqs = kill_fold_rest [unfolded kill_rest_def prod.inject]

lemma kill_fold_pools [simp]:
  "c_free_list (fold kill_entry es c) = release_dests (map entry_view es) (c_free_list c)"
  "c_ckpts (fold kill_entry es c) = release_ckpts (map entry_view es) (c_ckpts c)"
proof -
  have "c_free_list (kill_entry e c) = fl_release (c_free_list c) (re_dest_phys e)"
    "c_ckpts (kill_entry e c) = cp_release (c_ckpts c) (re_ckpt e)" for e c
    by (simp_all add: kill_entry_def Let_def obs_defs)
  then show "c_free_list (fold kill_entry es c) = release_dests (map entry_view es) (c_free_list c)"
    "c_ckpts (fold kill_entry es c) = release_ckpts (map entry_view es) (c_ckpts c)"
    by (induction es arbitrary: c) (simp_all add: release_dests_def release_ckpts_def entry_view_def)
qed

lemma release_cdb_fold: "\<exists>b. fold release_cdb us c = c\<lparr>c_cdb_booked := b\<rparr>"
proof (induction us arbitrary: c)
  case Nil
  show ?case by (intro exI [of _ "c_cdb_booked c"]) simp
next
  case (Cons u us)
  obtain b1 where b1: "release_cdb u c = c\<lparr>c_cdb_booked := b1\<rparr>"
  proof
    show "release_cdb u c = c\<lparr>c_cdb_booked := c_cdb_booked (release_cdb u c)\<rparr>"
      by (simp add: release_cdb_def Let_def)
  qed
  obtain b2 where "fold release_cdb us (c\<lparr>c_cdb_booked := b1\<rparr>) = c\<lparr>c_cdb_booked := b1, c_cdb_booked := b2\<rparr>"
    using Cons [of "c\<lparr>c_cdb_booked := b1\<rparr>"] ..
  then show ?case by (intro exI [of _ b2]) (simp add: b1)
qed

lemma squash_queues_eq:
  "\<exists>b. squash_queues s c = c\<lparr>c_executing := filter (\<lambda>u. u_seq u \<le> s) (c_executing c),
     c_wb_fast := filter (\<lambda>u. u_seq u \<le> s) (c_wb_fast c),
     c_wb_slow := filter (\<lambda>u. u_seq u \<le> s) (c_wb_slow c), c_cdb_booked := b\<rparr>"
proof -
  define out :: "Uop list \<Rightarrow> Uop list" where "out q = filter (\<lambda>u. \<not> u_seq u \<le> s) q" for q
  note queue = squash_queue_eq [of s, folded out_def]
  obtain b1 where b1: "fold release_cdb (out (c_executing c)) c = c\<lparr>c_cdb_booked := b1\<rparr>"
    using release_cdb_fold by blast
  define c1 where "c1 = c\<lparr>c_cdb_booked := b1, c_executing := filter (\<lambda>u. u_seq u \<le> s) (c_executing c)\<rparr>"
  obtain b2 where b2: "fold release_cdb (out (c_wb_fast c)) c1 = c1\<lparr>c_cdb_booked := b2\<rparr>"
    using release_cdb_fold by blast
  define c2 where "c2 = c1\<lparr>c_cdb_booked := b2, c_wb_fast := filter (\<lambda>u. u_seq u \<le> s) (c_wb_fast c)\<rparr>"
  obtain b3 where b3: "fold release_cdb (out (c_wb_slow c)) c2 = c2\<lparr>c_cdb_booked := b3\<rparr>"
    using release_cdb_fold by blast
  have "squash_queues s c = c2\<lparr>c_cdb_booked := b3, c_wb_slow := filter (\<lambda>u. u_seq u \<le> s) (c_wb_slow c)\<rparr>"
    using b1 b2 b3 by (simp add: squash_queues_def queue Let_def c1_def c2_def)
  then show ?thesis by (intro exI [of _ b3]) (simp add: c1_def c2_def)
qed

text \<open>What recovery leaves, and what it rebuilds.\<close>

lemma recover_fields:
  assumes ok: "rob_ok (c_rob c)" and k: "k < rob_count (c_rob c)" "u_rob br = rob_nth (c_rob c) k"
  defines "dead \<equiv> rev (drop (Suc k) (views (c_rob c)))" and "s \<equiv> u_seq br"
  shows "c_rob (recover br c) = (c_rob c)\<lparr>rob_count := Suc k\<rparr>"
    and "c_free_list (recover br c) = release_dests dead (c_free_list c)"
    and "c_ckpts (recover br c) = release_ckpts dead (c_ckpts c)"
    and "iq_entries (c_iq (recover br c)) = filter (\<lambda>e. iq_seq e \<le> s) (iq_entries (c_iq c))"
    and "work (recover br c) = {#u \<in># work c. u_seq u \<le> s#}"
    and "c_inflight (recover br c) = c_inflight c" "c_arch_rat (recover br c) = c_arch_rat c"
    and "c_fetch_q (recover br c) = []" "c_decode_q (recover br c) = []" "c_rename_q (recover br c) = []"
    and "c_commit_in_order (recover br c) = c_commit_in_order c"
    and "c_last_committed_seq (recover br c) = c_last_committed_seq c"
    and "st_renamed (c_stats (recover br c)) = st_renamed (c_stats c)"
    and "st_retired (c_stats (recover br c)) = st_retired (c_stats c)"
    and "c_undefined (recover br c) = (c_undefined c \<or> cp_at (release_ckpts dead (c_ckpts c)) (u_ckpt br) = None)"
    and "cp_at (release_ckpts dead (c_ckpts c)) (u_ckpt br) = Some ck \<Longrightarrow> c_rat (recover br c) = ck_rat ck"
proof -
  define killed where "killed = rev (drop (Suc k) (rob_list (c_rob c)))"
  have views: "map entry_view killed = dead"
    by (simp add: killed_def dead_def views_def rev_map drop_map)
  define c1 where "c1 = fold kill_entry killed (c\<lparr>c_rob := (c_rob c)\<lparr>rob_count := Suc k\<rparr>\<rparr>)"
  note kf = kill_fold_eqs [of killed "c\<lparr>c_rob := (c_rob c)\<lparr>rob_count := Suc k\<rparr>\<rparr>", folded c1_def]
  have pools: "c_free_list c1 = release_dests dead (c_free_list c)" "c_ckpts c1 = release_ckpts dead (c_ckpts c)"
    by (simp_all add: c1_def views)
  define c2 where "c2 = c1\<lparr>c_iq := iq_squash_after s (c_iq c1), c_lsq := lsq_squash_after s (c_lsq c1)\<rparr>"
  obtain b where b: "squash_queues s c2 = c2\<lparr>c_executing := filter (\<lambda>u. u_seq u \<le> s) (c_executing c2),
     c_wb_fast := filter (\<lambda>u. u_seq u \<le> s) (c_wb_fast c2),
     c_wb_slow := filter (\<lambda>u. u_seq u \<le> s) (c_wb_slow c2), c_cdb_booked := b\<rparr>"
    using squash_queues_eq by blast
  have out: "recover br c = event (Ev_mispredict s (length killed) (u_next_pc br))
    (upd_stats (\<lambda>x. x\<lparr>st_mispredicts := st_mispredicts x + 1\<rparr>)
      ((restore_front_end br (squash_queues s c2))\<lparr>c_fetch_q := [], c_decode_q := [], c_rename_q := [],
         c_fetch_stalled := False, c_pc := u_next_pc br\<rparr>))"
    using rob_truncate_eq [OF ok k(1)] k(2)
    by (simp add: recover_def Let_def s_def c1_def c2_def killed_def)
  show "c_rob (recover br c) = (c_rob c)\<lparr>rob_count := Suc k\<rparr>"
    "c_free_list (recover br c) = release_dests dead (c_free_list c)"
    "c_ckpts (recover br c) = release_ckpts dead (c_ckpts c)"
    "iq_entries (c_iq (recover br c)) = filter (\<lambda>e. iq_seq e \<le> s) (iq_entries (c_iq c))"
    "work (recover br c) = {#u \<in># work c. u_seq u \<le> s#}"
    "c_inflight (recover br c) = c_inflight c" "c_arch_rat (recover br c) = c_arch_rat c"
    "c_fetch_q (recover br c) = []" "c_decode_q (recover br c) = []" "c_rename_q (recover br c) = []"
    "c_commit_in_order (recover br c) = c_commit_in_order c"
    "c_last_committed_seq (recover br c) = c_last_committed_seq c"
    "st_renamed (c_stats (recover br c)) = st_renamed (c_stats c)"
    "st_retired (c_stats (recover br c)) = st_retired (c_stats c)"
    "c_undefined (recover br c) = (c_undefined c \<or> cp_at (release_ckpts dead (c_ckpts c)) (u_ckpt br) = None)"
    "cp_at (release_ckpts dead (c_ckpts c)) (u_ckpt br) = Some ck \<Longrightarrow> c_rat (recover br c) = ck_rat ck"
    using kf
    by (simp_all add: out [unfolded b] obs_defs restore_front_end_def Let_def c2_def pools work_def
        iq_squash_after_def split: option.splits)
qed

text \<open>Recovery on a branch that is being executed; on anything else it leaves the model.\<close>

lemma recover_core:
  assumes c: "core c" and br: "br \<in># work c" and branch: "d_is_branch (u_dec br)"
  shows "core (recover br c)" and "c_undefined (recover br c) = c_undefined c"
proof -
  have w: "waiting (c_rob c) (c_rename_q c) (iq_entries (c_iq c)) (work c)"
    and rs: "rob_state (c_rob c) (c_inflight c) (c_arch_rat c) (c_rat c) (c_free_list c) (c_ckpts c)"
    and os: "order_state (c_rob c) (st_renamed (c_stats c))"
    using c by (simp_all add: core_def waits_def mapped_def ordered_def)
  then obtain k where k: "live (c_rob c) k br" using br by (auto simp: waiting_def pending_def)
  have ok: "rob_ok (c_rob c)" and kc: "k < rob_count (c_rob c)" "u_rob br = rob_nth (c_rob c) k"
    using rs k by (simp_all add: rob_state_def live_def)
  note f = recover_fields [OF ok kc]
  define vs where "vs = views (c_rob c)"
  have split: "vs = take k vs @ vs ! k # drop (Suc k) vs"
    using kc(1) by (simp add: vs_def id_take_nth_drop)
  have take: "take (Suc k) vs = take k vs @ [vs ! k]"
    using kc(1) by (simp add: vs_def take_Suc_conv_app_nth)
  have "vs ! k = uop_view br" using live_view [OF k] by (simp add: vs_def)
  then have vk: "v_branch (vs ! k)" "v_ckpt (vs ! k) = u_ckpt br" using branch by (simp_all add: uop_view_def)
  have inv: "ckpts_inv (c_arch_rat c) (c_ckpts c) (take k vs @ vs ! k # drop (Suc k) vs)"
    using rs split by (simp add: rob_state_def vs_def)
  note ck = ckpt_restores [OF inv vk(1), unfolded vk(2), folded take]
  have rat: "c_rat (recover br c) = map_after (c_arch_rat c) (take (Suc k) vs)"
    using f(16) [OF ck(1)] ck(2) by simp
  show "c_undefined (recover br c) = c_undefined c" using f(15) ck(1) by simp
  have "rob_state (c_rob (recover br c)) (c_inflight (recover br c)) (c_arch_rat (recover br c))
      (c_rat (recover br c)) (c_free_list (recover br c)) (c_ckpts (recover br c))"
    using rob_state_truncate [OF rs kc(1)] by (simp add: f(1-3,6,7) rat vs_def)
  moreover have "order_state (c_rob (recover br c)) (st_renamed (c_stats (recover br c)))"
    using order_state_take [OF os, of "Suc k"] kc(1) by (simp add: f(1,13))
  moreover have "waiting (c_rob (recover br c)) (c_rename_q (recover br c)) (iq_entries (c_iq (recover br c)))
      (work (recover br c))"
    using waiting_truncate [OF ok os w k br] by (simp add: f(1,4,5,10))
  moreover have "set (seqs (c_rob (recover br c))) \<subseteq> set (seqs (c_rob c))"
    using truncate_tags(3) [OF ok kc(1)] by (simp add: f(1) set_take_subset)
  ultimately show "core (recover br c)"
    using c by (auto simp: core_def mapped_def ordered_def waits_def front_ok_def retire_ok_def f(8,9,11-14))
qed

lemma recover_sound:
  assumes "core c" "br \<in># work c"
  shows "sound (recover br c)"
proof (cases "d_is_branch (u_dec br)")
  case True
  then show ?thesis using recover_core(1) [OF assms] by (simp add: sound_def)
next
  case False
  have w: "pending (c_rob c) br" and rs: "rob_state (c_rob c) (c_inflight c) (c_arch_rat c) (c_rat c) (c_free_list c) (c_ckpts c)"
    using assms by (simp_all add: core_defs waiting_def)
  then obtain k where k: "live (c_rob c) k br" by (auto simp: pending_def)
  have ok: "rob_ok (c_rob c)" and kc: "k < rob_count (c_rob c)" "u_rob br = rob_nth (c_rob c) k"
    using rs k by (simp_all add: rob_state_def live_def)
  have "uop_view br \<in> set (views (c_rob c))"
    using live_view [OF k] kc(1) nth_mem [of k "views (c_rob c)"] by simp
  moreover have "\<forall>v \<in> set (views (c_rob c)). \<not> v_branch v \<longrightarrow> v_ckpt v = INVALID_CHECKPOINT"
    using rs by (simp add: rob_state_def ckpts_inv_def)
  moreover have "\<not> v_branch (uop_view br)" using False by (simp add: uop_view_def)
  ultimately have "v_ckpt (uop_view br) = INVALID_CHECKPOINT" by blast
  then have "cp_at (release_ckpts vs (c_ckpts c)) (u_ckpt br) = None" for vs
    using rs by (simp add: uop_view_def cp_at_def release_ckpts_def cp_release_fold_frame rob_state_def
        ckpts_inv_def INVALID_CHECKPOINT_def)
  then show ?thesis using recover_fields(15) [OF ok kc] by (simp add: sound_def lost_def)
qed

lemma recover_lost: "lost c \<Longrightarrow> lost (recover br c)"
proof -
  have "c_undefined (restore_front_end br c) \<longleftrightarrow> c_undefined c \<or> cp_at (c_ckpts c) (u_ckpt br) = None"
    "c_stats (restore_front_end br c) = c_stats c" for c
    by (auto simp: restore_front_end_def Let_def split: option.splits)
  moreover have "hazard (squash_queues s c) = hazard c" for s c
    using squash_queues_eq [of s c] by (auto simp: hazard_def)
  moreover have "hazard (fold kill_entry es c) = hazard c" for es c
    using kill_fold_eqs [of es c] by (simp add: hazard_def)
  ultimately show "lost c \<Longrightarrow> lost (recover br c)"
    by (auto simp: recover_def Let_def split_beta obs_defs lost_def hazard_def)
qed

lemma issue_sound:
  assumes "sound c"
  shows "sound (issue c)"
proof -
  define st where "st = issue_scan (iq_select (length (iq_entries (c_iq c))) (c_iq c))
    \<lparr>is_cpu = c, is_issued = 0, is_offender = None, is_blocked = []\<rparr>"
  define c1 where "c1 = charge_operands (fst (charge (is_blocked st) (cfg_width (c_cfg c) - is_issued st) (is_cpu st)))
    (snd (charge (is_blocked st) (cfg_width (c_cfg c) - is_issued st) (is_cpu st)))"
  have out: "issue c = (case is_offender st of None \<Rightarrow> c1 | Some br \<Rightarrow> recover br c1)"
    by (simp add: issue_def Let_def split_beta c1_def st_def split: option.split)
  have e: "essence c1 = essence (is_cpu st)" "hazard c1 = hazard (is_cpu st)" by (simp_all add: c1_def)
  have h: "hazard (is_cpu st) = hazard c" by (simp add: st_def)
  show ?thesis
  proof (cases "lost c")
    case True
    then have "lost c1" using e h lost_hazard [of c1 c] by simp
    then show ?thesis using recover_lost by (auto simp: out sound_def split: option.splits)
  next
    case False
    with assms have c: "core c" by (simp add: sound_def)
    have "distinct (map iq_seq (iq_entries (c_iq c)))"
      using c waiting_distinct by (auto simp: core_def ordered_def waits_def)
    then have "distinct (map iq_seq (filter iq_ready (iq_entries (c_iq c))))" by (rule distinct_map_filter)
    then have "issue_ok st"
      unfolding st_def iq_select_all
      by (intro issue_scan_ok [THEN conjunct1]) (auto simp: issue_ok_def c)
    then have "core c1" "\<forall>br. is_offender st = Some br \<longrightarrow> br \<in># work c1"
      using core_essence [OF e(1)] essence_eqs(13) [OF e(1)] by (simp_all add: issue_ok_def)
    then show ?thesis using recover_sound by (auto simp: out sound_def split: option.splits)
  qed
qed

section \<open>Execute and writeback\<close>

lemma execute_scan_work:
  "mset (c_executing (execute_scan us still c)) + mset (c_wb_fast (execute_scan us still c)) +
   mset (c_wb_slow (execute_scan us still c)) =
     mset us + mset still + mset (c_wb_fast c) + mset (c_wb_slow c)"
  by (induction us arbitrary: still c) (simp_all add: ac_simps)

lemma execute_sound: "sound c \<Longrightarrow> sound (execute c)"
proof -
  have "kill_rest ((execute_scan us still c)\<lparr>c_executing := x, c_wb_fast := y, c_wb_slow := z\<rparr>) =
      kill_rest (c\<lparr>c_executing := x, c_wb_fast := y, c_wb_slow := z\<rparr>)" for us still x y z
    by (induction us arbitrary: still c) (simp_all add: kill_rest_def)
  note frame = this [unfolded kill_rest_def, simplified]
  have pools: "c_free_list (execute_scan us still c) = c_free_list c" "c_ckpts (execute_scan us still c) = c_ckpts c"
    for us still by (induction us arbitrary: still c) simp_all
  have "work (execute c) = work c"
    using execute_scan_work [of "c_executing c" "[]" c] by (simp add: execute_def work_def)
  then have "essence (execute c) = essence c" "hazard (execute c) = hazard c"
    using frame [of "c_executing c" "[]"] by (simp_all add: execute_def essence_def hazard_def pools)
  then show "sound c \<Longrightarrow> sound (execute c)" using sound_unchanged by blast
qed

lemma waiting_wake: "waiting r rq (map (wake_entry p) ents) W = waiting r rq ents W"
proof -
  have "seated r (wake_entry p e) = seated r e" for e by (simp add: seated_def)
  then show ?thesis by (simp add: waiting_def comp_def image_image)
qed

lemma complete_fields:
  defines "f \<equiv> \<lambda>r. r\<lparr>re_complete := True\<rparr>"
  shows "c_rob (complete u c) = rob_modify (c_rob c) (u_rob u) f"
    and "c_inflight (complete u c) = (c_inflight c)[u_rob u := u\<lparr>u_at := (u_at u)\<lparr>at_complete := c_cycle c\<rparr>\<rparr>]"
    and "c_iq (complete u c) = iq_wakeup (u_dest u) (c_iq c)"
    and "kill_rest ((complete u c)\<lparr>c_rob := r, c_inflight := i, c_iq := q\<rparr>) =
      kill_rest (c\<lparr>c_rob := r, c_inflight := i, c_iq := q\<rparr>)"
    and "c_free_list (complete u c) = c_free_list c" "c_ckpts (complete u c) = c_ckpts c"
  by (simp_all add: complete_def Let_def obs_defs f_def kill_rest_def)

text \<open>Completing one piece of issued work; the caller takes it off its queue.\<close>

lemma complete_core:
  assumes c: "core c" and u: "work c = add_mset u (W :: Uop multiset)"
    and d: "essence d = essence ((complete u c)\<lparr>c_executing := x, c_wb_fast := y, c_wb_slow := z\<rparr>)"
      "W = mset x + mset y + mset z"
  shows "core d"
proof -
  let ?r = "c_rob c"
  define g :: "RobEntry \<Rightarrow> RobEntry" where "g = (\<lambda>r. r\<lparr>re_complete := True\<rparr>)"
  define u1 where "u1 = u\<lparr>u_at := (u_at u)\<lparr>at_complete := c_cycle c\<rparr>\<rparr>"
  have rs: "rob_state ?r (c_inflight c) (c_arch_rat c) (c_rat c) (c_free_list c) (c_ckpts c)"
    and os: "order_state ?r (st_renamed (c_stats c))"
    and w: "waiting ?r (c_rename_q c) (iq_entries (c_iq c)) (add_mset u W)"
    using c u by (simp_all add: core_def mapped_def ordered_def waits_def)
  then obtain k where k: "live ?r k u" by (auto simp: waiting_def pending_def)
  have ok: "rob_ok ?r" and kc: "k < rob_count ?r" "u_rob u = rob_nth ?r k"
    using rs k by (simp_all add: rob_state_def live_def)
  have tag: "tag (g e) = tag e" for e by (simp add: g_def tag_def entry_view_def)
  have u1: "live (rob_modify ?r (rob_nth ?r k) g) k u1" "u_rob u1 = u_rob u"
    using k live_ident(1) [of u1 u] live_modify [OF ok kc(1) tag] by (simp_all add: u1_def ident_def)
  have "rob_state (rob_modify ?r (u_rob u) g) ((c_inflight c)[u_rob u := u1]) (c_arch_rat c) (c_rat c)
      (c_free_list c) (c_ckpts c)"
    using rob_state_payload [OF rob_state_modify [OF rs kc(1) tag] u1(1)] by (simp add: u1(2) kc(2))
  moreover have "order_state (rob_modify ?r (u_rob u) g) (st_renamed (c_stats c))"
    using order_state_modify [OF os ok kc(1) tag] by (simp add: kc(2))
  moreover have "waiting (rob_modify ?r (u_rob u) g) (c_rename_q c) (iq_entries (iq_wakeup (u_dest u) (c_iq c))) W"
    using waiting_complete [OF ok os w k] by (simp add: iq_wakeup_def waiting_wake g_def)
  moreover have "seqs (rob_modify ?r (u_rob u) g) = seqs ?r"
    using tags_modify [OF ok kc(1) tag] by (simp add: seqs_tags kc(2))
  ultimately have "core ((complete u c)\<lparr>c_executing := x, c_wb_fast := y, c_wb_slow := z\<rparr>)"
    using c d(2) complete_fields [where u = u and c = c, folded g_def u1_def]
    by (simp add: core_def mapped_def ordered_def waits_def front_ok_def retire_ok_def work_def kill_rest_def)
  then show ?thesis using core_essence [OF d(1)] by simp
qed

lemma complete_hazard [simp]: "hazard (complete u c) = hazard c"
  by (simp add: complete_def Let_def obs_defs hazard_def)

lemma complete_queues [simp]:
  "c_executing (complete u c) = c_executing c" "c_wb_fast (complete u c) = c_wb_fast c"
  "c_wb_slow (complete u c) = c_wb_slow c"
  by (simp_all add: complete_def Let_def obs_defs)

lemma drain_fast_core:
  "core c \<Longrightarrow> c_wb_fast c = us \<Longrightarrow> core (snd (drain_fast us ports c))"
proof (induction us arbitrary: ports c)
  case Nil
  then show ?case by simp
next
  case (Cons u us)
  define d where "d = (complete u c)\<lparr>c_wb_fast := us\<rparr>"
  have "core d"
    using Cons.prems
    by (intro complete_core [of c u "mset (c_executing c) + mset us + mset (c_wb_slow c)" d
        "c_executing c" us "c_wb_slow c"]) (simp_all add: work_def d_def essence_def)
  then show ?case
    using Cons.IH [of d] Cons.prems by (auto simp: d_def [symmetric]) (simp_all add: d_def)
qed

lemma drain_slow_core:
  "core c \<Longrightarrow> c_wb_slow c = us \<Longrightarrow> core (drain_slow us ports c)"
proof (induction us arbitrary: ports c)
  case Nil
  then show ?case by simp
next
  case (Cons u us)
  define d where "d = (complete u c)\<lparr>c_wb_slow := us\<rparr>"
  have "core d"
    using Cons.prems
    by (intro complete_core [of c u "mset (c_executing c) + mset (c_wb_fast c) + mset us" d
        "c_executing c" "c_wb_fast c" us]) (simp_all add: work_def d_def essence_def)
  then show ?case
    using Cons.IH [of d] Cons.prems by (auto simp: d_def [symmetric]) (simp_all add: d_def)
qed

lemma drain_frame [simp]:
  "hazard (snd (drain_fast us ports c)) = hazard c" "hazard (drain_slow us ports c) = hazard c"
  "c_wb_slow (snd (drain_fast us ports c)) = c_wb_slow c"
proof -
  have upd: "hazard (d\<lparr>c_wb_fast := x\<rparr>) = hazard d" "hazard (d\<lparr>c_wb_slow := x\<rparr>) = hazard d" for d x
    by (simp_all add: hazard_def)
  show "hazard (snd (drain_fast us ports c)) = hazard c" "hazard (drain_slow us ports c) = hazard c"
    "c_wb_slow (snd (drain_fast us ports c)) = c_wb_slow c"
    by (induction us arbitrary: ports c) (simp_all add: upd)
qed

lemma writeback_sound:
  assumes "sound c"
  shows "sound (writeback c)"
proof (rule sound_step [OF assms])
  show "hazard (writeback c) = hazard c"
    by (simp add: writeback_def Let_def split_beta) (simp add: hazard_def [of "_\<lparr>c_cdb_booked := _\<rparr>"] flip: hazard_def)
  show "core (writeback c)" if "core c"
  proof -
    have "core (drain_slow (c_wb_slow c) p (snd (drain_fast (c_wb_fast c) n c)))" for p n
      using that by (intro drain_slow_core drain_fast_core) simp_all
    then show ?thesis
      by (simp add: writeback_def Let_def split_beta core_defs)
  qed
qed

section \<open>Commit\<close>

text \<open>Retiring one instruction, as one update of what the invariant reads.\<close>

definition retire :: "Uop \<Rightarrow> Cpu \<Rightarrow> Cpu" where
  "retire u c = c\<lparr>c_commit_in_order := (c_commit_in_order c \<and>
       \<not> (0 < st_retired (c_stats c) \<and> u_seq u \<le> c_last_committed_seq c)),
     c_last_committed_seq := u_seq u,
     c_ckpts := (if d_is_branch (u_dec u) then cp_release (c_ckpts c) (u_ckpt u) else c_ckpts c),
     c_arch_rat := (if u_dest u \<noteq> INVALID_PHYSREG then (c_arch_rat c)[d_rd (u_dec u) := u_dest u] else c_arch_rat c),
     c_free_list := (if u_dest u \<noteq> INVALID_PHYSREG then fl_release (c_free_list c) (u_stale u) else c_free_list c),
     c_stats := (c_stats c)\<lparr>st_retired := st_retired (c_stats c) + 1\<rparr>\<rparr>"

lemma commit_effect_form:
  obtains m l x h where "snd (commit_effect u c) = c\<lparr>c_mem := m, c_lsq := l, c_exit_code := x, c_halted := h\<rparr>"
proof -
  have "\<exists>m l x h. snd (commit_effect u c) = c\<lparr>c_mem := m, c_lsq := l, c_exit_code := x, c_halted := h\<rparr>"
    (is "\<exists>m l x h. ?P m l x h")
  proof (intro exI)
    let ?d = "snd (commit_effect u c)"
    show "?P (c_mem ?d) (c_lsq ?d) (c_exit_code ?d) (c_halted ?d)"
      by (simp add: commit_effect_def commit_store_def Let_def split: Op.split)
  qed
  then show thesis using that by blast
qed

lemma commit_trap_form:
  obtains h t ob where "commit_trap cause u c = c\<lparr>c_trapped := h, c_trap_cause := t, c_obs := ob\<rparr>"
proof -
  let ?d = "commit_trap cause u c"
  have "?d = c\<lparr>c_trapped := c_trapped ?d, c_trap_cause := c_trap_cause ?d, c_obs := c_obs ?d\<rparr>"
    by (simp add: commit_trap_def event_def upd_obs_def)
  then show thesis by (rule that)
qed

lemma commit_branch_form:
  obtains b s where "commit_branch u c = c\<lparr>c_bpred := b,
      c_ckpts := (if d_is_branch (u_dec u) then cp_release (c_ckpts c) (u_ckpt u) else c_ckpts c), c_stats := s\<rparr>"
    "st_renamed s = st_renamed (c_stats c)" "st_retired s = st_retired (c_stats c)"
proof (cases "d_is_branch (u_dec u)")
  case True
  show thesis
    by (rule that [where b = "c_bpred (commit_branch u c)" and s = "c_stats (commit_branch u c)"])
      (simp_all add: commit_branch_def Let_def upd_stats_def True)
next
  case False
  show thesis
    by (rule that [where b = "c_bpred c" and s = "c_stats c"]) (simp_all add: commit_branch_def False)
qed

lemma commit_uop_essence:
  "essence (commit_uop u c) = essence (retire u c)" "hazard (commit_uop u c) = hazard c"
proof -
  define c1 where "c1 = commit_load u (commit_order u c)"
  obtain b s where b: "commit_branch u c1 = c1\<lparr>c_bpred := b,
      c_ckpts := (if d_is_branch (u_dec u) then cp_release (c_ckpts c1) (u_ckpt u) else c_ckpts c1), c_stats := s\<rparr>"
    "st_renamed s = st_renamed (c_stats c1)" "st_retired s = st_retired (c_stats c1)"
    by (rule commit_branch_form)
  define c2 where "c2 = commit_branch u c1"
  obtain m l x h where e: "snd (commit_effect u c2) = c2\<lparr>c_mem := m, c_lsq := l, c_exit_code := x, c_halted := h\<rparr>"
    by (rule commit_effect_form)
  define c3 where "c3 = commit_mapping u (snd (commit_effect u c2))"
  obtain h' t ob where t: "commit_trap (fst (commit_effect u c2)) u c3 = c3\<lparr>c_trapped := h', c_trap_cause := t, c_obs := ob\<rparr>"
    by (rule commit_trap_form)
  define c4 where "c4 = commit_trap (fst (commit_effect u c2)) u c3"
  have out: "commit_uop u c = upd_stats (\<lambda>s. s\<lparr>st_retired := st_retired s + 1\<rparr>)
      (c4\<lparr>c_arch_pc := (if cpu_done c4 then u_pc u else u_next_pc u)\<rparr>)"
    by (simp add: commit_uop_def Let_def split_beta c1_def c2_def c3_def c4_def)
  have c1: "essence c1 = essence (c\<lparr>c_commit_in_order := (c_commit_in_order c \<and>
       \<not> (0 < st_retired (c_stats c) \<and> u_seq u \<le> c_last_committed_seq c)), c_last_committed_seq := u_seq u\<rparr>)"
    "hazard c1 = hazard c"
    by (simp_all add: c1_def commit_load_def commit_order_def Let_def obs_defs essence_def work_def hazard_def)
  note eqs = essence_eqs [OF c1(1)]
  have c4: "c4 = c3\<lparr>c_trapped := h', c_trap_cause := t, c_obs := ob\<rparr>" using t by (simp add: c4_def)
  have c3: "c3 = commit_mapping u (c2\<lparr>c_mem := m, c_lsq := l, c_exit_code := x, c_halted := h\<rparr>)" by (simp add: c3_def e)
  show "essence (commit_uop u c) = essence (retire u c)"
    using eqs b(2,3)
    by (simp add: out c4 c3 commit_mapping_def c2_def b(1) essence_def retire_def) (simp add: work_def)
  show "hazard (commit_uop u c) = hazard c"
    using c1(2) b(2) by (simp add: out c4 c3 commit_mapping_def c2_def b(1) hazard_def)
qed

lemma retire_core:
  assumes c: "core c" and p: "rob_pop_head_if_complete (c_rob c) = Some (e, r')"
  defines "u \<equiv> c_inflight c ! rob_nth (c_rob c) 0"
  shows "core (retire u (c\<lparr>c_rob := r'\<rparr>))"
proof -
  let ?r = "c_rob c"
  have rs: "rob_state ?r (c_inflight c) (c_arch_rat c) (c_rat c) (c_free_list c) (c_ckpts c)"
    and os: "order_state ?r (st_renamed (c_stats c))" and ro: "retire_ok c"
    and w: "waiting ?r (c_rename_q c) (iq_entries (c_iq c)) (work c)"
    using c by (simp_all add: core_def mapped_def ordered_def waits_def)
  have ok: "rob_ok ?r" using rs by (simp add: rob_state_def)
  note l = rob_pop_list [OF ok p] and t = pop_tags [OF ok p]
  have u: "live ?r 0 u" using rs l(6) by (simp add: rob_state_def u_def)
  have seq: "u_seq u = re_seq e" "u_seq u \<in> set (seqs ?r)"
    using live_seqs [OF u] t(3) by simp_all
  have view: "entry_view e = uop_view u" using live_view [OF u] t(2) by simp
  have writes: "u_dest u \<noteq> INVALID_PHYSREG \<longrightarrow> d_writes_rd (u_dec u)" using u by (simp add: live_def)
  have "map_dest (entry_view e) (c_arch_rat c) =
      (if u_dest u \<noteq> INVALID_PHYSREG then (c_arch_rat c)[d_rd (u_dec u) := u_dest u] else c_arch_rat c)"
    "(if v_writes (entry_view e) then fl_release (c_free_list c) (v_stale (entry_view e)) else c_free_list c) =
      (if u_dest u \<noteq> INVALID_PHYSREG then fl_release (c_free_list c) (u_stale u) else c_free_list c)"
    "(if v_branch (entry_view e) then cp_release (c_ckpts c) (v_ckpt (entry_view e)) else c_ckpts c) =
      (if d_is_branch (u_dec u) then cp_release (c_ckpts c) (u_ckpt u) else c_ckpts c)"
    using writes by (simp_all add: view map_dest_def v_writes_def) (simp_all add: uop_view_def)
  note pool = pop_state [OF rs p, unfolded this]
  have last: "c_commit_in_order c" "0 < st_retired (c_stats c) \<longrightarrow> c_last_committed_seq c < u_seq u"
    "unat (u_seq u) < st_renamed (c_stats c)"
    using ro os seq(2) by (auto simp: retire_ok_def order_state_def)
  then have "retire_ok (retire u (c\<lparr>c_rob := r'\<rparr>))"
    using pop_waiting(3) [OF ok os p w] seq(1) by (auto simp: retire_ok_def retire_def)
  then show ?thesis
    using c pool pop_waiting(1,2) [OF ok os p w]
    by (simp add: core_def mapped_def ordered_def waits_def front_ok_def)
      (simp add: retire_def work_def cong: if_cong)
qed

text \<open>The squash at the end of a program.\<close>

lemma squash_in_flight_form:
  obtains c1 where "squash_in_flight c = c1\<lparr>c_rat := c_arch_rat c, c_lsq := lsq_clear (c_lsq c1), c_fetch_q := [],
      c_decode_q := [], c_rename_q := [], c_iq := iq_clear (c_iq c1), c_executing := [], c_wb_fast := [],
      c_wb_slow := [], c_cdb_booked := map (\<lambda>_. 0) (c_cdb_booked c1), c_fetch_stalled := False\<rparr>"
    "kill_rest c1 = kill_rest (c\<lparr>c_rob := (c_rob c)\<lparr>rob_count := 0\<rparr>\<rparr>)"
    "c_free_list c1 = release_dests (rev (views (c_rob c))) (c_free_list c)"
    "c_ckpts c1 = release_ckpts (rev (views (c_rob c))) (c_ckpts c)"
proof -
  define c0 where "c0 = fold kill_entry (rev (rob_list (c_rob c))) (c\<lparr>c_rob := (c_rob c)\<lparr>rob_count := 0\<rparr>\<rparr>)"
  define c1 where "c1 = (if 0 < length (rob_list (c_rob c)) then event (Ev_squashed (length (rob_list (c_rob c)))) c0 else c0)"
  have c0: "kill_rest c0 = kill_rest (c\<lparr>c_rob := (c_rob c)\<lparr>rob_count := 0\<rparr>\<rparr>)" by (simp add: c0_def)
  have c1: "kill_rest c1 = kill_rest c0" "c_free_list c1 = c_free_list c0" "c_ckpts c1 = c_ckpts c0"
    by (simp_all add: c1_def event_def kill_rest_def)
  have "c_arch_rat c1 = c_arch_rat c" using c1(1) c0 by (simp add: kill_rest_def)
  moreover have "squash_in_flight c = c1\<lparr>c_rat := c_arch_rat c1, c_lsq := lsq_clear (c_lsq c1), c_fetch_q := [],
      c_decode_q := [], c_rename_q := [], c_iq := iq_clear (c_iq c1), c_executing := [], c_wb_fast := [],
      c_wb_slow := [], c_cdb_booked := map (\<lambda>_. 0) (c_cdb_booked c1), c_fetch_stalled := False\<rparr>"
    by (simp add: squash_in_flight_def rob_squash_all_eq Let_def c0_def c1_def del: length_rob_list)
  moreover have "c_free_list c0 = release_dests (rev (views (c_rob c))) (c_free_list c)"
    "c_ckpts c0 = release_ckpts (rev (views (c_rob c))) (c_ckpts c)"
    by (simp_all add: c0_def views_def rev_map)
  ultimately show thesis using c0 c1 by (intro that [of c1]) simp_all
qed

lemma squash_in_flight_hazard [simp]: "hazard (squash_in_flight c) = hazard c"
  by (rule squash_in_flight_form [of c]) (simp add: hazard_def kill_rest_def)

lemma squash_in_flight_core:
  assumes "core c"
  shows "core (squash_in_flight c)"
proof (rule squash_in_flight_form [of c])
  let ?r = "(c_rob c)\<lparr>rob_count := 0\<rparr>"
  fix c1
  assume out: "squash_in_flight c = c1\<lparr>c_rat := c_arch_rat c, c_lsq := lsq_clear (c_lsq c1), c_fetch_q := [],
      c_decode_q := [], c_rename_q := [], c_iq := iq_clear (c_iq c1), c_executing := [], c_wb_fast := [],
      c_wb_slow := [], c_cdb_booked := map (\<lambda>_. 0) (c_cdb_booked c1), c_fetch_stalled := False\<rparr>"
    and rest: "kill_rest c1 = kill_rest (c\<lparr>c_rob := ?r\<rparr>)"
    and pools: "c_free_list c1 = release_dests (rev (views (c_rob c))) (c_free_list c)"
      "c_ckpts c1 = release_ckpts (rev (views (c_rob c))) (c_ckpts c)"
  have rs: "rob_state ?r (c_inflight c) (c_arch_rat c) (c_arch_rat c) (c_free_list c1) (c_ckpts c1)"
    unfolding pools
    by (rule rob_state_squash_all [where rat = "c_rat c"]) (use assms in \<open>simp add: core_def mapped_def\<close>)
  have os: "order_state ?r (st_renamed (c_stats c))"
    using order_state_take [of "c_rob c" _ 0] assms by (simp add: core_def ordered_def)
  have nil: "seqs ?r = []" by (simp add: seqs_def rob_list_def)
  show "core (squash_in_flight c)"
    using rs os assms rest [unfolded kill_rest_def]
    by (simp add: core_def mapped_def ordered_def waits_def front_ok_def retire_ok_def out nil
        iq_clear_def work_def waiting_squash_all)
qed

text \<open>One iteration of the commit loop: nothing, or the complete head retires.\<close>

lemma commit_one_cases:
  assumes "core c"
  obtains
    (stop) "rob_pop_head_if_complete (c_rob c) = None" "commit_one c = (c, False)"
  | (head) e r' d where "rob_pop_head_if_complete (c_rob c) = Some (e, r')"
      "d = commit_uop (c_inflight c ! rob_nth (c_rob c) 0) (c\<lparr>c_rob := r'\<rparr>)"
      "commit_one c = (if cpu_done d then (squash_in_flight d, False) else (d, True))"
proof (cases "rob_pop_head_if_complete (c_rob c)")
  case None
  then have "rob_empty (c_rob c) \<or> \<not> re_complete (rob_at (c_rob c) (rob_hd (c_rob c)))"
    by (auto simp: rob_pop_head_if_complete_def rob_at_def split: if_splits)
  with None show thesis
    by (intro stop) (auto simp: commit_one_def Let_def rob_head_def)
next
  case (Some p)
  then obtain e r' where p: "rob_pop_head_if_complete (c_rob c) = Some (e, r')" by (cases p) auto
  have ok: "rob_ok (c_rob c)" "rob_capacity (c_rob c) \<le> uint32_max"
    using assms by (simp_all add: core_def mapped_def rob_state_def)
  have ne: "\<not> rob_empty (c_rob c)" "re_complete (rob_at (c_rob c) (rob_hd (c_rob c)))"
    using p by (auto simp: rob_pop_head_if_complete_def rob_at_def split: if_splits)
  have "rob_head (c_rob c) = rob_hd (c_rob c)" "rob_nth (c_rob c) 0 = rob_hd (c_rob c)"
    "rob_hd (c_rob c) \<noteq> INVALID_ROBINDEX"
    using ne(1) ok by (auto simp: rob_head_def rob_nth_def rob_wrap_def rob_empty_def rob_ok_def INVALID_ROBINDEX_def)
  then show thesis
    using p ne(2) by (intro head [OF p refl]) (simp add: commit_one_def Let_def)
qed

lemma commit_one_core:
  assumes "core c"
  shows "core (fst (commit_one c))"
  using assms
proof (cases rule: commit_one_cases)
  case stop
  with assms show ?thesis by simp
next
  case (head e r' d)
  have "core d"
    using core_essence [OF commit_uop_essence(1)] retire_core [OF assms head(1)] by (simp add: head(2))
  then show ?thesis using squash_in_flight_core by (simp add: head(3))
qed

lemma commit_core: "core c \<Longrightarrow> core (commit c)"
  unfolding commit_def by (rule stage_loop_invariant) (rule commit_one_core)

lemma commit_hazard [simp]: "hazard (commit c) = hazard c"
proof -
  have "hazard (fst (commit_one c)) = hazard c" for c
    using commit_uop_essence(2)
    by (simp add: commit_one_def Let_def split: option.splits) (simp add: hazard_def)
  then show ?thesis unfolding commit_def by (rule stage_loop_frame)
qed

lemma commit_sound: "sound c \<Longrightarrow> sound (commit c)"
  by (erule sound_step) (simp_all add: commit_core)

section \<open>Reset and the cycle\<close>

lemma core_reset:
  assumes "config_ok cfg"
  shows "core (make_cpu mem cfg pc)"
proof -
  have rob: "views (make_rob (cfg_rob_size cfg)) = []" "seqs (make_rob (cfg_rob_size cfg)) = []"
    "open_seqs (make_rob (cfg_rob_size cfg)) = []" "rob_count (make_rob (cfg_rob_size cfg)) = 0"
    "rob_next_seq (make_rob (cfg_rob_size cfg)) = 0" "rob_capacity (make_rob (cfg_rob_size cfg)) = cfg_rob_size cfg"
    by (simp_all add: views_def seqs_def open_seqs_def make_rob_def rob_capacity_def rob_list_def)
  have "regs_inv [0..<32] (make_free_list (cfg_prf_size cfg)) []"
    "ckpts_inv [0..<32] (make_checkpoint_pool (cfg_num_checkpoints cfg)) []"
    using config_ok_sizes [OF assms] by (simp_all add: make_regs_inv make_ckpts_inv)
  moreover have "make_rat = [0..<32]" by (simp add: make_rat_def ARCH_REGS_def)
  ultimately show ?thesis
    using config_ok_sizes [OF assms] make_rob_ok [of "cfg_rob_size cfg"]
    by (simp add: core_def mapped_def ordered_def waits_def front_ok_def retire_ok_def make_cpu_def Let_def
        rob_state_def order_state_def waiting_def work_def rob zero_stats_def make_iq_def)
qed

lemma begin_cycle_essence [simp]:
  "essence (begin_cycle c) = essence c" "hazard (begin_cycle c) = hazard c"
  by (simp_all add: begin_cycle_def Let_def essence_def work_def hazard_def)

lemma tick_sound:
  assumes "sound c"
  shows "sound (tick c)"
proof -
  have "sound (begin_cycle c)" using assms sound_unchanged [of "begin_cycle c" c] by simp
  then have "sound (commit (begin_cycle c))" by (rule commit_sound)
  moreover have "sound (back_stages d)" if "sound d" for d
    unfolding back_stages_def
    by (intro front_sound rename_stage_sound dispatch_sound issue_sound execute_sound writeback_sound that)
  ultimately show ?thesis using assms by (simp add: tick_def Let_def)
qed

lemma reachable_sound:
  assumes "config_ok cfg" "reachable (make_cpu mem cfg pc) c"
  shows "sound c"
  by (rule reachable_invariant [OF assms(2)]) (use core_reset [OF assms(1)] tick_sound in \<open>auto simp: sound_def\<close>)

lemma reachable_core:
  assumes "config_ok cfg" "reachable (make_cpu mem cfg pc) c" "\<not> lost c"
  shows "core c"
  using reachable_sound [OF assms(1,2)] assms(3) by (simp add: sound_def)

end
