(* ===== verification/Precise.thy ===== *)
theory Precise
  imports Invariant
begin

text \<open>
  What the invariant of \<open>Invariant\<close> says of the machine as a programmer sees it: the
  committed registers change only at retirement, a squash gives the mapping back, a finished
  program leaves nothing in flight.
\<close>

section \<open>Register values\<close>

text \<open>Only writeback stores into the register file.\<close>

definition vals :: "Cpu \<Rightarrow> u32 list" where
  "vals c = prf_values (c_prf c)"

lemma vals_upd [simp]: "vals (upd_stats f c) = vals c" "vals (upd_obs g c) = vals c"
  by (simp_all add: vals_def)

lemma vals_record [simp]:
  "vals (c\<lparr>c_rob := r\<rparr>) = vals c" "vals (c\<lparr>c_inflight := i\<rparr>) = vals c" "vals (c\<lparr>c_iq := q\<rparr>) = vals c"
  "vals (c\<lparr>c_lsq := l\<rparr>) = vals c" "vals (c\<lparr>c_rat := m\<rparr>) = vals c" "vals (c\<lparr>c_bpred := b\<rparr>) = vals c"
  "vals (c\<lparr>c_free_list := f\<rparr>) = vals c" "vals (c\<lparr>c_ckpts := k\<rparr>) = vals c" "vals (c\<lparr>c_pc := p\<rparr>) = vals c"
  "vals (c\<lparr>c_fetch_q := fq\<rparr>) = vals c" "vals (c\<lparr>c_decode_q := dq\<rparr>) = vals c" "vals (c\<lparr>c_rename_q := rq\<rparr>) = vals c"
  "vals (c\<lparr>c_executing := ex\<rparr>) = vals c" "vals (c\<lparr>c_wb_fast := wq\<rparr>) = vals c" "vals (c\<lparr>c_wb_slow := ws\<rparr>) = vals c"
  "vals (c\<lparr>c_fu_free_at := fu\<rparr>) = vals c" "vals (c\<lparr>c_cdb_booked := cb\<rparr>) = vals c"
  "vals (c\<lparr>c_fetch_stalled := st\<rparr>) = vals c" "vals (c\<lparr>c_next_uid := nu\<rparr>) = vals c"
  "vals (c\<lparr>c_undefined := un\<rparr>) = vals c" "vals (c\<lparr>c_prf := prf_mark_pending (c_prf c) d\<rparr>) = vals c"
  by (simp_all add: vals_def)

lemma vals_front [simp]:
  "vals (fetch c) = vals c" "vals (decode_stage c) = vals c" "vals (rename_stage c) = vals c"
  "vals (dispatch c) = vals c"
proof -
  have "vals (fst (fetch_one c)) = vals c" for c
    by (simp add: fetch_one_def Let_def obs_defs split_beta)
  then show "vals (fetch c) = vals c" by (simp add: fetch_def stage_loop_frame)
  have "vals (fst (decode_one c)) = vals c" for c
    by (simp add: decode_one_def Let_def obs_defs split: list.splits)
  then show "vals (decode_stage c) = vals c" by (simp add: decode_stage_def stage_loop_frame)
  have "vals (snd (map_regs d u c)) = vals c" "vals (snd (take_checkpoint u c)) = vals c"
    "vals (snd (enter_rob u c)) = vals c" for d u c
    by (auto simp: map_regs_def take_checkpoint_def enter_rob_def Let_def split_beta vals_def split: option.splits)
  then have rename: "vals (rename_uop d u c) = vals c" for d u c
    by (simp add: rename_uop_def Let_def split_beta obs_defs)
  have "vals c' = vals c" if "take_dest n c = Some (d, c')" for n d c c'
    using that by (auto simp: take_dest_def split: if_splits option.splits)
  then have "vals (fst (rename_one c)) = vals c" for c
    by (auto simp: rename_one_def rename split: list.splits option.splits)
  then show "vals (rename_stage c) = vals c" by (simp add: rename_stage_def stage_loop_frame)
  have seat: "vals c' = vals c" if "take_seat u c = Inr (u', c')" for u c u' c'
    using that by (auto simp: take_seat_def split: if_splits option.splits)
  have "vals (fst (dispatch_one c)) = vals c" for c
    by (rule dispatch_one_cases [of c]) (simp_all add: Let_def seat)
  then show "vals (dispatch c) = vals c" by (simp add: dispatch_def stage_loop_frame)
qed

lemma vals_recover [simp]: "vals (recover br c) = vals c"
proof -
  have "vals (kill_entry e c) = vals c" for e c by (simp add: kill_entry_def Let_def obs_defs)
  then have "vals (fold kill_entry es c) = vals c" for es c by (induction es arbitrary: c) simp_all
  moreover have "vals (squash_queues s c) = vals c" for s c
    using squash_queues_eq [of s c] by auto
  moreover have "vals (restore_front_end br c) = vals c" for c
    by (simp add: restore_front_end_def Let_def split: option.splits)
  ultimately show ?thesis by (simp add: recover_def Let_def split_beta obs_defs)
qed

lemma vals_issue [simp]: "vals (issue c) = vals c" "vals (execute c) = vals c"
proof -
  have load: "vals (snd (execute_load u l c)) = vals c" for u l c
    by (simp add: execute_load_def Let_def obs_defs)
  have other: "vals c' = vals c" if "execute_other u l c = Some (u', c')" for u l c u' c'
    using that by (auto simp: execute_other_def reserve_cdb_def Let_def split: if_splits option.splits)
  have finish: "vals (is_cpu (finish_issue e f unit u lat c st)) = vals c" for e f unit u lat c st
    by (simp add: finish_issue_def Let_def obs_defs occupy_unit_def enqueue_result_def)
  have one: "vals (is_cpu (issue_one e st)) = vals (is_cpu st)" for e st
  proof (rule issue_one_cases [OF refl refl refl, of st e], goal_cases)
    case (2 unit c1)
    have "vals c1 = vals (is_cpu st)" using load 2(3) by (metis snd_conv)
    then show ?case by (simp add: 2(4) obs_defs occupy_unit_def)
  next
    case (3 unit u1 lat c1)
    have "vals c1 = vals (is_cpu st)" using load 3(3) by (metis snd_conv)
    then show ?case by (simp add: 3(4) finish)
  next
    case (5 unit u1 c1)
    then show ?case by (simp add: 5(4) finish other [OF 5(3)])
  qed simp_all
  have scan: "vals (is_cpu (issue_scan es st)) = vals (is_cpu st)" for es st
    by (induction es arbitrary: st) (simp_all add: one)
  have ch: "vals (snd (charge ss n c)) = vals c" for ss n c by (induction ss arbitrary: n c) simp_all
  have op: "vals (charge_operands n c) = vals c" for n c by (induction n arbitrary: c) simp_all
  show "vals (issue c) = vals c"
    by (simp add: issue_def Let_def split_beta scan ch op split: option.split)
  have "vals (execute_scan us still c) = vals c" for us still by (induction us arbitrary: still c) simp_all
  then show "vals (execute c) = vals c" by (simp add: execute_def)
qed

section \<open>Committed registers\<close>

lemma prf_read_write_other: "q \<noteq> r \<Longrightarrow> prf_read (prf_write p r v) q = prf_read p q"
  by (simp add: prf_read_def prf_write_def)

lemma prf_read_vals: "prf_read p q = (if q = 0 then 0 else prf_values p ! q)"
  by (simp add: prf_read_def)

lemma cpu_regs_vals: "vals c' = vals c \<Longrightarrow> c_arch_rat c' = c_arch_rat c \<Longrightarrow> cpu_regs c' = cpu_regs c"
  by (simp add: cpu_regs_def prf_read_vals vals_def)

text \<open>A destination in flight is not a committed register.\<close>

lemma committed_not_in_flight:
  assumes "core c" "u \<in># work c" "a < 32" "u_dest u \<noteq> INVALID_PHYSREG"
  shows "c_arch_rat c ! a = 0 \<or> c_arch_rat c ! a \<noteq> u_dest u"
proof -
  have inv: "regs_inv (c_arch_rat c) (c_free_list c) (views (c_rob c))"
    and "pending (c_rob c) u"
    using assms(1,2) by (simp_all add: core_defs rob_state_def waiting_def)
  then obtain k where k: "live (c_rob c) k u" by (auto simp: pending_def)
  then have "uop_view u \<in> set (views (c_rob c))"
    using live_view [OF k] nth_mem [of k "views (c_rob c)"] by (simp add: live_def)
  then have "u_dest u \<in> set (dests (views (c_rob c)))"
    using assms(4) by (force simp: dests_def v_writes_def uop_view_def)
  then have "u_dest u \<notin> set (tl (c_arch_rat c))" using regs_inv_members(6) [OF inv] by blast
  moreover have "c_arch_rat c ! a \<in> set (tl (c_arch_rat c))" if "a \<noteq> 0"
    using that assms(3) inv nth_mem [of "a - 1" "tl (c_arch_rat c)"] by (simp add: regs_inv_def nth_tl)
  moreover have "c_arch_rat c ! 0 = 0" using inv by (simp add: regs_inv_def)
  ultimately show ?thesis by (cases "a = 0") auto
qed

lemma complete_regs:
  assumes "core c" "u \<in># work c"
  shows "cpu_regs ((complete u c)\<lparr>c_executing := x, c_wb_fast := y, c_wb_slow := z\<rparr>) = cpu_regs c"
proof -
  have rat: "c_arch_rat (complete u c) = c_arch_rat c" by (simp add: complete_def Let_def obs_defs)
  have store: "c_prf (complete u c) = c_prf c \<or>
      u_dest u \<noteq> INVALID_PHYSREG \<and> c_prf (complete u c) = prf_write (c_prf c) (u_dest u) (u_result u)"
    by (simp add: complete_def Let_def obs_defs)
  have "prf_read (c_prf (complete u c)) (c_arch_rat c ! a) = prf_read (c_prf c) (c_arch_rat c ! a)" if "a < 32" for a
    using store committed_not_in_flight [OF assms that] by (auto simp: prf_read_vals prf_write_def)
  then show ?thesis by (simp add: cpu_regs_def rat)
qed

lemma drain_regs:
  "core c \<Longrightarrow> c_wb_fast c = us \<Longrightarrow> cpu_regs (snd (drain_fast us ports c)) = cpu_regs c"
  "core c \<Longrightarrow> c_wb_slow c = us \<Longrightarrow> cpu_regs (drain_slow us ports c) = cpu_regs c"
proof -
  have step: "core d" "cpu_regs d = cpu_regs c"
    if c: "core c" "work c = add_mset u (mset x + mset y + mset z)"
      and d: "d = (complete u c)\<lparr>c_executing := x, c_wb_fast := y, c_wb_slow := z\<rparr>" for c d u x y z
    using complete_core [OF c, where d = d and x = x and y = y and z = z]
      complete_regs [OF c(1), where u = u and x = x and y = y and z = z] c(2) by (simp_all add: d)
  have fast: "core ((complete u c)\<lparr>c_wb_fast := us\<rparr>)" "cpu_regs ((complete u c)\<lparr>c_wb_fast := us\<rparr>) = cpu_regs c"
    if "core c" "c_wb_fast c = u # us" for c u us
    using step [of c u "c_executing c" us "c_wb_slow c" "(complete u c)\<lparr>c_wb_fast := us\<rparr>"] that
    by (simp_all add: work_def)
  have slow: "core ((complete u c)\<lparr>c_wb_slow := us\<rparr>)" "cpu_regs ((complete u c)\<lparr>c_wb_slow := us\<rparr>) = cpu_regs c"
    if "core c" "c_wb_slow c = u # us" for c u us
    using step [of c u "c_executing c" "c_wb_fast c" us "(complete u c)\<lparr>c_wb_slow := us\<rparr>"] that
    by (simp_all add: work_def)
  show "core c \<Longrightarrow> c_wb_fast c = us \<Longrightarrow> cpu_regs (snd (drain_fast us ports c)) = cpu_regs c"
    by (induction us arbitrary: ports c) (simp_all add: fast)
  show "core c \<Longrightarrow> c_wb_slow c = us \<Longrightarrow> cpu_regs (drain_slow us ports c) = cpu_regs c"
    by (induction us arbitrary: ports c) (simp_all add: slow)
qed

lemma writeback_regs:
  assumes "core c"
  shows "cpu_regs (writeback c) = cpu_regs c"
proof -
  have "core (snd (drain_fast (c_wb_fast c) n c))" for n by (rule drain_fast_core [OF assms refl])
  moreover have "c_wb_slow (snd (drain_fast (c_wb_fast c) n c)) = c_wb_slow c" for n by simp
  ultimately show ?thesis
    using drain_regs(1) [OF assms refl] drain_regs(2)
    by (simp add: writeback_def Let_def split_beta cpu_regs_def [of "_\<lparr>c_cdb_booked := _\<rparr>"])
      (simp add: cpu_regs_def)
qed

lemma back_stages_regs:
  assumes "core c"
  shows "cpu_regs (back_stages c) = cpu_regs c"
proof -
  have "c_arch_rat (back_stages c) = c_arch_rat (writeback c)"
    using back_stages_frames(2) [of c] writeback_frames(2) [of c] by (simp add: committed_def)
  moreover have "vals (back_stages c) = vals (writeback c)" by (simp add: back_stages_def)
  ultimately show ?thesis using cpu_regs_vals writeback_regs [OF assms] by metis
qed

text \<open>What retiring the head does to the committed registers.\<close>

lemma commit_uop_regs:
  assumes c: "core c" and p: "rob_pop_head_if_complete (c_rob c) = Some (e, r')"
  defines "u \<equiv> c_inflight c ! rob_nth (c_rob c) 0"
  shows "cpu_regs (commit_uop u (c\<lparr>c_rob := r'\<rparr>)) =
    (if u_dest u \<noteq> INVALID_PHYSREG then (cpu_regs c)[d_rd (u_dec u) := prf_read (c_prf c) (u_dest u)]
     else cpu_regs c)"
proof -
  have "c_prf (snd (commit_effect u d)) = c_prf d" for d
    by (rule commit_effect_form [of u d]) simp
  then have "c_prf (commit_uop u d) = c_prf d" for d
    by (simp add: commit_uop_def commit_trap_def commit_mapping_def commit_branch_def commit_load_def
        commit_order_def Let_def split_beta obs_defs)
  moreover have "c_arch_rat (commit_uop u d) =
      (if u_dest u \<noteq> INVALID_PHYSREG then (c_arch_rat d)[d_rd (u_dec u) := u_dest u] else c_arch_rat d)" for d
    using essence_eqs(3) [OF commit_uop_essence(1)] by (simp add: retire_def)
  moreover have "length (c_arch_rat c) = 32" "rob_ok (c_rob c)"
    using c by (simp_all add: core_def mapped_def rob_state_def regs_inv_def)
  ultimately show ?thesis
    by (cases "d_rd (u_dec u) < 32") (auto simp: cpu_regs_def nth_list_update intro!: nth_equalityI)
qed

section \<open>The end of a program\<close>

definition drained :: "Cpu \<Rightarrow> bool" where
  "drained c \<longleftrightarrow> cpu_idle c \<and> c_rat c = c_arch_rat c"

lemma squash_in_flight_drained: "drained (squash_in_flight c)"
  by (rule squash_in_flight_form [of c])
    (simp add: drained_def cpu_idle_def iq_clear_def rob_empty_def lsq_clear_def lqq_clear_def kill_rest_def)

lemma squash_in_flight_regs [simp]: "cpu_regs (squash_in_flight c) = cpu_regs c"
proof -
  have "vals (kill_entry e c) = vals c" for e c by (simp add: kill_entry_def Let_def obs_defs)
  then have kill: "vals (fold kill_entry es c) = vals c" for es c by (induction es arbitrary: c) simp_all
  show ?thesis
    by (rule cpu_regs_vals)
      (simp_all add: squash_in_flight_def rob_squash_all_eq Let_def obs_defs kill kill_fold_eqs)
qed

lemma squash_in_flight_frame: "cpu_done (squash_in_flight c) = cpu_done c"
proof -
  have "cpu_done (kill_entry e c) = cpu_done c" for e c
    by (simp add: kill_entry_def Let_def obs_defs) (simp add: cpu_done_def)
  then have kill: "cpu_done (fold kill_entry es c) = cpu_done c" for es c by (induction es arbitrary: c) simp_all
  have "cpu_done (squash_in_flight c) = cpu_done (c\<lparr>c_rob := (c_rob c)\<lparr>rob_count := 0\<rparr>\<rparr>)"
    using kill [of _ "c\<lparr>c_rob := (c_rob c)\<lparr>rob_count := 0\<rparr>\<rparr>"]
    by (simp add: squash_in_flight_def rob_squash_all_eq Let_def obs_defs cpu_done_def)
  then show ?thesis by (simp add: cpu_done_def)
qed

lemma commit_uop_trap: "u_trap u \<noteq> Trap_NONE \<Longrightarrow> cpu_done (commit_uop u c)"
  by (simp add: commit_uop_def Let_def commit_effect_def commit_trap_def obs_defs) (simp add: cpu_done_def)

lemma commit_loop_drained:
  "\<not> cpu_done c \<Longrightarrow> cpu_done (stage_loop n commit_one c) \<Longrightarrow> drained (stage_loop n commit_one c)"
proof (induction n arbitrary: c)
  case 0
  then show ?case by simp
next
  case (Suc n)
  have "commit_one c = (c, False) \<or> (\<exists>d. commit_one c = (squash_in_flight d, False)) \<or>
      (\<exists>d. commit_one c = (d, True) \<and> \<not> cpu_done d)"
    by (auto simp: commit_one_def Let_def)
  with Suc squash_in_flight_drained show ?case by auto
qed

lemma tick_drained:
  assumes "cpu_done c \<longrightarrow> drained c" "cpu_done (tick c)"
  shows "drained (tick c)"
proof (cases "cpu_done c")
  case True
  with assms show ?thesis by (simp add: tick_def)
next
  case False
  then have "\<not> cpu_done (begin_cycle c)" by (simp add: begin_cycle_def Let_def)(simp add: cpu_done_def)
  moreover have "cpu_done (back_stages d) = cpu_done d" for d
    using back_stages_frames(2) [of d] by (simp add: committed_def cpu_done_def)
  ultimately show ?thesis
    using assms(2) False commit_loop_drained [of "begin_cycle c"]
    by (auto simp: tick_def Let_def commit_def split: if_splits)
qed

text \<open>The entry at the head names the destination of its uop.\<close>

lemma head_entry:
  assumes c: "core c" and p: "rob_pop_head_if_complete (c_rob c) = Some (e, r')"
  defines "u \<equiv> c_inflight c ! rob_nth (c_rob c) 0"
  shows "re_dest_phys e = u_dest u" and "u_dest u \<noteq> INVALID_PHYSREG \<Longrightarrow> re_dest_arch e = d_rd (u_dec u)"
proof -
  have rs: "rob_state (c_rob c) (c_inflight c) (c_arch_rat c) (c_rat c) (c_free_list c) (c_ckpts c)"
    using c by (simp add: core_def mapped_def)
  then have ok: "rob_ok (c_rob c)" by (simp add: rob_state_def)
  have u: "live (c_rob c) 0 u" using rs rob_pop_list(6) [OF ok p] by (simp add: rob_state_def u_def)
  have "entry_view e = uop_view u" using live_view [OF u] pop_tags(2) [OF ok p] by simp
  moreover have "u_dest u \<noteq> INVALID_PHYSREG \<longrightarrow> d_writes_rd (u_dec u)" using u by (simp add: live_def)
  ultimately show "re_dest_phys e = u_dest u" "u_dest u \<noteq> INVALID_PHYSREG \<Longrightarrow> re_dest_arch e = d_rd (u_dec u)"
    by (auto simp: entry_view_def uop_view_def)
qed

section \<open>Properties\<close>

text \<open>C7: Physical registers and checkpoints are conserved: in every reachable state each register
  above p0 is in exactly one place, once: on the free list, held as the destination of an
  instruction in flight, or a committed mapping; p0 maps x0; and each checkpoint is free or held by
  exactly one branch in flight.\<close>

theorem registers_conserved:
  assumes "config_ok cfg" "reachable (make_cpu mem cfg pc) c"
    "\<not> c_undefined c" "st_renamed (c_stats c) < 2 ^ 32"
  shows "mset (fl_free (c_free_list c)) +
       mset (filter (\<lambda>p. p \<noteq> INVALID_PHYSREG) (map re_dest_phys (rob_list (c_rob c)))) +
       mset (tl (c_arch_rat c)) = mset [1..<fl_capacity (c_free_list c)] \<and>
     length (c_arch_rat c) = 32 \<and> c_arch_rat c ! 0 = 0 \<and>
     mset (cp_free (c_ckpts c)) + mset (map re_ckpt (filter re_is_branch (rob_list (c_rob c)))) =
       mset [0..<cp_capacity (c_ckpts c)]"
proof -
  have "core c" using reachable_core [OF assms(1,2)] assms(3,4) by (simp add: lost_def)
  then have "regs_inv (c_arch_rat c) (c_free_list c) (views (c_rob c))"
    "ckpts_inv (c_arch_rat c) (c_ckpts c) (views (c_rob c))"
    by (simp_all add: core_def mapped_def rob_state_def)
  then show ?thesis
    by (simp add: regs_inv_def ckpts_inv_def dests_def held_ckpts_def views_def v_writes_def entry_view_def
        filter_map comp_def)
qed

theorem registers_conserved_witness:
  "mset (fl_free (c_free_list (make_cpu empty_memory default_config 0))) +
     mset (tl (c_arch_rat (make_cpu empty_memory default_config 0))) = mset [1..<64]"
  using registers_conserved [OF default_config_ok reach_start, of empty_memory 0]
  by (simp add: make_cpu_def Let_def zero_stats_def make_free_list_def default_config_def)

definition entry_map :: "RobEntry \<Rightarrow> PhysReg list \<Rightarrow> PhysReg list" where
  "entry_map e m = (if re_dest_phys e \<noteq> INVALID_PHYSREG then m[re_dest_arch e := re_dest_phys e] else m)"

lemma map_after_entries: "map_after m (map entry_view es) = fold entry_map es m"
  by (induction es arbitrary: m) (simp_all add: entry_map_def map_dest_def v_writes_def entry_view_def)

text \<open>C11: The rename map is the committed map with the instructions in flight applied in program
  order, and each of them remembers the mapping it displaced: the speculative state is a
  function of the committed state and the reorder buffer.\<close>

theorem rename_map_follows_program_order:
  assumes "config_ok cfg" "reachable (make_cpu mem cfg pc) c"
    "\<not> c_undefined c" "st_renamed (c_stats c) < 2 ^ 32"
  shows "c_rat c = fold entry_map (rob_list (c_rob c)) (c_arch_rat c) \<and>
    (\<forall>k < rob_count (c_rob c). re_dest_phys (rob_list (c_rob c) ! k) \<noteq> INVALID_PHYSREG \<longrightarrow>
       re_stale_phys (rob_list (c_rob c) ! k) =
         fold entry_map (take k (rob_list (c_rob c))) (c_arch_rat c) ! re_dest_arch (rob_list (c_rob c) ! k))"
proof -
  have "core c" using reachable_core [OF assms(1,2)] assms(3,4) by (simp add: lost_def)
  then have inv: "displaced (c_arch_rat c) (map entry_view (rob_list (c_rob c)))"
    "c_rat c = map_after (c_arch_rat c) (map entry_view (rob_list (c_rob c)))"
    by (simp_all add: core_def mapped_def rob_state_def regs_inv_def views_def)
  have "re_stale_phys (es ! k) = fold entry_map (take k es) m ! re_dest_arch (es ! k)"
    if "displaced m (map entry_view es)" "k < length es" "re_dest_phys (es ! k) \<noteq> INVALID_PHYSREG" for m es k
  proof -
    have "es = take k es @ es ! k # drop (Suc k) es" using that(2) by (rule id_take_nth_drop)
    then have "displaced m (map entry_view (take k es) @ entry_view (es ! k) # map entry_view (drop (Suc k) es))"
      using that(1) by (metis list.simps(9) map_append)
    then show ?thesis using that(3) by (simp add: map_after_entries v_writes_def entry_view_def)
  qed
  with inv show ?thesis by (simp add: map_after_entries)
qed

theorem rename_map_follows_program_order_witness:
  "c_rat (make_cpu empty_memory default_config 0) = [0..<32]"
  using rename_map_follows_program_order [OF default_config_ok reach_start, of empty_memory 0]
  by (simp add: make_cpu_def Let_def zero_stats_def)

text \<open>C10: Every unfinished instruction in the reorder buffer waits in exactly one place, the rename
  queue, the issue queue or the issued work (executing or waiting for a writeback port), and
  nothing else waits there: no instruction is lost, duplicated or left behind by a squash.\<close>

theorem unfinished_instructions_wait_once:
  assumes "config_ok cfg" "reachable (make_cpu mem cfg pc) c"
    "\<not> c_undefined c" "st_renamed (c_stats c) < 2 ^ 32"
  shows "mset (map u_seq (c_rename_q c) @ map iq_seq (iq_entries (c_iq c)) @
      map u_seq (c_executing c @ c_wb_fast c @ c_wb_slow c)) =
    mset (map re_seq (filter (\<lambda>e. \<not> re_complete e) (rob_list (c_rob c))))"
proof -
  have "core c" using reachable_core [OF assms(1,2)] assms(3,4) by (simp add: lost_def)
  then show ?thesis by (simp add: core_def waits_def waiting_def work_def open_seqs_def ac_simps)
qed

theorem unfinished_instructions_wait_once_witness:
  "mset (map re_seq (filter (\<lambda>e. \<not> re_complete e) (rob_list (c_rob (make_cpu empty_memory default_config 0))))) = {#}"
  using unfinished_instructions_wait_once [OF default_config_ok reach_start, of empty_memory 0]
  by (simp add: make_cpu_def Let_def zero_stats_def make_iq_def)

text \<open>C12: Instructions commit in program order: in every reachable state the order flag has stayed
  true, the reorder buffer is strictly ordered by sequence number, and everything in it is
  younger than the last instruction committed.\<close>

theorem commits_in_program_order:
  assumes "config_ok cfg" "reachable (make_cpu mem cfg pc) c"
    "\<not> c_undefined c" "st_renamed (c_stats c) < 2 ^ 32"
  shows "c_commit_in_order c \<and> sorted_wrt (<) (map re_seq (rob_list (c_rob c))) \<and>
    (0 < st_retired (c_stats c) \<longrightarrow>
      (\<forall>e \<in> set (rob_list (c_rob c)). c_last_committed_seq c < re_seq e))"
proof -
  have "core c" using reachable_core [OF assms(1,2)] assms(3,4) by (simp add: lost_def)
  then show ?thesis by (auto simp: core_def ordered_def order_state_def retire_ok_def seqs_def)
qed

theorem commits_in_program_order_witness:
  "c_commit_in_order (make_cpu empty_memory default_config 0) \<and> st_retired (c_stats (make_cpu empty_memory default_config 0)) = 0"
  using commits_in_program_order [OF default_config_ok reach_start, of empty_memory 0]
  by (simp add: make_cpu_def Let_def zero_stats_def)

text \<open>C8: Architectural registers are precise: in a cycle only commit changes them, and retiring
  the complete head of the reorder buffer writes exactly its destination register, with the value
  of its physical register; speculative results never show.\<close>

theorem architectural_registers_are_precise:
  assumes "config_ok cfg" "reachable (make_cpu mem cfg pc) c"
    "\<not> c_undefined c" "st_renamed (c_stats c) < 2 ^ 32"
  shows "(\<not> cpu_done c \<longrightarrow> cpu_regs (tick c) = cpu_regs (commit (begin_cycle c))) \<and>
    cpu_regs (fst (commit_one c)) =
      (case rob_pop_head_if_complete (c_rob c) of
         None \<Rightarrow> cpu_regs c
       | Some (e, _) \<Rightarrow>
           if re_dest_phys e = INVALID_PHYSREG then cpu_regs c
           else (cpu_regs c)[re_dest_arch e := prf_read (c_prf c) (re_dest_phys e)])"
proof (intro conjI impI)
  have core: "core c" and "\<not> lost c"
    using reachable_core [OF assms(1,2)] assms(3,4) by (simp_all add: lost_def)
  have commit: "core (commit (begin_cycle c))"
    using commit_core core core_essence [OF begin_cycle_essence(1)] by simp
  show "cpu_regs (tick c) = cpu_regs (commit (begin_cycle c))" if "\<not> cpu_done c"
    using that back_stages_regs [OF commit] by (simp add: tick_def Let_def)
  from core show "cpu_regs (fst (commit_one c)) =
      (case rob_pop_head_if_complete (c_rob c) of
         None \<Rightarrow> cpu_regs c
       | Some (e, _) \<Rightarrow>
           if re_dest_phys e = INVALID_PHYSREG then cpu_regs c
           else (cpu_regs c)[re_dest_arch e := prf_read (c_prf c) (re_dest_phys e)])"
  proof (cases rule: commit_one_cases)
    case stop
    then show ?thesis by simp
  next
    case (head e r' d)
    then show ?thesis
      using commit_uop_regs [OF core head(1)] head_entry [OF core head(1)] by simp
  qed
qed

theorem architectural_registers_are_precise_witness:
  "cpu_regs (tick (make_cpu empty_memory default_config 0)) = cpu_regs (commit (begin_cycle (make_cpu empty_memory default_config 0)))"
proof -
  have "\<not> c_undefined (make_cpu empty_memory default_config 0)" "st_renamed (c_stats (make_cpu empty_memory default_config 0)) < 2 ^ 32"
    "\<not> cpu_done (make_cpu empty_memory default_config 0)"
    by (simp_all add: make_cpu_def Let_def zero_stats_def cpu_done_def)
  then show ?thesis
    using architectural_registers_are_precise [OF default_config_ok reach_start, of empty_memory 0] by blast
qed

text \<open>C13: A finished program leaves nothing behind: when a machine that was running has halted or
  trapped, every queue, the reorder buffer and both memory queues are empty and the rename map
  is the committed one, so the registers read out are the architectural ones.\<close>

theorem finished_machine_is_drained:
  assumes "reachable c0 c" "\<not> cpu_done c0" "cpu_done c"
  shows "cpu_idle c \<and> c_rat c = c_arch_rat c"
proof -
  have "cpu_done c \<longrightarrow> drained c"
    by (rule reachable_invariant [OF assms(1)]) (use assms(2) tick_drained in auto)
  with assms(3) show ?thesis by (simp add: drained_def)
qed

text \<open>A machine whose oldest instruction is illegal and complete.\<close>

definition about_to_trap :: Cpu where
  "about_to_trap = (make_cpu empty_memory default_config 0)
     \<lparr>c_rob := snd (rob_allocate (default_rob_entry\<lparr>re_complete := True\<rparr>) (make_rob 32)),
      c_inflight := replicate 32 (default_uop\<lparr>u_trap := Trap_ILLEGAL\<rparr>)\<rparr>"

theorem finished_machine_is_drained_witness: "cpu_idle (tick about_to_trap)"
proof -
  define b where "b = begin_cycle about_to_trap"
  have running: "\<not> cpu_done about_to_trap" by (simp add: about_to_trap_def make_cpu_def Let_def cpu_done_def)
  have b: "rob_head (c_rob b) = 0" "re_complete (rob_at (c_rob b) 0)" "u_trap (c_inflight b ! 0) = Trap_ILLEGAL"
    "cfg_width (c_cfg b) = Suc (Suc 0)"
    by (simp_all add: b_def about_to_trap_def begin_cycle_def make_cpu_def Let_def rob_allocate_def make_rob_def
        rob_head_def rob_empty_def rob_at_def rob_tail_def rob_wrap_def rob_capacity_def default_config_def)
  then have "\<exists>d. commit_one b = (squash_in_flight d, False) \<and> cpu_done (squash_in_flight d)"
    using commit_uop_trap [of "c_inflight b ! 0"] squash_in_flight_frame
    by (auto simp: commit_one_def Let_def INVALID_ROBINDEX_def uint32_max_def)
  then have "cpu_done (tick about_to_trap)"
    using b(4) by (auto simp: tick_def commit_def Let_def simp flip: b_def)
  with running show ?thesis using finished_machine_is_drained [OF reach_tick [OF reach_start]] by blast
qed

text \<open>C9: Recovery is exact: when a mispredicted branch that is executing recovers, the reorder
  buffer keeps exactly the entries up to the branch, the rename map becomes the mapping after the
  branch, the queues keep exactly the instructions that are not younger, the front end is
  empty and refetches at the branch's real target, and the machine's invariant holds again.\<close>

theorem recovery_is_exact:
  assumes "core c" "br \<in># work c" "d_is_branch (u_dec br)"
  shows "\<exists>k < rob_count (c_rob c). u_rob br = rob_nth (c_rob c) k \<and>
    rob_list (c_rob (recover br c)) = take (Suc k) (rob_list (c_rob c)) \<and>
    c_rat (recover br c) = fold entry_map (take (Suc k) (rob_list (c_rob c))) (c_arch_rat c) \<and>
    iq_entries (c_iq (recover br c)) = filter (\<lambda>e. iq_seq e \<le> u_seq br) (iq_entries (c_iq c)) \<and>
    work (recover br c) = {#u \<in># work c. u_seq u \<le> u_seq br#} \<and>
    c_fetch_q (recover br c) = [] \<and> c_decode_q (recover br c) = [] \<and> c_rename_q (recover br c) = [] \<and>
    c_pc (recover br c) = u_next_pc br \<and> core (recover br c)"
proof -
  have ok: "rob_ok (c_rob c)" using assms(1) by (simp add: core_def mapped_def rob_state_def)
  have "pending (c_rob c) br" using assms(1,2) by (simp add: core_def waits_def waiting_def)
  then obtain k where k: "live (c_rob c) k br" unfolding pending_def ..
  then have kc: "k < rob_count (c_rob c)" "u_rob br = rob_nth (c_rob c) k" by (simp_all add: live_def)
  note f = recover_fields [OF ok kc] and r = recover_core [OF assms]
  have list: "rob_list (c_rob (recover br c)) = take (Suc k) (rob_list (c_rob c))"
    using f(1) truncate_tags(1) [OF ok kc(1)] by simp
  have "c_rat (recover br c) = map_after (c_arch_rat (recover br c)) (views (c_rob (recover br c)))"
    using r(1) by (simp add: core_def mapped_def rob_state_def)
  then have "c_rat (recover br c) = fold entry_map (take (Suc k) (rob_list (c_rob c))) (c_arch_rat c)"
    using f(7) list by (simp add: views_def map_after_entries)
  moreover have "c_pc (recover br c) = u_next_pc br"
    by (simp add: recover_def Let_def split_beta obs_defs)
  ultimately show ?thesis
    using kc list f(4,5,8,9,10) r(1) by (intro exI [of _ k]) (simp add: work_def)
qed

text \<open>A machine that has just issued its first instruction, a branch.\<close>

definition branch_in_flight :: Cpu where
  "branch_in_flight =
     (let c = rename_uop INVALID_PHYSREG (default_uop\<lparr>u_dec := decode 0x00000063\<rparr>)
                (make_cpu empty_memory default_config 0)
      in c\<lparr>c_rename_q := [], c_executing := c_rename_q c\<rparr>)"

lemma rename_uop_queue:
  "\<exists>u'. c_rename_q (rename_uop d u c) = c_rename_q c @ [u'] \<and> u_dec u' = u_dec u"
  by (auto simp: rename_uop_def map_regs_def take_checkpoint_def enter_rob_def Let_def split_beta obs_defs
      split: option.split)

lemma rename_uop_work: "work (rename_uop d u c) = work c" "iq_entries (c_iq (rename_uop d u c)) = iq_entries (c_iq c)"
  by (simp_all add: rename_uop_def map_regs_def take_checkpoint_def enter_rob_def Let_def split_beta obs_defs
      work_def split: option.split)

lemma branch_in_flight_core:
  "core branch_in_flight" "\<exists>br. c_executing branch_in_flight = [br] \<and> d_is_branch (u_dec br)"
proof -
  let ?c = "make_cpu empty_memory default_config 0" and ?u = "default_uop\<lparr>u_dec := decode 0x00000063\<rparr>"
  define c where "c = rename_uop INVALID_PHYSREG ?u ?c"
  have c0: "core ?c" "\<not> lost ?c" by (rule core_reset [OF default_config_ok])
      (simp add: lost_def make_cpu_def Let_def zero_stats_def)
  have u: "fresh ?u" "wf_decoded (u_dec ?u)" by (simp_all add: fresh_def default_uop_def wf_decode)
  have d: "d_is_branch (decode 0x00000063)" "\<not> d_writes_rd (decode 0x00000063)"
    by code_simp+
  have room: "\<not> rob_full (c_rob ?c)" "cp_free (c_ckpts ?c) \<noteq> []" "c_rename_q ?c = []" "work ?c = {#}"
    "iq_entries (c_iq ?c) = []"
    by (simp_all add: make_cpu_def Let_def default_config_def make_rob_def rob_full_def rob_capacity_def
        make_checkpoint_pool_def work_def make_iq_def)
  have "core c"
    unfolding c_def
    by (rule rename_uop_core(1) [OF c0 u room(1)]) (simp_all add: room(2) take_dest_def d(2))
  obtain br where br: "c_rename_q c = [br]" "u_dec br = decode 0x00000063"
    using rename_uop_queue [of INVALID_PHYSREG ?u ?c] room(3) by (auto simp: c_def)
  have rest: "work c = {#}" "iq_entries (c_iq c) = []" using rename_uop_work room(4,5) by (simp_all add: c_def)
  then have nil: "c_executing c = []" "c_wb_fast c = []" "c_wb_slow c = []" by (simp_all add: work_def)
  have out: "branch_in_flight = c\<lparr>c_rename_q := [], c_executing := [br]\<rparr>"
    by (simp add: branch_in_flight_def Let_def br(1) flip: c_def)
  show "core branch_in_flight"
    using \<open>core c\<close> rest nil br(1)
    by (simp add: core_def mapped_def ordered_def waits_def front_ok_def retire_ok_def work_def waiting_def out)
  show "\<exists>br. c_executing branch_in_flight = [br] \<and> d_is_branch (u_dec br)" 
    by (intro exI [of _ br]) (simp add: out br(2) d(1))
qed

theorem recovery_is_exact_witness:
  "core (recover (hd (c_executing branch_in_flight)) branch_in_flight) \<and>
   c_rename_q (recover (hd (c_executing branch_in_flight)) branch_in_flight) = []"
proof -
  obtain br where br: "c_executing branch_in_flight = [br]" "d_is_branch (u_dec br)"
    using branch_in_flight_core(2) by blast
  then have "br \<in># work branch_in_flight" by (simp add: work_def)
  then show ?thesis using recovery_is_exact [OF branch_in_flight_core(1) _ br(2)] br(1) by auto
qed

end
