(* ===== verification/Flow.thy ===== *)
theory Flow
  imports Seats Precise
begin

text \<open>
  The data-flow invariant. With \<open>n\<close> instructions retired, the machine's committed state is state
  \<open>n\<close> of the reference run, and the \<open>k\<close>-th instruction in flight, as long as it and everything
  older follow the run, computes what the reference computes in state \<open>n + k\<close>. Wrong-path
  instructions are constrained only in shape.
\<close>

section \<open>The instructions in flight\<close>

definition uops :: "Rob \<Rightarrow> Uop list \<Rightarrow> Uop list" where
  "uops r infl = map (\<lambda>k. infl ! rob_nth r k) [0..<rob_count r]"

definition in_flight :: "Cpu \<Rightarrow> Uop list" where
  "in_flight c = uops (c_rob c) (c_inflight c)"

text \<open>Those past dispatch, and the whole stream with the front end's queues.\<close>

definition dispatched :: "Cpu \<Rightarrow> Uop list" where
  "dispatched c = take (length (in_flight c) - length (c_rename_q c)) (in_flight c)"

definition stream :: "Cpu \<Rightarrow> Uop list" where
  "stream c = in_flight c @ c_decode_q c @ c_fetch_q c"

text \<open>Sequence numbers of what has not issued, and of what has not completed.\<close>

definition idle :: "Cpu \<Rightarrow> SeqNum set" where
  "idle c = u_seq ` set (c_rename_q c) \<union> iq_seq ` set (iq_entries (c_iq c))"

definition unfinished :: "Cpu \<Rightarrow> SeqNum set" where
  "unfinished c = set (open_seqs (c_rob c))"

lemma length_uops [simp]: "length (uops r infl) = rob_count r"
  by (simp add: uops_def)

lemma uops_nth [simp]: "k < rob_count r \<Longrightarrow> uops r infl ! k = infl ! rob_nth r k"
  by (simp add: uops_def)

lemma uops_tags:
  assumes "rob_state r infl arch rat fl cp"
  shows "map u_seq (uops r infl) = seqs r" "map uop_view (uops r infl) = views r"
    "k < rob_count r \<Longrightarrow> live r k (uops r infl ! k)"
proof -
  have l: "live r k (uops r infl ! k)" if "k < rob_count r" for k
    using assms that by (simp add: rob_state_def)
  then show "k < rob_count r \<Longrightarrow> live r k (uops r infl ! k)" .
  show "map u_seq (uops r infl) = seqs r" "map uop_view (uops r infl) = views r"
    by (rule nth_equalityI; use l live_seqs live_view in force)+
qed

lemma in_flight_core:
  assumes "core c"
  shows "map u_seq (in_flight c) = seqs (c_rob c)" "map uop_view (in_flight c) = views (c_rob c)"
    "length (in_flight c) = rob_count (c_rob c)"
    "k < length (in_flight c) \<Longrightarrow> live (c_rob c) k (in_flight c ! k)"
    "program_ordered u_seq (in_flight c)" "distinct (map u_seq (in_flight c))"
    "u \<in> set (in_flight c) \<Longrightarrow> wf_decoded (u_dec u)"
proof -
  have rs: "rob_state (c_rob c) (c_inflight c) (c_arch_rat c) (c_rat c) (c_free_list c) (c_ckpts c)"
    and os: "order_state (c_rob c) (st_renamed (c_stats c))"
    using assms by (simp_all add: core_def mapped_def ordered_def)
  note t = uops_tags [OF rs]
  show s: "map u_seq (in_flight c) = seqs (c_rob c)" "map uop_view (in_flight c) = views (c_rob c)"
    "length (in_flight c) = rob_count (c_rob c)" by (simp_all add: in_flight_def t)
  show l: "live (c_rob c) k (in_flight c ! k)" if "k < length (in_flight c)" for k
    using that t(3) by (simp add: in_flight_def)
  show "program_ordered u_seq (in_flight c)" "distinct (map u_seq (in_flight c))"
    using os order_distinct [OF os] by (simp_all add: program_ordered_sorted s order_state_def)
  show "u \<in> set (in_flight c) \<Longrightarrow> wf_decoded (u_dec u)"
    using l by (auto simp: in_set_conv_nth live_def)
qed

section \<open>The parts of the invariant\<close>

text \<open>Payloads are where the queues say they are.\<close>

definition payloads :: "Cpu \<Rightarrow> bool" where
  "payloads c \<longleftrightarrow> in_flight c = dispatched c @ c_rename_q c \<and> (\<forall>u \<in># work c. u \<in> set (in_flight c))"

text \<open>A uop before and after issue.\<close>

definition untouched :: "Uop \<Rightarrow> bool" where
  "untouched u \<longleftrightarrow> u_next_pc u = u_pc u + 4 \<and> \<not> u_has_result u"

definition shaped :: "SeqNum set \<Rightarrow> Uop \<Rightarrow> bool" where
  "shaped I u \<longleftrightarrow> decoded_uop u \<and> (d_writes_rd (u_dec u) \<longrightarrow> u_dest u \<noteq> INVALID_PHYSREG) \<and>
     (if u_seq u \<in> I then untouched u
      else (d_writes_rd (u_dec u) \<longrightarrow> u_has_result u) \<and> (\<not> d_is_branch (u_dec u) \<longrightarrow> u_next_pc u = u_pc u + 4))"

definition front_shaped :: "Cpu \<Rightarrow> bool" where
  "front_shaped c \<longleftrightarrow> (\<forall>u \<in> set (c_decode_q c). decoded_uop u \<and> untouched u) \<and>
     (\<forall>u \<in> set (c_fetch_q c). u_trap u = Trap_NONE \<and> \<not> u_has_result u)"

text \<open>Operands are named by the mapping at the uop's place.\<close>

definition sources :: "PhysReg list \<Rightarrow> Uop list \<Rightarrow> bool" where
  "sources arch us \<longleftrightarrow> (\<forall>k < length us.
     u_src1 (us ! k) = map_after arch (map uop_view (take k us)) ! d_rs1 (u_dec (us ! k)) \<and>
     u_src2 (us ! k) = map_after arch (map uop_view (take k us)) ! d_rs2 (u_dec (us ! k)))"

text \<open>Ready bits: an entry of the issue queue is ready only on ready registers, and the
  destination of an unfinished uop is not ready.\<close>

definition woken :: "Prf \<Rightarrow> Uop list \<Rightarrow> IqEntry list \<Rightarrow> bool" where
  "woken p us ents \<longleftrightarrow> (\<forall>e \<in> set ents.
     (iq_src1_ready e \<longrightarrow> prf_is_ready p (iq_src1 e)) \<and> (iq_src2_ready e \<longrightarrow> prf_is_ready p (iq_src2 e)) \<and>
     (\<exists>u \<in> set us. u_seq u = iq_seq e \<and> u_src1 u = iq_src1 e \<and> u_src2 u = iq_src2 e))"

definition dests_pending :: "SeqNum set \<Rightarrow> Uop list \<Rightarrow> Prf \<Rightarrow> bool" where
  "dests_pending U us p \<longleftrightarrow>
     (\<forall>u \<in> set us. u_dest u \<noteq> INVALID_PHYSREG \<and> u_seq u \<in> U \<longrightarrow> \<not> prf_is_ready p (u_dest u))"

definition prf_sized :: "Prf \<Rightarrow> FreeList \<Rightarrow> bool" where
  "prf_sized p fl \<longleftrightarrow> length (prf_values p) = fl_capacity fl \<and> length (prf_ready p) = fl_capacity fl"

text \<open>The \<open>k\<close>-th uop and all older ones are on the reference's path.\<close>

definition right :: "(nat \<Rightarrow> Memory \<times> Result) \<Rightarrow> nat \<Rightarrow> Uop list \<Rightarrow> nat \<Rightarrow> bool" where
  "right G n us k \<longleftrightarrow> (\<forall>j \<le> k. on_path (G (n + j)) (us ! j))"

text \<open>Only a branch is predicted to go anywhere but on.\<close>

definition straight :: "Uop \<Rightarrow> bool" where
  "straight u \<longleftrightarrow> predicted_pc u = u_pc u + 4 \<or> d_is_branch (decode (u_raw u))"

definition fetch_ok :: "(nat \<Rightarrow> Memory \<times> Result) \<Rightarrow> nat \<Rightarrow> Uop list \<Rightarrow> bool" where
  "fetch_ok G n us \<longleftrightarrow> (\<forall>k < length us. (right G n us k \<longrightarrow> fetched (G (n + k)) (us ! k)) \<and> straight (us ! k))"

definition data_ok :: "(nat \<Rightarrow> Memory \<times> Result) \<Rightarrow> nat \<Rightarrow> SeqNum set \<Rightarrow> SeqNum set \<Rightarrow> Uop list \<Rightarrow> Prf \<Rightarrow> bool" where
  "data_ok G n I U us p \<longleftrightarrow> (\<forall>k < length us. right G n us k \<longrightarrow>
     (u_seq (us ! k) \<notin> I \<longrightarrow> executed (G (n + k)) (us ! k)) \<and>
     (u_seq (us ! k) \<notin> U \<and> u_dest (us ! k) \<noteq> INVALID_PHYSREG \<longrightarrow>
        prf_read p (u_dest (us ! k)) = u_result (us ! k)))"

text \<open>Each uop's PC is where the one before it leads, up to place \<open>lim\<close>.\<close>

definition leads :: "SeqNum set \<Rightarrow> Uop \<Rightarrow> u32" where
  "leads I u = (if u_seq u \<in> I then predicted_pc u else u_next_pc u)"

definition outs :: "Cpu \<Rightarrow> u32 list" where
  "outs c = map (leads (idle c)) (in_flight c) @ map predicted_pc (c_decode_q c @ c_fetch_q c)"

definition pcs :: "Cpu \<Rightarrow> u32 list" where
  "pcs c = map u_pc (stream c) @ (if c_fetch_stalled c then [] else [c_pc c])"

definition chained :: "nat \<Rightarrow> Cpu \<Rightarrow> bool" where
  "chained lim c \<longleftrightarrow> (\<forall>k < length (pcs c). k \<le> lim \<longrightarrow> pcs c ! k = (c_arch_pc c # outs c) ! k)"

text \<open>The committed state is the reference's.\<close>

definition synced :: "(nat \<Rightarrow> Memory \<times> Result) \<Rightarrow> Cpu \<Rightarrow> bool" where
  "synced G c \<longleftrightarrow> (let (m, st) = G (st_retired (c_stats c)) in
     c_mem c = m \<and> cpu_regs c = rs_regs st \<and> c_arch_pc c = rs_pc st \<and> c_halted c = rs_halted st \<and>
     c_trapped c = rs_trapped st \<and> c_exit_code c = rs_exit_code st)"

abbreviation retired :: "Cpu \<Rightarrow> nat" where
  "retired c \<equiv> st_retired (c_stats c)"

definition flow :: "(nat \<Rightarrow> Memory \<times> Result) \<Rightarrow> Cpu \<Rightarrow> bool" where
  "flow G c \<longleftrightarrow> payloads c \<and> (\<forall>u \<in> set (in_flight c). shaped (idle c) u) \<and> front_shaped c \<and>
     sources (c_arch_rat c) (in_flight c) \<and> woken (c_prf c) (in_flight c) (iq_entries (c_iq c)) \<and>
     dests_pending (unfinished c) (in_flight c) (c_prf c) \<and> prf_sized (c_prf c) (c_free_list c) \<and>
     fetch_ok G (retired c) (stream c) \<and>
     data_ok G (retired c) (idle c) (unfinished c) (in_flight c) (c_prf c) \<and>
     seats (idle c) (dispatched c) (c_lsq c) \<and> synced G c"

section \<open>What the invariant reads\<close>

definition whole where
  "whole c = (essence c, (c_prf c, c_lsq c, c_pc c, c_fetch_stalled c), committed c)"

lemma whole_eqs:
  assumes "whole c' = whole c"
  shows "essence c' = essence c" "c_prf c' = c_prf c" "c_lsq c' = c_lsq c" "c_pc c' = c_pc c"
    "c_fetch_stalled c' = c_fetch_stalled c" "committed c' = committed c"
  using assms unfolding whole_def prod.inject by blast+

lemma committed_eqs:
  assumes "committed c' = committed c"
  shows "c_mem c' = c_mem c" "c_arch_rat c' = c_arch_rat c" "c_arch_pc c' = c_arch_pc c"
    "c_halted c' = c_halted c" "c_trapped c' = c_trapped c" "c_exit_code c' = c_exit_code c"
    "cpu_done c' = cpu_done c"
  using assms unfolding committed_def prod.inject cpu_done_def by simp_all

lemma whole_flow:
  assumes "whole c' = whole c"
  shows "flow G c' = flow G c" and "chained m c' = chained m c"
proof -
  note e = essence_eqs [OF whole_eqs(1) [OF assms]] and w = whole_eqs(2-6) [OF assms]
  note cm = committed_eqs [OF w(5)]
  have l: "in_flight c' = in_flight c" "idle c' = idle c" "unfinished c' = unfinished c"
    by (simp_all only: in_flight_def idle_def unfinished_def e)
  have s: "dispatched c' = dispatched c" "stream c' = stream c" "cpu_regs c' = cpu_regs c"
    by (simp_all only: dispatched_def stream_def l e cpu_regs_def w)
  show "flow G c' = flow G c"
    by (simp only: flow_def payloads_def front_shaped_def synced_def l s e w cm)
  show "chained m c' = chained m c"
    by (simp only: chained_def pcs_def outs_def l s e w cm)
qed

lemmas flow_defs = flow_def payloads_def front_shaped_def synced_def stream_def dispatched_def in_flight_def
  idle_def unfinished_def work_def cpu_regs_def

lemma whole_obs [simp]: "whole (upd_obs f c) = whole c"
  by (simp add: whole_def)

lemma whole_stats [simp]:
  "st_renamed (f (c_stats c)) = st_renamed (c_stats c) \<Longrightarrow> st_retired (f (c_stats c)) = st_retired (c_stats c) \<Longrightarrow>
   whole (upd_stats f c) = whole c"
  by (simp add: whole_def)

section \<open>Places on the path\<close>

lemma right_append: "k < length us \<Longrightarrow> right G n (us @ vs) k = right G n us k"
  by (auto simp: right_def nth_append)

lemma right_less: "right G n us k \<Longrightarrow> j \<le> k \<Longrightarrow> right G n us j"
  by (auto simp: right_def)

lemma right_cong:
  assumes "\<And>j. j \<le> k \<Longrightarrow> u_pc (us ! j) = u_pc (vs ! j)"
  shows "right G n us k = right G n vs k"
  using assms by (auto simp: right_def on_path_def)

lemma right_map_pc:
  assumes "map u_pc us = map u_pc vs" "k < length us"
  shows "right G n us k = right G n vs k"
proof (rule right_cong)
  fix j assume "j \<le> k"
  with assms show "u_pc (us ! j) = u_pc (vs ! j)"
    by (metis le_less_trans length_map nth_map)
qed

lemma right_Suc: "right G n (u # us) (Suc k) \<longleftrightarrow> on_path (G n) u \<and> right G (Suc n) us k"
  by (auto simp: right_def All_less_Suc2 simp flip: less_Suc_eq_le)

lemma right_0: "right G n (u # us) 0 = on_path (G n) u"
  by (simp add: right_def)

lemma fetch_ok_append:
  assumes "fetch_ok G n (us @ vs)"
  shows "fetch_ok G n us"
  unfolding fetch_ok_def
proof (intro allI impI)
  fix k assume k: "k < length us"
  then have "(right G n us k \<longrightarrow> fetched (G (n + k)) ((us @ vs) ! k)) \<and> straight ((us @ vs) ! k)"
    using assms by (simp add: fetch_ok_def flip: right_append [of k us G n vs])
  with k show "(right G n us k \<longrightarrow> fetched (G (n + k)) (us ! k)) \<and> straight (us ! k)" by (simp add: nth_append)
qed

text \<open>A complete chain is one equation.\<close>

lemma length_outs [simp]: "length (outs c) = length (stream c)"
  by (simp add: outs_def stream_def)

lemma length_pcs: "length (pcs c) = (if c_fetch_stalled c then length (stream c) else Suc (length (stream c)))"
  by (simp add: pcs_def)

lemma chained_full:
  "chained (length (stream c)) c \<longleftrightarrow> pcs c = take (length (pcs c)) (c_arch_pc c # outs c)"
proof -
  have "length (pcs c) \<le> Suc (length (stream c))" by (simp add: length_pcs)
  then show ?thesis
    unfolding chained_def list_eq_iff_nth_eq by (auto simp: less_Suc_eq_le)
qed

lemma chained_running:
  "\<not> c_fetch_stalled c \<Longrightarrow> chained (length (stream c)) c \<longleftrightarrow> pcs c = c_arch_pc c # outs c"
  by (simp add: chained_full length_pcs)

section \<open>Fetch\<close>

text \<open>The branch target buffer holds targets of branches the reference executes.\<close>

definition trained :: "(nat \<Rightarrow> Memory \<times> Result) \<Rightarrow> Btb \<Rightarrow> bool" where
  "trained G b \<longleftrightarrow> btb_ok b \<and> (\<forall>e \<in> set (btb_entries b). be_valid e \<longrightarrow>
     (\<exists>i. \<not> rs_done (snd (G i)) \<and> rs_pc (snd (G i)) = be_tag e \<and> d_is_branch (insn_at (G i))))"

lemma trained_hit:
  assumes "trained G b" "hit_valid (btb_lookup b pc)"
  obtains i where "\<not> rs_done (snd (G i))" "rs_pc (snd (G i)) = pc" "d_is_branch (insn_at (G i))"
proof -
  have ok: "0 < btb_sets b" "length (btb_entries b) = btb_sets b * btb_ways b" using assms(1) by (simp_all add: trained_def btb_ok_def)
  have "\<exists>w < btb_ways b. btb_match b pc w"
  proof (rule ccontr)
    assume "\<not> (\<exists>w < btb_ways b. btb_match b pc w)"
    then have "\<not> hit_valid (btb_lookup_from b pc (btb_ways b) 0)" using btb_lookup_from_miss [of 0 "btb_ways b" b pc] by simp
    then show False using assms(2) by (simp add: btb_lookup_def)
  qed
  then obtain w where w: "w < btb_ways b" "btb_match b pc w" by blast
  have "btb_way b pc w \<in> set (btb_entries b)"
    using slot_less [OF btb_set_less [OF ok(1), of pc] w(1)] ok(2) by (simp add: btb_way_def)
  then show thesis using assms(1) w(2) that unfolding trained_def btb_match_def by metis
qed

lemma trained_reset: "trained G (make_btb sets ways)"
  using make_btb_ok by (auto simp: trained_def make_btb_def Let_def empty_btb_entry_def)

lemma trained_update:
  assumes "trained G b" "\<not> rs_done (snd (G i))" "d_is_branch (insn_at (G i))"
  shows "trained G (btb_update b (rs_pc (snd (G i))) t k)"
  unfolding trained_def
proof (intro conjI ballI impI)
  show "btb_ok (btb_update b (rs_pc (snd (G i))) t k)" using assms(1) btb_update_ok by (simp add: trained_def)
  fix e assume e: "e \<in> set (btb_entries (btb_update b (rs_pc (snd (G i))) t k))" "be_valid e"
  then have "be_tag e = rs_pc (snd (G i)) \<or> e \<in> set (btb_entries b)"
    using set_update_subset_insert by (fastforce simp: btb_update_def btb_fill_def)
  then show "\<exists>i. \<not> rs_done (snd (G i)) \<and> rs_pc (snd (G i)) = be_tag e \<and> d_is_branch (insn_at (G i))"
    using assms e(2) by (auto simp: trained_def)
qed

lemma fetch_one_form:
  obtains (full) "fst (fetch_one c) = c"
  | (grab) u where "whole (fst (fetch_one c)) = whole (c\<lparr>c_pc := predicted_pc u, c_fetch_q := c_fetch_q c @ [u]\<rparr>)"
      "u_pc u = c_pc c" "u_raw u = load_u32 (c_mem c) (c_pc c)" "u_trap u = Trap_NONE" "\<not> u_has_result u"
      "predicted_pc u \<noteq> u_pc u + 4 \<Longrightarrow> hit_valid (btb_lookup (bp_btb (c_bpred c)) (c_pc c))"
proof (cases "c_queue_cap c \<le> length (c_fetch_q c)")
  case True
  then show thesis by (intro full) (simp add: fetch_one_def)
next
  case False
  define pr where "pr = fst (bp_predict (c_bpred c) (c_pc c))"
  define u where "u = default_uop\<lparr>u_uid := c_next_uid c, u_at := (u_at default_uop)\<lparr>at_fetch := c_cycle c\<rparr>,
    u_pc := c_pc c, u_raw := load_u32 (c_mem c) (c_pc c),
    u_pred_taken := pr_taken pr, u_pred_target := pr_target pr, u_btb_hit := pr_btb_hit pr,
    u_from_ras := pr_from_ras pr, u_pht_index := pr_pht_index pr,
    u_fe_snap := \<lparr>snap_ghr = gs_ghr (bp_gshare (c_bpred c)), snap_ras = bp_ras (snd (bp_predict (c_bpred c) (c_pc c)))\<rparr>\<rparr>"
  have "whole (fst (fetch_one c)) = whole (c\<lparr>c_pc := predicted_pc u, c_fetch_q := c_fetch_q c @ [u]\<rparr>)"
    using False by (simp add: fetch_one_def Let_def split_beta obs_defs u_def predicted_pc_def pr_def whole_def
        essence_def committed_def work_def)
  moreover have "u_pc u = c_pc c" "u_raw u = load_u32 (c_mem c) (c_pc c)" "u_trap u = Trap_NONE" "\<not> u_has_result u"
    by (simp_all add: u_def default_uop_def)
  moreover have "hit_valid (btb_lookup (bp_btb (c_bpred c)) (c_pc c))" if "predicted_pc u \<noteq> u_pc u + 4"
  proof (rule ccontr)
    assume "\<not> hit_valid (btb_lookup (bp_btb (c_bpred c)) (c_pc c))"
    then have "\<not> pr_taken pr" by (simp add: pr_def bp_predict_def Let_def)
    then show False using that by (simp add: predicted_pc_def u_def)
  qed
  ultimately show thesis by (intro grab)
qed

lemma fetch_one_stalled [simp]: "c_fetch_stalled (fst (fetch_one c)) = c_fetch_stalled c"
  by (simp add: fetch_one_def Let_def split_beta obs_defs)

lemma fetch_one_flow:
  assumes G: "golden_run G" and c: "flow G c" "chained (length (stream c)) c" and run: "\<not> c_fetch_stalled c"
    "\<not> cpu_done c" and btb: "trained G (bp_btb (c_bpred c))"
  defines "c' \<equiv> fst (fetch_one c)"
  shows "flow G c'" "chained (length (stream c')) c'"
proof (atomize (full), unfold c'_def, rule fetch_one_form [of c])
  assume "fst (fetch_one c) = c"
  with c show "flow G (fst (fetch_one c)) \<and> chained (length (stream (fst (fetch_one c)))) (fst (fetch_one c))" by simp
next
  fix u
  define d where "d = c\<lparr>c_pc := predicted_pc u, c_fetch_q := c_fetch_q c @ [u]\<rparr>"
  assume w: "whole (fst (fetch_one c)) = whole (c\<lparr>c_pc := predicted_pc u, c_fetch_q := c_fetch_q c @ [u]\<rparr>)"
    and u: "u_pc u = c_pc c" "u_raw u = load_u32 (c_mem c) (c_pc c)" "u_trap u = Trap_NONE" "\<not> u_has_result u"
    and hit: "predicted_pc u \<noteq> u_pc u + 4 \<Longrightarrow> hit_valid (btb_lookup (bp_btb (c_bpred c)) (c_pc c))"
  have l: "in_flight d = in_flight c" "idle d = idle c" "unfinished d = unfinished c" "dispatched d = dispatched c"
    "stream d = stream c @ [u]" "work d = work c" "cpu_regs d = cpu_regs c" "outs d = outs c @ [predicted_pc u]"
    "pcs d = pcs c @ [predicted_pc u]"
    using run by (simp_all add: d_def in_flight_def idle_def unfinished_def dispatched_def stream_def work_def cpu_regs_def
        outs_def pcs_def u(1))
  have mem: "c_mem c = fst (G (retired c))" using c(1) by (simp add: flow_def synced_def split_beta)
  have now: "\<not> rs_done (snd (G (retired c)))"
    using c(1) run(2) by (simp add: flow_def synced_def split_beta cpu_done_def rs_done_def)
  have "straight u"
    unfolding straight_def
  proof (rule disjCI)
    assume "\<not> d_is_branch (decode (u_raw u))"
    moreover have "d_is_branch (decode (u_raw u))" if "hit_valid (btb_lookup (bp_btb (c_bpred c)) (c_pc c))"
    proof (rule trained_hit [OF btb that])
      fix i assume "\<not> rs_done (snd (G i))" "rs_pc (snd (G i)) = c_pc c" "d_is_branch (insn_at (G i))"
      then show ?thesis using golden_code [OF G _ now, of i] by (simp add: insn_at_def u(2) mem)
    qed
    ultimately show "predicted_pc u = u_pc u + 4" using hit by blast
  qed
  moreover have "\<forall>k < length (stream c). straight (stream c ! k)" using c(1) by (simp add: flow_def fetch_ok_def)
  ultimately have straight: "straight ((stream c @ [u]) ! k)" if "k < Suc (length (stream c))" for k
    using that by (cases "k = length (stream c)") (simp_all add: nth_append)
  have "fetched (G (retired c + k)) ((stream c @ [u]) ! k)"
    if k: "k < Suc (length (stream c))" and r: "right G (retired c) (stream c @ [u]) k" for k
  proof (cases "k < length (stream c)")
    case True
    with r c(1) show ?thesis by (simp add: flow_def fetch_ok_def right_append nth_append)
  next
    case False
    with k have last: "k = length (stream c)" by simp
    then have "on_path (G (retired c + k)) u" using r by (auto simp: right_def)
    then have "load_u32 (fst (G (retired c))) (u_pc u) = load_u32 (fst (G (retired c + k))) (u_pc u)"
      using golden_code [OF G _ now, of "retired c + k"] by (simp add: on_path_def)
    then show ?thesis using u(1,2) by (simp add: fetched_def mem last)
  qed
  then have "fetch_ok G (retired c) (stream d)" using straight by (simp add: fetch_ok_def l)
  then have "flow G d"
    using c(1) u(3,4) by (simp add: flow_defs d_def)
  moreover have "chained (length (stream d)) d"
    using c(2) run chained_running [of c] chained_running [of d] by (simp add: l) (simp add: d_def)
  moreover have "length (stream (fst (fetch_one c))) = length (stream d)"
  proof -
    note e = essence_eqs [OF whole_eqs(1) [OF w]]
    show ?thesis by (simp only: stream_def in_flight_def e d_def)
  qed
  ultimately show "flow G (fst (fetch_one c)) \<and> chained (length (stream (fst (fetch_one c)))) (fst (fetch_one c))"
    using whole_flow [OF w [folded d_def]] by simp
qed

section \<open>Decode\<close>

definition front_key where
  "front_key u = (u_pc u, u_raw u, predicted_pc u)"

lemma front_key_maps:
  assumes "map front_key us = map front_key vs"
  shows "map u_pc us = map u_pc vs" "map u_raw us = map u_raw vs" "map predicted_pc us = map predicted_pc vs"
  using arg_cong [OF assms, of "map fst"] arg_cong [OF assms, of "map (fst \<circ> snd)"]
    arg_cong [OF assms, of "map (snd \<circ> snd)"] by (simp_all add: front_key_def comp_def)

lemma fetch_ok_key:
  assumes "map front_key us = map front_key vs"
  shows "fetch_ok G n us = fetch_ok G n vs"
proof -
  note m = front_key_maps [OF assms]
  have len: "length us = length vs" using assms by (metis length_map)
  have "fetched (G (n + k)) (us ! k) = fetched (G (n + k)) (vs ! k)" if "k < length vs" for k
    using m(1,2) that len by (simp add: fetched_def list_eq_iff_nth_eq)
  moreover have "straight (us ! k) = straight (vs ! k)" if "k < length vs" for k
    using m that len by (simp add: straight_def list_eq_iff_nth_eq)
  ultimately show ?thesis using right_map_pc [OF m(1)] len by (auto simp: fetch_ok_def)
qed

lemma decode_uop_facts:
  assumes "u_trap f = Trap_NONE" "\<not> u_has_result f"
  shows "decoded_uop (decode_uop cy f)" "untouched (decode_uop cy f)" "front_key (decode_uop cy f) = front_key f"
  using assms by (simp_all add: decode_uop_def Let_def decoded_uop_def untouched_def front_key_def predicted_pc_def)

lemma decode_one_form:
  obtains (still) "fst (decode_one c) = c"
  | (move) f rest where "c_fetch_q c = f # rest" "whole (fst (decode_one c)) =
      whole (c\<lparr>c_fetch_q := rest, c_decode_q := c_decode_q c @ [decode_uop (c_cycle c) f]\<rparr>)"
  | (trap) f rest where "c_fetch_q c = f # rest" "whole (fst (decode_one c)) =
      whole (c\<lparr>c_fetch_q := [], c_decode_q := c_decode_q c @ [decode_uop (c_cycle c) f], c_fetch_stalled := True\<rparr>)"
      "d_kind (u_dec (decode_uop (c_cycle c) f)) = Kind_TRAP"
proof (cases "c_fetch_q c = [] \<or> c_queue_cap c \<le> length (c_decode_q c)")
  case True
  then show thesis by (intro still) (auto simp: decode_one_def split: list.split)
next
  case False
  then obtain f rest where q: "c_fetch_q c = f # rest" "\<not> c_queue_cap c \<le> length (c_decode_q c)"
    by (cases "c_fetch_q c") auto
  show thesis
  proof (cases "d_kind (u_dec (decode_uop (c_cycle c) f)) = Kind_TRAP")
    case True
    with q show thesis
      by (intro trap [of f rest]) (simp_all add: decode_one_def Let_def obs_defs whole_def essence_def committed_def work_def)
  next
    case False
    with q show thesis
      by (intro move [of f rest]) (simp_all add: decode_one_def Let_def obs_defs whole_def essence_def committed_def work_def)
  qed
qed

lemma stream_whole: "whole c' = whole c \<Longrightarrow> stream c' = stream c"
  using essence_eqs [OF whole_eqs(1), of c' c] by (simp add: stream_def in_flight_def)

text \<open>The invariant and its chain together; every stage but commit keeps both.\<close>

definition flowing :: "(nat \<Rightarrow> Memory \<times> Result) \<Rightarrow> Cpu \<Rightarrow> bool" where
  "flowing G c \<longleftrightarrow> flow G c \<and> chained (length (stream c)) c"

lemma flowing_whole: "whole c' = whole c \<Longrightarrow> flowing G c' = flowing G c"
  using whole_flow [of c' c] stream_whole [of c' c] by (simp add: flowing_def)

lemma decode_one_flow:
  assumes c: "flowing G c"
  shows "flowing G (fst (decode_one c))"
proof (cases rule: decode_one_form [of c])
  case still
  with c show ?thesis by simp
next
  case (move f rest)
  define u where "u = decode_uop (c_cycle c) f"
  define d where "d = c\<lparr>c_fetch_q := rest, c_decode_q := c_decode_q c @ [u]\<rparr>"
  have f: "u_trap f = Trap_NONE" "\<not> u_has_result f" using c move(1) by (simp_all add: flowing_def flow_def front_shaped_def)
  note u = decode_uop_facts [OF f, of "c_cycle c", folded u_def]
  have same: "map front_key (stream d) = map front_key (stream c)"
    using move(1) u(3) by (simp add: stream_def d_def in_flight_def)
  have "fetch_ok G (retired c) (stream d)" using c fetch_ok_key [OF same] by (simp add: flowing_def flow_def)
  then have "flow G d" using c u(1,2) move(1) by (simp add: flowing_def flow_defs d_def)
  moreover have "pcs d = pcs c" "outs d = outs c" "c_arch_pc d = c_arch_pc c"
    using front_key_maps [OF same] move(1) u(3)
    by (simp_all add: pcs_def outs_def d_def in_flight_def idle_def front_key_def)
  then have "chained (length (stream d)) d"
    using c arg_cong [OF same, of length] by (simp add: flowing_def chained_def)
  ultimately show ?thesis using flowing_whole [OF move(2) [folded u_def, folded d_def]] by (simp add: flowing_def)
next
  case (trap f rest)
  define u where "u = decode_uop (c_cycle c) f"
  define d where "d = c\<lparr>c_fetch_q := [], c_decode_q := c_decode_q c @ [u], c_fetch_stalled := True\<rparr>"
  have f: "u_trap f = Trap_NONE" "\<not> u_has_result f" using c trap(1) by (simp_all add: flowing_def flow_def front_shaped_def)
  note u = decode_uop_facts [OF f, of "c_cycle c", folded u_def]
  have same: "map front_key (stream d @ rest) = map front_key (stream c)"
    using trap(1) u(3) by (simp add: stream_def d_def in_flight_def)
  have "fetch_ok G (retired c) (stream d @ rest)" using c fetch_ok_key [OF same] by (simp add: flowing_def flow_def)
  then have "fetch_ok G (retired c) (stream d)" by (rule fetch_ok_append)
  then have "flow G d" using c u(1,2) by (simp add: flowing_def flow_defs d_def)
  moreover have "chained (length (stream d)) d"
  proof -
    define m where "m = length (stream d)"
    have m: "m = length (in_flight c) + Suc (length (c_decode_q c))" "m \<le> length (stream c)"
      by (simp_all add: m_def stream_def d_def in_flight_def trap(1))
    have "outs c = outs d @ map predicted_pc rest" "map u_pc (stream c) = map u_pc (stream d) @ map u_pc rest"
      using trap(1) u(3) by (simp_all add: outs_def stream_def d_def in_flight_def idle_def front_key_def)
    then have "outs d = take m (outs c)" "pcs d = take m (pcs c)" "c_arch_pc d = c_arch_pc c"
      using m by (simp_all add: m_def pcs_def) (simp_all add: d_def)
    moreover have "pcs c = take (length (pcs c)) (c_arch_pc c # outs c)"
      using c chained_full by (simp add: flowing_def)
    moreover have "m \<le> length (pcs c)" using m by (simp add: length_pcs)
    moreover have "take m (x # take m xs) = take m (x # xs)" for x :: u32 and xs by (cases m) simp_all
    moreover have "length (pcs d) = m" by (simp add: length_pcs m_def) (simp add: d_def)
    ultimately have "pcs d = take (length (pcs d)) (c_arch_pc d # outs d)"
      by (metis min.absorb1 take_take)
    then show ?thesis using chained_full by simp
  qed
  ultimately show ?thesis using flowing_whole [OF trap(2) [folded u_def, folded d_def]] by (simp add: flowing_def)
qed

section \<open>The list of instructions under the buffer's operations\<close>

lemma uops_modify [simp]: "uops (rob_modify r i f) infl = uops r infl"
  by (simp add: uops_def)

lemma uops_update:
  assumes "rob_ok r" "k < rob_count r" "length infl = rob_capacity r"
  shows "uops r (infl[rob_nth r k := u]) = (uops r infl)[k := u]"
proof (rule nth_equalityI)
  fix j assume "j < length (uops r (infl[rob_nth r k := u]))"
  then have j: "j < rob_count r" by simp
  then have "rob_nth r j = rob_nth r k \<longleftrightarrow> j = k" using rob_nth_inj [of r j k] assms by auto
  with j assms rob_nth_less [of r k] show "uops r (infl[rob_nth r k := u]) ! j = (uops r infl)[k := u] ! j"
    by (auto simp: nth_list_update)
qed simp

lemma uops_allocate:
  assumes "rob_ok r" "\<not> rob_full r" "rob_allocate e r = (idx, r')" "length infl = rob_capacity r"
  shows "uops r' (infl[idx := u]) = uops r infl @ [u]"
    and "\<not> re_complete e \<Longrightarrow> set (open_seqs r') = insert (rob_next_seq r) (set (open_seqs r))"
proof -
  note l = rob_allocate_list [OF assms(1-3)]
  show "uops r' (infl[idx := u]) = uops r infl @ [u]"
  proof (rule nth_equalityI)
    fix k assume "k < length (uops r' (infl[idx := u]))"
    then have k: "k < Suc (rob_count r)" by (simp add: l(6))
    show "uops r' (infl[idx := u]) ! k = (uops r infl @ [u]) ! k"
    proof (cases "k = rob_count r")
      case True
      then show ?thesis using rob_nth_less [OF l(2), of k] l(3,5,6) assms(4) by (simp add: nth_append)
    next
      case False
      with k have "k < rob_count r" by simp
      moreover have "rob_nth r' k \<noteq> idx" using rob_nth_inj [OF l(2), of k "rob_count r"] l(5,6) calculation by auto
      ultimately show ?thesis using rob_nth_prefix [of r' r k] l(3,6,7) by (simp add: nth_append)
    qed
  qed (simp add: l(6))
  show "\<not> re_complete e \<Longrightarrow> set (open_seqs r') = insert (rob_next_seq r) (set (open_seqs r))"
    by (simp add: open_seqs_def l(1))
qed

lemma map_after_mem: "a < length m \<Longrightarrow> map_after m vs ! a \<in> set m \<union> set (dests vs)"
proof (induction vs rule: rev_induct)
  case Nil
  then show ?case by simp
next
  case (snoc v vs)
  then show ?case by (cases "v_arch v = a") (auto simp: map_dest_def nth_list_update)
qed

section \<open>Rename\<close>

text \<open>What a rename does to the fields the invariant reads.\<close>

lemma rename_fields:
  assumes c: "core c" "\<not> lost c" and u: "fresh u" "wf_decoded (u_dec u)" and room: "\<not> rob_full (c_rob c)"
    and free: "d_is_branch (u_dec u) \<Longrightarrow> cp_free (c_ckpts c) \<noteq> []"
    and dest: "take_dest (d_writes_rd (u_dec u)) c = Some (dest, c1)"
  defines "c' \<equiv> rename_uop dest u c1"
  obtains u' where "in_flight c' = in_flight c @ [u']" "c_rename_q c' = c_rename_q c @ [u']"
    "u_seq u' = rob_next_seq (c_rob c)" "unfinished c' = insert (u_seq u') (unfinished c)"
    "front_key u' = front_key u" "u_dec u' = u_dec u" "u_next_pc u' = u_next_pc u" "u_trap u' = u_trap u"
    "u_has_result u' = u_has_result u" "u_raw u' = u_raw u" "u_pc u' = u_pc u"
    "u_src1 u' = c_rat c ! d_rs1 (u_dec u)" "u_src2 u' = c_rat c ! d_rs2 (u_dec u)"
    "u_dest u' = (if d_writes_rd (u_dec u) then dest else INVALID_PHYSREG)"
    "c_prf c' = (if d_writes_rd (u_dec u) then prf_mark_pending (c_prf c) dest else c_prf c)"
    "iq_entries (c_iq c') = iq_entries (c_iq c)" "work c' = work c" "c_decode_q c' = c_decode_q c"
    "c_fetch_q c' = c_fetch_q c" "c_lsq c' = c_lsq c" "c_pc c' = c_pc c" "c_fetch_stalled c' = c_fetch_stalled c"
    "committed c' = committed c" "retired c' = retired c" "fl_capacity (c_free_list c') = fl_capacity (c_free_list c)"
proof -
  define u1 where "u1 = u\<lparr>u_at := (u_at u)\<lparr>at_rename := c_cycle c1\<rparr>\<rparr>"
  obtain u2 c2 where m: "map_regs dest u1 c1 = (u2, c2)" by fastforce
  obtain u3 c3 where t: "take_checkpoint u2 c2 = (u3, c3)" by fastforce
  obtain u4 c4 where e: "enter_rob u3 c3 = (u4, c4)" by fastforce
  have c': "c' = log_rename u4 (event (Ev_rename (u_seq u4) (u_pc u4)
      (if d_writes_rd (u_dec u4) then Some (d_rd (u_dec u4), u_dest u4, u_stale u4) else None))
      (upd_stats (\<lambda>s. s\<lparr>st_renamed := st_renamed s + 1\<rparr>) c4))"
    using m t e by (simp add: c'_def rename_uop_def Let_def flip: u1_def)
  have ok: "rob_ok (c_rob c)" "length (c_inflight c) = rob_capacity (c_rob c)"
    using c by (simp_all add: core_def mapped_def rob_state_def)
  obtain fl where c1: "c1 = c\<lparr>c_free_list := fl\<rparr>" "fl_capacity fl = fl_capacity (c_free_list c)"
  proof (cases "d_writes_rd (u_dec u)")
    case True
    with dest show thesis
      using fl_alloc_capacity by (intro that [of "c_free_list c1"]) (auto simp: take_dest_def split: option.splits)
  next
    case False
    with dest show thesis by (intro that [of "c_free_list c"]) (auto simp: take_dest_def)
  qed
  define pf where "pf = (if d_writes_rd (u_dec u) then prf_mark_pending (c_prf c) dest else c_prf c)"
  define rt where "rt = (if d_writes_rd (u_dec u) then rat_set (c_rat c) (d_rd (u_dec u)) dest else c_rat c)"
  have c2: "c2 = c\<lparr>c_free_list := fl, c_rat := rt, c_prf := pf\<rparr>"
    and u2: "front_key u2 = front_key u" "u_dec u2 = u_dec u" "u_next_pc u2 = u_next_pc u" "u_trap u2 = u_trap u"
    "u_has_result u2 = u_has_result u" "u_raw u2 = u_raw u" "u_pc u2 = u_pc u"
    "u_src1 u2 = c_rat c ! d_rs1 (u_dec u)" "u_src2 u2 = c_rat c ! d_rs2 (u_dec u)"
    "u_dest u2 = (if d_writes_rd (u_dec u) then dest else INVALID_PHYSREG)"
    using m u(1) by (auto simp: map_regs_def Let_def u1_def rat_map_def c1(1) front_key_def predicted_pc_def fresh_def
        pf_def rt_def split: if_splits)
  obtain ck un i where c3: "c3 = c\<lparr>c_free_list := fl, c_rat := rt, c_prf := pf, c_ckpts := ck, c_undefined := un\<rparr>"
    and u3: "u3 = u2\<lparr>u_ckpt := i\<rparr>"
  proof
    show "c3 = c\<lparr>c_free_list := fl, c_rat := rt, c_prf := pf, c_ckpts := c_ckpts c3, c_undefined := c_undefined c3\<rparr>"
      "u3 = u2\<lparr>u_ckpt := u_ckpt u3\<rparr>"
      using t by (auto simp: take_checkpoint_def c2 split: if_splits option.splits)
  qed
  obtain idx r' where a: "rob_allocate (rob_entry_of u3) (c_rob c) = (idx, r')" by fastforce
  note al = rob_allocate_list [OF ok(1) room a] and ua = uops_allocate [OF ok(1) room a ok(2)]
  have "re_seq (rob_at r' idx) = rob_next_seq (c_rob c)" using al(1,5,6) by (simp add: rob_at_nth nth_append)
  then have u4: "u4 = u3\<lparr>u_rob := idx, u_seq := rob_next_seq (c_rob c)\<rparr>"
    and c4: "c4 = c\<lparr>c_free_list := fl, c_rat := rt, c_prf := pf, c_ckpts := ck, c_undefined := un,
      c_rob := r', c_inflight := (c_inflight c)[idx := u4], c_rename_q := c_rename_q c @ [u4]\<rparr>"
    using e a by (auto simp: enter_rob_def Let_def c3)
  have key: "front_key (x\<lparr>u_ckpt := j, u_rob := k, u_seq := s\<rparr>) = front_key x" for x j k s
    by (simp add: front_key_def predicted_pc_def)
  have fields: "u_seq u4 = rob_next_seq (c_rob c)" "front_key u4 = front_key u" "u_dec u4 = u_dec u"
    "u_next_pc u4 = u_next_pc u" "u_trap u4 = u_trap u" "u_has_result u4 = u_has_result u" "u_raw u4 = u_raw u"
    "u_pc u4 = u_pc u" "u_src1 u4 = c_rat c ! d_rs1 (u_dec u)" "u_src2 u4 = c_rat c ! d_rs2 (u_dec u)"
    "u_dest u4 = (if d_writes_rd (u_dec u) then dest else INVALID_PHYSREG)"
    using u2 key by (simp_all add: u4 u3)
  have opens: "set (open_seqs r') = insert (u_seq u4) (unfinished c)"
    using ua(2) by (simp add: rob_entry_of_def default_rob_entry_def unfinished_def fields(1))
  show thesis
    by (rule that [of u4])
      (simp_all add: fields, simp_all add: c' c4 obs_defs in_flight_def ua(1) unfinished_def opens pf_def work_def
        committed_def c1(2) fields(1))
qed

lemma core_facts:
  assumes "core c"
  shows "regs_inv (c_arch_rat c) (c_free_list c) (map uop_view (in_flight c))"
    "c_rat c = map_after (c_arch_rat c) (map uop_view (in_flight c))" "rob_ok (c_rob c)"
    "length (c_inflight c) = rob_capacity (c_rob c)"
    "s \<in> u_seq ` set (in_flight c) \<Longrightarrow> s < rob_next_seq (c_rob c) \<or> 2 ^ 32 \<le> st_renamed (c_stats c)"
    "idle c \<union> u_seq ` set_mset (work c) = unfinished c" "unfinished c \<subseteq> u_seq ` set (in_flight c)"
    "u_seq ` set (c_rename_q c) \<subseteq> idle c"
proof -
  note f = in_flight_core [OF assms]
  have rs: "rob_state (c_rob c) (c_inflight c) (c_arch_rat c) (c_rat c) (c_free_list c) (c_ckpts c)"
    and os: "order_state (c_rob c) (st_renamed (c_stats c))"
    and w: "waiting (c_rob c) (c_rename_q c) (iq_entries (c_iq c)) (work c)"
    using assms by (simp_all add: core_def mapped_def ordered_def waits_def)
  show "regs_inv (c_arch_rat c) (c_free_list c) (map uop_view (in_flight c))"
    "c_rat c = map_after (c_arch_rat c) (map uop_view (in_flight c))" "rob_ok (c_rob c)"
    "length (c_inflight c) = rob_capacity (c_rob c)"
    using rs by (simp_all add: rob_state_def f(2))
  have seqs: "u_seq ` set (in_flight c) = set (seqs (c_rob c))" using arg_cong [OF f(1), of set] by simp
  show "s < rob_next_seq (c_rob c) \<or> 2 ^ 32 \<le> st_renamed (c_stats c)" if "s \<in> u_seq ` set (in_flight c)"
  proof (cases "st_renamed (c_stats c) < 2 ^ 32")
    case True
    then show ?thesis using os that unat_of_nat32 [OF True] unfolding seqs
      by (auto simp: order_state_def word_less_nat_alt)
  qed simp
  show "idle c \<union> u_seq ` set_mset (work c) = unfinished c"
    using waiting_members [OF w] by (simp add: idle_def unfinished_def)
  show "unfinished c \<subseteq> u_seq ` set (in_flight c)"
    using open_seqs_subset by (simp add: unfinished_def seqs)
  show "u_seq ` set (c_rename_q c) \<subseteq> idle c" by (simp add: idle_def)
qed

text \<open>A free register is nobody's source.\<close>

lemma free_not_source:
  assumes c: "core c" and s: "sources (c_arch_rat c) (in_flight c)" and u: "u \<in> set (in_flight c)"
    and d: "d \<in> set (fl_free (c_free_list c))"
  shows "u_src1 u \<noteq> d" "u_src2 u \<noteq> d" "u_dest u \<noteq> d" "d \<noteq> 0" "d < fl_capacity (c_free_list c)"
    "d \<noteq> INVALID_PHYSREG"
proof -
  note inv = core_facts(1) [OF c] and mem = regs_inv_members [OF core_facts(1) [OF c]]
  have arch: "length (c_arch_rat c) = 32" "c_arch_rat c ! 0 = 0" "fl_capacity (c_free_list c) \<le> uint32_max"
    using inv by (simp_all add: regs_inv_def)
  have "d \<in> {1..<fl_capacity (c_free_list c)}" using mem(7) d by blast
  then show d0: "d \<noteq> 0" "d < fl_capacity (c_free_list c)" by simp_all
  show inv': "d \<noteq> INVALID_PHYSREG" using d0(2) arch(3) by (simp add: INVALID_PHYSREG_def)
  show "u_dest u \<noteq> d"
  proof
    assume "u_dest u = d"
    then have "d \<in> set (dests (map uop_view (in_flight c)))"
      using u inv' by (force simp: dests_def v_writes_def uop_view_def)
    then show False using mem(4) d by blast
  qed
  obtain k where k: "k < length (in_flight c)" "u = in_flight c ! k" using u by (auto simp: in_set_conv_nth)
  have "set (dests (map uop_view (take k (in_flight c)))) \<subseteq> set (dests (map uop_view (in_flight c)))"
    by (auto simp: dests_def dest: in_set_takeD)
  moreover have "set (c_arch_rat c) = insert 0 (set (tl (c_arch_rat c)))"
    using arch(1,2) by (cases "c_arch_rat c") auto
  ultimately have none: "d \<noteq> map_after (c_arch_rat c) (map uop_view (take k (in_flight c))) ! a" if "a < 32" for a
    using map_after_mem [of a "c_arch_rat c" "map uop_view (take k (in_flight c))"] arch(1) that d d0(1) mem(4,5) by auto
  have "wf_decoded (u_dec u)" by (rule in_flight_core(7) [OF c u])
  then show "u_src1 u \<noteq> d" "u_src2 u \<noteq> d"
    using s k none by (auto simp: sources_def wf_decoded_def)
qed

lemma mark_pending_frame:
  "q \<noteq> r \<Longrightarrow> prf_is_ready (prf_mark_pending p r) q = prf_is_ready p q"
  "prf_read (prf_mark_pending p r) q = prf_read p q"
  "r \<noteq> 0 \<Longrightarrow> r < length (prf_ready p) \<Longrightarrow> \<not> prf_is_ready (prf_mark_pending p r) r"
  "prf_sized (prf_mark_pending p r) fl = prf_sized p fl"
  by (simp_all add: prf_is_ready_def prf_mark_pending_def prf_read_def prf_sized_def)

lemma rename_uop_flow:
  assumes c: "core c" "\<not> lost c" "flowing G c" and q: "c_decode_q c = u # rest"
    and room: "\<not> rob_full (c_rob c)" and free: "d_is_branch (u_dec u) \<Longrightarrow> cp_free (c_ckpts c) \<noteq> []"
    and dest: "take_dest (d_writes_rd (u_dec u)) c = Some (dest, c1)"
  shows "flowing G (rename_uop dest u (c1\<lparr>c_decode_q := rest\<rparr>))"
proof -
  define b where "b = c\<lparr>c_decode_q := rest\<rparr>"
  define c' where "c' = rename_uop dest u (c1\<lparr>c_decode_q := rest\<rparr>)"
  have b: "core b" "\<not> lost b" using c q by (simp_all add: b_def core_defs lost_def)
  have u: "fresh u" "wf_decoded (u_dec u)" using c(1) q by (simp_all add: core_defs)
  have room_b: "\<not> rob_full (c_rob b)" and free_b: "d_is_branch (u_dec u) \<Longrightarrow> cp_free (c_ckpts b) \<noteq> []"
    using room free by (simp_all add: b_def)
  have dest_b: "take_dest (d_writes_rd (u_dec u)) b = Some (dest, c1\<lparr>c_decode_q := rest\<rparr>)"
    using dest by (auto simp: take_dest_def b_def split: if_splits option.splits)
  have bf: "in_flight b = in_flight c" "unfinished b = unfinished c" "work b = work c" "committed b = committed c"
    "c_rename_q b = c_rename_q c" "c_rob b = c_rob c" "c_rat b = c_rat c" "c_prf b = c_prf c" "c_iq b = c_iq c"
    "c_decode_q b = rest" "c_fetch_q b = c_fetch_q c" "c_lsq b = c_lsq c" "c_pc b = c_pc c"
    "c_fetch_stalled b = c_fetch_stalled c" "c_stats b = c_stats c" "c_free_list b = c_free_list c"
    by (simp_all add: b_def in_flight_def unfinished_def work_def committed_def)
  obtain u' where f0: "in_flight c' = in_flight b @ [u']" "c_rename_q c' = c_rename_q b @ [u']"
    "u_seq u' = rob_next_seq (c_rob b)" "unfinished c' = insert (u_seq u') (unfinished b)"
    "front_key u' = front_key u" "u_dec u' = u_dec u" "u_next_pc u' = u_next_pc u" "u_trap u' = u_trap u"
    "u_has_result u' = u_has_result u" "u_raw u' = u_raw u" "u_pc u' = u_pc u"
    "u_src1 u' = c_rat b ! d_rs1 (u_dec u)" "u_src2 u' = c_rat b ! d_rs2 (u_dec u)"
    "u_dest u' = (if d_writes_rd (u_dec u) then dest else INVALID_PHYSREG)"
    "c_prf c' = (if d_writes_rd (u_dec u) then prf_mark_pending (c_prf b) dest else c_prf b)"
    "iq_entries (c_iq c') = iq_entries (c_iq b)" "work c' = work b" "c_decode_q c' = c_decode_q b"
    "c_fetch_q c' = c_fetch_q b" "c_lsq c' = c_lsq b" "c_pc c' = c_pc b" "c_fetch_stalled c' = c_fetch_stalled b"
    "committed c' = committed b" "retired c' = retired b" "fl_capacity (c_free_list c') = fl_capacity (c_free_list b)"
    by (rule rename_fields [OF b u room_b free_b dest_b, folded c'_def])
  note f = f0 [unfolded bf]
  note cm = committed_eqs [OF f(23)]
  note core = core_facts [OF c(1)]
  have fl: "flow G c" using c(3) by (simp add: flowing_def)
  define s where "s = u_seq u'"
  have new: "u_seq x \<noteq> s" if "x \<in> set (in_flight c)" for x
    using core(5) [of "u_seq x"] that c(2) f(3) by (auto simp: s_def lost_def)
  have reg: "dest \<in> set (fl_free (c_free_list c))" if "d_writes_rd (u_dec u)"
    using dest that by (auto simp: take_dest_def fl_alloc_def split: option.splits list.splits)
  have src: "sources (c_arch_rat c) (in_flight c)" using fl by (simp add: flow_def)
  note nosrc = free_not_source [OF c(1) src _ reg]
  have mf: "prf_is_ready (c_prf c') q = prf_is_ready (c_prf c) q" if "d_writes_rd (u_dec u) \<Longrightarrow> q \<noteq> dest" for q
    using that by (simp add: f(15) mark_pending_frame)
  have read: "prf_read (c_prf c') q = prf_read (c_prf c) q" for q by (simp add: f(15) mark_pending_frame)
  have idle: "idle c' = insert s (idle c)" by (auto simp: idle_def f(2,16) s_def)
  have dec: "decoded_uop u" "untouched u" using fl q by (simp_all add: flow_def front_shaped_def)
  have pay: "in_flight c = dispatched c @ c_rename_q c" "\<forall>u \<in># work c. u \<in> set (in_flight c)"
    using fl unfolding flow_def payloads_def by blast+
  have disp: "dispatched c' = dispatched c"
    using arg_cong [OF pay(1), of length] by (simp add: dispatched_def f(1,2))
  have P1: "payloads c'" using pay by (simp add: payloads_def disp f(1,2,17))
  have P2: "\<forall>x \<in> set (in_flight c'). shaped (idle c') x"
  proof -
    have "shaped (insert s (idle c)) x" if "x \<in> set (in_flight c)" for x
      using fl that new [OF that] by (simp add: flow_def shaped_def)
    moreover have "shaped (insert s (idle c)) u'"
    proof -
      have "decoded_uop u'" "untouched u'"
        using dec by (simp_all add: decoded_uop_def untouched_def f(6,7,8,9,10,11))
      moreover have "dest \<noteq> INVALID_PHYSREG" if w: "d_writes_rd (u_dec u)"
      proof -
        have "dest \<in> {1..<fl_capacity (c_free_list c)}" "fl_capacity (c_free_list c) \<le> uint32_max"
          using regs_inv_members(7) [OF core(1)] reg [OF w] core(1) by (blast, simp add: regs_inv_def)
        then show ?thesis by (simp add: INVALID_PHYSREG_def)
      qed
      ultimately show ?thesis by (simp add: shaped_def s_def f(6,14))
    qed
    ultimately show ?thesis by (simp add: f(1) idle)
  qed
  have P3: "front_shaped c'" using fl q by (simp add: flow_def front_shaped_def f(18,19))
  have P4: "sources (c_arch_rat c') (in_flight c')"
    using src core(2) by (auto simp: sources_def cm(2) f(1,6,12,13) nth_append less_Suc_eq)
  have P5: "woken (c_prf c') (in_flight c') (iq_entries (c_iq c'))"
    unfolding woken_def f(16)
  proof
    fix e assume e: "e \<in> set (iq_entries (c_iq c))"
    then obtain x where x: "x \<in> set (in_flight c)" "u_seq x = iq_seq e" "u_src1 x = iq_src1 e" "u_src2 x = iq_src2 e"
      and r: "iq_src1_ready e \<longrightarrow> prf_is_ready (c_prf c) (iq_src1 e)" "iq_src2_ready e \<longrightarrow> prf_is_ready (c_prf c) (iq_src2 e)"
      using fl by (force simp: flow_def woken_def)
    have "prf_is_ready (c_prf c') (iq_src1 e) = prf_is_ready (c_prf c) (iq_src1 e)"
      "prf_is_ready (c_prf c') (iq_src2 e) = prf_is_ready (c_prf c) (iq_src2 e)"
      using nosrc(1,2) [OF x(1)] x(3,4) by (auto intro!: mf)
    with x r show "(iq_src1_ready e \<longrightarrow> prf_is_ready (c_prf c') (iq_src1 e)) \<and>
        (iq_src2_ready e \<longrightarrow> prf_is_ready (c_prf c') (iq_src2 e)) \<and>
        (\<exists>u \<in> set (in_flight c'). u_seq u = iq_seq e \<and> u_src1 u = iq_src1 e \<and> u_src2 u = iq_src2 e)"
      by (auto simp: f(1))
  qed
  have P6: "dests_pending (unfinished c') (in_flight c') (c_prf c')"
    unfolding dests_pending_def
  proof (intro ballI impI)
    fix x assume x: "x \<in> set (in_flight c')" "u_dest x \<noteq> INVALID_PHYSREG \<and> u_seq x \<in> unfinished c'"
    show "\<not> prf_is_ready (c_prf c') (u_dest x)"
    proof (cases "x \<in> set (in_flight c)")
      case True
      then have "\<not> prf_is_ready (c_prf c) (u_dest x)"
        using fl x(2) new [OF True] by (auto simp: flow_def dests_pending_def f(4) s_def)
      then show ?thesis using nosrc(3) [OF True] by (auto simp: mf)
    next
      case False
      then have "u_dest x = dest" "d_writes_rd (u_dec u)" using x by (auto simp: f(1,14) split: if_splits)
      moreover have "dest \<noteq> 0" "dest < length (prf_ready (c_prf c))"
      proof -
        have "dest \<in> {1..<fl_capacity (c_free_list c)}"
          using regs_inv_members(7) [OF core(1)] reg calculation(2) by blast
        then show "dest \<noteq> 0" "dest < length (prf_ready (c_prf c))" using fl by (simp_all add: flow_def prf_sized_def)
      qed
      ultimately show ?thesis by (simp add: f(15) mark_pending_frame(3))
    qed
  qed
  have P7: "prf_sized (c_prf c') (c_free_list c')"
    using fl by (simp add: flow_def f(15) prf_sized_def f(25) prf_mark_pending_def)
  have keys: "map front_key (stream c') = map front_key (stream c)"
    using q by (simp add: stream_def f(1,5,18,19))
  have P8: "fetch_ok G (retired c') (stream c')" using fl fetch_ok_key [OF keys] by (simp add: flow_def f(24))
  have P9: "data_ok G (retired c') (idle c') (unfinished c') (in_flight c') (c_prf c')"
    unfolding data_ok_def
  proof (intro allI impI)
    fix k assume k: "k < length (in_flight c')" "right G (retired c') (in_flight c') k"
    show "(u_seq (in_flight c' ! k) \<notin> idle c' \<longrightarrow> executed (G (retired c' + k)) (in_flight c' ! k)) \<and>
      (u_seq (in_flight c' ! k) \<notin> unfinished c' \<and> u_dest (in_flight c' ! k) \<noteq> INVALID_PHYSREG \<longrightarrow>
        prf_read (c_prf c') (u_dest (in_flight c' ! k)) = u_result (in_flight c' ! k))"
    proof (cases "k < length (in_flight c)")
      case True
      with k(2) have "right G (retired c) (in_flight c) k" by (simp add: f(1,24) right_append)
      with fl True show ?thesis by (simp add: flow_def data_ok_def f(1,4,24) idle read nth_append)
    next
      case False
      with k(1) have "in_flight c' ! k = u'" by (simp add: f(1) nth_append)
      then show ?thesis by (simp add: idle f(4) s_def)
    qed
  qed
  have P10: "seats (idle c') (dispatched c') (c_lsq c')"
  proof -
    have "set (dispatched c) \<subseteq> set (in_flight c)" by (simp add: dispatched_def set_take_subset)
    then show ?thesis
      using fl new unfolding disp f(20) by (auto simp: flow_def idle intro: seats_idle)
  qed
  have P11: "synced G c'"
    using fl by (simp add: flow_def synced_def f(24) cm cpu_regs_def read)
  have "pcs c' = pcs c" using front_key_maps(1) [OF keys] by (simp add: pcs_def f(21,22))
  moreover have "outs c' = outs c"
  proof -
    have "map (leads (insert s (idle c))) (in_flight c) = map (leads (idle c)) (in_flight c)"
      using new by (simp add: leads_def)
    moreover have "leads (insert s (idle c)) u' = predicted_pc u" using f(5) by (simp add: leads_def s_def front_key_def)
    ultimately show ?thesis using q by (simp add: outs_def f(1,18,19) idle)
  qed
  ultimately have "chained (length (stream c')) c'"
    using c(3) arg_cong [OF keys, of length] by (simp add: flowing_def chained_def cm(3))
  then show ?thesis
    using P1 P2 P3 P4 P5 P6 P7 P8 P9 P10 P11 by (simp add: flowing_def flow_def flip: c'_def)
qed

lemma whole_flowing_stall [simp]:
  "flowing G (cpu_stall s c) = flowing G c" "flowing G (upd_obs f c) = flowing G c"
  by (rule flowing_whole; simp)+

lemma rename_one_flow:
  assumes c: "core c" "\<not> lost c" "flowing G c"
  shows "flowing G (fst (rename_one c))"
proof (rule ccontr)
  assume bad: "\<not> flowing G (fst (rename_one c))"
  obtain u rest dest c1 where q: "c_decode_q c = u # rest" "\<not> rob_full (c_rob c)"
      "\<not> (d_is_branch (u_dec u) \<and> cp_free (c_ckpts c) = [])"
      "take_dest (d_writes_rd (u_dec u)) c = Some (dest, c1)"
      "fst (rename_one c) = rename_uop dest u (c1\<lparr>c_decode_q := rest\<rparr>)"
    using bad c(3) by (auto simp: rename_one_def split: list.splits if_splits option.splits)
  then show False using rename_uop_flow [OF c q(1,2) _ q(4)] bad by simp
qed

section \<open>Bookkeeping fields of a uop\<close>

text \<open>Timestamps, the writeback cycle and the queue seat play no part in the data flow.\<close>

definition strip :: "Uop \<Rightarrow> Uop" where
  "strip u = u\<lparr>u_at := u_at default_uop, u_lsq_idx := 0, u_wb_cycle := 0\<rparr>"

lemma strip_fields [simp]:
  "u_seq (strip u) = u_seq u" "u_rob (strip u) = u_rob u" "u_pc (strip u) = u_pc u" "u_raw (strip u) = u_raw u"
  "u_dec (strip u) = u_dec u" "u_src1 (strip u) = u_src1 u" "u_src2 (strip u) = u_src2 u" "u_dest (strip u) = u_dest u"
  "u_val1 (strip u) = u_val1 u" "u_val2 (strip u) = u_val2 u" "u_result (strip u) = u_result u"
  "u_has_result (strip u) = u_has_result u" "u_next_pc (strip u) = u_next_pc u" "u_trap (strip u) = u_trap u"
  "predicted_pc (strip u) = predicted_pc u" "uop_view (strip u) = uop_view u"
  by (simp_all add: strip_def predicted_pc_def uop_view_def)

lemma strip_preds [simp]:
  "shaped I (strip u) = shaped I u" "on_path ms (strip u) = on_path ms u" "fetched ms (strip u) = fetched ms u"
  "executed ms (strip u) = executed ms u" "leads I (strip u) = leads I u" "front_key (strip u) = front_key u"
  by (simp_all add: shaped_def decoded_uop_def untouched_def on_path_def fetched_def executed_def operands_right_def
      agrees_def ref_effect_def leads_def front_key_def)

lemma right_strip: "k < length us \<Longrightarrow> right G n (map strip us) k = right G n us k"
  by (auto simp: right_def)

lemma strip_lists:
  "sources arch (map strip us) = sources arch us" "woken p (map strip us) ents = woken p us ents"
  "dests_pending U (map strip us) p = dests_pending U us p" "data_ok G n I U (map strip us) p = data_ok G n I U us p"
  by (simp_all add: sources_def woken_def dests_pending_def data_ok_def right_strip take_map comp_def)

lemma strip_eq:
  assumes "map strip us = map strip vs"
  shows "sources arch us = sources arch vs" "woken p us ents = woken p vs ents"
    "dests_pending U us p = dests_pending U vs p" "data_ok G n I U us p = data_ok G n I U vs p"
    "(\<forall>u \<in> set us. shaped I u) = (\<forall>u \<in> set vs. shaped I u)" "map (leads I) us = map (leads I) vs"
    "map front_key us = map front_key vs" "map u_seq us = map u_seq vs" "map uop_view us = map uop_view vs" "length us = length vs"
proof -
  have f: "map f us = map f vs" if "\<And>u. f (strip u) = f u" for f :: "Uop \<Rightarrow> 'a"
    using arg_cong [OF assms, of "map f"] that by (simp add: comp_def)
  show "sources arch us = sources arch vs" "woken p us ents = woken p vs ents"
    "dests_pending U us p = dests_pending U vs p" "data_ok G n I U us p = data_ok G n I U vs p"
    using assms by (metis strip_lists)+
  show "(\<forall>u \<in> set us. shaped I u) = (\<forall>u \<in> set vs. shaped I u)"
    using arg_cong [OF f [of "shaped I"], of "\<lambda>bs. list_all id bs"] by (simp add: list_all_iff)
  show "map (leads I) us = map (leads I) vs" "map front_key us = map front_key vs" "map u_seq us = map u_seq vs"
    "map uop_view us = map uop_view vs" by (rule f; simp)+
  show "length us = length vs" using assms by (metis length_map)
qed

lemma flow_parts:
  assumes "flow G c"
  shows "in_flight c = dispatched c @ c_rename_q c" "\<And>u. u \<in># work c \<Longrightarrow> u \<in> set (in_flight c)"
    "\<And>u. u \<in> set (in_flight c) \<Longrightarrow> shaped (idle c) u" "front_shaped c"
    "sources (c_arch_rat c) (in_flight c)" "woken (c_prf c) (in_flight c) (iq_entries (c_iq c))"
    "dests_pending (unfinished c) (in_flight c) (c_prf c)" "prf_sized (c_prf c) (c_free_list c)"
    "fetch_ok G (retired c) (stream c)"
    "data_ok G (retired c) (idle c) (unfinished c) (in_flight c) (c_prf c)"
    "seats (idle c) (dispatched c) (c_lsq c)" "synced G c"
  using assms unfolding flow_def payloads_def by blast+

text \<open>A step that moves a uop without computing.\<close>

lemma flow_moved:
  assumes c: "flowing G c" and m: "map strip (in_flight c') = map strip (in_flight c)"
    "idle c' = idle c" "unfinished c' = unfinished c" "c_prf c' = c_prf c" "c_decode_q c' = c_decode_q c"
    "c_fetch_q c' = c_fetch_q c" "committed c' = committed c" "retired c' = retired c"
    "fl_capacity (c_free_list c') = fl_capacity (c_free_list c)" "c_pc c' = c_pc c" "c_fetch_stalled c' = c_fetch_stalled c"
    and new: "payloads c'" "woken (c_prf c') (in_flight c') (iq_entries (c_iq c'))" "seats (idle c') (dispatched c') (c_lsq c')"
  shows "flowing G c'"
proof -
  note e = strip_eq [OF m(1)] and cm = committed_eqs [OF m(7)]
  have fl: "flow G c" using c by (simp add: flowing_def)
  have keys: "map front_key (stream c') = map front_key (stream c)" by (simp add: stream_def e(7) m(5,6))
  have "fetch_ok G (retired c') (stream c')" using fl fetch_ok_key [OF keys] by (simp add: flow_def m(8))
  then have "flow G c'"
    using fl new by (simp add: flow_def e(1,3,4,5) m(2-6,8) cm(2))
      (simp add: front_shaped_def prf_sized_def synced_def cpu_regs_def m(4,5,6,8,9) cm)
  moreover have "pcs c' = pcs c" "outs c' = outs c"
    using front_key_maps(1) [OF keys] by (simp_all add: pcs_def outs_def e(6) m(2,5,6,10,11))
  then have "chained (length (stream c')) c'"
    using c arg_cong [OF keys, of length] by (simp add: flowing_def chained_def cm(3))
  ultimately show ?thesis by (simp add: flowing_def)
qed

section \<open>Dispatch\<close>

lemma take_seat_form:
  assumes "take_seat u c = Inr (u', c')"
  obtains i l where "u' = u\<lparr>u_lsq_idx := i\<rparr>" "c' = c\<lparr>c_lsq := l\<rparr>"
proof -
  have "u' = u\<lparr>u_lsq_idx := u_lsq_idx u'\<rparr>" "c' = c\<lparr>c_lsq := c_lsq c'\<rparr>"
    using assms by (auto simp: take_seat_def split: if_splits option.splits)
  then show thesis by (rule that)
qed

lemma take_seat_seats:
  assumes t: "take_seat u c = Inr (u', c')" and s: "seats I ds (c_lsq c)" "wf_decoded (u_dec u)" "u_seq u \<in> I"
  shows "seats I (ds @ [u']) (c_lsq c')"
proof -
  have excl: "d_is_load (u_dec u) \<Longrightarrow> \<not> d_is_store (u_dec u)" using s(2) by (auto simp: wf_decoded_def)
  consider (load) "d_is_load (u_dec u)" | (store) "\<not> d_is_load (u_dec u)" "d_is_store (u_dec u)"
    | (other) "\<not> d_is_load (u_dec u)" "\<not> d_is_store (u_dec u)" by blast
  then show ?thesis
  proof cases
    case load
    then show ?thesis
      using t s excl by (intro seats_dispatch_load [of I ds "c_lsq c"]) (auto simp: take_seat_def split: option.splits)
  next
    case store
    then show ?thesis
      using t s by (intro seats_dispatch_store [of I ds "c_lsq c"]) (auto simp: take_seat_def split: option.splits)
  next
    case other
    then show ?thesis using t s by (simp add: take_seat_def seats_dispatch_other)
  qed
qed

text \<open>What a dispatch does to the fields the invariant reads.\<close>

lemma dispatch_fields:
  assumes c: "core c" "flow G c"
  obtains (same) "whole (fst (dispatch_one c)) = whole c"
  | (seat) u u1 rest d where "whole (fst (dispatch_one c)) = whole d" "c_rename_q c = u # rest" "c_rename_q d = rest"
      "in_flight c = dispatched c @ u # rest" "in_flight d = dispatched c @ u1 # rest" "dispatched d = dispatched c @ [u1]"
      "strip u1 = strip u" "iq_entries (c_iq d) = iq_entries (c_iq c) @ [iq_entry_of (c_prf c) (c_cfg c) u1]"
      "idle d = idle c" "unfinished d = unfinished c" "work d = work c" "c_prf d = c_prf c" "c_decode_q d = c_decode_q c"
      "c_fetch_q d = c_fetch_q c" "committed d = committed c" "retired d = retired c"
      "fl_capacity (c_free_list d) = fl_capacity (c_free_list c)" "c_pc d = c_pc c" "c_fetch_stalled d = c_fetch_stalled c"
      "seats (idle d) (dispatched d) (c_lsq d)"
proof (cases rule: dispatch_one_cases [of c])
  case idle
  then show thesis using same by simp
next
  case (stall s)
  then show thesis using same by simp
next
  case (seat u rest u' c')
  define u1 where "u1 = u'\<lparr>u_at := (u_at u')\<lparr>at_dispatch := c_cycle c'\<rparr>\<rparr>"
  define e where "e = iq_entry_of (c_prf c') (c_cfg c') u1"
  define d where "d = c'\<lparr>c_rename_q := rest, c_inflight := (c_inflight c')[u_rob u1 := u1], c_iq := iq_insert e (c_iq c')\<rparr>"
  have "fst (dispatch_one c) = upd_stats (\<lambda>s. s\<lparr>st_dispatched := st_dispatched s + 1\<rparr>) d"
    by (simp add: seat(3) Let_def d_def u1_def e_def)
  then have out: "whole (fst (dispatch_one c)) = whole d" by (simp add: whole_def)
  note fl = flow_parts [OF c(2)] and fc = in_flight_core [OF c(1)] and core = core_facts [OF c(1)]
  obtain i l where f: "u' = u\<lparr>u_lsq_idx := i\<rparr>" "c' = c\<lparr>c_lsq := l\<rparr>" by (rule take_seat_form [OF seat(2)])
  define k where "k = length (dispatched c)"
  have us: "in_flight c = dispatched c @ u # rest" using fl(1) seat(1) by simp
  have k: "k < length (in_flight c)" "in_flight c ! k = u" by (simp_all add: us k_def)
  have u: "live (c_rob c) k u" using fc(4) [OF k(1)] k(2) by simp
  have wf: "wf_decoded (u_dec u)" using fc(7) by (simp add: us)
  have strip: "strip u1 = strip u" by (simp add: strip_def u1_def f(1))
  have key: "u_seq u1 = u_seq u" "u_rob u1 = rob_nth (c_rob c) k" using u by (simp_all add: u1_def f(1) live_def)
  have idle: "idle d = idle c"
    by (auto simp: idle_def d_def f(2) seat(1) iq_insert_def e_def iq_entry_of_def key(1))
  have infl: "in_flight d = dispatched c @ u1 # rest"
  proof -
    have "in_flight d = (in_flight c)[k := u1]"
      using uops_update [OF core(3) _ core(4)] k(1) fc(3) by (simp add: in_flight_def d_def f(2) key(2))
    then show ?thesis by (simp add: us k_def)
  qed
  then have disp: "dispatched d = dispatched c @ [u1]" by (simp add: dispatched_def [of d]) (simp add: d_def)
  have rest: "c_rename_q d = rest" "iq_entries (c_iq d) = iq_entries (c_iq c) @ [iq_entry_of (c_prf c) (c_cfg c) u1]"
    "unfinished d = unfinished c" "work d = work c" "c_prf d = c_prf c" "c_decode_q d = c_decode_q c" "c_fetch_q d = c_fetch_q c"
    "committed d = committed c" "retired d = retired c" "fl_capacity (c_free_list d) = fl_capacity (c_free_list c)"
    "c_pc d = c_pc c" "c_fetch_stalled d = c_fetch_stalled c"
    by (simp_all add: d_def f(2) unfinished_def committed_def work_def iq_insert_def e_def)
  have seats: "seats (idle d) (dispatched d) (c_lsq d)"
    using take_seat_seats [OF seat(2) fl(11) wf] core(8) seat(1)
      seats_payload [where ds = "dispatched c" and es = "[]" and u = u' and u' = u1 and l = "c_lsq c'"]
    by (simp add: idle disp) (simp add: u1_def seat_view_def d_def)
  show thesis
    by (rule that(2) [OF out seat(1) rest(1) us infl disp strip rest(2) idle rest(3-) seats])
qed

lemma dispatch_one_flow:
  assumes c: "core c" "flowing G c"
  shows "flowing G (fst (dispatch_one c))"
proof (cases rule: dispatch_fields [OF c(1) c(2) [unfolded flowing_def, THEN conjunct1]])
  case 1
  then show ?thesis using c(2) flowing_whole by blast
next
  case (2 u u1 rest d)
  note fl = flow_parts [OF c(2) [unfolded flowing_def, THEN conjunct1]]
  note out = 2(1) and q = 2(2,3) and us = 2(4-7)
  have "flowing G d"
  proof (rule flow_moved [OF c(2)])
    show "map strip (in_flight d) = map strip (in_flight c)" by (simp add: us)
    have "v \<in> set (in_flight d)" if w: "v \<in># work c" for v
    proof -
      have "v \<noteq> u"
      proof
        assume "v = u"
        then have "u_seq u \<in> u_seq ` set_mset (work c)" using w by blast
        moreover have "\<forall>s \<in> u_seq ` set_mset (work c). s < u_seq u"
          using c(1) q(1) by (simp add: core_def waits_def waiting_def)
        ultimately show False by blast
      qed
      then show ?thesis using fl(2) [OF w] by (auto simp: us)
    qed
    then show "payloads d" by (simp add: payloads_def us q(2) 2(11))
    have "woken (c_prf c) (in_flight d) (iq_entries (c_iq c))"
      using fl(6) strip_eq(2) [of "in_flight d" "in_flight c"] by (simp add: us)
    moreover have "woken (c_prf c) (in_flight d) [iq_entry_of (c_prf c) (c_cfg c) u1]"
      by (auto simp: woken_def iq_entry_of_def us)
    ultimately show "woken (c_prf d) (in_flight d) (iq_entries (c_iq d))"
      by (simp add: woken_def 2(8,12) ball_Un)
  qed (rule 2)+
  then show ?thesis using flowing_whole [OF out] by simp
qed

end
