(* ===== verification/Execution.thy ===== *)
theory Execution
  imports Flow
begin

text \<open>
  The back end under the data-flow invariant: a result written back is the reference's, an issuing
  instruction reads the reference's operands, and recovery puts fetch back on the path.
\<close>

section \<open>Where uops are\<close>

lemma distinct_map_filter_inj:
  assumes "distinct (map f (filter P xs))" "i < length xs" "j < length xs" "P (xs ! i)" "P (xs ! j)" "f (xs ! i) = f (xs ! j)"
  shows "i = j"
  using assms
proof (induction xs arbitrary: i j)
  case Nil
  then show ?case by simp
next
  case (Cons x xs)
  have notin: "f (xs ! m) \<noteq> f x" if "P x" "P (xs ! m)" "m < length xs" for m
  proof -
    have "xs ! m \<in> set (filter P xs)" using that by simp
    moreover have "f x \<notin> f ` set (filter P xs)" using Cons.prems(1) that(1) by simp
    ultimately show ?thesis by (metis imageI)
  qed
  have rest: "distinct (map f (filter P xs))" using Cons.prems(1) by (simp split: if_splits)
  show ?case
  proof (cases i)
    case 0
    then show ?thesis using Cons.prems(2-) notin [of "j - 1"] by (cases j) auto
  next
    case (Suc m)
    then show ?thesis using Cons.prems(2-) notin [of m] Cons.IH [OF rest, of m "j - 1"] by (cases j) auto
  qed
qed

lemma dest_unique:
  assumes "core c" "i < length (in_flight c)" "j < length (in_flight c)"
    "u_dest (in_flight c ! i) \<noteq> INVALID_PHYSREG" "u_dest (in_flight c ! i) = u_dest (in_flight c ! j)"
  shows "i = j"
proof -
  have "distinct (dests (map uop_view (in_flight c)))" by (rule regs_inv_members(2) [OF core_facts(1) [OF assms(1)]])
  then have d: "distinct (map v_dest (filter v_writes (map uop_view (in_flight c))))" by (simp add: dests_def)
  show ?thesis
    by (rule distinct_map_filter_inj [OF d]) (use assms in \<open>simp_all add: v_writes_def uop_view_def\<close>)
qed

lemma seq_unique:
  "core c \<Longrightarrow> i < length (in_flight c) \<Longrightarrow> j < length (in_flight c) \<Longrightarrow>
   u_seq (in_flight c ! i) = u_seq (in_flight c ! j) \<Longrightarrow> i = j"
  using in_flight_core(6) [of c] by (metis length_map nth_eq_iff_index_eq nth_map)

lemma same_seq_uop:
  "core c \<Longrightarrow> u \<in> set (in_flight c) \<Longrightarrow> v \<in> set (in_flight c) \<Longrightarrow> u_seq u = u_seq v \<Longrightarrow> u = v"
  using seq_unique by (metis in_set_conv_nth)

text \<open>Issued work is not idle, and no two pieces of it are the same uop.\<close>

lemma work_apart:
  assumes "core c" "work c = add_mset u W"
  shows "u_seq u \<notin> idle c" "u_seq u \<notin> u_seq ` set_mset W" "u_seq u \<in> unfinished c"
proof -
  have w: "waiting (c_rob c) (c_rename_q c) (iq_entries (c_iq c)) (add_mset u W)"
    and os: "order_state (c_rob c) (st_renamed (c_stats c))"
    using assms by (simp_all add: core_def waits_def ordered_def)
  obtain ws where ws: "mset ws = W" using ex_mset by blast
  with w have "mset (map u_seq (c_rename_q c) @ map iq_seq (iq_entries (c_iq c)) @ u_seq u # map u_seq ws) =
      mset (open_seqs (c_rob c))"
    by (auto simp: waiting_def add.assoc)
  then have "distinct (map u_seq (c_rename_q c) @ map iq_seq (iq_entries (c_iq c)) @ u_seq u # map u_seq ws)"
    using open_distinct [OF os] mset_eq_imp_distinct_iff by blast
  then show "u_seq u \<notin> idle c" "u_seq u \<notin> u_seq ` set_mset W"
    using ws by (auto simp: idle_def)
  show "u_seq u \<in> unfinished c" using core_facts(6) [OF assms(1)] assms(2) by auto
qed

section \<open>Execute\<close>

lemma execute_whole: "whole (execute c) = whole c"
proof -
  have frame: "kill_rest ((execute_scan us still c)\<lparr>c_executing := x, c_wb_fast := y, c_wb_slow := z\<rparr>) =
      kill_rest (c\<lparr>c_executing := x, c_wb_fast := y, c_wb_slow := z\<rparr>)" for us still x y z
    by (induction us arbitrary: still c) (simp_all add: kill_rest_def)
  have rest: "c_free_list (execute_scan us still c) = c_free_list c" "c_ckpts (execute_scan us still c) = c_ckpts c"
    "c_prf (execute_scan us still c) = c_prf c" "c_lsq (execute_scan us still c) = c_lsq c"
    "c_pc (execute_scan us still c) = c_pc c" "c_fetch_stalled (execute_scan us still c) = c_fetch_stalled c"
    for us still by (induction us arbitrary: still c) simp_all
  have "work (execute c) = work c"
    using execute_scan_work [of "c_executing c" "[]" c] by (simp add: execute_def work_def)
  moreover have "committed (execute c) = committed c" by (simp add: execute_def)
  ultimately show ?thesis
    using frame [of "c_executing c" "[]", unfolded kill_rest_def, simplified]
    by (simp add: execute_def whole_def essence_def rest)
qed

section \<open>Writeback\<close>

lemma complete_prf:
  assumes c: "core c" "flow G c" and u: "u \<in># work c"
  shows "c_prf (complete u c) =
    (if u_dest u \<noteq> INVALID_PHYSREG then prf_write (c_prf c) (u_dest u) (u_result u) else c_prf c)"
proof -
  obtain W where W: "work c = add_mset u W" using u by (metis insert_DiffM)
  have in_us: "u \<in> set (in_flight c)" by (rule flow_parts(2) [OF c(2) u])
  then obtain k where k: "k < length (in_flight c)" "u = in_flight c ! k" by (auto simp: in_set_conv_nth)
  have "shaped (idle c) u" by (rule flow_parts(3) [OF c(2) in_us])
  then have sh: "decoded_uop u" "d_writes_rd (u_dec u) \<longrightarrow> u_has_result u"
    using work_apart(1) [OF c(1) W] by (simp_all add: shaped_def)
  have "u_dest u \<noteq> INVALID_PHYSREG \<longrightarrow> d_writes_rd (u_dec u)" "wf_decoded (u_dec u)"
    using in_flight_core(4) [OF c(1) k(1)] k(2) by (simp_all add: live_def)
  moreover have "op_writes_rd (d_op (u_dec u)) \<longrightarrow> d_op (u_dec u) \<noteq> Op_INVALID"
    by (auto simp: op_writes_rd_def kind_of_op_def)
  ultimately show ?thesis
    using sh by (auto simp: complete_def Let_def obs_defs decoded_uop_def wf_decoded_def)
qed

text \<open>Every field the invariant reads, after a result has been written back.\<close>

lemma complete_rest:
  fixes u c x y z
  defines "d \<equiv> (complete u c)\<lparr>c_executing := x, c_wb_fast := y, c_wb_slow := z\<rparr>"
  shows "c_rename_q d = c_rename_q c" "c_decode_q d = c_decode_q c" "c_fetch_q d = c_fetch_q c" "c_lsq d = c_lsq c"
    "c_pc d = c_pc c" "c_fetch_stalled d = c_fetch_stalled c" "committed d = committed c" "retired d = retired c"
    "c_free_list d = c_free_list c" "work d = mset x + mset y + mset z"
    "iq_entries (c_iq d) = (if u_dest u = INVALID_PHYSREG then iq_entries (c_iq c)
      else map (wake_entry (u_dest u)) (iq_entries (c_iq c)))" "idle d = idle c"
proof -
  show "c_rename_q d = c_rename_q c" "c_decode_q d = c_decode_q c" "c_fetch_q d = c_fetch_q c" "c_lsq d = c_lsq c"
    "c_pc d = c_pc c" "c_fetch_stalled d = c_fetch_stalled c" "committed d = committed c" "retired d = retired c"
    "c_free_list d = c_free_list c" "work d = mset x + mset y + mset z"
    by (simp_all add: d_def complete_def Let_def obs_defs committed_def work_def)
  then have q: "c_rename_q d = c_rename_q c" by blast
  show ents: "iq_entries (c_iq d) = (if u_dest u = INVALID_PHYSREG then iq_entries (c_iq c)
      else map (wake_entry (u_dest u)) (iq_entries (c_iq c)))"
    by (simp add: d_def complete_fields(3) iq_wakeup_def)
  show "idle d = idle c" by (simp add: idle_def ents image_image q)
qed

lemma complete_facts:
  assumes c: "core c" "flow G c" and u: "work c = add_mset u (mset x + mset y + mset z)"
  defines "d \<equiv> (complete u c)\<lparr>c_executing := x, c_wb_fast := y, c_wb_slow := z\<rparr>"
    and "u1 \<equiv> u\<lparr>u_at := (u_at u)\<lparr>at_complete := c_cycle c\<rparr>\<rparr>"
  obtains k where "k < length (in_flight c)" "k < length (dispatched c)" "in_flight c ! k = u" "dispatched c ! k = u"
    "in_flight d = (in_flight c)[k := u1]" "dispatched d = (dispatched c)[k := u1]"
    "unfinished d = unfinished c - {u_seq u}"
    "c_prf d = (if u_dest u \<noteq> INVALID_PHYSREG then prf_write (c_prf c) (u_dest u) (u_result u) else c_prf c)"
    "\<And>q. prf_is_ready (c_prf d) q \<longleftrightarrow> prf_is_ready (c_prf c) q \<or> u_dest u \<noteq> INVALID_PHYSREG \<and> q = u_dest u"
    "u_dest u \<noteq> INVALID_PHYSREG \<Longrightarrow> prf_read (c_prf d) (u_dest u) = u_result u"
proof -
  note p = flow_parts [OF c(2)] and core = core_facts [OF c(1)] and fc = in_flight_core [OF c(1)]
  have w: "u \<in># work c" by (simp add: u)
  note apart = work_apart [OF c(1) u]
  obtain k where k: "k < length (in_flight c)" "in_flight c ! k = u"
    using p(2) [OF w] by (auto simp: in_set_conv_nth)
  have live: "live (c_rob c) k u" using fc(4) [OF k(1)] k(2) by simp
  have kc: "k < rob_count (c_rob c)" "u_rob u = rob_nth (c_rob c) k" using live by (simp_all add: live_def)
  have infl: "in_flight d = (in_flight c)[k := u1]"
    using uops_update [OF core(3) kc(1) core(4)] kc(2) complete_fields(1,2) [of u c]
    by (simp add: in_flight_def u1_def d_def)
  have pregs: "c_prf d = (if u_dest u \<noteq> INVALID_PHYSREG then prf_write (c_prf c) (u_dest u) (u_result u) else c_prf c)"
    using complete_prf [OF c w] by (simp add: d_def)
  have dest: "0 < u_dest u" "u_dest u < fl_capacity (c_free_list c)" if "u_dest u \<noteq> INVALID_PHYSREG"
  proof -
    have "u_dest u \<in> set (dests (map uop_view (in_flight c)))"
      using nth_mem [OF k(1)] k(2) that by (force simp: dests_def v_writes_def uop_view_def)
    then have "u_dest u \<in> {1..<fl_capacity (c_free_list c)}" using regs_inv_members(7) [OF core(1)] by blast
    then show "0 < u_dest u" "u_dest u < fl_capacity (c_free_list c)" by simp_all
  qed
  have sized: "length (prf_values (c_prf c)) = fl_capacity (c_free_list c)" "length (prf_ready (c_prf c)) = fl_capacity (c_free_list c)"
    using p(8) by (simp_all add: prf_sized_def)
  have ready: "prf_is_ready (c_prf d) q \<longleftrightarrow> prf_is_ready (c_prf c) q \<or> u_dest u \<noteq> INVALID_PHYSREG \<and> q = u_dest u" for q
    using dest sized by (auto simp: pregs prf_is_ready_def prf_write_def nth_list_update)
  have own: "u_dest u \<noteq> INVALID_PHYSREG \<Longrightarrow> prf_read (c_prf d) (u_dest u) = u_result u"
    using dest sized by (simp add: pregs prf_read_def prf_write_def)
  have unf: "unfinished d = unfinished c - {u_seq u}"
  proof -
    have os: "order_state (c_rob c) (st_renamed (c_stats c))" using c(1) by (simp add: core_def ordered_def)
    have s: "u_seq u = seqs (c_rob c) ! k" using live_seqs [OF live] by simp
    have "u_seq u \<in> set (open_seqs (c_rob c))" using apart(3) by (simp add: unfinished_def)
    then obtain j where "j < rob_count (c_rob c)" "u_seq u = seqs (c_rob c) ! j" "\<not> re_complete (rob_list (c_rob c) ! j)"
      by (auto simp: open_seqs_def in_set_conv_nth seqs_def)
    then have "\<not> re_complete (rob_list (c_rob c) ! k)" using seqs_inj [OF os] kc(1) s by metis
    from open_seqs_complete [OF core(3) os kc(1) this]
    have m: "mset (open_seqs (c_rob c)) = add_mset (u_seq u) (mset (open_seqs (c_rob d)))"
      using complete_fields(1) [of u c] by (simp add: kc(2) d_def s)
    then have "distinct (u_seq u # open_seqs (c_rob d))"
      using open_distinct [OF os] mset_eq_imp_distinct_iff [of "open_seqs (c_rob c)" "u_seq u # open_seqs (c_rob d)"] by simp
    moreover have "set (open_seqs (c_rob c)) = insert (u_seq u) (set (open_seqs (c_rob d)))"
      using arg_cong [OF m, of set_mset] by simp
    ultimately show ?thesis by (auto simp: unfinished_def)
  qed
  have disp: "dispatched d = (dispatched c)[k := u1]"
  proof -
    have "length (c_rename_q c) \<le> length (in_flight c)" using arg_cong [OF p(1), of length] by simp
    then show ?thesis using complete_rest(1) [where u = u and c = c and x = x and y = y and z = z] by (simp add: dispatched_def infl take_update_swap flip: d_def)
  qed
  have at: "in_flight c ! k = (dispatched c @ c_rename_q c) ! k" using p(1) by simp
  have kd: "k < length (dispatched c)"
  proof (rule ccontr)
    assume "\<not> k < length (dispatched c)"
    moreover have "k < length (dispatched c) + length (c_rename_q c)" using k(1) arg_cong [OF p(1), of length] by simp
    ultimately have "u \<in> set (c_rename_q c)" using k(2) by (auto simp: at nth_append intro: nth_mem)
    then show False using apart(1) by (auto simp: idle_def)
  qed
  show thesis
    by (rule that [OF k(1) kd k(2) _ infl disp unf pregs ready own]) (use at k(2) kd in \<open>simp add: nth_append\<close>)
qed

lemma complete_flow:
  assumes c: "core c" "flowing G c" and u: "work c = add_mset u (mset x + mset y + mset z)"
  shows "flowing G ((complete u c)\<lparr>c_executing := x, c_wb_fast := y, c_wb_slow := z\<rparr>)"
proof -
  define d where "d = (complete u c)\<lparr>c_executing := x, c_wb_fast := y, c_wb_slow := z\<rparr>"
  define u1 where "u1 = u\<lparr>u_at := (u_at u)\<lparr>at_complete := c_cycle c\<rparr>\<rparr>"
  have fl: "flow G c" using c(2) by (simp add: flowing_def)
  note p = flow_parts [OF fl]
  have w: "u \<in># work c" by (simp add: u)
  note apart = work_apart [OF c(1) u] and rest = complete_rest [where u = u and c = c and x = x and y = y and z = z, folded d_def]
  obtain k where k: "k < length (in_flight c)" "k < length (dispatched c)" "in_flight c ! k = u" "dispatched c ! k = u"
    and infl: "in_flight d = (in_flight c)[k := u1]" and disp: "dispatched d = (dispatched c)[k := u1]"
    and unf: "unfinished d = unfinished c - {u_seq u}"
    and pregs: "c_prf d = (if u_dest u \<noteq> INVALID_PHYSREG then prf_write (c_prf c) (u_dest u) (u_result u) else c_prf c)"
    and ready: "\<And>q. prf_is_ready (c_prf d) q \<longleftrightarrow> prf_is_ready (c_prf c) q \<or> u_dest u \<noteq> INVALID_PHYSREG \<and> q = u_dest u"
    and own: "u_dest u \<noteq> INVALID_PHYSREG \<Longrightarrow> prf_read (c_prf d) (u_dest u) = u_result u"
    by (rule complete_facts [OF c(1) fl u, folded d_def u1_def]) blast
  have strip: "map strip (in_flight d) = map strip (in_flight c)"
    unfolding infl map_update by (rule list_update_same_conv [THEN iffD2]) (use k in \<open>simp_all add: strip_def u1_def\<close>)
  note e = strip_eq [OF strip]
  have read: "prf_read (c_prf d) q = prf_read (c_prf c) q" if "u_dest u = INVALID_PHYSREG \<or> q \<noteq> u_dest u" for q
    using that by (auto simp: pregs prf_read_write_other)
  have other: "u_dest (in_flight c ! j) \<noteq> u_dest u" "u_seq (in_flight c ! j) \<noteq> u_seq u"
    if "j < length (in_flight c)" "j \<noteq> k" "u_dest (in_flight c ! j) \<noteq> INVALID_PHYSREG" for j
    using dest_unique [OF c(1) that(1) k(1) that(3)] seq_unique [OF c(1) that(1) k(1)] that(2) k(3) by auto
  have P6: "dests_pending (unfinished d) (in_flight c) (c_prf d)"
    unfolding dests_pending_def
  proof (intro ballI impI)
    fix v assume v: "v \<in> set (in_flight c)" "u_dest v \<noteq> INVALID_PHYSREG \<and> u_seq v \<in> unfinished d"
    then obtain j where j: "j < length (in_flight c)" "in_flight c ! j = v" by (auto simp: in_set_conv_nth)
    have "j \<noteq> k" using v(2) j(2) k(3) by (auto simp: unf)
    then show "\<not> prf_is_ready (c_prf d) (u_dest v)"
      using other(1) [OF j(1)] v p(7) j(2) by (auto simp: ready dests_pending_def unf)
  qed
  have P9: "data_ok G (retired c) (idle c) (unfinished d) (in_flight c) (c_prf d)"
    unfolding data_ok_def
  proof (intro allI impI conjI)
    fix j assume j: "j < length (in_flight c)" "right G (retired c) (in_flight c) j"
    then show "u_seq (in_flight c ! j) \<notin> idle c \<Longrightarrow> executed (G (retired c + j)) (in_flight c ! j)"
      using p(10) by (simp add: data_ok_def)
    assume v: "u_seq (in_flight c ! j) \<notin> unfinished d \<and> u_dest (in_flight c ! j) \<noteq> INVALID_PHYSREG"
    show "prf_read (c_prf d) (u_dest (in_flight c ! j)) = u_result (in_flight c ! j)"
    proof (cases "j = k")
      case True
      then show ?thesis using v own k(3) by simp
    next
      case False
      then show ?thesis using other [OF j(1) False] v j p(10) by (simp add: read unf data_ok_def)
    qed
  qed
  have P5: "woken (c_prf d) (in_flight c) (iq_entries (c_iq d))"
    using p(6) by (cases "u_dest u = INVALID_PHYSREG") (auto simp: rest(11) woken_def wake_entry_bits ready)
  have "payloads d"
    unfolding payloads_def
  proof (intro conjI ballI)
    have "in_flight d = (dispatched c @ c_rename_q c)[k := u1]" using infl p(1) by simp
    then show "in_flight d = dispatched d @ c_rename_q d" using k(2) by (simp add: disp rest(1) list_update_append1)
    fix v assume v: "v \<in># work d"
    then have v: "v \<in># mset x + mset y + mset z" by (simp only: rest(10))
    then have "u_seq v \<in> u_seq ` set_mset (mset x + mset y + mset z)" by (rule imageI)
    with v have "v \<in># work c" "u_seq v \<noteq> u_seq u" using apart(2) by (simp only: u insert_iff set_mset_add_mset_insert simp_thms, metis)
    moreover from this obtain j where j: "j < length (in_flight c)" "in_flight c ! j = v"
      using p(2) by (metis in_set_conv_nth)
    ultimately have "j \<noteq> k" using k(3) by auto
    then have "in_flight d ! j = v" "j < length (in_flight d)" using j by (simp_all add: infl)
    then show "v \<in> set (in_flight d)" by (metis nth_mem)
  qed
  moreover have "seats (idle d) (dispatched d) (c_lsq d)"
  proof -
    obtain ds es where split: "dispatched c = ds @ u # es" "length ds = k"
      using id_take_nth_drop [OF k(2)] k(2,4) that [of "take k (dispatched c)" "drop (Suc k) (dispatched c)"] by simp
    have "seats (idle c) (ds @ u1 # es) (c_lsq c)"
      using p(11) unfolding split(1) by (rule seats_payload) (simp_all add: u1_def seat_view_def)
    moreover have "(dispatched c)[k := u1] = ds @ u1 # es" using split(2) by (auto simp: split(1) list_update_append)
    ultimately show ?thesis by (simp add: rest(12) disp rest(4))
  qed
  moreover have "synced G d"
  proof -
    have "cpu_regs d = cpu_regs c" unfolding d_def by (rule complete_regs [OF c(1) w])
    then show ?thesis using p(12) by (simp add: synced_def rest(8) committed_eqs [OF rest(7)])
  qed
  moreover have keys: "map front_key (stream d) = map front_key (stream c)"
    by (simp add: stream_def e(7) rest(2,3))
  moreover have "\<forall>v \<in> set (in_flight d). shaped (idle d) v" using p(3) e(5) by (simp add: rest(12))
  ultimately have "flow G d"
    using p(4,5,8,9) P5 P6 P9 fetch_ok_key [OF keys]
    by (simp add: flow_def e(1-4) rest(8,9,12) committed_eqs(2) [OF rest(7)])
      (simp add: front_shaped_def rest(2,3) prf_sized_def pregs prf_write_def)
  moreover have "pcs d = pcs c" "outs d = outs c"
    using front_key_maps(1) [OF keys] by (simp_all add: pcs_def outs_def e(6) rest(2,3,5,6,12))
  then have "chained (length (stream d)) d"
    using c(2) arg_cong [OF keys, of length] by (simp add: flowing_def chained_def committed_eqs(3) [OF rest(7)])
  ultimately show ?thesis by (simp add: flowing_def d_def)
qed

lemma complete_both:
  assumes "core c" "flowing G c" "work c = add_mset u (mset x + mset y + mset z)"
    "whole d = whole ((complete u c)\<lparr>c_executing := x, c_wb_fast := y, c_wb_slow := z\<rparr>)"
  shows "core d" "flowing G d"
proof -
  show "core d" by (rule complete_core [OF assms(1,3) whole_eqs(1) [OF assms(4)] refl])
  show "flowing G d" unfolding flowing_whole [OF assms(4)] by (rule complete_flow [OF assms(1-3)])
qed

lemma drain_fast_flow:
  "core c \<Longrightarrow> flowing G c \<Longrightarrow> c_wb_fast c = us \<Longrightarrow>
   core (snd (drain_fast us ports c)) \<and> flowing G (snd (drain_fast us ports c))"
proof (induction us arbitrary: ports c)
  case Nil
  then show ?case by simp
next
  case (Cons u us)
  define d where "d = (complete u c)\<lparr>c_wb_fast := us\<rparr>"
  have "core d" "flowing G d"
    using Cons.prems by (intro complete_both [of c G u "c_executing c" us "c_wb_slow c" d];
        simp add: d_def work_def whole_def essence_def committed_def)+
  moreover have "c_wb_fast d = us" by (simp add: d_def)
  ultimately show ?case using Cons.IH [of d] Cons.prems(1,2) by (simp flip: d_def)
qed

lemma drain_slow_flow:
  "core c \<Longrightarrow> flowing G c \<Longrightarrow> c_wb_slow c = us \<Longrightarrow>
   core (drain_slow us ports c) \<and> flowing G (drain_slow us ports c)"
proof (induction us arbitrary: ports c)
  case Nil
  then show ?case by simp
next
  case (Cons u us)
  define d where "d = (complete u c)\<lparr>c_wb_slow := us\<rparr>"
  have "core d" "flowing G d"
    using Cons.prems by (intro complete_both [of c G u "c_executing c" "c_wb_fast c" us d];
        simp add: d_def work_def whole_def essence_def committed_def)+
  moreover have "c_wb_slow d = us" by (simp add: d_def)
  ultimately show ?case using Cons.IH [of d] Cons.prems(1,2) by (simp flip: d_def)
qed

lemma writeback_flow:
  assumes "core c" "flowing G c"
  shows "flowing G (writeback c)"
proof -
  obtain p c1 where 1: "drain_fast (c_wb_fast c) (cfg_num_cdb (c_cfg c)) c = (p, c1)" by fastforce
  then have "core c1 \<and> flowing G c1" using drain_fast_flow [OF assms refl, of "cfg_num_cdb (c_cfg c)"] by simp
  then have 2: "flowing G (drain_slow (c_wb_slow c1) p c1)" using drain_slow_flow [of c1 G] by blast
  have "whole (writeback c) = whole (drain_slow (c_wb_slow c1) p c1)"
    by (simp add: writeback_def 1 Let_def whole_def essence_def committed_def work_def)
  with 2 show ?thesis using flowing_whole by blast
qed

end
