(* ===== verification/Speculation.thy ===== *)
theory Speculation
  imports Execution
begin

text \<open>
  Issue under the data-flow invariant. An instruction whose operands are ready reads the
  reference's values; executing it keeps the invariant; a misprediction breaks the chain of PCs
  only behind the offender, and recovery closes it again.
\<close>

section \<open>A ready register holds the reference's value\<close>

lemma path_facts:
  assumes fl: "flow G c" and k: "k < length (in_flight c)" "right G (retired c) (in_flight c) k"
  shows "on_path (G (retired c + k)) (in_flight c ! k)" "fetched (G (retired c + k)) (in_flight c ! k)"
    "decoded_uop (in_flight c ! k)"
proof -
  note p = flow_parts [OF fl]
  show "on_path (G (retired c + k)) (in_flight c ! k)" using k(2) by (simp add: right_def)
  have "fetch_ok G (retired c) (in_flight c)"
    using p(9) unfolding stream_def by (rule fetch_ok_append)
  then show "fetched (G (retired c + k)) (in_flight c ! k)" using k by (simp add: fetch_ok_def)
  show "decoded_uop (in_flight c ! k)" using p(3) [OF nth_mem [OF k(1)]] by (simp add: shaped_def)
qed

lemma ready_register:
  assumes G: "golden_run G" and c: "core c" "flow G c"
  shows "k \<le> length (in_flight c) \<Longrightarrow> \<forall>j < k. on_path (G (retired c + j)) (in_flight c ! j) \<Longrightarrow> a < 32 \<Longrightarrow>
    prf_is_ready (c_prf c) (map_after (c_arch_rat c) (map uop_view (take k (in_flight c))) ! a) \<Longrightarrow>
    prf_read (c_prf c) (map_after (c_arch_rat c) (map uop_view (take k (in_flight c))) ! a) =
      rs_regs (snd (G (retired c + k))) ! a"
proof (induction k)
  case 0
  have "cpu_regs c = rs_regs (snd (G (retired c)))"
    using flow_parts(12) [OF c(2)] by (simp add: synced_def split_beta)
  then show ?case using 0(3) by (simp add: cpu_regs_def list_eq_iff_nth_eq)
next
  case (Suc k)
  note p = flow_parts [OF c(2)]
  define u where "u = in_flight c ! k"
  define m where "m = map_after (c_arch_rat c) (map uop_view (take k (in_flight c)))"
  have k: "k < length (in_flight c)" using Suc.prems(1) by simp
  have r: "right G (retired c) (in_flight c) k" using Suc.prems(2) by (simp add: right_def)
  note u = path_facts [OF c(2) k r, folded u_def]
  have step: "map_after (c_arch_rat c) (map uop_view (take (Suc k) (in_flight c))) = map_dest (uop_view u) m"
    using k by (simp add: take_Suc_conv_app_nth m_def u_def)
  have in_us: "u \<in> set (in_flight c)" using k by (simp add: u_def)
  have sh: "d_writes_rd (u_dec u) \<longleftrightarrow> u_dest u \<noteq> INVALID_PHYSREG"
    using p(3) [OF in_us] in_flight_core(4) [OF c(1) k] by (auto simp: shaped_def live_def u_def)
  have len: "length m = 32" using core_facts(1) [OF c(1)] by (simp add: m_def regs_inv_def)
  show ?case
  proof (cases "d_writes_rd (u_dec u) \<and> a = d_rd (u_dec u)")
    case True
    then have at: "map_dest (uop_view u) m ! a = u_dest u"
      using sh Suc.prems(3) len by (simp add: map_dest_def v_writes_def uop_view_def)
    then have "u_seq u \<notin> unfinished c"
      using Suc.prems(4) p(7) in_us True sh by (auto simp: step dests_pending_def)
    moreover from this have "u_seq u \<notin> idle c" using core_facts(6) [OF c(1)] by blast
    ultimately have "executed (G (retired c + k)) u" "prf_read (c_prf c) (u_dest u) = u_result u"
      using p(10) k r True sh by (auto simp: data_ok_def u_def)
    then show ?thesis using golden_regs(2) [OF G u Suc.prems(3)] True unfolding step at by simp
  next
    case False
    then have at: "map_dest (uop_view u) m ! a = m ! a"
      using sh by (auto simp: map_dest_def v_writes_def uop_view_def)
    then show ?thesis
      using Suc golden_regs(1) [OF G u Suc.prems(3) False] k unfolding step at by (simp add: m_def)
  qed
qed

lemma ready_operands:
  assumes G: "golden_run G" and c: "core c" "flow G c" and e: "e \<in> set (iq_entries (c_iq c))" "iq_ready e"
    and k: "k < length (in_flight c)" "u_seq (in_flight c ! k) = iq_seq e" "right G (retired c) (in_flight c) k"
  defines "u \<equiv> in_flight c ! k"
  shows "prf_read (c_prf c) (u_src1 u) = rs_regs (snd (G (retired c + k))) ! d_rs1 (u_dec u)"
    and "prf_read (c_prf c) (u_src2 u) = rs_regs (snd (G (retired c + k))) ! d_rs2 (u_dec u)"
proof -
  note p = flow_parts [OF c(2)]
  obtain v where v: "v \<in> set (in_flight c)" "u_seq v = iq_seq e" "u_src1 v = iq_src1 e" "u_src2 v = iq_src2 e"
    and ready: "prf_is_ready (c_prf c) (iq_src1 e)" "prf_is_ready (c_prf c) (iq_src2 e)"
    using p(6) e by (auto simp: woken_def iq_ready_def)
  have "v = u" using same_seq_uop [OF c(1) v(1), of u] k by (simp add: u_def v(2))
  then have src: "prf_is_ready (c_prf c) (u_src1 u)" "prf_is_ready (c_prf c) (u_src2 u)" using v ready by simp_all
  have "wf_decoded (u_dec u)" using in_flight_core(7) [OF c(1), of u] k(1) by (simp add: u_def)
  then have rs: "d_rs1 (u_dec u) < 32" "d_rs2 (u_dec u) < 32" by (simp_all add: wf_decoded_def)
  have path: "\<forall>j < k. on_path (G (retired c + j)) (in_flight c ! j)" using k(3) by (simp add: right_def)
  have named: "u_src1 u = map_after (c_arch_rat c) (map uop_view (take k (in_flight c))) ! d_rs1 (u_dec u)"
    "u_src2 u = map_after (c_arch_rat c) (map uop_view (take k (in_flight c))) ! d_rs2 (u_dec u)"
    using p(5) k(1) by (simp_all add: sources_def u_def)
  note reg = ready_register [OF G c less_imp_le [OF k(1)] path]
  show "prf_read (c_prf c) (u_src1 u) = rs_regs (snd (G (retired c + k))) ! d_rs1 (u_dec u)"
    using reg [OF rs(1)] src(1) unfolding named by blast
  show "prf_read (c_prf c) (u_src2 u) = rs_regs (snd (G (retired c + k))) ! d_rs2 (u_dec u)"
    using reg [OF rs(2)] src(2) unfolding named by blast
qed

section \<open>Issuing one uop\<close>

text \<open>What issue leaves of a uop.\<close>

definition names where
  "names u = (front_key u, ident u, (u_src1 u, u_src2 u, u_trap u), u_lsq_idx u)"

lemma names_eqs:
  assumes "names u' = names u"
  shows "front_key u' = front_key u" "u_seq u' = u_seq u" "u_rob u' = u_rob u" "u_dec u' = u_dec u"
    "u_dest u' = u_dest u" "u_stale u' = u_stale u" "u_ckpt u' = u_ckpt u" "u_src1 u' = u_src1 u"
    "u_src2 u' = u_src2 u" "u_trap u' = u_trap u" "u_lsq_idx u' = u_lsq_idx u" "uop_view u' = uop_view u"
    "u_pc u' = u_pc u" "u_raw u' = u_raw u" "predicted_pc u' = predicted_pc u" "decoded_uop u' = decoded_uop u"
  using assms unfolding names_def ident_def front_key_def prod.inject uop_view_def decoded_uop_def by simp_all

lemma names_lists:
  assumes "map names us = map names vs"
  shows "sources arch us = sources arch vs" "woken p us ents = woken p vs ents"
    "dests_pending U us p = dests_pending U vs p" "map front_key us = map front_key vs" "map u_seq us = map u_seq vs"
proof -
  have len: "length us = length vs" using assms by (metis length_map)
  have "names (us ! k) = names (vs ! k)" if "k < length vs" for k
    using assms that len by (simp add: list_eq_iff_nth_eq)
  note n = names_eqs [OF this]
  have views: "map uop_view (take k us) = map uop_view (take k vs)" for k
    by (rule nth_equalityI) (simp_all add: len n(12))
  show "sources arch us = sources arch vs" using n(4,8,9) by (simp add: sources_def views len)
  show "woken p us ents = woken p vs ents" "dests_pending U us p = dests_pending U vs p"
    using n(2,5,8,9) len unfolding woken_def dests_pending_def by (auto simp: set_conv_nth) metis+
  show "map front_key us = map front_key vs" "map u_seq us = map u_seq vs"
    by (rule nth_equalityI; simp add: len n)+
qed

text \<open>The place of a candidate.\<close>

lemma candidate:
  assumes c: "core c" "flow G c" and e: "e \<in> set (iq_entries (c_iq c))"
  obtains k where "k < length (dispatched c)" "k < length (in_flight c)" "in_flight c ! k = c_inflight c ! iq_rob e"
    "u_seq (in_flight c ! k) = iq_seq e" "iq_seq e \<in> idle c" "iq_seq e \<notin> u_seq ` set (c_rename_q c)"
    "iq_seq e \<notin> u_seq ` set_mset (work c)"
    "idle c - {iq_seq e} = u_seq ` set (c_rename_q c) \<union> iq_seq ` set (erase_first (iq_seq e) (iq_entries (c_iq c)))"
proof -
  obtain k where k: "live (c_rob c) k (c_inflight c ! iq_rob e)" "u_seq (c_inflight c ! iq_rob e) = iq_seq e"
    by (rule uop_at_seat [OF c(1) e])
  have w: "waiting (c_rob c) (c_rename_q c) (iq_entries (c_iq c)) (work c)"
    and os: "order_state (c_rob c) (st_renamed (c_stats c))"
    using c(1) by (simp_all add: core_def waits_def ordered_def)
  obtain ws where ws: "mset ws = work c" using ex_mset by blast
  with w have "mset (map u_seq (c_rename_q c) @ map iq_seq (iq_entries (c_iq c)) @ map u_seq ws) = mset (open_seqs (c_rob c))"
    by (auto simp: waiting_def add.assoc)
  then have "distinct (map u_seq (c_rename_q c) @ map iq_seq (iq_entries (c_iq c)) @ map u_seq ws)"
    using open_distinct [OF os] mset_eq_imp_distinct_iff by blast
  then have d: "distinct (map iq_seq (iq_entries (c_iq c)))"
    "u_seq ` set (c_rename_q c) \<inter> iq_seq ` set (iq_entries (c_iq c)) = {}"
    "u_seq ` set_mset (work c) \<inter> iq_seq ` set (iq_entries (c_iq c)) = {}"
    using ws by (auto simp flip: ws)
  have s: "iq_seq e \<notin> u_seq ` set (c_rename_q c)" "iq_seq e \<notin> u_seq ` set_mset (work c)" "iq_seq e \<in> idle c"
    using d(2,3) e by (blast, blast, simp add: idle_def)
  have kc: "k < length (in_flight c)" and at: "in_flight c ! k = c_inflight c ! iq_rob e"
  proof -
    show "k < length (in_flight c)" using k(1) in_flight_core(3) [OF c(1)] by (simp add: live_def)
    have "k < rob_count (c_rob c)" "rob_nth (c_rob c) k = iq_rob e"
      using k e c(1) seqs_inj [OF os] live_seqs [OF k(1)] w
      by (auto simp: live_def waiting_def seated_seqs)
    then show "in_flight c ! k = c_inflight c ! iq_rob e" by (simp add: in_flight_def)
  qed
  note p = flow_parts [OF c(2)]
  have "k < length (dispatched c)"
  proof (rule ccontr)
    assume "\<not> k < length (dispatched c)"
    then have "in_flight c ! k \<in> set (c_rename_q c)"
      using kc arg_cong [OF p(1), of length] by (subst p(1)) (simp add: nth_append)
    then show False using s(1) k(2) by (metis at imageI)
  qed
  moreover have "idle c - {iq_seq e} = u_seq ` set (c_rename_q c) \<union> iq_seq ` set (erase_first (iq_seq e) (iq_entries (c_iq c)))"
    using s(1) by (auto simp: idle_def erase_first_eq [OF d(1)])
  ultimately show thesis using that [of k] kc at k(2) s by simp
qed

text \<open>The uop at place \<open>k\<close> leaves the queue with its result.\<close>

lemma issue_step:
  assumes c: "core c" "flow G c" and e: "e \<in> set (iq_entries (c_iq c))"
    and k: "k < length (dispatched c)" "k < length (in_flight c)" "u_seq (in_flight c ! k) = iq_seq e"
    and u: "names u = names (in_flight c ! k)" "d_writes_rd (u_dec u) \<Longrightarrow> u_has_result u"
      "right G (retired c) (in_flight c) k \<Longrightarrow> executed (G (retired c + k)) u"
      "\<not> d_is_branch (u_dec u) \<Longrightarrow> u_next_pc u = u_pc u + 4"
    and d: "in_flight d = (in_flight c)[k := u]" "iq_entries (c_iq d) = erase_first (iq_seq e) (iq_entries (c_iq c))"
      "work d = add_mset u (work c)" "unfinished d = unfinished c" "c_prf d = c_prf c" "c_rename_q d = c_rename_q c"
      "c_decode_q d = c_decode_q c" "c_fetch_q d = c_fetch_q c" "committed d = committed c" "retired d = retired c"
      "fl_capacity (c_free_list d) = fl_capacity (c_free_list c)" "c_pc d = c_pc c" "c_fetch_stalled d = c_fetch_stalled c"
      "seats (idle c - {iq_seq e}) ((dispatched c)[k := u]) (c_lsq d)"
  shows "flow G d" "pcs d = pcs c" "outs d = (outs c)[k := u_next_pc u]" "idle d = idle c - {iq_seq e}"
proof -
  note p = flow_parts [OF c(2)]
  note cm = committed_eqs [OF d(9)] and n = names_eqs [OF u(1)]
  have cand: "iq_seq e \<in> idle c" "iq_seq e \<notin> u_seq ` set_mset (work c)"
    "idle c - {iq_seq e} = u_seq ` set (c_rename_q c) \<union> iq_seq ` set (erase_first (iq_seq e) (iq_entries (c_iq c)))"
    by (rule candidate [OF c e]; simp)+
  show idle: "idle d = idle c - {iq_seq e}" by (simp add: idle_def [of d] d(2,6) cand(3))
  have s: "u_seq u = iq_seq e" "iq_seq e \<notin> idle d" using n(2) k(3) by (simp_all add: idle)
  have other: "u_seq (in_flight c ! j) \<noteq> iq_seq e" if "j < length (in_flight c)" "j \<noteq> k" for j
    using seq_unique [OF c(1) that(1) k(2)] that(2) k(3) by auto
  have "map names (in_flight d) = map names (in_flight c)"
    unfolding d(1) map_update by (rule list_update_same_conv [THEN iffD2]) (simp_all add: k(2) u(1))
  note nl = names_lists [OF this]
  have keys: "map front_key (stream d) = map front_key (stream c)" by (simp add: stream_def nl(4) d(7,8))
  have len: "length (in_flight d) = length (in_flight c)" by (simp add: d(1))
  have disp: "dispatched d = (dispatched c)[k := u]"
    by (simp add: dispatched_def d(1,6) take_update_swap)
  have "payloads d"
    unfolding payloads_def
  proof (intro conjI ballI)
    have "in_flight d = (dispatched c @ c_rename_q c)[k := u]" using d(1) p(1) by simp
    then show "in_flight d = dispatched d @ c_rename_q d" using k(1) by (simp add: disp d(6) list_update_append1)
    fix v assume "v \<in># work d"
    then consider "v = u" | "v \<in># work c" by (auto simp: d(3))
    then show "v \<in> set (in_flight d)"
    proof cases
      case 1
      then show ?thesis using k(2) by (simp add: d(1) set_update_memI)
    next
      case 2
      then obtain j where j: "j < length (in_flight c)" "in_flight c ! j = v" using p(2) by (metis in_set_conv_nth)
      have "u_seq v \<in> u_seq ` set_mset (work c)" using 2 by (rule imageI)
      then have "u_seq v \<noteq> iq_seq e" using cand(2) by metis
      then have "j \<noteq> k" using j(2) k(3) by blast
      then have "in_flight d ! j = v" "j < length (in_flight d)" using j by (simp_all add: d(1))
      then show ?thesis by (metis nth_mem)
    qed
  qed
  moreover have "\<forall>v \<in> set (in_flight d). shaped (idle d) v"
  proof
    fix v assume "v \<in> set (in_flight d)"
    then obtain j where j: "j < length (in_flight c)" "in_flight d ! j = v" by (auto simp: in_set_conv_nth len)
    have sh: "shaped (idle c) (in_flight c ! j)" by (rule p(3)) (simp add: j(1))
    show "shaped (idle d) v"
    proof (cases "j = k")
      case True
      then have "v = u" using j k(2) by (simp add: d(1))
      then show ?thesis using sh True u(2,4) s n(4,5,16) by (simp add: shaped_def)
    next
      case False
      then have "v = in_flight c ! j" using j by (simp add: d(1))
      then show ?thesis using sh other [OF j(1) False] by (simp add: shaped_def idle)
    qed
  qed
  moreover have "woken (c_prf d) (in_flight d) (iq_entries (c_iq d))"
  proof -
    have "set (erase_first (iq_seq e) (iq_entries (c_iq c))) \<subseteq> set (iq_entries (c_iq c))" by (rule set_erase_first)
    with p(6) have "woken (c_prf c) (in_flight c) (erase_first (iq_seq e) (iq_entries (c_iq c)))"
      unfolding woken_def by blast
    then show ?thesis by (simp only: nl(2) d(2,5))
  qed
  moreover have "fetch_ok G (retired d) (stream d)" using p(9) fetch_ok_key [OF keys] by (simp add: d(10))
  moreover have "data_ok G (retired d) (idle d) (unfinished d) (in_flight d) (c_prf d)"
    unfolding data_ok_def
  proof (intro allI impI)
    fix j assume j: "j < length (in_flight d)" "right G (retired d) (in_flight d) j"
    have "right G (retired c) (in_flight c) j"
      using j right_map_pc [OF front_key_maps(1) [OF nl(4)], of j] by (simp add: d(10))
    then have ok: "(u_seq (in_flight c ! j) \<notin> idle c \<longrightarrow> executed (G (retired c + j)) (in_flight c ! j)) \<and>
        (u_seq (in_flight c ! j) \<notin> unfinished c \<and> u_dest (in_flight c ! j) \<noteq> INVALID_PHYSREG \<longrightarrow>
          prf_read (c_prf c) (u_dest (in_flight c ! j)) = u_result (in_flight c ! j))"
      and r: "right G (retired c) (in_flight c) j"
      using p(10) j(1) by (simp_all add: data_ok_def len)
    show "(u_seq (in_flight d ! j) \<notin> idle d \<longrightarrow> executed (G (retired d + j)) (in_flight d ! j)) \<and>
        (u_seq (in_flight d ! j) \<notin> unfinished d \<and> u_dest (in_flight d ! j) \<noteq> INVALID_PHYSREG \<longrightarrow>
          prf_read (c_prf d) (u_dest (in_flight d ! j)) = u_result (in_flight d ! j))"
    proof (cases "j = k")
      case True
      moreover have "iq_seq e \<in> unfinished c" using core_facts(6) [OF c(1)] cand(1) by blast
      ultimately show ?thesis using u(3) r k(2) s by (simp add: d(1,4,10))
    next
      case False
      with ok other [of j] j(1) show ?thesis by (simp add: d(1,4,5,10) idle)
    qed
  qed
  moreover have "synced G d" using p(12) by (simp add: synced_def cpu_regs_def d(5,10) cm)
  ultimately show "flow G d"
    using p(4,5,7,8) d(14) unfolding flow_def
    by (simp add: nl(1,3) cm(2) d(4,5,11) disp flip: idle) (simp add: front_shaped_def d(7,8) prf_sized_def d(11))
  show "pcs d = pcs c" using front_key_maps(1) [OF keys] by (simp add: pcs_def d(12,13))
  have "map (leads (idle d)) (in_flight d) = (map (leads (idle c)) (in_flight c))[k := u_next_pc u]"
  proof (rule nth_equalityI)
    fix i assume "i < length (map (leads (idle d)) (in_flight d))"
    then have "i < length (in_flight c)" by (simp add: d(1))
    then show "map (leads (idle d)) (in_flight d) ! i = (map (leads (idle c)) (in_flight c))[k := u_next_pc u] ! i"
      using other [of i] s by (cases "i = k") (simp_all add: d(1) leads_def idle)
  qed (simp add: d(1))
  then show "outs d = (outs c)[k := u_next_pc u]"
    using k(2) by (simp add: outs_def d(7,8) list_update_append1)
qed

section \<open>What a uop computes when it issues\<close>

definition issues :: "(nat \<Rightarrow> Memory \<times> Result) \<Rightarrow> Cpu \<Rightarrow> IqEntry \<Rightarrow> nat \<Rightarrow> Uop \<Rightarrow> Lsq \<Rightarrow> bool" where
  "issues G c e k u l \<longleftrightarrow> names u = names (in_flight c ! k) \<and> (d_writes_rd (u_dec u) \<longrightarrow> u_has_result u) \<and>
     (\<not> d_is_branch (u_dec u) \<longrightarrow> u_next_pc u = u_pc u + 4) \<and>
     (right G (retired c) (in_flight c) k \<longrightarrow> executed (G (retired c + k)) u) \<and>
     seats (idle c - {iq_seq e}) ((dispatched c)[k := u]) l"

lemma along_path:
  "\<forall>j < length us. on_path (G (n + j)) (us ! j) \<and> fetched (G (n + j)) (us ! j) \<and> decoded_uop (us ! j) \<Longrightarrow> along G n us"
proof (induction us arbitrary: n)
  case Nil
  then show ?case by simp
next
  case (Cons u us)
  have "\<forall>j < length us. on_path (G (Suc n + j)) (us ! j) \<and> fetched (G (Suc n + j)) (us ! j) \<and> decoded_uop (us ! j)"
    using Cons.prems by (auto simp: All_less_Suc2)
  from Cons.IH [OF this] Cons.prems show ?case by (auto simp: All_less_Suc2)
qed

text \<open>The uop of a ready entry, with its operands read.\<close>

definition operands_read :: "Cpu \<Rightarrow> Uop \<Rightarrow> Uop" where
  "operands_read c u = u\<lparr>u_val1 := prf_read (c_prf c) (u_src1 u), u_val2 := prf_read (c_prf c) (u_src2 u)\<rparr>"

lemma operands_read_fields [simp]:
  "names (operands_read c u) = names u" "u_next_pc (operands_read c u) = u_next_pc u"
  "u_has_result (operands_read c u) = u_has_result u" "u_seq (operands_read c u) = u_seq u"
  "u_dec (operands_read c u) = u_dec u" "u_pc (operands_read c u) = u_pc u" "u_lsq_idx (operands_read c u) = u_lsq_idx u"
  "u_raw (operands_read c u) = u_raw u" "u_trap (operands_read c u) = u_trap u"
  by (simp_all add: operands_read_def names_def ident_def front_key_def predicted_pc_def)

lemma candidate_uop:
  assumes G: "golden_run G" and c: "core c" "flow G c" and e: "e \<in> set (iq_entries (c_iq c))" "iq_ready e"
    and k: "k < length (dispatched c)" "k < length (in_flight c)" "u_seq (in_flight c ! k) = iq_seq e"
  defines "u \<equiv> operands_read c (in_flight c ! k)"
  shows "decoded_uop u" "wf_decoded (u_dec u)" "u_next_pc u = u_pc u + 4" "\<not> u_has_result u" "u_seq u = iq_seq e"
    "right G (retired c) (in_flight c) k \<Longrightarrow> operands_right (G (retired c + k)) u"
    "dispatched c ! k = in_flight c ! k" "iq_seq e \<notin> u_seq ` (set (take k (dispatched c)) \<union> set (drop (Suc k) (dispatched c)))"
proof -
  note p = flow_parts [OF c(2)]
  have "iq_seq e \<in> idle c" by (rule candidate [OF c e(1)])
  then have sh: "decoded_uop (in_flight c ! k)" "untouched (in_flight c ! k)"
    using p(3) [OF nth_mem [OF k(2)]] k(3) by (simp_all add: shaped_def)
  show "decoded_uop u" using sh(1) by (simp add: u_def decoded_uop_def)
  show "wf_decoded (u_dec u)" using in_flight_core(7) [OF c(1) nth_mem [OF k(2)]] by (simp add: u_def)
  show "u_next_pc u = u_pc u + 4" "\<not> u_has_result u" "u_seq u = iq_seq e"
    using sh(2) k(3) by (simp_all add: u_def untouched_def)
  show "operands_right (G (retired c + k)) u" if "right G (retired c) (in_flight c) k"
    using ready_operands [OF G c e k(2,3) that] by (simp add: operands_right_def u_def operands_read_def)
  have "in_flight c ! k = (dispatched c @ c_rename_q c) ! k" using p(1) by simp
  then show at: "dispatched c ! k = in_flight c ! k" using k(1) by (simp add: nth_append)
  have "map u_seq (in_flight c) = map u_seq (dispatched c) @ map u_seq (c_rename_q c)"
    using arg_cong [OF p(1), of "map u_seq"] by simp
  then have "distinct (map u_seq (dispatched c))" using in_flight_core(6) [OF c(1)] by simp
  then have "distinct (map u_seq (take k (dispatched c)) @ u_seq (in_flight c ! k) # map u_seq (drop (Suc k) (dispatched c)))"
    using id_take_nth_drop [OF k(1)] at by (metis list.simps(9) map_append)
  then show "iq_seq e \<notin> u_seq ` (set (take k (dispatched c)) \<union> set (drop (Suc k) (dispatched c)))"
    using k(3) by (auto simp: image_Un)
qed

lemma execute_uop_names:
  "d_op (u_dec u) \<noteq> Op_INVALID \<Longrightarrow> names (execute_uop u) = names u"
  "u_val1 (execute_uop u) = u_val1 u" "u_val2 (execute_uop u) = u_val2 u"
  "d_op (u_dec u) \<in> {Op_SB, Op_SH, Op_SW} \<Longrightarrow>
     u_mem_addr (execute_uop u) = u_val1 u + d_imm (u_dec u) \<and> u_store_data (execute_uop u) = u_val2 u"
proof -
  have "u_trap (execute_uop u) = u_trap u" if "d_op (u_dec u) \<noteq> Op_INVALID"
    using that by (cases "d_op (u_dec u)"; simp add: execute_uop_def Let_def u_value_def)
  then show "names (execute_uop u) = names u" if "d_op (u_dec u) \<noteq> Op_INVALID"
    using that by (simp add: names_def front_key_def predicted_pc_def)
  show "u_val1 (execute_uop u) = u_val1 u" "u_val2 (execute_uop u) = u_val2 u"
    by (cases "d_op (u_dec u)"; simp add: execute_uop_def Let_def u_value_def)+
  show "d_op (u_dec u) \<in> {Op_SB, Op_SH, Op_SW} \<Longrightarrow>
     u_mem_addr (execute_uop u) = u_val1 u + d_imm (u_dec u) \<and> u_store_data (execute_uop u) = u_val2 u"
    by (auto simp: execute_uop_def Let_def)
qed

lemma execute_load_form:
  assumes "execute_load u lat c = (r, c')"
  shows "whole (c'\<lparr>c_lsq := c_lsq c\<rparr>) = whole c" "c_lsq c' = resolve_load_addr (c_lsq c) (u_lsq_idx u) (u_val1 u + d_imm (u_dec u))"
    "r = Some (u', lat') \<Longrightarrow> names u' = names u \<and> u_val1 u' = u_val1 u \<and> u_val2 u' = u_val2 u \<and> u_next_pc u' = u_next_pc u"
  using assms
  by (auto simp: execute_load_def Let_def obs_defs whole_def essence_def committed_def work_def names_def ident_def
      front_key_def predicted_pc_def split: if_splits)

lemma load_issues:
  assumes G: "golden_run G" and c: "core c" "flow G c" and e: "e \<in> set (iq_entries (c_iq c))" "iq_ready e"
    and k: "k < length (dispatched c)" "k < length (in_flight c)" "u_seq (in_flight c ! k) = iq_seq e"
    and x: "d_is_load (u_dec (in_flight c ! k))" "execute_load (operands_read c (in_flight c ! k)) lat c = (Some (u1, lat'), c1)"
  shows "issues G c e k u1 (c_lsq c1)"
proof -
  note p = flow_parts [OF c(2)]
  define u where "u = operands_read c (in_flight c ! k)"
  define ds where "ds = take k (dispatched c)"
  define es where "es = drop (Suc k) (dispatched c)"
  define I where "I = idle c - {iq_seq e}"
  note u = candidate_uop [OF G c e k, folded u_def ds_def es_def]
  have split: "dispatched c = ds @ in_flight c ! k # es" using id_take_nth_drop [OF k(1)] u(7) by (simp add: ds_def es_def)
  have ld: "d_is_load (u_dec u)" "\<not> d_is_store (u_dec u)" "\<not> d_is_branch (u_dec u)" using x(1) u(2) by (auto simp: u_def wf_decoded_def)
  note form = execute_load_form [OF x(2) [folded u_def]]
  have f: "names u1 = names u" "u_val1 u1 = u_val1 u" "u_val2 u1 = u_val2 u" "u_next_pc u1 = u_next_pc u" using form(3) by simp_all
  note n = names_eqs [OF f(1)]
  have s: "seats I (ds @ u # es) (c_lsq c)"
    unfolding I_def k(3) [symmetric]
    by (rule seats_issue_other [OF p(11) [unfolded split]]) (use ld u k(3) in \<open>auto simp: u_def\<close>)
  have len: "length ds = k" using k(1) by (simp add: ds_def)
  have upd: "(dispatched c)[k := u1] = ds @ u1 # es" using len by (auto simp: split list_update_append)
  have "u_has_result u1" using x(2) by (auto simp: execute_load_def Let_def split: if_splits)
  have seated: "seats I ((dispatched c)[k := u1]) (c_lsq c1)"
    unfolding form(2) upd
    by (rule seats_payload [OF seat_of_load(4) [OF s ld(1)]]) (simp add: seat_view_def f n)
  moreover have "executed (G (retired c + k)) u1" if r: "right G (retired c) (in_flight c) k"
  proof -
    have ops: "operands_right (G (retired c + k)) u" by (rule u(6) [OF r])
    have at: "(ds @ [u]) ! j = (if j = k then u else in_flight c ! j)" if "j \<le> k" for j
    proof -
      have "(dispatched c @ c_rename_q c) ! j = in_flight c ! j" using p(1) by simp
      then show ?thesis using that len k(1) by (auto simp: nth_append ds_def)
    qed
    have path: "on_path (G (retired c + j)) (in_flight c ! j) \<and> fetched (G (retired c + j)) (in_flight c ! j) \<and>
        decoded_uop (in_flight c ! j)" if "j \<le> k" for j
      using path_facts [OF c(2) _ right_less [OF r that]] that k(2) by simp
    have along: "along G (retired c) (ds @ [u])"
    proof (rule along_path, intro allI impI)
      fix j assume "j < length (ds @ [u])"
      then have j: "j \<le> k" using len by simp
      show "on_path (G (retired c + j)) ((ds @ [u]) ! j) \<and> fetched (G (retired c + j)) ((ds @ [u]) ! j) \<and>
          decoded_uop ((ds @ [u]) ! j)"
        unfolding at [OF j] using path [OF j] u(1) by (cases "j = k") (simp_all add: on_path_def fetched_def u_def)
    qed
    have older: "\<forall>j < length ds. u_seq (ds ! j) \<notin> I \<longrightarrow> operands_right (G (retired c + j)) (ds ! j)"
    proof (intro allI impI)
      fix j assume j: "j < length ds" "u_seq (ds ! j) \<notin> I"
      then have "u_seq (ds ! j) \<noteq> iq_seq e" using u(8) nth_mem by force
      moreover have "ds ! j = in_flight c ! j" using at [of j] j(1) len by (simp add: nth_append)
      ultimately have "executed (G (retired c + j)) (ds ! j)"
        using p(10) right_less [OF r, of j] j len k(2) by (simp add: data_ok_def I_def)
      then show "operands_right (G (retired c + j)) (ds ! j)" by (simp add: executed_def)
    qed
    have mem: "c_mem c = fst (G (retired c))" using p(12) by (simp add: synced_def split_beta)
    have "program_ordered u_seq (dispatched c @ c_rename_q c)" using in_flight_core(5) [OF c(1)] p(1) by simp
    then have order: "program_ordered u_seq (ds @ u # es)"
      by (simp add: split program_ordered_def sorted_wrt_append u_def)
    have load: "u_result u1 = ef_result (ref_effect u (fst (G (retired c + k))) (snd (G (retired c + k))))" "u_has_result u1"
      using issued_load_value [OF G s mem order along older ld(1) _ x(2) [folded u_def]] ops len by simp_all
    have same: "ref_effect u1 m r = ref_effect u m r" for m r by (simp add: ref_effect_def n f)
    have "agrees u1 (ref_effect u1 (fst (G (retired c + k))) (snd (G (retired c + k))))"
      using load load_ref(3) [OF u(2) ld(1)] effect_frame(4) [OF u(2) ld(3)] u(3)
      by (simp add: agrees_def same f)
    then show ?thesis using ops by (simp add: executed_def operands_right_def f n)
  qed
  ultimately show ?thesis
    using \<open>u_has_result u1\<close> f(1,4) u(3) n(13) by (simp add: issues_def u_def I_def)
qed

lemma load_replays:
  assumes G: "golden_run G" and c: "core c" "flow G c" and e: "e \<in> set (iq_entries (c_iq c))" "iq_ready e"
    and k: "k < length (dispatched c)" "k < length (in_flight c)" "u_seq (in_flight c ! k) = iq_seq e"
    and x: "d_is_load (u_dec (in_flight c ! k))" "execute_load (operands_read c (in_flight c ! k)) lat c = (None, c1)"
  shows "seats (idle c) (dispatched c) (c_lsq c1)"
proof -
  note u = candidate_uop [OF G c e k]
  define ds where "ds = take k (dispatched c)"
  define es where "es = drop (Suc k) (dispatched c)"
  have split: "dispatched c = ds @ in_flight c ! k # es" using id_take_nth_drop [OF k(1)] u(7) by (simp add: ds_def es_def)
  show ?thesis
    using seat_of_load(4) [OF flow_parts(11) [OF c(2), unfolded split] x(1)] execute_load_form(2) [OF x(2)]
    by (simp add: split)
qed

lemma execute_other_form:
  assumes "execute_other u lat c = Some (u', c')"
  shows "whole (c'\<lparr>c_lsq := c_lsq c\<rparr>) = whole c" "u' = (if u_trap u = Trap_NONE then execute_uop u else u)"
    "c_lsq c' = (if d_is_store (u_dec u) then resolve_data (resolve_addr (c_lsq c) (u_lsq_idx u) (u_mem_addr u')) (u_lsq_idx u) (u_store_data u')
      else c_lsq c)"
  using assms
  by (auto simp: execute_other_def Let_def reserve_cdb_def whole_def essence_def committed_def work_def
      split: if_splits option.splits)

lemma trap_already: "u_trap u = t \<Longrightarrow> u\<lparr>u_trap := t\<rparr> = (u :: Uop)"
  by (cases u) simp

lemma other_issues:
  assumes G: "golden_run G" and c: "core c" "flow G c" and e: "e \<in> set (iq_entries (c_iq c))" "iq_ready e"
    and k: "k < length (dispatched c)" "k < length (in_flight c)" "u_seq (in_flight c ! k) = iq_seq e"
    and x: "\<not> d_is_load (u_dec (in_flight c ! k))" "execute_other (operands_read c (in_flight c ! k)) lat c = Some (u1, c1)"
  shows "issues G c e k u1 (c_lsq c1)"
proof -
  define u where "u = operands_read c (in_flight c ! k)"
  define ds where "ds = take k (dispatched c)"
  define es where "es = drop (Suc k) (dispatched c)"
  note u = candidate_uop [OF G c e k, folded u_def ds_def es_def]
  note form = execute_other_form [OF x(2) [folded u_def]]
  have split: "dispatched c = ds @ in_flight c ! k # es" using id_take_nth_drop [OF k(1)] u(7) by (simp add: ds_def es_def)
  have len: "length ds = k" using k(1) by (simp add: ds_def)
  have upd: "(dispatched c)[k := u1] = ds @ u1 # es" using len by (auto simp: split list_update_append)
  have same: "execute_uop u = u" if "d_op (u_dec u) = Op_INVALID"
  proof -
    have "execute_uop u = u\<lparr>u_trap := Trap_ILLEGAL\<rparr>" by (simp only: execute_uop_def Let_def that Op.case)
    moreover have "u_trap u = Trap_ILLEGAL" using that u(1) by (simp add: decoded_uop_def)
    ultimately show ?thesis using trap_already by metis
  qed
  have u1: "u1 = execute_uop u"
    using form(2) u(1) same by (auto simp: decoded_uop_def split: if_splits)
  have f: "names u1 = names u" "u_val1 u1 = u_val1 u" "u_val2 u1 = u_val2 u"
    unfolding u1 by (metis same execute_uop_names(1), rule execute_uop_names(2), rule execute_uop_names(3))
  note n = names_eqs [OF f(1)]
  have ld: "\<not> d_is_load (u_dec u)" using x(1) by (simp add: u_def)
  have "d_op (u_dec u) \<notin> {Op_LB, Op_LH, Op_LW, Op_LBU, Op_LHU}" using ld is_load_ops [OF u(2)] by blast
  then have agr: "agrees u1 (ref_effect u m r)" for m r using execute_uop_ref u(3,4) by (simp add: u1)
  have "d_writes_rd (u_dec u1) \<longrightarrow> u_has_result u1"
    using agr effect_frame(1) [OF u(2)] by (auto simp: agrees_def n)
  moreover have "executed (G (retired c + k)) u1" if "right G (retired c) (in_flight c) k"
  proof -
    have "ref_effect u1 m r = ref_effect u m r" for m r by (simp add: ref_effect_def n f)
    then show ?thesis using agr u(6) [OF that] by (simp add: executed_def operands_right_def f n)
  qed
  moreover have "seats (idle c - {iq_seq e}) ((dispatched c)[k := u1]) (c_lsq c1)"
  proof (cases "d_is_store (u_dec u)")
    case True
    then have "d_op (u_dec u) \<in> {Op_SB, Op_SH, Op_SW}" using is_store_ops [OF u(2)] by blast
    then have "u_mem_addr u1 = u_val1 u1 + d_imm (u_dec u)" "u_store_data u1 = u_val2 u1"
      using execute_uop_names(4) [of u] f by (simp_all add: u1)
    then have l: "c_lsq c1 = resolve_data (resolve_addr (c_lsq c) (u_lsq_idx u) (u_val1 u1 + d_imm (u_dec u))) (u_lsq_idx u) (u_val2 u1)"
      using form(3) True by simp
    show ?thesis
      using seats_issue_store [OF flow_parts(11) [OF c(2), unfolded split], of u1] True x(1) u(8) n k(3)
      unfolding l upd by (simp add: u_def)
  next
    case False
    then have "c_lsq c1 = c_lsq c" using form(3) by simp
    then show ?thesis
      using seats_issue_other [OF flow_parts(11) [OF c(2), unfolded split], of u1] False u(8) n k(3)
      unfolding upd by (simp add: u_def)
  qed
  moreover have "\<not> d_is_branch (u_dec u1) \<longrightarrow> u_next_pc u1 = u_pc u1 + 4"
    using agr effect_frame(4) [OF u(2)] n by (auto simp: agrees_def)
  ultimately show ?thesis using f(1) by (simp add: issues_def u_def)
qed

section \<open>The issue loop\<close>

text \<open>With an offender noted, the chain still holds up to it.\<close>

definition broken_at :: "Uop option \<Rightarrow> Cpu \<Rightarrow> bool" where
  "broken_at off c \<longleftrightarrow> (case off of None \<Rightarrow> chained (length (stream c)) c
     | Some br \<Rightarrow> mispredicted br \<and> (\<exists>k < length (in_flight c). in_flight c ! k = br \<and> chained k c))"

definition issue_flow :: "(nat \<Rightarrow> Memory \<times> Result) \<Rightarrow> Issue \<Rightarrow> bool" where
  "issue_flow G st \<longleftrightarrow> flow G (is_cpu st) \<and> broken_at (is_offender st) (is_cpu st)"

lemma in_flight_whole: "whole c' = whole c \<Longrightarrow> in_flight c' = in_flight c"
  using essence_eqs [OF whole_eqs(1), of c' c] by (simp add: in_flight_def)

lemma broken_whole: "whole c' = whole c \<Longrightarrow> broken_at off c' = broken_at off c"
  using whole_flow(2) [of c' c] stream_whole [of c' c] in_flight_whole [of c' c]
  by (cases off) (simp_all add: broken_at_def)

lemma chained_upd:
  assumes "chained lim c" "pcs d = pcs c" "outs d = (outs c)[k := x]" "c_arch_pc d = c_arch_pc c"
    "m \<le> lim" "m \<le> k \<or> x = outs c ! k"
  shows "chained m d"
  unfolding chained_def
proof (intro allI impI)
  fix j assume j: "j < length (pcs d)" "j \<le> m"
  have "pcs c ! j = (c_arch_pc c # outs c) ! j" using assms(1,2,5) j by (simp add: chained_def)
  moreover have "(c_arch_pc d # outs d) ! j = (c_arch_pc c # outs c) ! j"
  proof (cases j)
    case 0
    then show ?thesis by (simp add: assms(4))
  next
    case (Suc i)
    then show ?thesis using assms(6) j(2) by (cases "m \<le> k") (simp_all add: assms(3))
  qed
  ultimately show "pcs d ! j = (c_arch_pc d # outs d) ! j" by (simp add: assms(2))
qed

lemma broken_step:
  assumes c: "core c" "broken_at off c" and work: "\<forall>br. off = Some br \<longrightarrow> br \<in># work c"
    and k: "k < length (in_flight c)" "u_seq (in_flight c ! k) = s" "s \<in> idle c" "s \<notin> u_seq ` set_mset (work c)"
    and u: "names u = names (in_flight c ! k)"
    and d: "pcs d = pcs c" "outs d = (outs c)[k := u_next_pc u]" "c_arch_pc d = c_arch_pc c" "in_flight d = (in_flight c)[k := u]"
      "length (stream d) = length (stream c)"
  shows "broken_at (note_offender u off) d"
proof -
  have su: "u_seq u = s" using names_eqs(2) [OF u] k(2) by simp
  have straight: "u_next_pc u = outs c ! k" if "\<not> mispredicted u"
    using that k names_eqs(15) [OF u] by (simp add: mispredicted_def outs_def nth_append leads_def)
  have at: "in_flight d ! k = u" "k < length (in_flight d)" using k(1) by (simp_all add: d(4))
  note upd = chained_upd [OF _ d(1-3)]
  show ?thesis
  proof (cases off)
    case None
    then have full: "chained (length (stream c)) c" using c(2) by (simp add: broken_at_def)
    show ?thesis
    proof (cases "mispredicted u")
      case True
      then have "note_offender u off = Some u" by (simp add: note_offender_def None)
      moreover have "chained k d" using upd [OF full, of k] k(1) by (simp add: stream_def)
      ultimately show ?thesis using at True by (auto simp: broken_at_def)
    next
      case False
      then have "note_offender u off = None" by (simp add: note_offender_def None)
      moreover have "chained (length (stream d)) d" using upd [OF full] straight [OF False] d(5) by simp
      ultimately show ?thesis by (simp add: broken_at_def)
    qed
  next
    case (Some br)
    then obtain m where m: "m < length (in_flight c)" "in_flight c ! m = br" "chained m c" "mispredicted br"
      using c(2) by (auto simp: broken_at_def)
    have "u_seq br \<in> u_seq ` set_mset (work c)" using work Some by simp
    then have "m \<noteq> k" using m(2) k(2,4) by metis
    then have keep: "in_flight d ! m = br" "m < length (in_flight d)" using m by (simp_all add: d(4))
    have order: "u_seq u < u_seq br \<longleftrightarrow> k < m"
      using in_flight_core(5) [OF c(1)] m(1,2) k(1,2) su \<open>m \<noteq> k\<close>
      by (metis linorder_neqE_nat order_less_asym program_ordered_def sorted_wrt_nth_less)
    show ?thesis
    proof (cases "mispredicted u \<and> u_seq u < u_seq br")
      case True
      then have "note_offender u off = Some u" by (simp add: note_offender_def Some)
      moreover have "chained k d" using upd [OF m(3), of k] order True by simp
      ultimately show ?thesis using at True by (auto simp: broken_at_def)
    next
      case False
      then have "note_offender u off = Some br" by (auto simp: note_offender_def Some)
      moreover have "chained m d"
        using upd [OF m(3), of m] straight order \<open>m \<noteq> k\<close> False by (cases "mispredicted u") simp_all
      ultimately show ?thesis using keep m(4) by (auto simp: broken_at_def)
    qed
  qed
qed

lemma open_seqs_flag:
  assumes "rob_ok r" "k < rob_count r"
  shows "open_seqs (rob_modify r (rob_nth r k) (\<lambda>e. e\<lparr>re_mispredicted := b\<rparr>)) = open_seqs r"
proof -
  have "map (\<lambda>e. (re_seq e, re_complete e)) (rob_list (rob_modify r (rob_nth r k) (\<lambda>e. e\<lparr>re_mispredicted := b\<rparr>))) =
      map (\<lambda>e. (re_seq e, re_complete e)) (rob_list r)"
    using assms by (simp add: rob_modify_list map_update list_update_same_conv)
  moreover have "map re_seq (filter (\<lambda>e. \<not> re_complete e) es) =
      map fst (filter (\<lambda>p. \<not> snd p) (map (\<lambda>e. (re_seq e, re_complete e)) es))" for es :: "RobEntry list"
    by (simp add: filter_map comp_def)
  ultimately show ?thesis unfolding open_seqs_def by (simp only:)
qed

text \<open>Every field the invariant reads, after a candidate has issued.\<close>

lemma finish_issue_fields:
  assumes c: "core c" "flow G c" and e: "e \<in> set (iq_entries (c_iq c))"
    and k: "k < length (dispatched c)" "k < length (in_flight c)" "u_seq (in_flight c ! k) = iq_seq e"
    and u1: "issues G c e k u1 (c_lsq c1)" and c1: "whole (c1\<lparr>c_lsq := c_lsq c\<rparr>) = whole c"
  obtains d u where "whole (is_cpu (finish_issue e f unit u1 lat c1 st)) = whole d"
    "is_offender (finish_issue e f unit u1 lat c1 st) = note_offender u (is_offender st)"
    "names u = names (in_flight c ! k)" "d_writes_rd (u_dec u) \<Longrightarrow> u_has_result u"
    "right G (retired c) (in_flight c) k \<Longrightarrow> executed (G (retired c + k)) u"
    "\<not> d_is_branch (u_dec u) \<Longrightarrow> u_next_pc u = u_pc u + 4"
    "in_flight d = (in_flight c)[k := u]" "iq_entries (c_iq d) = erase_first (iq_seq e) (iq_entries (c_iq c))"
    "work d = add_mset u (work c)" "unfinished d = unfinished c" "c_prf d = c_prf c" "c_rename_q d = c_rename_q c"
    "c_decode_q d = c_decode_q c" "c_fetch_q d = c_fetch_q c" "committed d = committed c" "retired d = retired c"
    "fl_capacity (c_free_list d) = fl_capacity (c_free_list c)" "c_pc d = c_pc c" "c_fetch_stalled d = c_fetch_stalled c"
    "seats (idle c - {iq_seq e}) ((dispatched c)[k := u]) (c_lsq d)"
proof -
  define u where "u = u1\<lparr>u_wb_cycle := c_cycle c1 + lat, u_at := (u_at u1)\<lparr>at_issue := c_cycle c1\<rparr>\<rparr>"
  define r where "r = (if mispredicted u
    then rob_modify (c_rob c1) (u_rob u) (\<lambda>r. r\<lparr>re_mispredicted := True\<rparr>) else c_rob c1)"
  define d where "d = enqueue_result u lat (c1\<lparr>c_rob := r, c_inflight := (c_inflight c1)[u_rob u := u],
    c_iq := iq_erase (iq_seq e) (c_iq c1)\<rparr>)"
  have out: "whole (is_cpu (finish_issue e f unit u1 lat c1 st)) = whole d"
    "is_offender (finish_issue e f unit u1 lat c1 st) = note_offender u (is_offender st)"
    by (simp_all add: finish_issue_def Let_def obs_defs u_def d_def r_def whole_def essence_def committed_def work_def
        occupy_unit_def enqueue_result_def iq_erase_def)
  note same = essence_eqs [OF whole_eqs(1) [OF c1]] and rest = whole_eqs(2-6) [OF c1] and core = core_facts [OF c(1)]
  have eqs: "c_rob c1 = c_rob c" "c_inflight c1 = c_inflight c" "iq_entries (c_iq c1) = iq_entries (c_iq c)" "work c1 = work c" "c_prf c1 = c_prf c"
    "c_rename_q c1 = c_rename_q c" "c_decode_q c1 = c_decode_q c" "c_fetch_q c1 = c_fetch_q c" "committed c1 = committed c"
    "retired c1 = retired c" "c_free_list c1 = c_free_list c" "c_pc c1 = c_pc c" "c_fetch_stalled c1 = c_fetch_stalled c"
    using same rest by (simp_all add: work_def committed_def)
  have nu: "names u = names u1" by (simp add: u_def names_def ident_def front_key_def predicted_pc_def)
  then have n: "names u = names (in_flight c ! k)" using u1 by (simp add: issues_def)
  have live: "live (c_rob c) k (in_flight c ! k)" by (rule in_flight_core(4) [OF c(1) k(2)])
  have rob: "k < rob_count (c_rob c)" "u_rob u = rob_nth (c_rob c) k"
    using live names_eqs(3) [OF n] by (simp_all add: live_def)
  have infl: "in_flight d = (in_flight c)[k := u]"
    using uops_update [OF core(3) rob(1) core(4)] rob(2)
    by (simp add: in_flight_def d_def r_def eqs)
  have unf: "unfinished d = unfinished c"
    using open_seqs_flag [OF core(3) rob(1)] by (simp add: unfinished_def d_def r_def eqs rob(2))
  have seated: "seats (idle c - {iq_seq e}) ((dispatched c)[k := u]) (c_lsq d)"
  proof -
    have "(dispatched c)[k := x] = take k (dispatched c) @ x # drop (Suc k) (dispatched c)" for x
      using k(1) by (simp add: upd_conv_take_nth_drop)
    moreover have "c_lsq d = c_lsq c1" by (simp add: d_def enqueue_result_def)
    moreover have "seat_view u = seat_view u1" using names_eqs [OF nu] by (simp add: seat_view_def) (simp add: u_def)
    moreover have "seats (idle c - {iq_seq e}) ((dispatched c)[k := u1]) (c_lsq c1)" using u1 by (simp add: issues_def)
    ultimately show ?thesis using seats_payload [of _ _ u1 _ _ u] by metis
  qed
  have computed: "d_writes_rd (u_dec u) \<Longrightarrow> u_has_result u" "\<not> d_is_branch (u_dec u) \<Longrightarrow> u_next_pc u = u_pc u + 4"
    "right G (retired c) (in_flight c) k \<Longrightarrow> executed (G (retired c + k)) u"
    using u1 by (simp_all add: issues_def u_def executed_def operands_right_def agrees_def ref_effect_def)
  have queues: "iq_entries (c_iq d) = erase_first (iq_seq e) (iq_entries (c_iq c))" "work d = add_mset u (work c)"
    "c_prf d = c_prf c" "c_rename_q d = c_rename_q c" "c_decode_q d = c_decode_q c" "c_fetch_q d = c_fetch_q c"
    "committed d = committed c" "retired d = retired c" "fl_capacity (c_free_list d) = fl_capacity (c_free_list c)"
    "c_pc d = c_pc c" "c_fetch_stalled d = c_fetch_stalled c"
    using eqs by (simp_all add: d_def iq_erase_def enqueue_result_def committed_def work_def)
  show thesis by (rule that [OF out n computed(1,3,2) infl queues(1,2) unf queues(3-) seated])
qed

lemma finish_issue_flow:
  assumes c: "core c" "flow G c" "broken_at (is_offender st) c"
    and work: "\<forall>br. is_offender st = Some br \<longrightarrow> br \<in># work c"
    and e: "e \<in> set (iq_entries (c_iq c))"
    and k: "k < length (dispatched c)" "k < length (in_flight c)" "u_seq (in_flight c ! k) = iq_seq e"
    and u1: "issues G c e k u1 (c_lsq c1)" and c1: "whole (c1\<lparr>c_lsq := c_lsq c\<rparr>) = whole c"
  shows "issue_flow G (finish_issue e f unit u1 lat c1 st)"
proof (rule finish_issue_fields [OF c(1,2) e k u1 c1, where f = f and unit = unit and lat = lat and st = st])
  fix d u
  assume out: "whole (is_cpu (finish_issue e f unit u1 lat c1 st)) = whole d"
      "is_offender (finish_issue e f unit u1 lat c1 st) = note_offender u (is_offender st)"
    and u: "names u = names (in_flight c ! k)" "d_writes_rd (u_dec u) \<Longrightarrow> u_has_result u"
      "right G (retired c) (in_flight c) k \<Longrightarrow> executed (G (retired c + k)) u"
      "\<not> d_is_branch (u_dec u) \<Longrightarrow> u_next_pc u = u_pc u + 4"
    and d: "in_flight d = (in_flight c)[k := u]" "iq_entries (c_iq d) = erase_first (iq_seq e) (iq_entries (c_iq c))"
      "work d = add_mset u (work c)" "unfinished d = unfinished c" "c_prf d = c_prf c" "c_rename_q d = c_rename_q c"
      "c_decode_q d = c_decode_q c" "c_fetch_q d = c_fetch_q c" "committed d = committed c" "retired d = retired c"
      "fl_capacity (c_free_list d) = fl_capacity (c_free_list c)" "c_pc d = c_pc c" "c_fetch_stalled d = c_fetch_stalled c"
      "seats (idle c - {iq_seq e}) ((dispatched c)[k := u]) (c_lsq d)"
  note step = issue_step [OF c(1,2) e k u d]
  have len: "length (stream d) = length (stream c)" by (simp add: stream_def d(1,7,8))
  obtain "iq_seq e \<in> idle c" "iq_seq e \<notin> u_seq ` set_mset (work c)" by (rule candidate [OF c(1,2) e])
  then have "broken_at (note_offender u (is_offender st)) d"
    by (rule broken_step [OF c(1,3) work k(2,3) _ _ u(1) step(2,3) committed_eqs(3) [OF d(9)] d(1) len])
  then show ?thesis
    using whole_flow(1) [OF out(1)] broken_whole [OF out(1)] step(1) out(2) by (simp add: issue_flow_def)
qed

end
