(* ===== verification/Recovery.thy ===== *)
theory Recovery
  imports Speculation
begin

text \<open>
  The issue stage under the data-flow invariant: the scan keeps the chain of PCs up to the oldest
  mispredicted instruction, and recovery cuts the stream there and restarts fetch on the path.
\<close>

section \<open>One candidate\<close>

lemma issue_one_flow:
  assumes G: "golden_run G" and st: "issue_ok st" "issue_flow G st"
    and e: "e \<in> set (iq_entries (c_iq (is_cpu st)))" "iq_ready e"
  shows "issue_flow G (issue_one e st)"
proof -
  define c where "c = is_cpu st"
  have c: "core c" "flow G c" "broken_at (is_offender st) c" and work: "\<forall>br. is_offender st = Some br \<longrightarrow> br \<in># work c"
    using st by (simp_all add: issue_ok_def issue_flow_def c_def)
  note e = e [folded c_def]
  obtain k where k: "k < length (dispatched c)" "k < length (in_flight c)" "in_flight c ! k = c_inflight c ! iq_rob e"
    "u_seq (in_flight c ! k) = iq_seq e" by (rule candidate [OF c(1,2) e(1)])
  have u: "operands_read c (in_flight c ! k) = (c_inflight c ! iq_rob e)
      \<lparr>u_val1 := prf_read (c_prf c) (u_src1 (c_inflight c ! iq_rob e)),
       u_val2 := prf_read (c_prf c) (u_src2 (c_inflight c ! iq_rob e))\<rparr>"
    by (simp add: operands_read_def k(3))
  have unseen: "issue_flow G (block_on s d st)" if "whole d = whole c" for s d
    using whole_flow(1) [OF that] broken_whole [OF that] c by (simp add: issue_flow_def block_on_def)
  note candidate_facts = G c(1,2) e k(1,2,4)
  note finish = finish_issue_flow [OF c work e(1) k(1,2,4)]
  show ?thesis
  proof (rule issue_one_cases [OF c_def refl u], goal_cases)
    case 1
    then show ?case using unseen by simp
  next
    case (2 unit c1)
    define d where "d = event (Ev_replay (u_seq (operands_read c (in_flight c ! k))))
      (upd_stats (\<lambda>s. s\<lparr>st_load_replays := st_load_replays s + 1\<rparr>) (occupy_unit Fu_MEM unit (c_cycle c1 + 1) c1))"
    note form = execute_load_form(1) [OF 2(3)]
    have s: "seats (idle c) (dispatched c) (c_lsq c1)" by (rule load_replays [OF candidate_facts _ 2(3)]) (use 2(2) in simp)
    have w: "whole (d\<lparr>c_lsq := c_lsq c\<rparr>) = whole c"
      using form by (simp add: d_def occupy_unit_def obs_defs whole_def essence_def committed_def work_def)
    have "whole d = whole (c\<lparr>c_lsq := c_lsq c1\<rparr>)"
    proof -
      have "c_lsq d = c_lsq c1" by (simp add: d_def occupy_unit_def obs_defs)
      then show ?thesis using w by (simp add: whole_def essence_def committed_def work_def)
    qed
    moreover have "flow G (c\<lparr>c_lsq := c_lsq c1\<rparr>)" using c(2) s by (simp add: flow_defs)
    moreover have "broken_at off (c\<lparr>c_lsq := c_lsq c1\<rparr>) = broken_at off c" for off
      by (cases off) (simp_all add: broken_at_def chained_def pcs_def outs_def stream_def in_flight_def idle_def)
    ultimately have "issue_flow G (block_on Stall_STORE_ORDER d st)"
      using c(3) whole_flow(1) [of d "c\<lparr>c_lsq := c_lsq c1\<rparr>"] broken_whole [of d "c\<lparr>c_lsq := c_lsq c1\<rparr>"]
      by (simp add: issue_flow_def block_on_def)
    then show ?case using 2(4) by (simp add: d_def)
  next
    case (3 unit u1 lat c1)
    have "issues G c e k u1 (c_lsq c1)" by (rule load_issues [OF candidate_facts _ 3(3)]) (use 3(2) in simp)
    then show ?case unfolding 3(4) by (rule finish) (rule execute_load_form(1) [OF 3(3)])
  next
    case (4 unit)
    then show ?case using unseen by simp
  next
    case (5 unit u1 c1)
    have "issues G c e k u1 (c_lsq c1)" by (rule other_issues [OF candidate_facts _ 5(3)]) (use 5(2) in simp)
    then show ?case unfolding 5(4) by (rule finish) (rule execute_other_form(1) [OF 5(3)])
  qed
qed

text \<open>What one candidate preserves, beside the data flow, the scan preserves.\<close>

lemma issue_scan_invariant:
  assumes G: "golden_run G"
    and step: "\<And>st e. issue_ok st \<Longrightarrow> issue_flow G st \<Longrightarrow> P st \<Longrightarrow> e \<in> set (iq_entries (c_iq (is_cpu st))) \<Longrightarrow>
      iq_ready e \<Longrightarrow> P (issue_one e st)"
  shows "issue_ok st \<Longrightarrow> issue_flow G st \<Longrightarrow> P st \<Longrightarrow> set es \<subseteq> set (iq_entries (c_iq (is_cpu st))) \<Longrightarrow>
    distinct (map iq_seq es) \<Longrightarrow> \<forall>e \<in> set es. iq_ready e \<Longrightarrow>
    issue_ok (issue_scan es st) \<and> issue_flow G (issue_scan es st) \<and> P (issue_scan es st)"
proof (induction es arbitrary: st)
  case Nil
  then show ?case by simp
next
  case (Cons e es)
  define st' where "st' = issue_one e st"
  have one: "issue_ok st'" "iq_entries (c_iq (is_cpu st')) \<in>
      {iq_entries (c_iq (is_cpu st)), erase_first (iq_seq e) (iq_entries (c_iq (is_cpu st)))}"
    using issue_one_ok [OF Cons.prems(1), of e] Cons.prems(4) by (auto simp: st'_def)
  have "distinct (map iq_seq (iq_entries (c_iq (is_cpu st))))"
    using Cons.prems(1) waiting_distinct by (auto simp: issue_ok_def core_def ordered_def waits_def)
  then have "set es \<subseteq> set (erase_first (iq_seq e) (iq_entries (c_iq (is_cpu st))))"
    using erase_keeps_others [of "iq_entries (c_iq (is_cpu st))" e es] Cons.prems(4,5) by simp
  then have sub: "set es \<subseteq> set (iq_entries (c_iq (is_cpu st')))"
    using one(2) Cons.prems(4) by (elim insertE emptyE) simp_all
  have fl: "issue_flow G st'" "P st'"
    unfolding st'_def
    by (rule issue_one_flow [OF G Cons.prems(1,2)], use Cons.prems(4,6) in simp_all)
      (rule step [OF Cons.prems(1-3)], use Cons.prems(4,6) in simp_all)
  have "issue_ok (issue_scan es st') \<and> issue_flow G (issue_scan es st') \<and> P (issue_scan es st')"
    by (rule Cons.IH [OF one(1) fl sub]) (use Cons.prems(5,6) in auto)
  then show ?case using Cons.prems(1-3) by (simp flip: st'_def)
qed

lemma charge_whole [simp]: "whole (snd (charge ss n c)) = whole c" "whole (charge_operands n c) = whole c"
proof -
  have s: "whole (cpu_stall s c) = whole c" for s c by (simp add: whole_def)
  show "whole (snd (charge ss n c)) = whole c" by (induction ss arbitrary: n c) (simp_all add: s)
  show "whole (charge_operands n c) = whole c" by (induction n arbitrary: c) (simp_all add: s)
qed

section \<open>Recovery\<close>

lemma recover_rest:
  "c_prf (recover br c) = c_prf c" "c_lsq (recover br c) = lsq_squash_after (u_seq br) (c_lsq c)"
  "c_pc (recover br c) = u_next_pc br" "\<not> c_fetch_stalled (recover br c)"
proof -
  have kill: "c_prf (fold kill_entry es d) = c_prf d" "c_lsq (fold kill_entry es d) = c_lsq d" for es d
    by (induction es arbitrary: d) (simp_all add: kill_entry_def Let_def obs_defs)
  have queues: "c_prf (squash_queues s d) = c_prf d" "c_lsq (squash_queues s d) = c_lsq d" for s d
    using squash_queues_eq [of s d] by auto
  have front: "c_prf (restore_front_end br d) = c_prf d" "c_lsq (restore_front_end br d) = c_lsq d" for d
    by (simp_all add: restore_front_end_def Let_def split: option.split)
  show "c_prf (recover br c) = c_prf c" "c_lsq (recover br c) = lsq_squash_after (u_seq br) (c_lsq c)"
    "c_pc (recover br c) = u_next_pc br" "\<not> c_fetch_stalled (recover br c)"
    by (simp_all add: recover_def Let_def split_beta obs_defs kill queues front)
qed

lemma ordered_take:
  assumes "program_ordered f xs" "k < length xs"
  shows "filter (\<lambda>x. f x \<le> f (xs ! k)) xs = take (Suc k) xs"
proof -
  have split: "xs = take (Suc k) xs @ drop (Suc k) xs" by simp
  have less: "f (xs ! i) < f (xs ! j)" if "i < j" "j < length xs" for i j
    using assms(1) that by (simp add: program_ordered_def sorted_wrt_iff_nth_less)
  have "f (xs ! i) \<le> f (xs ! k)" if "i < Suc k" for i
    using less [of i k] assms(2) that by (cases "i = k") simp_all
  then have "\<forall>x \<in> set (take (Suc k) xs). f x \<le> f (xs ! k)" by (auto simp: in_set_conv_nth)
  then have low: "filter (\<lambda>x. f x \<le> f (xs ! k)) (take (Suc k) xs) = take (Suc k) xs"
    by (simp only: filter_id_conv)
  have "\<not> f (xs ! (Suc k + i)) \<le> f (xs ! k)" if "Suc k + i < length xs" for i
    using less [of k "Suc k + i"] that by (simp add: not_le)
  then have "\<forall>x \<in> set (drop (Suc k) xs). \<not> f x \<le> f (xs ! k)"
    using assms(2) by (auto simp: in_set_conv_nth)
  then have high: "filter (\<lambda>x. f x \<le> f (xs ! k)) (drop (Suc k) xs) = []" by (simp only: filter_empty_conv)
  show ?thesis using low high by (metis append_Nil2 filter_append split)
qed

text \<open>The stream is cut behind the branch.\<close>

lemma recover_cut:
  assumes c: "core c" "flow G c" and br: "br \<in># work c" and k: "k < length (in_flight c)" "in_flight c ! k = br"
  defines "d \<equiv> recover br c"
  shows "in_flight d = take (Suc k) (in_flight c)" "dispatched d = take (Suc k) (in_flight c)"
    "take (Suc k) (in_flight c) = filter (\<lambda>u. u_seq u \<le> u_seq br) (dispatched c)"
    "u \<in> set (take (Suc k) (in_flight c)) \<Longrightarrow> u_seq u \<in> idle d \<longleftrightarrow> u_seq u \<in> idle c"
    "u \<in> set (take (Suc k) (in_flight c)) \<Longrightarrow> u_seq u \<in> unfinished d \<longleftrightarrow> u_seq u \<in> unfinished c"
    "work d = {#u \<in># work c. u_seq u \<le> u_seq br#}"
    "iq_entries (c_iq d) = filter (\<lambda>e. iq_seq e \<le> u_seq br) (iq_entries (c_iq c))"
    "c_rename_q d = []" "c_decode_q d = []" "c_fetch_q d = []" "retired d = retired c"
    "fl_capacity (c_free_list d) = fl_capacity (c_free_list c)"
    "u \<in> set (in_flight c) \<Longrightarrow> u_seq u \<le> u_seq br \<Longrightarrow> u \<in> set (take (Suc k) (in_flight c))"
proof -
  note core = core_facts [OF c(1)] and fc = in_flight_core [OF c(1)] and p = flow_parts [OF c(2)]
  have live: "live (c_rob c) k br" using fc(4) [OF k(1)] k(2) by simp
  have rob: "k < rob_count (c_rob c)" "u_rob br = rob_nth (c_rob c) k" using live by (simp_all add: live_def)
  note f = recover_fields [OF core(3) rob, folded d_def] and t = truncate_tags [OF core(3) rob(1)]
  show infl: "in_flight d = take (Suc k) (in_flight c)"
    by (rule nth_equalityI) (use rob(1) t(5) in \<open>simp_all add: in_flight_def f(1,6) less_Suc_eq_le\<close>)
  show "c_rename_q d = []" "c_decode_q d = []" "c_fetch_q d = []" "retired d = retired c"
    "work d = {#u \<in># work c. u_seq u \<le> u_seq br#}"
    "iq_entries (c_iq d) = filter (\<lambda>e. iq_seq e \<le> u_seq br) (iq_entries (c_iq c))" by (rule f)+
  show "dispatched d = take (Suc k) (in_flight c)" using k(1) by (simp add: dispatched_def infl f(10))
  show "fl_capacity (c_free_list d) = fl_capacity (c_free_list c)"
    by (simp add: f(2) release_dests_def fl_release_fold_capacity)
  note cut = ordered_take [OF fc(5) k(1), unfolded k(2)]
  have young: "\<not> u_seq u \<le> u_seq br" if "u \<in> set (c_rename_q c)" for u
  proof -
    have "u_seq br \<in> u_seq ` set_mset (work c)" using br by (rule imageI)
    then show ?thesis using c(1) that by (auto simp: core_def waits_def waiting_def not_le)
  qed
  then have "filter (\<lambda>u. u_seq u \<le> u_seq br) (c_rename_q c) = []" by (simp add: filter_empty_conv)
  moreover have "filter (\<lambda>u. u_seq u \<le> u_seq br) (in_flight c) =
      filter (\<lambda>u. u_seq u \<le> u_seq br) (dispatched c) @ filter (\<lambda>u. u_seq u \<le> u_seq br) (c_rename_q c)"
    using arg_cong [OF p(1), of "filter (\<lambda>u. u_seq u \<le> u_seq br)"] by simp
  ultimately show "take (Suc k) (in_flight c) = filter (\<lambda>u. u_seq u \<le> u_seq br) (dispatched c)"
    using cut by simp
  have old: "u_seq u \<le> u_seq br" if "u \<in> set (take (Suc k) (in_flight c))" for u
    using that by (simp flip: cut)
  show "u_seq u \<in> idle d \<longleftrightarrow> u_seq u \<in> idle c" if "u \<in> set (take (Suc k) (in_flight c))"
    using old [OF that] young by (auto simp: idle_def f(4,10) intro: rev_image_eqI)
  have os: "order_state (c_rob c) (st_renamed (c_stats c))" using c(1) by (simp add: core_def ordered_def)
  show "u_seq u \<in> unfinished d \<longleftrightarrow> u_seq u \<in> unfinished c" if "u \<in> set (take (Suc k) (in_flight c))"
    using old [OF that] open_seqs_truncate [OF core(3) os rob(1)] live_seqs [OF live]
    by (simp add: unfinished_def f(1))
  show "u \<in> set (in_flight c) \<Longrightarrow> u_seq u \<le> u_seq br \<Longrightarrow> u \<in> set (take (Suc k) (in_flight c))"
    by (simp flip: cut)
qed

text \<open>Facts about a list of uops hold of its prefixes.\<close>

lemma take_flow:
  "sources arch us \<Longrightarrow> sources arch (take m us)" "dests_pending U us p \<Longrightarrow> dests_pending U (take m us) p"
  "data_ok G n I U us p \<Longrightarrow> data_ok G n I U (take m us) p"
proof -
  show "sources arch us \<Longrightarrow> sources arch (take m us)" by (simp add: sources_def min_def)
  show "dests_pending U us p \<Longrightarrow> dests_pending U (take m us) p" by (auto simp: dests_pending_def dest: in_set_takeD)
  have "right G n (take m us) k = right G n us k" if "k < m" for k
    using that by (intro right_cong) simp
  then show "data_ok G n I U us p \<Longrightarrow> data_ok G n I U (take m us) p" by (simp add: data_ok_def)
qed

lemma flow_sets_cong:
  assumes "\<And>u. u \<in> set us \<Longrightarrow> u_seq u \<in> I \<longleftrightarrow> u_seq u \<in> J" "\<And>u. u \<in> set us \<Longrightarrow> u_seq u \<in> U \<longleftrightarrow> u_seq u \<in> V"
  shows "data_ok G n I U us p \<longleftrightarrow> data_ok G n J V us p" "dests_pending U us p \<longleftrightarrow> dests_pending V us p"
    "map (leads I) us = map (leads J) us" "u \<in> set us \<Longrightarrow> shaped I u \<longleftrightarrow> shaped J u"
  using assms by (auto simp: data_ok_def dests_pending_def leads_def shaped_def)

lemma recover_flow:
  assumes c: "core c" "flow G c" and br: "br \<in># work c" and k: "k < length (in_flight c)" "in_flight c ! k = br"
    and chain: "chained k c"
  shows "flowing G (recover br c)"
proof -
  define d where "d = recover br c"
  define us where "us = take (Suc k) (in_flight c)"
  note f = recover_cut [OF c br k, folded d_def us_def] and r = recover_rest [of br c, folded d_def]
    and p = flow_parts [OF c(2)]
  have cm: "committed d = committed c" by (simp add: d_def)
  note cm = committed_eqs [OF cm]
  note sets = flow_sets_cong [OF f(4,5)]
  have sub: "set us \<subseteq> set (in_flight c)" by (simp add: us_def set_take_subset)
  have "payloads d"
    using p(2) f(13) by (auto simp: payloads_def f(1,2,6,8) us_def)
  moreover have "\<forall>u \<in> set (in_flight d). shaped (idle d) u" using sets(4) p(3) sub by (auto simp: f(1))
  moreover have "front_shaped d" by (simp add: front_shaped_def f(9,10))
  moreover have "sources (c_arch_rat d) (in_flight d)" using take_flow(1) [OF p(5)] by (simp add: f(1) cm us_def)
  moreover have "woken (c_prf d) (in_flight d) (iq_entries (c_iq d))"
    unfolding woken_def
  proof
    fix e assume e: "e \<in> set (iq_entries (c_iq d))"
    then have w: "(iq_src1_ready e \<longrightarrow> prf_is_ready (c_prf c) (iq_src1 e)) \<and> (iq_src2_ready e \<longrightarrow> prf_is_ready (c_prf c) (iq_src2 e))"
      "\<exists>u \<in> set (in_flight c). u_seq u = iq_seq e \<and> u_src1 u = iq_src1 e \<and> u_src2 u = iq_src2 e"
      using p(6) by (simp_all add: f(7) woken_def)
    moreover have "iq_seq e \<le> u_seq br" using e by (simp add: f(7))
    then have "\<exists>u \<in> set (in_flight d). u_seq u = iq_seq e \<and> u_src1 u = iq_src1 e \<and> u_src2 u = iq_src2 e"
      using w(2) f(13) unfolding f(1) by metis
    ultimately show "(iq_src1_ready e \<longrightarrow> prf_is_ready (c_prf d) (iq_src1 e)) \<and> (iq_src2_ready e \<longrightarrow> prf_is_ready (c_prf d) (iq_src2 e)) \<and>
        (\<exists>u \<in> set (in_flight d). u_seq u = iq_seq e \<and> u_src1 u = iq_src1 e \<and> u_src2 u = iq_src2 e)"
      by (simp add: r(1))
  qed
  moreover have "dests_pending (unfinished d) (in_flight d) (c_prf d)"
    using take_flow(2) [OF p(7)] sets(2) by (simp add: f(1) r(1) us_def)
  moreover have "prf_sized (c_prf d) (c_free_list d)" using p(8) by (simp add: prf_sized_def r(1) f(12))
  moreover have "fetch_ok G (retired d) (stream d)"
  proof -
    have "stream c = us @ drop (Suc k) (in_flight c) @ c_decode_q c @ c_fetch_q c" by (simp add: stream_def us_def)
    then have "fetch_ok G (retired c) us" using p(9) fetch_ok_append by metis
    then show ?thesis by (simp add: stream_def f(1,9-11))
  qed
  moreover have "data_ok G (retired d) (idle d) (unfinished d) (in_flight d) (c_prf d)"
    using take_flow(3) [OF p(10)] sets(1) by (simp add: f(1,11) r(1) us_def)
  moreover have "seats (idle d) (dispatched d) (c_lsq d)"
  proof -
    have "program_ordered u_seq (dispatched c)"
      using in_flight_core(5) [OF c(1)] by (simp add: dispatched_def program_ordered_def sorted_wrt_take)
    from seats_squash [OF p(11) this, of "u_seq br"] have "seats (idle c) us (c_lsq d)" by (simp add: f(3) r(2))
    then show ?thesis using f(4) by (auto simp: f(2) intro: seats_idle)
  qed
  moreover have "synced G d" using p(12) by (simp add: synced_def cpu_regs_def r(1) f(11) cm)
  ultimately have "flow G d" by (simp add: flow_def)
  moreover have "chained (length (stream d)) d"
  proof -
    have stream: "stream d = us" by (simp add: stream_def f(1,9,10))
    have outs: "outs d = map (leads (idle c)) us" using sets(3) by (simp add: outs_def f(1,9,10))
    have pcs: "pcs d = map u_pc us @ [u_next_pc br]" using r(3,4) by (simp add: pcs_def stream)
    have len: "length us = Suc k" using k(1) by (simp add: us_def)
    obtain W where W: "work c = add_mset br W" using br by (metis insert_DiffM)
    have "leads (idle c) br = u_next_pc br" using work_apart(1) [OF c(1) W] by (simp add: leads_def)
    moreover have "us ! k = br" using k by (simp add: us_def)
    ultimately have last: "outs d ! k = u_next_pc br" using len by (simp add: outs)
    have "pcs d ! j = (c_arch_pc d # outs d) ! j" if j: "j < length (pcs d)" for j
    proof (cases "j = Suc k")
      case True
      then show ?thesis using last len by (simp add: pcs nth_append)
    next
      case False
      with j len have jk: "j \<le> k" by (simp add: pcs)
      then have "pcs c ! j = (c_arch_pc c # outs c) ! j" using chain k(1) by (simp add: chained_def length_pcs stream_def)
      moreover have "pcs d ! j = pcs c ! j"
        unfolding pcs using jk len k(1) by (simp add: pcs_def stream_def nth_append us_def)
      moreover have "outs d ! i = outs c ! i" if "i < k" for i
        using that len k(1) by (simp add: outs) (simp add: outs_def nth_append us_def)
      then have "(c_arch_pc d # outs d) ! j = (c_arch_pc c # outs c) ! j" using jk by (cases j) (simp_all add: cm)
      ultimately show ?thesis by simp
    qed
    then show ?thesis by (simp add: chained_def)
  qed
  ultimately show ?thesis by (simp add: flowing_def d_def)
qed

section \<open>The stage\<close>

text \<open>Only a branch is ever mispredicted, so recovery always finds its checkpoint.\<close>

lemma offender_branch:
  assumes c: "core c" "flow G c" and br: "br \<in># work c" "mispredicted br"
  shows "d_is_branch (u_dec br)"
proof (rule ccontr)
  assume nb: "\<not> d_is_branch (u_dec br)"
  note p = flow_parts [OF c(2)]
  have in_us: "br \<in> set (in_flight c)" by (rule p(2) [OF br(1)])
  obtain W where "work c = add_mset br W" using br(1) by (metis insert_DiffM)
  then have "u_seq br \<notin> idle c" using work_apart(1) [OF c(1)] by blast
  then have sh: "decoded_uop br" "u_next_pc br = u_pc br + 4" using p(3) [OF in_us] nb by (simp_all add: shaped_def)
  obtain k where "k < length (stream c)" "stream c ! k = br"
    using in_us by (auto simp: stream_def in_set_conv_nth nth_append)
      (metis add_lessD1 le_add1 nat_less_le not_less order_le_less_trans)
  then have "straight br" using p(9) by (auto simp: fetch_ok_def)
  then show False using br(2) sh nb by (simp add: straight_def mispredicted_def decoded_uop_def)
qed

text \<open>The stage as a scan and a recovery, with what holds between the two.\<close>

lemma issue_parts:
  assumes G: "golden_run G" and c: "core c" "flowing G c"
    and step: "\<And>st e. issue_ok st \<Longrightarrow> issue_flow G st \<Longrightarrow> P st \<Longrightarrow> e \<in> set (iq_entries (c_iq (is_cpu st))) \<Longrightarrow>
      iq_ready e \<Longrightarrow> P (issue_one e st)"
    and init: "P \<lparr>is_cpu = c, is_issued = 0, is_offender = None, is_blocked = []\<rparr>"
  obtains st c1 where "st = issue_scan (filter iq_ready (iq_entries (c_iq c)))
      \<lparr>is_cpu = c, is_issued = 0, is_offender = None, is_blocked = []\<rparr>"
    "\<exists>n m. c1 = charge_operands n (snd (charge (is_blocked st) m (is_cpu st)))"
    "issue c = (case is_offender st of None \<Rightarrow> c1 | Some br \<Rightarrow> recover br c1)"
    "P st" "whole c1 = whole (is_cpu st)" "core c1" "flow G c1" "broken_at (is_offender st) c1"
    "\<And>br. is_offender st = Some br \<Longrightarrow> br \<in># work c1 \<and> d_is_branch (u_dec br) \<and>
       (\<exists>k < length (in_flight c1). in_flight c1 ! k = br \<and> chained k c1)"
proof -
  define st where "st = issue_scan (filter iq_ready (iq_entries (c_iq c)))
    \<lparr>is_cpu = c, is_issued = 0, is_offender = None, is_blocked = []\<rparr>"
  define m where "m = cfg_width (c_cfg c) - is_issued st"
  define c1 where "c1 = charge_operands (fst (charge (is_blocked st) m (is_cpu st)))
    (snd (charge (is_blocked st) m (is_cpu st)))"
  have out: "issue c = (case is_offender st of None \<Rightarrow> c1 | Some br \<Rightarrow> recover br c1)"
    by (simp add: issue_def Let_def split_beta c1_def st_def m_def iq_select_all split: option.split)
  have w: "whole c1 = whole (is_cpu st)" by (simp add: c1_def)
  have "distinct (map iq_seq (iq_entries (c_iq c)))"
    using c(1) waiting_distinct by (auto simp: core_def ordered_def waits_def)
  then have "distinct (map iq_seq (filter iq_ready (iq_entries (c_iq c))))" by (rule distinct_map_filter)
  then have "issue_ok st \<and> issue_flow G st \<and> P st"
    unfolding st_def
    by (intro issue_scan_invariant [where P = P, OF G step] init)
      (use c in \<open>auto simp: issue_ok_def issue_flow_def broken_at_def flowing_def\<close>)
  then have st: "P st" "core c1" "flow G c1" "broken_at (is_offender st) c1" "\<forall>br. is_offender st = Some br \<longrightarrow> br \<in># work c1"
    using core_essence [OF whole_eqs(1) [OF w]] essence_eqs(13) [OF whole_eqs(1) [OF w]] whole_flow(1) [OF w] broken_whole [OF w]
    by (simp_all add: issue_ok_def issue_flow_def)
  have off: "br \<in># work c1 \<and> d_is_branch (u_dec br) \<and> (\<exists>k < length (in_flight c1). in_flight c1 ! k = br \<and> chained k c1)"
    if "is_offender st = Some br" for br
  proof -
    have br: "br \<in># work c1" using st(5) that by blast
    moreover have b: "mispredicted br" "\<exists>k < length (in_flight c1). in_flight c1 ! k = br \<and> chained k c1"
      using st(4) that by (simp_all add: broken_at_def)
    ultimately show ?thesis using offender_branch [OF st(2,3) br b(1)] by blast
  qed
  show thesis by (rule that [OF st_def _ out st(1) w st(2-4) off]) (auto simp: c1_def)
qed

lemma issue_flowing:
  assumes G: "golden_run G" and c: "core c" "flowing G c"
  shows "flowing G (issue c)" "c_undefined (issue c) = c_undefined c"
proof -
  obtain st c1 where st: "st = issue_scan (filter iq_ready (iq_entries (c_iq c)))
      \<lparr>is_cpu = c, is_issued = 0, is_offender = None, is_blocked = []\<rparr>"
    "\<exists>n m. c1 = charge_operands n (snd (charge (is_blocked st) m (is_cpu st)))"
    and out: "issue c = (case is_offender st of None \<Rightarrow> c1 | Some br \<Rightarrow> recover br c1)"
    and c1: "core c1" "flow G c1" "broken_at (is_offender st) c1"
    and off: "\<And>br. is_offender st = Some br \<Longrightarrow> br \<in># work c1 \<and> d_is_branch (u_dec br) \<and>
       (\<exists>k < length (in_flight c1). in_flight c1 ! k = br \<and> chained k c1)"
    by (rule issue_parts [OF G c, where P = "\<lambda>_. True"]) auto
  have "hazard c1 = hazard c" using st by auto
  then have h: "c_undefined c1 = c_undefined c" by (simp add: hazard_def)
  have "flowing G (issue c) \<and> c_undefined (issue c) = c_undefined c"
  proof (cases "is_offender st")
    case None
    with c1 h show ?thesis by (simp add: out flowing_def broken_at_def)
  next
    case (Some br)
    then show ?thesis
      using off [OF Some] recover_flow [OF c1(1,2)] recover_core(2) [OF c1(1)] h by (auto simp: out)
  qed
  then show "flowing G (issue c)" "c_undefined (issue c) = c_undefined c" by blast+
qed

end
