(* ===== verification/Retirement.thy ===== *)
theory Retirement
  imports Recovery
begin

text \<open>
  Commit under the data-flow invariant: retiring the complete head is one step of the reference
  interpreter, and the squash at the end of the program keeps the committed state.
\<close>

section \<open>What one commit writes\<close>

definition traps :: "Uop \<Rightarrow> u32 list \<Rightarrow> bool" where
  "traps u regs \<longleftrightarrow> d_op (u_dec u) \<in> {Op_INVALID, Op_EBREAK} \<or>
     d_op (u_dec u) = Op_ECALL \<and> regs ! REG_A7 \<noteq> SYS_EXIT"

definition exits :: "Uop \<Rightarrow> u32 list \<Rightarrow> bool" where
  "exits u regs \<longleftrightarrow> d_op (u_dec u) = Op_ECALL \<and> regs ! REG_A7 = SYS_EXIT"

lemma ref_effect_state:
  fixes u m st
  defines "e \<equiv> ref_effect u m st"
  shows "rs_halted (ef_st e) \<longleftrightarrow> rs_halted st \<or> exits u (rs_regs st)"
    "rs_trapped (ef_st e) \<longleftrightarrow> rs_trapped st \<or> traps u (rs_regs st)"
    "rs_exit_code (ef_st e) = (if exits u (rs_regs st) then rs_regs st ! REG_A0 else rs_exit_code st)"
  by (cases "d_op (u_dec u)"; simp_all only: e_def ref_effect_def ref_switch_def Let_def Op.case;
      simp_all add: ef_value_def exits_def traps_def)+

text \<open>The last steps of \<open>commit_uop\<close> read only what the first ones leave alone.\<close>

lemma commit_effect_parts:
  fixes u c
  assumes "u_trap u = (if d_op (u_dec u) = Op_INVALID then Trap_ILLEGAL else Trap_NONE)" "wf_decoded (u_dec u)"
  defines "d \<equiv> snd (commit_effect u c)" and "cause \<equiv> fst (commit_effect u c)"
    and "regs \<equiv> map (cpu_reg c) [0..<32]"
  shows "c_mem d = (if d_is_store (u_dec u) then c_mem (commit_store (d_op (u_dec u)) c) else c_mem c)"
    "c_lsq d = (if d_is_store (u_dec u) then (c_lsq c)\<lparr>lsq_stores := lqq_pop_head (lsq_stores (c_lsq c))\<rparr> else c_lsq c)"
    "c_halted d \<longleftrightarrow> c_halted c \<or> exits u regs" "c_trapped d = c_trapped c"
    "c_exit_code d = (if exits u regs then regs ! REG_A0 else c_exit_code c)"
    "cause \<noteq> Trap_NONE \<longleftrightarrow> traps u regs"
proof -
  have st: "d_is_store (u_dec u) \<longleftrightarrow> kind_of_op (d_op (u_dec u)) = Kind_STORE"
    using assms(2) by (simp add: wf_decoded_def)
  have reg: "regs ! REG_A7 = cpu_reg c REG_A7" "regs ! REG_A0 = cpu_reg c REG_A0"
    by (simp_all add: regs_def REG_A7_def REG_A0_def)
  show "c_mem d = (if d_is_store (u_dec u) then c_mem (commit_store (d_op (u_dec u)) c) else c_mem c)"
    "c_lsq d = (if d_is_store (u_dec u) then (c_lsq c)\<lparr>lsq_stores := lqq_pop_head (lsq_stores (c_lsq c))\<rparr> else c_lsq c)"
    "c_halted d \<longleftrightarrow> c_halted c \<or> exits u regs" "c_trapped d = c_trapped c"
    "c_exit_code d = (if exits u regs then regs ! REG_A0 else c_exit_code c)"
    "cause \<noteq> Trap_NONE \<longleftrightarrow> traps u regs"
    using assms(1) unfolding st reg exits_def traps_def d_def cause_def
    by (cases "d_op (u_dec u)"; simp_all add: commit_effect_def kind_of_op_def commit_store_def Let_def)+
qed

lemma commit_uop_parts:
  fixes u c
  assumes u: "u_trap u = (if d_op (u_dec u) = Op_INVALID then Trap_ILLEGAL else Trap_NONE)" "wf_decoded (u_dec u)"
    and run: "\<not> cpu_done c"
  defines "d \<equiv> commit_uop u c" and "regs \<equiv> cpu_regs c"
  shows "c_mem d = (if d_is_store (u_dec u) then c_mem (commit_store (d_op (u_dec u)) c) else c_mem c)"
    "c_lsq d = (if d_is_load (u_dec u) then (c_lsq c)\<lparr>lsq_loads := lqq_pop_head (lsq_loads (c_lsq c))\<rparr>
      else if d_is_store (u_dec u) then (c_lsq c)\<lparr>lsq_stores := lqq_pop_head (lsq_stores (c_lsq c))\<rparr> else c_lsq c)"
    "c_halted d \<longleftrightarrow> exits u regs" "c_trapped d \<longleftrightarrow> traps u regs"
    "c_exit_code d = (if exits u regs then regs ! REG_A0 else c_exit_code c)"
    "c_arch_pc d = (if cpu_done d then u_pc u else u_next_pc u)"
    "c_prf d = c_prf c" "c_pc d = c_pc c" "c_fetch_stalled d = c_fetch_stalled c"
    "fl_capacity (c_free_list d) = fl_capacity (c_free_list c)"
proof -
  define c2 where "c2 = commit_branch u (commit_load u (commit_order u c))"
  have c2: "c_mem c2 = c_mem c" "c_halted c2 = c_halted c" "c_trapped c2 = c_trapped c" "c_exit_code c2 = c_exit_code c"
    "c_prf c2 = c_prf c" "c_arch_rat c2 = c_arch_rat c" "c_pc c2 = c_pc c" "c_fetch_stalled c2 = c_fetch_stalled c"
    "c_free_list c2 = c_free_list c" "lsq_stores (c_lsq c2) = lsq_stores (c_lsq c)"
    "c_lsq c2 = (if d_is_load (u_dec u) then (c_lsq c)\<lparr>lsq_loads := lqq_pop_head (lsq_loads (c_lsq c))\<rparr> else c_lsq c)"
    by (simp_all add: c2_def commit_branch_def commit_load_def commit_order_def Let_def obs_defs)
  have regs: "map (cpu_reg c2) [0..<32] = regs" by (simp add: regs_def cpu_regs_def cpu_reg_def c2(5,6))
  note parts = commit_effect_parts [OF u, of c2, unfolded regs]
  define c3 where "c3 = commit_mapping u (snd (commit_effect u c2))"
  define cause where "cause = fst (commit_effect u c2)"
  define c4 where "c4 = commit_trap cause u c3"
  have d: "d = upd_stats (\<lambda>s. s\<lparr>st_retired := st_retired s + 1\<rparr>)
      (c4\<lparr>c_arch_pc := (if cpu_done c4 then u_pc u else u_next_pc u)\<rparr>)"
    by (simp add: d_def commit_uop_def Let_def split_beta c4_def c3_def c2_def cause_def)
  have store: "c_mem (commit_store op c2) = c_mem (commit_store op c)" for op
    by (simp add: commit_store_def Let_def c2)
  have excl: "\<not> (d_is_load (u_dec u) \<and> d_is_store (u_dec u))" using u(2) by (auto simp: wf_decoded_def)
  have c4: "c_mem d = c_mem (snd (commit_effect u c2))" "c_lsq d = c_lsq (snd (commit_effect u c2))"
    "c_halted d = c_halted (snd (commit_effect u c2))" "c_exit_code d = c_exit_code (snd (commit_effect u c2))"
    "c_trapped d = (c_trapped (snd (commit_effect u c2)) \<or> cause \<noteq> Trap_NONE)" "cpu_done d = cpu_done c4"
    by (simp_all add: d c4_def c3_def commit_trap_def commit_mapping_def obs_defs cpu_done_def)
  show "c_mem d = (if d_is_store (u_dec u) then c_mem (commit_store (d_op (u_dec u)) c) else c_mem c)"
    using parts(1) by (simp add: c4(1) store c2(1))
  show "c_lsq d = (if d_is_load (u_dec u) then (c_lsq c)\<lparr>lsq_loads := lqq_pop_head (lsq_loads (c_lsq c))\<rparr>
      else if d_is_store (u_dec u) then (c_lsq c)\<lparr>lsq_stores := lqq_pop_head (lsq_stores (c_lsq c))\<rparr> else c_lsq c)"
    using parts(2) excl by (auto simp: c4(2) c2(11))
  show "c_halted d \<longleftrightarrow> exits u regs" "c_trapped d \<longleftrightarrow> traps u regs"
    "c_exit_code d = (if exits u regs then regs ! REG_A0 else c_exit_code c)"
    using parts(3-6) run by (simp_all add: c4(3-5) c2(2-4) cpu_done_def flip: cause_def)
  show "c_arch_pc d = (if cpu_done d then u_pc u else u_next_pc u)" unfolding c4(6) by (simp add: d)
  obtain m l x h where e: "snd (commit_effect u c2) = c2\<lparr>c_mem := m, c_lsq := l, c_exit_code := x, c_halted := h\<rparr>"
    by (rule commit_effect_form)
  show "c_prf d = c_prf c" "c_pc d = c_pc c" "c_fetch_stalled d = c_fetch_stalled c"
    "fl_capacity (c_free_list d) = fl_capacity (c_free_list c)"
    using c2(5,7-9) by (simp_all add: d c4_def c3_def e commit_trap_def commit_mapping_def obs_defs)
qed

section \<open>The complete head\<close>

lemma head_facts:
  assumes c: "core c" "flowing G c" and run: "\<not> cpu_done c" and pop: "rob_pop_head_if_complete (c_rob c) = Some (e, r')"
  defines "u \<equiv> c_inflight c ! rob_nth (c_rob c) 0"
  obtains ds where "dispatched c = u # ds" "in_flight c = u # ds @ c_rename_q c" "uops r' (c_inflight c) = ds @ c_rename_q c"
    "open_seqs r' = open_seqs (c_rob c)" "u_seq u \<notin> unfinished c" "u_seq u \<notin> idle c"
    "u \<notin># work c" "shaped (idle c) u" "wf_decoded (u_dec u)"
    "on_path (G (retired c)) u" "fetched (G (retired c)) u" "executed (G (retired c)) u"
    "u_dest u \<noteq> INVALID_PHYSREG \<Longrightarrow> prf_read (c_prf c) (u_dest u) = u_result u"
proof -
  have fl: "flow G c" and chain: "chained (length (stream c)) c" using c(2) by (simp_all add: flowing_def)
  note p = flow_parts [OF fl] and core = core_facts [OF c(1)] and fc = in_flight_core [OF c(1)]
  note l = rob_pop_list [OF core(3) pop] and t = pop_tags [OF core(3) pop]
  have os: "order_state (c_rob c) (st_renamed (c_stats c))" using c(1) by (simp add: core_def ordered_def)
  have opens: "open_seqs r' = open_seqs (c_rob c)" using l(1,2) by (simp add: open_seqs_def)
  have pos: "0 < length (in_flight c)" using l(6) fc(3) by simp
  have at: "in_flight c ! 0 = u" using pos fc(3) by (simp add: in_flight_def u_def)
  have rest: "uops r' (c_inflight c) = tl (in_flight c)"
    by (rule nth_equalityI) (use l(6) t(4) in \<open>simp_all add: in_flight_def nth_tl\<close>)
  have open_u: "u_seq u \<notin> unfinished c"
  proof -
    have "u_seq u = re_seq e" using live_seqs [OF fc(4) [OF pos]] t(3) at by simp
    moreover have "re_seq e \<notin> set (seqs r')" using order_distinct [OF os] t(3) by simp
    ultimately show ?thesis using open_seqs_subset [of r'] by (auto simp: unfinished_def opens [symmetric])
  qed
  then have idle: "u_seq u \<notin> idle c" "u \<notin># work c" using core(6) by auto
  have in_us: "u \<in> set (in_flight c)" using at pos nth_mem by blast
  have "u \<notin> set (c_rename_q c)" using idle(1) by (auto simp: idle_def)
  moreover have "in_flight c = u # tl (in_flight c)" using at pos by (cases "in_flight c") simp_all
  ultimately obtain ds where ds: "dispatched c = u # ds" "tl (in_flight c) = ds @ c_rename_q c"
    using p(1) by (cases "dispatched c") (metis append_Nil list.set_intros(1), metis append_Cons list.inject)
  have us: "in_flight c = u # ds @ c_rename_q c" using p(1) ds(1) by simp
  have "pcs c ! 0 = c_arch_pc c" using chain pos by (simp add: chained_def length_pcs stream_def)
  moreover have "pcs c ! 0 = u_pc u" by (simp add: pcs_def stream_def us)
  ultimately have path: "on_path (G (retired c)) u"
    using p(12) run by (simp add: on_path_def synced_def split_beta rs_done_def cpu_done_def)
  then have right: "right G (retired c) (in_flight c) 0" by (simp add: right_def at)
  note facts = path_facts [OF fl pos right, unfolded at]
  have data: "executed (G (retired c)) u" "u_dest u \<noteq> INVALID_PHYSREG \<Longrightarrow> prf_read (c_prf c) (u_dest u) = u_result u"
    using p(10) pos right at open_u idle(1) by (auto simp: data_ok_def)
  show thesis
    by (rule that [OF ds(1) us _ opens open_u idle p(3) [OF in_us] fc(7) [OF in_us] path _ data])
      (use facts(2) rest ds(2) in simp_all)
qed

text \<open>The retired instruction is the reference's next step.\<close>

lemma commit_uop_synced:
  assumes G: "golden_run G" and c: "core c" "flowing G c" and run: "\<not> cpu_done c"
    and pop: "rob_pop_head_if_complete (c_rob c) = Some (e, r')"
  defines "u \<equiv> c_inflight c ! rob_nth (c_rob c) 0"
  shows "synced G (commit_uop u (c\<lparr>c_rob := r'\<rparr>))"
proof -
  define c0 where "c0 = c\<lparr>c_rob := r'\<rparr>"
  define d where "d = commit_uop u c0"
  define ms where "ms = G (retired c)"
  define ef where "ef = ref_effect u (fst ms) (snd ms)"
  obtain ds where us: "in_flight c = u # ds @ c_rename_q c" and h: "dispatched c = u # ds" "shaped (idle c) u" "wf_decoded (u_dec u)" "u_seq u \<notin> idle c"
    "on_path ms u" "fetched ms u" "executed ms u" "u_dest u \<noteq> INVALID_PHYSREG \<Longrightarrow> prf_read (c_prf c) (u_dest u) = u_result u"
    unfolding ms_def u_def by (rule head_facts [OF c run pop]) blast
  have dec: "decoded_uop u" "d_writes_rd (u_dec u) \<longrightarrow> u_dest u \<noteq> INVALID_PHYSREG"
    using h(2) by (simp_all add: shaped_def)
  have fl: "flow G c" using c(2) by (simp add: flowing_def)
  note p = flow_parts [OF fl]
  have sync: "c_mem c = fst ms" "cpu_regs c = rs_regs (snd ms)" "c_halted c = rs_halted (snd ms)"
    "c_trapped c = rs_trapped (snd ms)" "c_exit_code c = rs_exit_code (snd ms)"
    using p(12) by (simp_all add: synced_def split_beta ms_def)
  have ops: "operands_right ms u" and agr: "agrees u ef" using h(7) by (simp_all add: executed_def ef_def)
  note step = ref_step_uop [OF h(5,6) dec(1) ops golden_regs_ok [OF G, of "retired c", folded ms_def], folded ef_def]
  have next_ms: "G (Suc (retired c)) = ref_step ms" by (simp add: golden_run_step [OF G] ms_def)
  have c0: "\<not> cpu_done c0" "cpu_regs c0 = cpu_regs c" "c_mem c0 = c_mem c" "c_lsq c0 = c_lsq c" "c_exit_code c0 = c_exit_code c"
    using run by (simp_all add: c0_def cpu_done_def cpu_regs_def)
  note parts = commit_uop_parts [OF _ h(3) c0(1), folded d_def, unfolded c0(2-5)]
  have trap: "u_trap u = (if d_op (u_dec u) = Op_INVALID then Trap_ILLEGAL else Trap_NONE)"
    using dec(1) by (simp add: decoded_uop_def)
  note parts = parts [OF trap]
  note state = ref_effect_state [of u "fst ms" "snd ms", folded ef_def]
  have run': "\<not> rs_halted (snd ms)" "\<not> rs_trapped (snd ms)" using run sync(3,4) by (simp_all add: cpu_done_def)
  have "c_mem d = fst (ref_step ms)"
  proof (cases "d_is_store (u_dec u)")
    case True
    then have op: "d_op (u_dec u) \<in> {Op_SB, Op_SH, Op_SW}" using is_store_ops [OF h(3)] by blast
    have seat: "store_seat u (lqq_nth (lsq_stores (c_lsq c)) 0)"
      using seats_pop(3) [OF p(11) [unfolded h(1)] h(3) True h(4)] .
    have "c_mem (commit_store (d_op (u_dec u)) c0) = store_bytes (lqq_nth (lsq_stores (c_lsq c)) 0) (fst ms)"
      using commit_store_mem [OF op, of c0] seat by (simp add: c0 sync(1) store_seat_def)
    also have "\<dots> = ef_mem ef" unfolding ef_def by (rule store_ref [OF h(3) True seat])
    finally show ?thesis using True by (simp add: parts(1) step(1))
  next
    case False
    then show ?thesis using effect_frame(2) [OF h(3) False] by (simp add: parts(1) step(1) sync(1) ef_def)
  qed
  moreover have "cpu_regs d = rs_regs (snd (ref_step ms))"
  proof -
    have w: "d_writes_rd (u_dec u) \<Longrightarrow> ef_has_result ef" using effect_frame(1) [OF h(3)] by (simp add: ef_def)
    have "u_dest u \<noteq> INVALID_PHYSREG \<longrightarrow> d_writes_rd (u_dec u)"
      using in_flight_core(4) [OF c(1), of 0] us by (simp add: live_def)
    then have writes: "u_dest u \<noteq> INVALID_PHYSREG \<longleftrightarrow> d_writes_rd (u_dec u)" using dec(2) by blast
    have regs: "cpu_regs d = (if u_dest u \<noteq> INVALID_PHYSREG
        then (cpu_regs c)[d_rd (u_dec u) := prf_read (c_prf c) (u_dest u)] else cpu_regs c)"
      using commit_uop_regs [OF c(1) pop] by (simp only: u_def c0_def d_def)
    show ?thesis
    proof (cases "d_writes_rd (u_dec u)")
      case True
      then have "ef_has_result ef" "u_result u = ef_result ef" using w agr by (simp_all add: agrees_def)
      then show ?thesis using True h(8) writes by (simp add: regs step(2) sync(2))
    next
      case False
      then show ?thesis using writes by (simp add: regs step(2) sync(2))
    qed
  qed
  moreover have "c_halted d = rs_halted (snd (ref_step ms))" "c_trapped d = rs_trapped (snd (ref_step ms))"
    "c_exit_code d = rs_exit_code (snd (ref_step ms))"
    using run' by (simp_all add: parts(3-5) step(3-5) state sync(2,5))
  moreover from this have "c_arch_pc d = rs_pc (snd (ref_step ms))"
    using agr by (simp add: parts(6) step(6) cpu_done_def rs_done_def agrees_def)
  moreover have "retired d = Suc (retired c)"
    using essence_eqs(8) [OF commit_uop_essence(1), of u c0] by (simp add: d_def retire_def c0_def)
  ultimately show ?thesis by (simp add: synced_def split_beta next_ms flip: c0_def d_def)
qed

section \<open>The window moves by one\<close>

lemma sources_tl:
  assumes "sources arch (u # us)"
  shows "sources (map_dest (uop_view u) arch) us"
  using assms by (simp add: sources_def All_less_Suc2)

lemma fetch_ok_tl: "fetch_ok G n (u # us) \<Longrightarrow> on_path (G n) u \<Longrightarrow> fetch_ok G (Suc n) us"
  unfolding fetch_ok_def by (simp add: All_less_Suc2 right_Suc)

lemma data_ok_tl: "data_ok G n I U (u # us) p \<Longrightarrow> on_path (G n) u \<Longrightarrow> data_ok G (Suc n) I U us p"
  unfolding data_ok_def by (simp add: All_less_Suc2 right_Suc)

lemma seats_retire:
  assumes "seats I (u # ds) l" "wf_decoded (u_dec u)"
    "l' = (if d_is_load (u_dec u) then l\<lparr>lsq_loads := lqq_pop_head (lsq_loads l)\<rparr>
      else if d_is_store (u_dec u) then l\<lparr>lsq_stores := lqq_pop_head (lsq_stores l)\<rparr> else l)"
  shows "seats I ds l'"
  using seats_pop(1,2,4) [OF assms(1,2)] by (simp add: assms(3))

lemma commit_uop_flow:
  assumes G: "golden_run G" and c: "core c" "flowing G c" and run: "\<not> cpu_done c"
    and pop: "rob_pop_head_if_complete (c_rob c) = Some (e, r')"
  defines "d \<equiv> commit_uop (c_inflight c ! rob_nth (c_rob c) 0) (c\<lparr>c_rob := r'\<rparr>)"
  shows "flow G d" "\<not> cpu_done d \<Longrightarrow> chained (length (stream d)) d"
proof -
  define u where "u = c_inflight c ! rob_nth (c_rob c) 0"
  obtain ds where disp: "dispatched c = u # ds" and us: "in_flight c = u # ds @ c_rename_q c"
      and pops: "uops r' (c_inflight c) = ds @ c_rename_q c" "open_seqs r' = open_seqs (c_rob c)"
      and u: "u_seq u \<notin> idle c" "u \<notin># work c" "shaped (idle c) u" "wf_decoded (u_dec u)" "on_path (G (retired c)) u"
    unfolding u_def by (rule head_facts [OF c run pop]) blast
  have fl: "flow G c" and chain: "chained (length (stream c)) c" using c(2) by (simp_all add: flowing_def)
  note p = flow_parts [OF fl]
  have c0: "\<not> cpu_done (c\<lparr>c_rob := r'\<rparr>)" using run by (simp add: cpu_done_def)
  have d: "d = commit_uop u (c\<lparr>c_rob := r'\<rparr>)" by (simp add: d_def u_def)
  note e = essence_eqs [OF commit_uop_essence(1), of u "c\<lparr>c_rob := r'\<rparr>", folded d]
  have trap: "u_trap u = (if d_op (u_dec u) = Op_INVALID then Trap_ILLEGAL else Trap_NONE)"
    and dest: "d_writes_rd (u_dec u) \<longrightarrow> u_dest u \<noteq> INVALID_PHYSREG"
    using u(3) by (simp_all add: shaped_def decoded_uop_def)
  note parts = commit_uop_parts [OF trap u(4) c0, folded d]
  have f: "c_rob d = r'" "c_inflight d = c_inflight c" "c_rename_q d = c_rename_q c" "c_decode_q d = c_decode_q c"
    "c_fetch_q d = c_fetch_q c" "iq_entries (c_iq d) = iq_entries (c_iq c)" "work d = work c" "retired d = Suc (retired c)"
    using e by (simp_all add: retire_def work_def)
  have g: "c_prf d = c_prf c" "c_pc d = c_pc c" "c_fetch_stalled d = c_fetch_stalled c"
    "fl_capacity (c_free_list d) = fl_capacity (c_free_list c)"
    using parts(7-10) by simp_all
  have infl: "in_flight d = ds @ c_rename_q c" by (simp add: in_flight_def f(1,2) pops(1))
  have l: "idle d = idle c" "unfinished d = unfinished c" "dispatched d = ds"
    by (simp_all add: idle_def f(3,6) unfinished_def f(1) pops(2) dispatched_def infl)
  have stream: "stream c = u # stream d" by (simp add: stream_def us infl f(4,5))
  have rat: "c_arch_rat d = map_dest (uop_view u) (c_arch_rat c)"
  proof -
    have "live (c_rob c) 0 u" using in_flight_core(4) [OF c(1), of 0] us by simp
    then have "u_dest u \<noteq> INVALID_PHYSREG \<longrightarrow> d_writes_rd (u_dec u)" by (simp add: live_def)
    then show ?thesis using e(3) by (simp add: retire_def map_dest_def v_writes_def) (simp add: uop_view_def)
  qed
  have "payloads d"
    using p(2) u(2) by (auto simp: payloads_def infl l(3) f(3,7) us)
  moreover have "\<forall>v \<in> set (in_flight d). shaped (idle d) v" using p(3) by (simp add: us infl l(1))
  moreover have "front_shaped d" using p(4) by (simp add: front_shaped_def f(4,5))
  moreover have "sources (c_arch_rat d) (in_flight d)" using sources_tl [OF p(5) [unfolded us]] by (simp add: infl rat)
  moreover have "woken (c_prf d) (in_flight d) (iq_entries (c_iq d))"
  proof -
    have "iq_seq x \<noteq> u_seq u" if "x \<in> set (iq_entries (c_iq c))" for x 
      using u(1) imageI [OF that, of iq_seq] by (auto simp: idle_def)
    then show ?thesis using p(6) unfolding woken_def us infl f(6) g(1) by (metis set_ConsD)
  qed
  moreover have "dests_pending (unfinished d) (in_flight d) (c_prf d)"
    using p(7) by (simp add: dests_pending_def us infl l(2) g(1))
  moreover have "prf_sized (c_prf d) (c_free_list d)" using p(8) by (simp add: prf_sized_def g)
  moreover have "fetch_ok G (retired d) (stream d)" using fetch_ok_tl [OF p(9) [unfolded stream] u(5)] by (simp add: f(8))
  moreover have "data_ok G (retired d) (idle d) (unfinished d) (in_flight d) (c_prf d)"
    using data_ok_tl [OF p(10) [unfolded us] u(5)] by (simp add: f(8) l infl g(1))
  moreover have "seats (idle d) (dispatched d) (c_lsq d)"
    using seats_retire [OF p(11) [unfolded disp] u(4), of "c_lsq d"] parts(2) by (simp add: l)
  moreover have "synced G d" unfolding d_def by (rule commit_uop_synced [OF G c run pop])
  ultimately show "flow G d" by (simp add: flow_def)
  show "chained (length (stream d)) d" if "\<not> cpu_done d"
  proof -
    have pcs: "pcs c = u_pc u # pcs d" by (simp add: pcs_def stream g(2,3))
    have outs: "outs c = u_next_pc u # outs d" using u(1) by (simp add: outs_def us infl l(1) f(4,5) leads_def)
    have arch: "c_arch_pc d = u_next_pc u" using parts(6) that by simp
    show ?thesis
      using chain unfolding chained_def pcs outs stream arch by (simp add: All_less_Suc2 All_less_Suc)
  qed
qed

section \<open>The squash at the end\<close>

lemma squash_in_flight_rest:
  "c_prf (squash_in_flight c) = c_prf c" "c_lsq (squash_in_flight c) = lsq_clear (c_lsq c)"
  "c_mem (squash_in_flight c) = c_mem c" "c_arch_pc (squash_in_flight c) = c_arch_pc c"
  "c_halted (squash_in_flight c) = c_halted c" "c_trapped (squash_in_flight c) = c_trapped c"
  "c_exit_code (squash_in_flight c) = c_exit_code c" "retired (squash_in_flight c) = retired c"
  "fl_capacity (c_free_list (squash_in_flight c)) = fl_capacity (c_free_list c)"
proof -
  have kill: "c_prf (fold kill_entry es d) = c_prf d" "c_lsq (fold kill_entry es d) = c_lsq d"
    "c_mem (fold kill_entry es d) = c_mem d" "c_arch_pc (fold kill_entry es d) = c_arch_pc d"
    "c_halted (fold kill_entry es d) = c_halted d" "c_trapped (fold kill_entry es d) = c_trapped d"
    "c_exit_code (fold kill_entry es d) = c_exit_code d" "retired (fold kill_entry es d) = retired d" for es d
    by (induction es arbitrary: d) (simp_all add: kill_entry_def Let_def obs_defs)
  show "c_prf (squash_in_flight c) = c_prf c" "c_lsq (squash_in_flight c) = lsq_clear (c_lsq c)"
    "c_mem (squash_in_flight c) = c_mem c" "c_arch_pc (squash_in_flight c) = c_arch_pc c"
    "c_halted (squash_in_flight c) = c_halted c" "c_trapped (squash_in_flight c) = c_trapped c"
    "c_exit_code (squash_in_flight c) = c_exit_code c" "retired (squash_in_flight c) = retired c"
    by (simp_all add: squash_in_flight_def rob_squash_all_eq Let_def obs_defs kill)
  show "fl_capacity (c_free_list (squash_in_flight c)) = fl_capacity (c_free_list c)"
    by (rule squash_in_flight_form [of c]) (simp add: release_dests_def fl_release_fold_capacity)
qed

lemma squash_in_flight_flow:
  assumes "flow G c"
  shows "flow G (squash_in_flight c)" "in_flight (squash_in_flight c) = []"
proof -
  define d where "d = squash_in_flight c"
  note p = flow_parts [OF assms] and r = squash_in_flight_rest [of c, folded d_def]
  obtain c1 where out: "d = c1\<lparr>c_rat := c_arch_rat c, c_lsq := lsq_clear (c_lsq c1), c_fetch_q := [],
      c_decode_q := [], c_rename_q := [], c_iq := iq_clear (c_iq c1), c_executing := [], c_wb_fast := [],
      c_wb_slow := [], c_cdb_booked := map (\<lambda>_. 0) (c_cdb_booked c1), c_fetch_stalled := False\<rparr>"
    and rest: "kill_rest c1 = kill_rest (c\<lparr>c_rob := (c_rob c)\<lparr>rob_count := 0\<rparr>\<rparr>)"
    unfolding d_def by (rule squash_in_flight_form [of c]) blast
  have q: "c_rob d = (c_rob c)\<lparr>rob_count := 0\<rparr>" "c_rename_q d = []" "c_decode_q d = []" "c_fetch_q d = []"
    "iq_entries (c_iq d) = []" "work d = {#}"
    using rest by (simp_all add: out kill_rest_def iq_clear_def work_def)
  have empty: "in_flight d = []" by (simp add: in_flight_def uops_def q(1))
  then have l: "dispatched d = []" "stream d = []" by (simp_all add: dispatched_def stream_def q)
  have "lqq_ok (lsq_loads (c_lsq c))" "lqq_ok (lsq_stores (c_lsq c))" using p(11) by (simp_all add: seats_def)
  then have "seats (idle d) (dispatched d) (c_lsq d)" by (simp add: l r(2))
  moreover have "cpu_regs d = cpu_regs c" by (simp add: d_def)
  then have "synced G d" using p(12) by (simp add: synced_def r(3-8))
  ultimately show "flow G (squash_in_flight c)"
    using p(8) unfolding flow_def d_def [symmetric]
    by (simp add: payloads_def front_shaped_def sources_def woken_def dests_pending_def prf_sized_def fetch_ok_def
        data_ok_def empty l q r(1,9))
  show "in_flight (squash_in_flight c) = []" using empty by (simp add: d_def)
qed

end
