(* ===== verification/Refinement.thy ===== *)
theory Refinement
  imports Retirement
begin

text \<open>
  The pipeline refines the reference interpreter: at every reachable cycle the committed state is
  the state of the reference after as many steps as instructions have retired.
\<close>

section \<open>The abstraction\<close>

type_synonym Committed = "Memory \<times> u32 list \<times> u32 \<times> bool \<times> bool \<times> u32"

text \<open>Memory, registers, PC, how the program ended, and its exit code.\<close>

definition committed_state :: "Cpu \<Rightarrow> Committed" where
  "committed_state c = (c_mem c, cpu_regs c, c_arch_pc c, c_halted c, c_trapped c, c_exit_code c)"

definition reference_state :: "Memory \<times> Result \<Rightarrow> Committed" where
  "reference_state ms = (fst ms, rs_regs (snd ms), rs_pc (snd ms), rs_halted (snd ms), rs_trapped (snd ms),
     rs_exit_code (snd ms))"

lemma synced_states: "synced G c \<longleftrightarrow> committed_state c = reference_state (G (retired c))"
  by (simp add: synced_def committed_state_def reference_state_def split_beta)

section \<open>The cycle\<close>

text \<open>What holds between cycles of a machine that is not lost.\<close>

definition follows :: "(nat \<Rightarrow> Memory \<times> Result) \<Rightarrow> Cpu \<Rightarrow> bool" where
  "follows G c \<longleftrightarrow> core c \<and> flow G c \<and> \<not> c_undefined c \<and> trained G (bp_btb (c_bpred c)) \<and>
     (if cpu_done c then in_flight c = [] \<and> (\<forall>j < retired c. \<not> rs_done (snd (G j)))
      else chained (length (stream c)) c)"

text \<open>Committed branches train the predictor with branches the reference executes.\<close>

lemma commit_uop_btb:
  "bp_btb (c_bpred (commit_uop u c)) = (if d_is_branch (u_dec u) \<and> u_next_pc u \<noteq> u_pc u + 4
     then btb_update (bp_btb (c_bpred c)) (u_pc u) (u_next_pc u) (u_bkind u) else bp_btb (c_bpred c))"
proof -
  define c2 where "c2 = commit_branch u (commit_load u (commit_order u c))"
  obtain m l x h where e: "snd (commit_effect u c2) = c2\<lparr>c_mem := m, c_lsq := l, c_exit_code := x, c_halted := h\<rparr>"
    by (rule commit_effect_form)
  have "c_bpred (commit_uop u c) = c_bpred c2"
    by (simp add: commit_uop_def Let_def split_beta e commit_trap_def commit_mapping_def obs_defs flip: c2_def)
  then show ?thesis
    by (simp add: c2_def commit_branch_def commit_load_def commit_order_def Let_def obs_defs bp_commit_def)
qed

lemma squash_in_flight_btb: "bp_btb (c_bpred (squash_in_flight c)) = bp_btb (c_bpred c)"
proof -
  have "c_bpred (fold kill_entry es d) = c_bpred d" for es d
    by (induction es arbitrary: d) (simp_all add: kill_entry_def Let_def obs_defs)
  then show ?thesis by (simp add: squash_in_flight_def rob_squash_all_eq Let_def obs_defs)
qed

lemma commit_one_follows:
  assumes G: "golden_run G" and c: "follows G c"
  shows "follows G (fst (commit_one c))"
proof -
  have core: "core c" using c by (simp add: follows_def)
  show ?thesis
    using core
  proof (cases rule: commit_one_cases)
    case stop
    with c show ?thesis by simp
  next
    case (head e r' d)
    define u where "u = c_inflight c ! rob_nth (c_rob c) 0"
    have "0 < rob_count (c_rob c)"
      using rob_pop_list(6) [OF core_facts(3) [OF core] head(1)] by simp
    then have "in_flight c \<noteq> []" using in_flight_core(3) [OF core] by fastforce
    then have run: "\<not> cpu_done c" and fl: "flowing G c" using c by (auto simp: follows_def flowing_def split: if_splits)
    have d: "flow G d" "\<not> cpu_done d \<Longrightarrow> chained (length (stream d)) d"
      unfolding head(2) by (rule commit_uop_flow [OF G core fl run head(1)])+
    have core_d: "core d"
      using core_essence [OF commit_uop_essence(1)] retire_core [OF core head(1)] by (simp add: head(2))
    obtain "on_path (G (retired c)) u" "fetched (G (retired c)) u" "shaped (idle c) u"
      unfolding u_def by (rule head_facts [OF core fl run head(1)]) blast
    then have now: "\<not> rs_done (snd (G (retired c)))" "u_pc u = rs_pc (snd (G (retired c)))" "u_dec u = insn_at (G (retired c))"
      by (simp_all add: on_path_def fetched_def shaped_def decoded_uop_def insn_at_def)
    have "retired d = Suc (retired c)"
      using essence_eqs(8) [OF commit_uop_essence(1)] by (simp add: head(2) retire_def)
    then have steps: "\<forall>j < retired d. \<not> rs_done (snd (G j))"
      using golden_running [OF G now(1)] by (simp add: less_Suc_eq_le)
    have "trained G (bp_btb (c_bpred d))"
      using c trained_update [of G _ "retired c"] now by (simp add: head(2) commit_uop_btb follows_def flip: u_def)
    moreover have "\<not> c_undefined d" using c commit_uop_essence(2) by (simp add: head(2) hazard_def follows_def)
    moreover have "c_undefined (squash_in_flight d) = c_undefined d"
      using squash_in_flight_hazard [of d] by (simp add: hazard_def)
    ultimately have extra: "trained G (bp_btb (c_bpred d))" "\<not> c_undefined d" "trained G (bp_btb (c_bpred (squash_in_flight d)))"
      "\<not> c_undefined (squash_in_flight d)" by (simp_all add: squash_in_flight_btb)
    show ?thesis
    proof (cases "cpu_done d")
      case True
      then have "follows G (squash_in_flight d)"
        using squash_in_flight_flow [OF d(1)] squash_in_flight_core [OF core_d] steps squash_in_flight_frame [of d]
          squash_in_flight_rest(8) [of d] extra
        by (simp add: follows_def)
      then show ?thesis by (simp add: head(3) True)
    next
      case False
      then show ?thesis using d core_d extra by (simp add: head(3) follows_def)
    qed
  qed
qed

lemma commit_follows: "golden_run G \<Longrightarrow> follows G c \<Longrightarrow> follows G (commit c)"
  unfolding commit_def by (rule stage_loop_invariant) (rule commit_one_follows)

section \<open>The other stages\<close>

text \<open>Sequence numbers have wrapped around: beyond this the model promises nothing.\<close>

abbreviation renamed :: "Cpu \<Rightarrow> nat" where
  "renamed c \<equiv> st_renamed (c_stats c)"

definition tracks :: "(nat \<Rightarrow> Memory \<times> Result) \<Rightarrow> Cpu \<Rightarrow> bool" where
  "tracks G c \<longleftrightarrow> 2 ^ 32 \<le> renamed c \<or>
     core c \<and> flowing G c \<and> \<not> c_undefined c \<and> \<not> cpu_done c \<and> trained G (bp_btb (c_bpred c))"

lemma tracks_step:
  assumes c: "tracks G c" and mono: "renamed c \<le> renamed c'" and sound: "sound c \<Longrightarrow> sound c'"
    and frames: "committed c' = committed c" "tables c' = tables c"
    and step: "core c \<Longrightarrow> \<not> lost c \<Longrightarrow> flowing G c \<Longrightarrow> \<not> cpu_done c \<Longrightarrow> trained G (bp_btb (c_bpred c)) \<Longrightarrow>
      flowing G c' \<and> c_undefined c' = c_undefined c"
  shows "tracks G c'"
proof (cases "2 ^ 32 \<le> renamed c'")
  case True
  then show ?thesis by (simp add: tracks_def)
next
  case False
  then have run: "\<not> 2 ^ 32 \<le> renamed c" using mono by simp
  then have c': "core c" "\<not> lost c" "flowing G c" "\<not> cpu_done c" "trained G (bp_btb (c_bpred c))" "\<not> c_undefined c"
    using c by (simp_all add: tracks_def lost_def)
  have "cpu_done c' = cpu_done c" "bp_btb (c_bpred c') = bp_btb (c_bpred c)"
    using committed_eqs(7) [OF frames(1)] frames(2) by (simp_all add: tables_def)
  moreover have "flowing G c' \<and> c_undefined c' = c_undefined c" by (rule step [OF c'(1-5)])
  moreover have "sound c" using c'(1) by (simp add: sound_def)
  then have "sound c'" by (rule sound)
  then have "core c'" using False calculation(3) c'(6) by (simp add: sound_def lost_def)
  ultimately show ?thesis using c'(4-6) by (simp add: tracks_def)
qed

lemma hazard_eqs: "hazard c' = hazard c \<Longrightarrow> renamed c' = renamed c \<and> c_undefined c' = c_undefined c"
  by (simp add: hazard_def)

lemma dispatch_one_hazard: "hazard (fst (dispatch_one c)) = hazard c"
proof (cases rule: dispatch_one_cases [of c])
  case (seat u rest u' c')
  then show ?thesis
    using take_seat_frame(3) [OF seat(2)] by (simp add: Let_def hazard_def)
qed (simp_all add: hazard_def)

lemma fetch_one_hazard: "hazard (fst (fetch_one c)) = hazard c"
  and decode_one_hazard: "hazard (fst (decode_one c)) = hazard c"
  by (simp_all add: fetch_one_def decode_one_def Let_def obs_defs hazard_def split: prod.split list.split)

lemma writeback_hazard: "hazard (writeback c) = hazard c"
  by (simp add: writeback_def Let_def split_beta) (simp add: hazard_def [of "_\<lparr>c_cdb_booked := _\<rparr>"] flip: hazard_def)

lemma execute_hazard: "hazard (execute c) = hazard c"
proof -
  have "hazard (execute_scan us still c) = hazard c" for us still
    by (induction us arbitrary: still c) (simp_all add: hazard_def)
  then show ?thesis by (simp add: execute_def)
qed

lemma recover_renamed: "renamed (recover br c) = renamed c"
proof -
  have "c_stats (restore_front_end br d) = c_stats d" for d
    by (simp add: restore_front_end_def Let_def split: option.split)
  moreover have "renamed (squash_queues s d) = renamed d" for s d
    using squash_queues_eq [of s d] by auto
  moreover have "renamed (fold kill_entry es d) = renamed d" for es d
    using kill_fold_eqs [of es d] by simp
  ultimately show ?thesis by (simp add: recover_def Let_def split_beta obs_defs)
qed

lemma issue_renamed: "renamed (issue c) = renamed c"
proof -
  define st where "st = issue_scan (iq_select (length (iq_entries (c_iq c))) (c_iq c))
    \<lparr>is_cpu = c, is_issued = 0, is_offender = None, is_blocked = []\<rparr>"
  define p where "p = charge (is_blocked st) (cfg_width (c_cfg c) - is_issued st) (is_cpu st)"
  have "hazard (charge_operands (fst p) (snd p)) = hazard c" by (simp add: p_def st_def)
  then have "renamed (charge_operands (fst p) (snd p)) = renamed c" by (simp add: hazard_def)
  then show ?thesis
    by (simp add: issue_def Let_def split_beta recover_renamed split: option.split flip: st_def p_def)
qed

lemma rename_uop_renamed: "renamed (rename_uop dest u c) = Suc (renamed c)"
proof -
  define u1 where "u1 = u\<lparr>u_at := (u_at u)\<lparr>at_rename := c_cycle c\<rparr>\<rparr>"
  obtain u2 c2 where m: "map_regs dest u1 c = (u2, c2)" by fastforce
  obtain u3 c3 where t: "take_checkpoint u2 c2 = (u3, c3)" by fastforce
  obtain u4 c4 where e: "enter_rob u3 c3 = (u4, c4)" by fastforce
  have "c_stats (snd (map_regs dest u d)) = c_stats d" for u d
    by (simp add: map_regs_def Let_def)
  note 1 = this [of u1 c, unfolded m snd_conv]
  have "c_stats (snd (take_checkpoint u d)) = c_stats d" for u d
    by (simp add: take_checkpoint_def split: option.split prod.split)
  note 2 = this [of u2 c2, unfolded t snd_conv]
  have "c_stats (snd (enter_rob u d)) = c_stats d" for u d
    by (simp add: enter_rob_def Let_def split: prod.split)
  note 3 = this [of u3 c3, unfolded e snd_conv]
  have "c_stats c4 = c_stats c" by (simp only: 1 2 3)
  then show ?thesis by (simp add: rename_uop_def Let_def m t e obs_defs flip: u1_def)
qed

lemma rename_one_cases:
  obtains (none) "fst (rename_one c) = c"
  | (stall) s where "fst (rename_one c) = cpu_stall s c"
  | (go) u rest dest c1 where "c_decode_q c = u # rest" "\<not> rob_full (c_rob c)"
      "\<not> (d_is_branch (u_dec u) \<and> cp_free (c_ckpts c) = [])"
      "take_dest (d_writes_rd (u_dec u)) c = Some (dest, c1)"
      "fst (rename_one c) = rename_uop dest u (c1\<lparr>c_decode_q := rest\<rparr>)"
proof (cases "c_decode_q c")
  case Nil
  then show thesis by (intro none) (simp add: rename_one_def)
next
  case (Cons u rest)
  show thesis
  proof (cases "c_queue_cap c \<le> length (c_rename_q c) \<or> rob_full (c_rob c) \<or>
      d_is_branch (u_dec u) \<and> cp_free (c_ckpts c) = [] \<or> take_dest (d_writes_rd (u_dec u)) c = None")
    case True
    then have "fst (rename_one c) = c \<or> (\<exists>s. fst (rename_one c) = cpu_stall s c)"
      using Cons by (auto simp: rename_one_def)
    then show thesis using none stall by blast
  next
    case False
    then obtain dest c1 where "take_dest (d_writes_rd (u_dec u)) c = Some (dest, c1)" by auto
    with False Cons show thesis by (intro go [of u rest dest c1]) (auto simp: rename_one_def)
  qed
qed

lemma rename_one_renamed: "renamed c \<le> renamed (fst (rename_one c))" "renamed (fst (rename_one c)) \<le> Suc (renamed c)"
proof -
  have "renamed (fst (rename_one c)) \<in> {renamed c, Suc (renamed c)}"
  proof (cases rule: rename_one_cases [of c])
    case (go u rest dest c1)
    then have "c_stats c1 = c_stats c" by (auto simp: take_dest_def split: if_splits option.splits)
    then show ?thesis by (simp add: go(5) rename_uop_renamed)
  qed simp_all
  then show "renamed c \<le> renamed (fst (rename_one c))" "renamed (fst (rename_one c)) \<le> Suc (renamed c)" by auto
qed

lemma rename_one_defined:
  assumes c: "core c" "\<not> lost c"
  shows "c_undefined (fst (rename_one c)) = c_undefined c"
proof (cases rule: rename_one_cases [of c])
  case (go u rest dest c1)
  have c0: "core (c\<lparr>c_decode_q := rest\<rparr>)" "\<not> lost (c\<lparr>c_decode_q := rest\<rparr>)"
    using c go(1) by (simp_all add: core_defs lost_def)
  have "take_dest (d_writes_rd (u_dec u)) (c\<lparr>c_decode_q := rest\<rparr>) = Some (dest, c1\<lparr>c_decode_q := rest\<rparr>)"
    using go(4) by (auto simp: take_dest_def split: if_splits option.splits)
  moreover have "fresh u" "wf_decoded (u_dec u)" using c go(1) by (simp_all add: core_defs)
  ultimately show ?thesis using rename_uop_core(2) [OF c0] go by simp
qed simp_all

lemma front_tracks:
  "golden_run G \<Longrightarrow> tracks G c \<Longrightarrow> \<not> c_fetch_stalled c \<Longrightarrow> tracks G (fst (fetch_one c))"
  "tracks G c \<Longrightarrow> tracks G (fst (decode_one c))" "tracks G c \<Longrightarrow> tracks G (fst (rename_one c))"
  "tracks G c \<Longrightarrow> tracks G (fst (dispatch_one c))"
proof -
  show "tracks G (fst (fetch_one c))" if G: "golden_run G" and c: "tracks G c" "\<not> c_fetch_stalled c"
  proof (rule tracks_step [OF c(1)])
    show "sound (fst (fetch_one c))" if "sound c"
      using that fetch_one_essence [of c] by (blast intro: sound_step)
    show "flowing G (fst (fetch_one c)) \<and> c_undefined (fst (fetch_one c)) = c_undefined c"
      if "core c" "flowing G c" "\<not> cpu_done c" "trained G (bp_btb (c_bpred c))"
      using fetch_one_flow [OF G, of c] that c(2) hazard_eqs [OF fetch_one_essence(2) [of c]] by (simp add: flowing_def)
  qed (simp_all add: hazard_eqs [OF fetch_one_essence(2)])
  show "tracks G (fst (decode_one c))" if c: "tracks G c"
  proof (rule tracks_step [OF c])
    show "sound (fst (decode_one c))" if "sound c"
      using that decode_one_essence [of c] by (blast intro: sound_step)
  qed (use decode_one_flow in \<open>simp_all add: hazard_eqs [OF decode_one_essence(2)]\<close>)
  show "tracks G (fst (rename_one c))" if c: "tracks G c"
  proof (rule tracks_step [OF c rename_one_renamed(1) rename_one_sound])
    show "flowing G (fst (rename_one c)) \<and> c_undefined (fst (rename_one c)) = c_undefined c"
      if "core c" "\<not> lost c" "flowing G c"
      using rename_one_flow [OF that] rename_one_defined [OF that(1,2)] by simp
  qed simp_all
  show "tracks G (fst (dispatch_one c))" if c: "tracks G c"
    by (rule tracks_step [OF c _ dispatch_one_sound])
      (use dispatch_one_flow in \<open>simp_all add: hazard_eqs [OF dispatch_one_hazard]\<close>)
qed

lemma back_tracks:
  "golden_run G \<Longrightarrow> tracks G c \<Longrightarrow> tracks G (issue c)" "tracks G c \<Longrightarrow> tracks G (execute c)"
  "tracks G c \<Longrightarrow> tracks G (writeback c)"
proof -
  show "tracks G (issue c)" if "golden_run G" "tracks G c"
    by (rule tracks_step [OF that(2) _ issue_sound]) (use issue_flowing [OF that(1)] in \<open>simp_all add: issue_renamed\<close>)
  show "tracks G (execute c)" if "tracks G c"
    by (rule tracks_step [OF that _ execute_sound])
      (simp_all add: flowing_whole [OF execute_whole] hazard_eqs [OF execute_hazard], simp_all add: execute_def)
  show "tracks G (writeback c)" if "tracks G c"
    by (rule tracks_step [OF that _ writeback_sound])
      (use writeback_flow in \<open>simp_all add: hazard_eqs [OF writeback_hazard]\<close>)
qed

lemma front_stage_tracks:
  "golden_run G \<Longrightarrow> tracks G c \<Longrightarrow> tracks G (fetch c)" "tracks G c \<Longrightarrow> tracks G (decode_stage c)"
  "tracks G c \<Longrightarrow> tracks G (rename_stage c)" "tracks G c \<Longrightarrow> tracks G (dispatch c)"
proof -
  show "tracks G (fetch c)" if G: "golden_run G" and c: "tracks G c"
  proof (cases "c_fetch_stalled c")
    case False
    have "tracks G (stage_loop n fetch_one c) \<and> \<not> c_fetch_stalled (stage_loop n fetch_one c)" for n
      by (rule stage_loop_invariant [where P = "\<lambda>d. tracks G d \<and> \<not> c_fetch_stalled d"])
        (use front_tracks(1) [OF G] c False in \<open>simp_all\<close>)
    then show ?thesis using c by (simp add: fetch_def)
  qed (use c in \<open>simp add: fetch_def\<close>)
qed (unfold decode_stage_def rename_stage_def dispatch_def, (erule stage_loop_invariant [rotated, where P = "tracks G"], erule front_tracks)+)

lemma back_stages_tracks: "golden_run G \<Longrightarrow> tracks G c \<Longrightarrow> tracks G (back_stages c)"
  by (simp add: back_stages_def front_stage_tracks back_tracks)

section \<open>Reset and the cycle\<close>

lemma begin_cycle_whole: "whole (begin_cycle c) = whole c" "cpu_done (begin_cycle c) = cpu_done c"
  by (simp_all add: begin_cycle_def Let_def whole_def essence_def committed_def work_def) (simp add: cpu_done_def)

lemma reset_follows:
  assumes "config_ok cfg"
  shows "follows (golden mem pc) (make_cpu mem cfg pc)"
proof -
  define c where "c = make_cpu mem cfg pc"
  have q: "c_rob c = make_rob (cfg_rob_size cfg)" "c_rename_q c = []" "c_decode_q c = []" "c_fetch_q c = []"
    "c_prf c = make_prf (cfg_prf_size cfg)" "c_free_list c = make_free_list (cfg_prf_size cfg)" "c_iq c = make_iq (cfg_iq_size cfg)"
    "work c = {#}" "retired c = 0" "c_lsq c = make_lsq (cfg_lq_size cfg) (cfg_sq_size cfg)" "c_mem c = mem"
    "c_arch_rat c = [0..<32]" "c_arch_pc c = pc" "c_pc c = pc" "\<not> c_halted c" "\<not> c_trapped c" "c_exit_code c = 0"
    "\<not> c_fetch_stalled c" "\<not> c_undefined c"
    by (simp_all only: c_def make_cpu_def Let_def work_def Cpu.select_convs) (simp_all add: zero_stats_def)
  have trained: "trained (golden mem pc) (bp_btb (c_bpred c))"
    by (simp only: c_def make_cpu_def Let_def Cpu.select_convs) (simp add: make_predictor_def trained_reset)
  have empty: "in_flight c = []" by (simp add: in_flight_def uops_def q(1) make_rob_def)
  then have l: "stream c = []" "dispatched c = []" by (simp_all add: stream_def dispatched_def q)
  have size: "32 \<le> cfg_prf_size cfg" by (rule config_ok_sizes(1) [OF assms])
  have "cpu_regs c = replicate 32 0"
    by (rule nth_equalityI) (use size in \<open>simp_all add: cpu_regs_def q prf_read_def make_prf_def\<close>)
  then have "synced (golden mem pc) c" by (simp add: synced_def q start_result_def)
  moreover have "seats (idle c) (dispatched c) (c_lsq c)"
    by (simp add: l q seats_reset)
  ultimately have "flow (golden mem pc) c"
    by (simp add: flow_def payloads_def front_shaped_def sources_def woken_def dests_pending_def prf_sized_def fetch_ok_def
        data_ok_def empty l q make_iq_def make_prf_def make_free_list_def)
  moreover have "chained 0 c" by (simp add: chained_def pcs_def outs_def l q)
  moreover have "core c" unfolding c_def by (rule core_reset [OF assms])
  moreover have "\<not> cpu_done c" by (simp add: cpu_done_def q)
  ultimately show ?thesis using trained by (simp add: follows_def l q(19) flip: c_def)
qed

definition refines :: "(nat \<Rightarrow> Memory \<times> Result) \<Rightarrow> Cpu \<Rightarrow> bool" where
  "refines G c \<longleftrightarrow> 2 ^ 32 \<le> renamed c \<or> follows G c"

lemma stages_renamed:
  "renamed (fetch c) = renamed c" "renamed (decode_stage c) = renamed c" "renamed (dispatch c) = renamed c"
  "renamed (issue (execute (writeback c))) = renamed c"
proof -
  have "hazard (stage_loop n fetch_one d) = hazard d" "hazard (stage_loop n decode_one d) = hazard d"
    "hazard (stage_loop n dispatch_one d) = hazard d" for n d
    by (rule stage_loop_frame, simp add: fetch_one_hazard decode_one_hazard dispatch_one_hazard)+
  then show "renamed (fetch c) = renamed c" "renamed (decode_stage c) = renamed c" "renamed (dispatch c) = renamed c"
    by (simp_all add: fetch_def decode_stage_def dispatch_def hazard_def)
  show "renamed (issue (execute (writeback c))) = renamed c"
    by (simp add: issue_renamed hazard_eqs [OF writeback_hazard] hazard_eqs [OF execute_hazard])
qed

lemma back_stages_renamed: "renamed c \<le> renamed (back_stages c)" "renamed (back_stages c) \<le> renamed c + cfg_width (c_cfg c)"
proof -
  have loop: "renamed c \<le> renamed (stage_loop n rename_one c) \<and> renamed (stage_loop n rename_one c) \<le> renamed c + n" for n c
  proof (induction n arbitrary: c)
    case (Suc n)
    show ?case
      using rename_one_renamed [of c] Suc [of "fst (rename_one c)"] by (cases "rename_one c") auto
  qed simp
  define d where "d = dispatch (issue (execute (writeback c)))"
  have "fixed d = fixed c" by (simp add: d_def execute_def)
  then have d: "renamed d = renamed c" "c_cfg d = c_cfg c" by (simp_all add: fixed_def d_def stages_renamed)
  have "renamed (back_stages c) = renamed (stage_loop (cfg_width (c_cfg d)) rename_one d)"
    by (simp add: back_stages_def stages_renamed rename_stage_def flip: d_def)
  then show "renamed c \<le> renamed (back_stages c)" "renamed (back_stages c) \<le> renamed c + cfg_width (c_cfg c)"
    using loop [of d "cfg_width (c_cfg c)"] by (simp_all add: d)
qed

lemma tick_renamed: "renamed c \<le> renamed (tick c)" "renamed (tick c) \<le> renamed c + cfg_width (c_cfg c)"
proof -
  have "hazard (commit (begin_cycle c)) = hazard c" by simp
  then have r: "renamed (commit (begin_cycle c)) = renamed c" by (simp add: hazard_def)
  have "fixed (commit (begin_cycle c)) = fixed (begin_cycle c)" by simp
  then have "c_cfg (commit (begin_cycle c)) = c_cfg c" by (simp add: fixed_def begin_cycle_def Let_def)
  then show "renamed c \<le> renamed (tick c)" "renamed (tick c) \<le> renamed c + cfg_width (c_cfg c)"
    using back_stages_renamed [of "commit (begin_cycle c)"] by (simp_all add: tick_def Let_def r)
qed

lemma begin_cycle_follows: "follows G (begin_cycle c) = follows G c"
proof -
  have "c_bpred (begin_cycle c) = c_bpred c" "c_undefined (begin_cycle c) = c_undefined c" "retired (begin_cycle c) = retired c"
    by (simp_all add: begin_cycle_def Let_def)
  then show ?thesis
    using begin_cycle_whole whole_flow [OF begin_cycle_whole(1)] stream_whole [OF begin_cycle_whole(1)]
      in_flight_whole [OF begin_cycle_whole(1)] core_essence [OF whole_eqs(1) [OF begin_cycle_whole(1)]]
    by (simp add: follows_def)
qed

lemma tick_refines:
  assumes G: "golden_run G" and c: "refines G c"
  shows "refines G (tick c)"
proof (cases "cpu_done c \<or> 2 ^ 32 \<le> renamed c")
  case True
  then show ?thesis using c tick_renamed(1) [of c] by (auto simp: refines_def tick_def)
next
  case False
  define b where "b = commit (begin_cycle c)"
  have out: "tick c = (if cpu_done b then b else back_stages b)" using False by (simp add: tick_def b_def)
  have run: "\<not> cpu_done c" and "follows G (begin_cycle c)" using c False by (simp_all add: refines_def begin_cycle_follows)
  then have b: "follows G b" unfolding b_def by (intro commit_follows [OF G])
  show ?thesis
  proof (cases "cpu_done b")
    case True
    with b show ?thesis by (simp add: out refines_def)
  next
    case False
    then have "tracks G b" using b by (simp add: follows_def tracks_def flowing_def)
    then have "tracks G (back_stages b)" by (rule back_stages_tracks [OF G])
    then show ?thesis using False by (auto simp: out tracks_def refines_def follows_def flowing_def)
  qed
qed

lemma reachable_refines:
  assumes "config_ok cfg" "tame (golden mem pc)" "reachable (make_cpu mem cfg pc) c"
  shows "refines (golden mem pc) c"
  using reachable_invariant [OF assms(3), of "refines (golden mem pc)"] reset_follows [OF assms(1), of mem pc]
    tick_refines [OF golden_run_golden [OF assms(2)]] by (simp add: refines_def)

text \<open>Renaming keeps pace with the clock, so a bounded run does not wrap.\<close>

lemma reachable_renamed:
  assumes "reachable (make_cpu mem cfg pc) c"
  shows "renamed c \<le> c_cycle c * cfg_width cfg" "c_cfg c = cfg"
proof -
  have "renamed c \<le> c_cycle c * cfg_width cfg \<and> c_cfg c = cfg"
    using assms
  proof (induction rule: reachable.induct)
    case reach_start
    show ?case by (simp add: make_cpu_def Let_def zero_stats_def)
  next
    case (reach_tick c)
    then show ?case using tick_renamed(2) [of c] tick_clock [of c] by (cases "cpu_done c") (auto simp: tick_def)
  qed
  then show "renamed c \<le> c_cycle c * cfg_width cfg" "c_cfg c = cfg" by simp_all
qed

section \<open>The reference under an instruction budget\<close>

lemma golden_retired: "rs_retired (snd (golden mem pc i)) = i"
  by (induction i) (simp_all add: start_result_def golden_Suc)

lemma ref_run_golden:
  assumes "\<forall>j < n. \<not> rs_done (snd (golden mem pc j))" "k \<le> n"
  shows "fst (ref_run n (golden mem pc k)) = fst (golden mem pc n) \<and>
    (\<exists>b. snd (ref_run n (golden mem pc k)) = (snd (golden mem pc n))\<lparr>rs_budget := b\<rparr>)"
  using assms(2)
proof (induction rule: inc_induct)
  case base
  have same: "snd (golden mem pc n) = (snd (golden mem pc n))\<lparr>rs_budget := rs_budget (snd (golden mem pc n))\<rparr>" by simp
  show ?case
  proof (cases "rs_done (snd (golden mem pc n))")
    case True
    then have "ref_run n (golden mem pc n) = golden mem pc n" by (simp add: ref_run.simps)
    with same show ?thesis by metis
  next
    case False
    then have "ref_run n (golden mem pc n) = (fst (golden mem pc n), (snd (golden mem pc n))\<lparr>rs_budget := True\<rparr>)"
      by (subst ref_run.simps) (simp add: golden_retired)
    then show ?thesis by auto
  qed
next
  case (step k)
  have "ref_run n (golden mem pc k) = ref_run n (golden mem pc (Suc k))"
    using assms(1) step(2) by (subst ref_run.simps) (simp add: golden_retired golden_Suc)
  with step.IH show ?case by simp
qed

lemma follows_run:
  assumes G: "golden_run (golden mem pc)" and c: "follows (golden mem pc) c"
  shows "committed_state c = reference_state (ref_run (retired c) (mem, start_result pc))"
    "rs_retired (snd (ref_run (retired c) (mem, start_result pc))) = retired c"
proof -
  have sync: "committed_state c = reference_state (golden mem pc (retired c))"
    using c by (simp add: follows_def flow_def synced_states)
  have "\<forall>j < retired c. \<not> rs_done (snd (golden mem pc j))"
  proof (cases "cpu_done c")
    case True
    with c show ?thesis by (simp add: follows_def)
  next
    case False
    then have "\<not> rs_done (snd (golden mem pc (retired c)))"
      using sync by (simp add: committed_state_def reference_state_def cpu_done_def rs_done_def)
    then show ?thesis using golden_running [OF G] by simp
  qed
  from ref_run_golden [OF this, of 0] obtain b where
    "fst (ref_run (retired c) (mem, start_result pc)) = fst (golden mem pc (retired c))"
    "snd (ref_run (retired c) (mem, start_result pc)) = (snd (golden mem pc (retired c)))\<lparr>rs_budget := b\<rparr>" by auto
  then show "committed_state c = reference_state (ref_run (retired c) (mem, start_result pc))"
    "rs_retired (snd (ref_run (retired c) (mem, start_result pc))) = retired c"
    using sync by (simp_all add: reference_state_def golden_retired)
qed

lemma reachable_follows:
  assumes "config_ok cfg" "tame (golden mem pc)" "reachable (make_cpu mem cfg pc) c" "st_renamed (c_stats c) < 2 ^ 32"
  shows "follows (golden mem pc) c"
  using reachable_refines [OF assms(1-3)] assms(4) by (simp add: refines_def)

text \<open>Renaming keeps pace with the clock, so short runs do not wrap.\<close>

lemma run_renamed: "renamed (snd (run_cpu n (make_cpu mem cfg pc))) \<le> n * cfg_width cfg"
proof -
  define c where "c = snd (run_cpu n (make_cpu mem cfg pc))"
  have "c_cycle (make_cpu mem cfg pc) = 0" by (simp add: make_cpu_def Let_def)
  then have "c_cycle c \<le> n" using run_cpu_clock [of n "make_cpu mem cfg pc"] by (simp add: c_def)
  moreover have "reachable (make_cpu mem cfg pc) c" unfolding c_def by (rule run_cpu_reachable) (rule reach_start)
  ultimately show ?thesis using reachable_renamed(1) [of mem cfg pc c] by (metis c_def le_trans mult_le_mono1)
qed

section \<open>A program that exits\<close>

text \<open>\<open>addi a7, x0, 93; ecall\<close>: the state of the reference at its three steps.\<close>

definition exit_program :: Memory where
  "exit_program = store_u32 (store_u32 empty_memory 0 0x05D00893) 4 0x73"

lemma exit_insns:
  "load_u32 exit_program 0 = 0x05D00893" "load_u32 exit_program 4 = 0x73"
  by code_simp+

lemma exit_decoded:
  defines "d \<equiv> decode 0x05D00893"
  shows "d_op d = Op_ADD" "d_rd d = 17" "d_rs1 d = 0" "d_imm d = 93" "uses_immediate d" "d_writes_rd d"
    "\<not> d_is_load d" "\<not> d_is_store d" "d_op (decode 0x73) = Op_ECALL" "\<not> d_is_load (decode 0x73)" "\<not> d_is_store (decode 0x73)"
  unfolding d_def by code_simp+

lemma exit_steps:
  "fst (ref_step (exit_program, start_result 0)) = exit_program" "rs_pc (snd (ref_step (exit_program, start_result 0))) = 4"
  "access_fits (exit_program, start_result 0)" "access_fits (ref_step (exit_program, start_result 0))"
  "rs_done (snd (ref_step (ref_step (exit_program, start_result 0))))"
proof -
  have zero: "(replicate 32 0)[0 := 0 :: u32] = replicate 32 0" by (simp add: list_update_same_conv)
  have one: "ref_step (exit_program, start_result 0) = (exit_program, (start_result 0)
      \<lparr>rs_regs := (replicate 32 0)[17 := 93], rs_pc := 4, rs_retired := 1\<rparr>)"
    by (simp add: ref_step_def start_result_def exit_insns exit_decoded Let_def ref_switch_def ef_value_def alu_add_def
        rs_done_def list_update_swap zero)
  show "fst (ref_step (exit_program, start_result 0)) = exit_program" "rs_pc (snd (ref_step (exit_program, start_result 0))) = 4"
    by (simp_all add: one)
  show "access_fits (exit_program, start_result 0)" "access_fits (ref_step (exit_program, start_result 0))"
    unfolding one by (simp_all add: access_fits_def insn_at_def exit_insns exit_decoded start_result_def)
  show "rs_done (snd (ref_step (ref_step (exit_program, start_result 0))))"
    unfolding one by (simp add: ref_step_def start_result_def exit_insns exit_decoded Let_def ref_switch_def rs_done_def
        REG_A7_def SYS_EXIT_def)
qed

lemma exit_tame: "tame (golden exit_program 0)"
proof -
  define G where "G = golden exit_program 0"
  have G: "G 0 = (exit_program, start_result 0)" "G (Suc 0) = ref_step (exit_program, start_result 0)"
    by (simp_all add: G_def golden_Suc)
  note s = exit_steps [folded G(2)]
  have late: "rs_done (snd (G (Suc (Suc k))))" for k
  proof (induction k)
    case 0
    show ?case using s(5) by (simp add: G_def golden_Suc)
  next
    case (Suc k)
    then show ?case using ref_step_done by (simp add: G_def golden_Suc)
  qed
  have early: "i = 0 \<or> i = Suc 0" if "\<not> rs_done (snd (G i))" for i
  proof (rule ccontr)
    assume "\<not> (i = 0 \<or> i = Suc 0)"
    then obtain k where "i = Suc (Suc k)" by (metis not0_implies_Suc)
    then show False using late that by simp
  qed
  have "access_fits (G i) \<and> (\<forall>j. \<not> rs_done (snd (G j)) \<longrightarrow>
      load_u32 (fst (G j)) (rs_pc (snd (G i))) = load_u32 (fst (G i)) (rs_pc (snd (G i))))"
    if "i = 0 \<or> i = Suc 0" for i
  proof (intro conjI allI impI)
    show "access_fits (G i)" using that s(3,4) by (auto simp: G(1))
    fix j assume "\<not> rs_done (snd (G j))"
    then have "fst (G j) = exit_program" "fst (G i) = exit_program" using early [of j] that s(1) by (auto simp: G(1))
    then show "load_u32 (fst (G j)) (rs_pc (snd (G i))) = load_u32 (fst (G i)) (rs_pc (snd (G i)))" by simp
  qed
  then show ?thesis unfolding tame_def G_def [symmetric] using early by blast
qed

lemma exit_run_bound: "renamed (snd (run_cpu 1000 (make_cpu exit_program default_config 0))) < 2 ^ 32"
proof -
  have "1000 * cfg_width default_config < 2 ^ 32" by (simp add: default_config_def)
  with run_renamed [of 1000 exit_program default_config 0] show ?thesis by (rule le_less_trans)
qed

section \<open>Properties\<close>

text \<open>C1: The pipeline refines the reference interpreter. For every program whose data accesses stay
  inside the address space and that does not modify its own code, on every usable configuration,
  at every cycle until 2^32 instructions have been renamed and sequence numbers wrap: memory, the 32 registers, the PC,
  whether and how the program ended and its exit code are those of the reference run with exactly
  as many instructions as have retired. Speculation, reordering, forwarding and recovery do not
  show.\<close>

theorem pipeline_refines_reference:
  assumes "config_ok cfg" "tame (golden mem pc)" "reachable (make_cpu mem cfg pc) c" "st_renamed (c_stats c) < 2 ^ 32"
  shows "committed_state c = reference_state (ref_run (st_retired (c_stats c)) (mem, start_result pc))"
  by (rule follows_run(1) [OF golden_run_golden [OF assms(2)] reachable_follows [OF assms]])

theorem pipeline_refines_reference_witness:
  "let c = snd (run_cpu 1000 (make_cpu exit_program default_config 0))
   in committed_state c = reference_state (ref_run (st_retired (c_stats c)) (exit_program, start_result 0))"
proof -
  define c where "c = snd (run_cpu 1000 (make_cpu exit_program default_config 0))"
  have "config_ok default_config" by (rule default_config_ok)
  moreover have "reachable (make_cpu exit_program default_config 0) c"
    unfolding c_def by (rule run_cpu_reachable) (rule reach_start)
  moreover have "renamed c < 2 ^ 32" unfolding c_def by (rule exit_run_bound)
  ultimately have "committed_state c = reference_state (ref_run (st_retired (c_stats c)) (exit_program, start_result 0))"
    by (intro pipeline_refines_reference [OF _ exit_tame])
  then show ?thesis by (simp add: Let_def flip: c_def)
qed

text \<open>C4: Recovery always finds its branch. On such a program only branches are ever mispredicted, so
  every recovery restores the checkpoint of the branch it serves and the model's undefined states
  (a checkpoint read or allocated where there is none) are never reached.\<close>

theorem recovery_finds_its_checkpoint:
  assumes "config_ok cfg" "tame (golden mem pc)" "reachable (make_cpu mem cfg pc) c" "st_renamed (c_stats c) < 2 ^ 32"
  shows "\<not> c_undefined c"
  using reachable_follows [OF assms] by (simp add: follows_def)

theorem recovery_finds_its_checkpoint_witness:
  "\<not> c_undefined (snd (run_cpu 1000 (make_cpu exit_program default_config 0)))"
proof (rule recovery_finds_its_checkpoint [OF default_config_ok exit_tame])
  show "reachable (make_cpu exit_program default_config 0) (snd (run_cpu 1000 (make_cpu exit_program default_config 0)))"
    by (rule run_cpu_reachable) (rule reach_start)
  show "renamed (snd (run_cpu 1000 (make_cpu exit_program default_config 0))) < 2 ^ 32"
    by (rule exit_run_bound)
qed

end
