(* ===== verification/Wakeup.thy ===== *)
theory Wakeup
  imports Refinement
begin

text \<open>
  No wakeup is lost. An operand of a waiting instruction is marked ready as soon as its register
  is, the committed registers and the destinations of finished instructions are ready, the issue
  queue is in program order, and the front end stands still only for a trap that is in flight.
\<close>

section \<open>The invariant\<close>

definition heard :: "Prf \<Rightarrow> IqEntry list \<Rightarrow> bool" where
  "heard p ents \<longleftrightarrow> (\<forall>e \<in> set ents. (prf_is_ready p (iq_src1 e) \<longrightarrow> iq_src1_ready e) \<and>
     (prf_is_ready p (iq_src2 e) \<longrightarrow> iq_src2_ready e))"

definition answered :: "SeqNum set \<Rightarrow> Uop list \<Rightarrow> PhysReg list \<Rightarrow> Prf \<Rightarrow> bool" where
  "answered U us arch p \<longleftrightarrow> (\<forall>a \<in> set arch. prf_is_ready p a) \<and>
     (\<forall>u \<in> set us. u_dest u \<noteq> INVALID_PHYSREG \<and> u_seq u \<notin> U \<longrightarrow> prf_is_ready p (u_dest u))"

definition stopper :: "Uop list \<Rightarrow> bool" where
  "stopper us \<longleftrightarrow> (\<exists>u \<in> set us. d_kind (u_dec u) = Kind_TRAP)"

definition alert :: "Cpu \<Rightarrow> bool" where
  "alert c \<longleftrightarrow> program_ordered iq_seq (iq_entries (c_iq c)) \<and> heard (c_prf c) (iq_entries (c_iq c)) \<and>
     answered (unfinished c) (in_flight c) (c_arch_rat c) (c_prf c) \<and>
     (c_fetch_stalled c \<longrightarrow> stopper (in_flight c @ c_decode_q c))"

lemma alert_parts:
  assumes "alert c"
  shows "program_ordered iq_seq (iq_entries (c_iq c))" "heard (c_prf c) (iq_entries (c_iq c))"
    "answered (unfinished c) (in_flight c) (c_arch_rat c) (c_prf c)"
    "c_fetch_stalled c \<Longrightarrow> stopper (in_flight c @ c_decode_q c)"
  using assms unfolding alert_def by blast+

lemma alert_whole:
  assumes "whole c' = whole c"
  shows "alert c' = alert c"
  by (simp only: alert_def in_flight_def unfinished_def essence_eqs [OF whole_eqs(1) [OF assms]] whole_eqs(2-5) [OF assms])

lemma stopper_append [simp]: "stopper (us @ vs) \<longleftrightarrow> stopper us \<or> stopper vs"
  "stopper (u # us) \<longleftrightarrow> d_kind (u_dec u) = Kind_TRAP \<or> stopper us" "\<not> stopper []"
  by (auto simp: stopper_def)

text \<open>The invariant reads only what identifies a uop.\<close>

lemma ident_member:
  assumes "map ident us = map ident vs" "u \<in> set us"
  obtains v where "v \<in> set vs" "ident v = ident u"
proof -
  have "ident u \<in> ident ` set vs" using arg_cong [OF assms(1), of set] assms(2) by (metis image_eqI image_set)
  then show thesis using that by auto
qed

lemma ident_lists:
  assumes "map ident us = map ident vs"
  shows "answered U us arch p = answered U vs arch p" "stopper us = stopper vs"
proof -
  have "answered U ys arch p \<Longrightarrow> answered U xs arch p" "stopper ys \<Longrightarrow> stopper xs"
    if same: "map ident xs = map ident ys" for xs ys
  proof -
    show "answered U xs arch p" if a: "answered U ys arch p"
      unfolding answered_def
    proof (intro conjI ballI impI)
      fix u assume u: "u \<in> set xs" "u_dest u \<noteq> INVALID_PHYSREG \<and> u_seq u \<notin> U"
      obtain v where v: "v \<in> set ys" "ident v = ident u" by (rule ident_member [OF same u(1)])
      show "prf_is_ready p (u_dest u)"
        using a v(1) u(2) ident_eqs(1,4) [OF v(2)] by (auto simp: answered_def)
    qed (use a in \<open>simp add: answered_def\<close>)
    show "stopper xs" if "stopper ys"
      using that ident_member [OF same [symmetric]] ident_eqs(3) unfolding stopper_def by metis
  qed
  from this [OF assms] this [OF assms [symmetric]]
  show "answered U us arch p = answered U vs arch p" "stopper us = stopper vs" by blast+
qed

lemma strip_ident: "map strip us = map strip vs \<Longrightarrow> map ident us = map ident vs"
proof -
  have "ident (strip u) = ident u" for u by (simp add: ident_def strip_def)
  then show "map strip us = map strip vs \<Longrightarrow> map ident us = map ident vs"
    using map_map by (metis (mono_tags, lifting) comp_apply list.map_cong0)
qed

lemma names_ident: "names u = names v \<Longrightarrow> ident u = ident v"
  by (simp add: names_def)

lemma alert_moved:
  assumes "alert c" "map ident (in_flight d) = map ident (in_flight c)" "unfinished d = unfinished c"
    "c_arch_rat d = c_arch_rat c" "c_prf d = c_prf c" "c_decode_q d = c_decode_q c" "c_fetch_stalled d = c_fetch_stalled c"
    "program_ordered iq_seq (iq_entries (c_iq d))" "heard (c_prf c) (iq_entries (c_iq d))"
  shows "alert d"
  using assms(1,8,9) by (simp add: alert_def assms(3-7) ident_lists [OF assms(2)])

section \<open>Fetch and decode\<close>

lemma fetch_one_alert: "alert c \<Longrightarrow> alert (fst (fetch_one c))"
proof (cases rule: fetch_one_form [of c])
  case (grab u)
  moreover assume "alert c"
  ultimately show ?thesis unfolding alert_whole [OF grab(1)] by (simp add: alert_def in_flight_def unfinished_def)
qed simp

lemma decode_one_alert: "alert c \<Longrightarrow> alert (fst (decode_one c))"
proof (cases rule: decode_one_form [of c])
  case (move f rest)
  moreover assume "alert c"
  ultimately show ?thesis unfolding alert_whole [OF move(2)] by (auto simp: alert_def in_flight_def unfinished_def)
next
  case (trap f rest)
  moreover assume "alert c"
  ultimately show ?thesis unfolding alert_whole [OF trap(2)] by (simp add: alert_def in_flight_def unfinished_def)
qed simp

section \<open>Rename\<close>

lemma pending_shrinks: "prf_is_ready (prf_mark_pending p r) q \<Longrightarrow> prf_is_ready p q"
  by (cases "q = r \<and> r < length (prf_ready p)")
    (auto simp: prf_is_ready_def prf_mark_pending_def not_less list_update_beyond split: if_splits)

lemma rename_one_alert:
  assumes c: "core c" "\<not> lost c" "flow G c" and a: "alert c"
  shows "alert (fst (rename_one c))"
proof (cases rule: rename_one_cases [of c])
  case none
  with a show ?thesis by simp
next
  case (stall s)
  have "alert (cpu_stall s c) = alert c" by (rule alert_whole) (simp add: whole_def)
  then show ?thesis using a stall by simp
next
  case (go u rest dest c1)
  define b where "b = c\<lparr>c_decode_q := rest\<rparr>"
  define d where "d = rename_uop dest u (c1\<lparr>c_decode_q := rest\<rparr>)"
  have b: "core b" "\<not> lost b" using c go(1) by (simp_all add: b_def core_defs lost_def)
  have u: "fresh u" "wf_decoded (u_dec u)" using c(1) go(1) by (simp_all add: core_defs)
  have room: "\<not> rob_full (c_rob b)" "d_is_branch (u_dec u) \<Longrightarrow> cp_free (c_ckpts b) \<noteq> []"
    using go(2,3) by (simp_all add: b_def)
  have dest: "take_dest (d_writes_rd (u_dec u)) b = Some (dest, c1\<lparr>c_decode_q := rest\<rparr>)"
    using go(4) by (auto simp: take_dest_def b_def split: if_splits option.splits)
  have bf: "in_flight b = in_flight c" "unfinished b = unfinished c" "c_prf b = c_prf c" "c_iq b = c_iq c"
    "c_decode_q b = rest" "c_fetch_stalled b = c_fetch_stalled c" "committed b = committed c" "c_rob b = c_rob c"
    by (simp_all add: b_def in_flight_def unfinished_def committed_def)
  obtain u' where f0: "in_flight d = in_flight b @ [u']" "u_seq u' = rob_next_seq (c_rob b)"
    "unfinished d = insert (u_seq u') (unfinished b)" "u_dec u' = u_dec u"
    "u_dest u' = (if d_writes_rd (u_dec u) then dest else INVALID_PHYSREG)"
    "c_prf d = (if d_writes_rd (u_dec u) then prf_mark_pending (c_prf b) dest else c_prf b)"
    "iq_entries (c_iq d) = iq_entries (c_iq b)" "c_decode_q d = c_decode_q b"
    "c_fetch_stalled d = c_fetch_stalled b" "committed d = committed b"
  proof (rule rename_fields [OF b u room dest, folded d_def], goal_cases)
    case (2 u')
    show ?case by (rule 2(1) [OF 2(2,4,5,7,15,16,17,19,23,24)])
  qed
  note f = f0 [unfolded bf] and p = alert_parts [OF a] and core = core_facts [OF c(1)]
  have keep: "prf_is_ready (c_prf d) q = prf_is_ready (c_prf c) q" if "d_writes_rd (u_dec u) \<Longrightarrow> q \<noteq> dest" for q
    using that by (simp add: f(6) mark_pending_frame)
  have reg: "dest \<in> set (fl_free (c_free_list c))" if "d_writes_rd (u_dec u)"
    using go(4) that by (auto simp: take_dest_def fl_alloc_def split: option.splits list.splits)
  have src: "sources (c_arch_rat c) (in_flight c)" using c(3) by (simp add: flow_def)
  have shrinks: "prf_is_ready (c_prf d) q \<Longrightarrow> prf_is_ready (c_prf c) q" for q
    unfolding f(6) by (cases "d_writes_rd (u_dec u)") (simp_all add: pending_shrinks)
  have "heard (c_prf d) (iq_entries (c_iq d))"
    using p(2) shrinks unfolding heard_def f(7) by blast
  moreover have "answered (unfinished d) (in_flight d) (c_arch_rat c) (c_prf d)"
    unfolding answered_def
  proof (intro conjI ballI impI)
    fix q assume q: "q \<in> set (c_arch_rat c)"
    have "q \<noteq> dest" if w: "d_writes_rd (u_dec u)"
    proof -
      have "set (c_arch_rat c) = insert 0 (set (tl (c_arch_rat c)))"
        using core(1) by (cases "c_arch_rat c") (auto simp: regs_inv_def)
      moreover have "dest \<in> {1..<fl_capacity (c_free_list c)}"
        using regs_inv_members(7) [OF core(1)] reg [OF w] by blast
      ultimately show ?thesis using q reg [OF w] regs_inv_members(5) [OF core(1)] by auto
    qed
    then show "prf_is_ready (c_prf d) q" using q p(3) by (simp add: keep answered_def)
  next
    fix v assume v: "v \<in> set (in_flight d)" "u_dest v \<noteq> INVALID_PHYSREG \<and> u_seq v \<notin> unfinished d"
    then have v': "v \<in> set (in_flight c)" "u_seq v \<notin> unfinished c" by (auto simp: f(1,3))
    then have "u_dest v \<noteq> dest" if "d_writes_rd (u_dec u)"
      using free_not_source(3) [OF c(1) src v'(1) reg [OF that]] by blast
    then show "prf_is_ready (c_prf d) (u_dest v)" using v' v(2) p(3) by (simp add: keep answered_def)
  qed
  moreover have "c_fetch_stalled c \<longrightarrow> stopper (in_flight d @ c_decode_q d)"
    using p(4) go(1) by (auto simp: f(1,4,8))
  ultimately have "alert d"
    using p(1) by (simp add: alert_def f(7,9) committed_eqs(2) [OF f(10)])
  then show ?thesis by (simp add: go(5) d_def)
qed

section \<open>Dispatch\<close>

lemma dispatch_one_alert:
  assumes c: "core c" "flow G c" and a: "alert c"
  shows "alert (fst (dispatch_one c))"
proof (cases rule: dispatch_fields [OF c])
  case 1
  then show ?thesis using a alert_whole by blast
next
  case (2 u u1 rest d)
  note p = alert_parts [OF a]
  have seq: "u_seq u1 = u_seq u" using arg_cong [OF 2(7), of u_seq] by simp
  have "alert d"
  proof (rule alert_moved [OF a])
    have "map strip (in_flight d) = map strip (in_flight c)" by (simp add: 2(4,5,7))
    then show "map ident (in_flight d) = map ident (in_flight c)" by (rule strip_ident)
    have "iq_seq e < u_seq u" if "e \<in> set (iq_entries (c_iq c))" for e
      using c(1) 2(2) that by (simp add: core_def waits_def waiting_def)
    then show "program_ordered iq_seq (iq_entries (c_iq d))"
      using p(1) seq by (simp add: 2(8) program_ordered_def sorted_wrt_append iq_entry_of_def)
    show "heard (c_prf c) (iq_entries (c_iq d))"
      using p(2) by (simp add: 2(8) heard_def ball_Un iq_entry_of_def)
    show "c_arch_rat d = c_arch_rat c" by (rule committed_eqs(2) [OF 2(15)])
  qed (simp_all add: 2)
  then show ?thesis using alert_whole [OF 2(1)] by simp
qed

section \<open>Execute and writeback\<close>

lemma complete_alert:
  assumes c: "core c" "flow G c" and u: "work c = add_mset u (mset x + mset y + mset z)" and a: "alert c"
  shows "alert ((complete u c)\<lparr>c_executing := x, c_wb_fast := y, c_wb_slow := z\<rparr>)"
proof -
  define d where "d = (complete u c)\<lparr>c_executing := x, c_wb_fast := y, c_wb_slow := z\<rparr>"
  define u1 where "u1 = u\<lparr>u_at := (u_at u)\<lparr>at_complete := c_cycle c\<rparr>\<rparr>"
  note p = alert_parts [OF a] and rest = complete_rest [where u = u and c = c and x = x and y = y and z = z, folded d_def]
  obtain k where k: "k < length (in_flight c)" "in_flight c ! k = u"
    and infl: "in_flight d = (in_flight c)[k := u1]" and unf: "unfinished d = unfinished c - {u_seq u}"
    and ready: "\<And>q. prf_is_ready (c_prf d) q \<longleftrightarrow> prf_is_ready (c_prf c) q \<or> u_dest u \<noteq> INVALID_PHYSREG \<and> q = u_dest u"
    by (rule complete_facts [OF c u, folded d_def u1_def]) blast
  have same: "map ident (in_flight d) = map ident (in_flight c)"
    unfolding infl map_update by (rule list_update_same_conv [THEN iffD2]) (use k in \<open>simp_all add: ident_def u1_def\<close>)
  have "program_ordered iq_seq (iq_entries (c_iq d))"
    using p(1) by (simp add: rest(11) program_ordered_map)
  moreover have "heard (c_prf d) (iq_entries (c_iq d))"
    using p(2) by (auto simp: heard_def rest(11) ready wake_entry_bits)
  moreover have "answered (unfinished d) (in_flight c) (c_arch_rat c) (c_prf d)"
    unfolding answered_def
  proof (intro conjI ballI impI)
    show "prf_is_ready (c_prf d) q" if "q \<in> set (c_arch_rat c)" for q
      using p(3) that by (simp add: answered_def ready)
    fix v assume v: "v \<in> set (in_flight c)" "u_dest v \<noteq> INVALID_PHYSREG \<and> u_seq v \<notin> unfinished d"
    show "prf_is_ready (c_prf d) (u_dest v)"
    proof (cases "u_seq v = u_seq u")
      case True
      then have "v = u" using same_seq_uop [OF c(1) v(1), of u] k by (metis nth_mem)
      then show ?thesis using v(2) by (simp add: ready)
    next
      case False
      then show ?thesis using v p(3) by (simp add: answered_def ready unf)
    qed
  qed
  moreover have "c_fetch_stalled d \<longrightarrow> stopper (in_flight c @ c_decode_q d)" using p(4) by (simp add: rest(2,6))
  ultimately show ?thesis
    by (simp add: alert_def ident_lists [OF same] committed_eqs(2) [OF rest(7)] flip: d_def)
qed

lemma drain_fast_alert:
  "core c \<Longrightarrow> flowing G c \<Longrightarrow> alert c \<Longrightarrow> c_wb_fast c = us \<Longrightarrow> alert (snd (drain_fast us ports c))"
proof (induction us arbitrary: ports c)
  case (Cons u us)
  define d where "d = (complete u c)\<lparr>c_wb_fast := us\<rparr>"
  define d' where "d' = (complete u c)\<lparr>c_executing := c_executing c, c_wb_fast := us, c_wb_slow := c_wb_slow c\<rparr>"
  have w: "work c = add_mset u (mset (c_executing c) + mset us + mset (c_wb_slow c))"
    using Cons.prems(4) by (simp add: work_def)
  have same: "whole d = whole d'" by (simp add: d_def d'_def work_def whole_def essence_def committed_def)
  note both = complete_both [OF Cons.prems(1,2) w same [unfolded d'_def]]
  have fl: "flow G c" using Cons.prems(2) by (simp add: flowing_def)
  have "alert d'" unfolding d'_def by (rule complete_alert [OF Cons.prems(1) fl w Cons.prems(3)])
  then have "alert d" using alert_whole [OF same] by simp
  moreover have "c_wb_fast d = us" by (simp add: d_def)
  ultimately show ?case using Cons.IH [OF both] Cons.prems(3) by (simp flip: d_def)
qed simp

lemma drain_slow_alert:
  "core c \<Longrightarrow> flowing G c \<Longrightarrow> alert c \<Longrightarrow> c_wb_slow c = us \<Longrightarrow> alert (drain_slow us ports c)"
proof (induction us arbitrary: ports c)
  case (Cons u us)
  define d where "d = (complete u c)\<lparr>c_wb_slow := us\<rparr>"
  define d' where "d' = (complete u c)\<lparr>c_executing := c_executing c, c_wb_fast := c_wb_fast c, c_wb_slow := us\<rparr>"
  have w: "work c = add_mset u (mset (c_executing c) + mset (c_wb_fast c) + mset us)"
    using Cons.prems(4) by (simp add: work_def)
  have same: "whole d = whole d'" by (simp add: d_def d'_def work_def whole_def essence_def committed_def)
  note both = complete_both [OF Cons.prems(1,2) w same [unfolded d'_def]]
  have fl: "flow G c" using Cons.prems(2) by (simp add: flowing_def)
  have "alert d'" unfolding d'_def by (rule complete_alert [OF Cons.prems(1) fl w Cons.prems(3)])
  then have "alert d" using alert_whole [OF same] by simp
  moreover have "c_wb_slow d = us" by (simp add: d_def)
  ultimately show ?case using Cons.IH [OF both] Cons.prems(3) by (simp flip: d_def)
qed simp

lemma writeback_alert:
  assumes "core c" "flowing G c" "alert c"
  shows "alert (writeback c)"
proof -
  obtain p c1 where 1: "drain_fast (c_wb_fast c) (cfg_num_cdb (c_cfg c)) c = (p, c1)" by fastforce
  then have "core c1 \<and> flowing G c1" "alert c1"
    using drain_fast_flow [OF assms(1,2) refl, of "cfg_num_cdb (c_cfg c)"]
      drain_fast_alert [OF assms refl, of "cfg_num_cdb (c_cfg c)"] by simp_all
  then have "alert (drain_slow (c_wb_slow c1) p c1)" using drain_slow_alert [of c1 G] by blast
  moreover have "whole (writeback c) = whole (drain_slow (c_wb_slow c1) p c1)"
    by (simp add: writeback_def 1 Let_def whole_def essence_def committed_def work_def)
  ultimately show ?thesis using alert_whole by blast
qed

lemma execute_alert: "alert (execute c) = alert c"
  by (rule alert_whole [OF execute_whole])

section \<open>Issue and recovery\<close>

lemma finish_issue_alert:
  assumes c: "core c" "flow G c" and e: "e \<in> set (iq_entries (c_iq c))"
    and k: "k < length (dispatched c)" "k < length (in_flight c)" "u_seq (in_flight c ! k) = iq_seq e"
    and u1: "issues G c e k u1 (c_lsq c1)" and c1: "whole (c1\<lparr>c_lsq := c_lsq c\<rparr>) = whole c" and a: "alert c"
  shows "alert (is_cpu (finish_issue e f unit u1 lat c1 st))"
proof -
  obtain d u where out: "whole (is_cpu (finish_issue e f unit u1 lat c1 st)) = whole d"
    and u: "names u = names (in_flight c ! k)"
    and d: "in_flight d = (in_flight c)[k := u]" "iq_entries (c_iq d) = erase_first (iq_seq e) (iq_entries (c_iq c))"
      "unfinished d = unfinished c" "c_prf d = c_prf c" "c_decode_q d = c_decode_q c" "committed d = committed c"
      "c_fetch_stalled d = c_fetch_stalled c"
    by (rule finish_issue_fields [OF c e k u1 c1, where f = f and unit = unit and lat = lat and st = st]) blast
  note p = alert_parts [OF a]
  have "alert d"
  proof (rule alert_moved [OF a])
    show "map ident (in_flight d) = map ident (in_flight c)"
      unfolding d(1) map_update
      by (rule list_update_same_conv [THEN iffD2]) (use k(2) names_ident [OF u] in simp_all)
    show "program_ordered iq_seq (iq_entries (c_iq d))"
      using p(1) by (simp add: d(2) erase_first_eq program_ordered_distinct program_ordered_filter)
    show "heard (c_prf c) (iq_entries (c_iq d))"
      using p(2) set_erase_first [of "iq_seq e" "iq_entries (c_iq c)"] by (auto simp: d(2) heard_def)
    show "c_arch_rat d = c_arch_rat c" by (rule committed_eqs(2) [OF d(6)])
  qed (simp_all add: d)
  then show ?thesis using alert_whole [OF out] by simp
qed

lemma issue_one_alert:
  assumes G: "golden_run G" and st: "issue_ok st" "issue_flow G st" "alert (is_cpu st)"
    and e: "e \<in> set (iq_entries (c_iq (is_cpu st)))" "iq_ready e"
  shows "alert (is_cpu (issue_one e st))"
proof -
  define c where "c = is_cpu st"
  have c: "core c" "flow G c" "alert c" using st by (simp_all add: issue_ok_def issue_flow_def c_def)
  note e = e [folded c_def]
  obtain k where k: "k < length (dispatched c)" "k < length (in_flight c)" "in_flight c ! k = c_inflight c ! iq_rob e"
    "u_seq (in_flight c ! k) = iq_seq e" by (rule candidate [OF c(1,2) e(1)])
  have u: "operands_read c (in_flight c ! k) = (c_inflight c ! iq_rob e)
      \<lparr>u_val1 := prf_read (c_prf c) (u_src1 (c_inflight c ! iq_rob e)),
       u_val2 := prf_read (c_prf c) (u_src2 (c_inflight c ! iq_rob e))\<rparr>"
    by (simp add: operands_read_def k(3))
  note candidate_facts = G c(1,2) e k(1,2,4)
  note finish = finish_issue_alert [OF c(1,2) e(1) k(1,2,4) _ _ c(3)]
  show ?thesis
  proof (rule issue_one_cases [OF c_def refl u], goal_cases)
    case (2 unit c1)
    note w = execute_load_form(1) [OF 2(3)]
    have "alert c1 = alert (c1\<lparr>c_lsq := c_lsq c\<rparr>)" by (simp add: alert_def in_flight_def unfinished_def)
    then have "alert c1" using alert_whole [OF w] c(3) by simp
    then show ?case by (simp add: 2(4) alert_def in_flight_def unfinished_def occupy_unit_def obs_defs)
  next
    case (3 unit u1 lat c1)
    have "issues G c e k u1 (c_lsq c1)" by (rule load_issues [OF candidate_facts _ 3(3)]) (use 3(2) in simp)
    then show ?case unfolding 3(4) by (rule finish) (rule execute_load_form(1) [OF 3(3)])
  next
    case (5 unit u1 c1)
    have "issues G c e k u1 (c_lsq c1)" by (rule other_issues [OF candidate_facts _ 5(3)]) (use 5(2) in simp)
    then show ?case unfolding 5(4) by (rule finish) (rule execute_other_form(1) [OF 5(3)])
  qed (use c(3) in simp_all)
qed

lemma recover_alert:
  assumes c: "core c" "flow G c" "alert c" and br: "br \<in># work c" and k: "k < length (in_flight c)" "in_flight c ! k = br"
  shows "alert (recover br c)"
proof -
  define d where "d = recover br c"
  note f = recover_cut [OF c(1,2) br k, folded d_def] and r = recover_rest [of br c, folded d_def] and p = alert_parts [OF c(3)]
  have cm: "committed d = committed c" by (simp add: d_def)
  have "answered (unfinished d) (in_flight d) (c_arch_rat c) (c_prf c)"
    using p(3) f(5) by (auto simp: answered_def f(1) dest: in_set_takeD)
  then show ?thesis
    using p(1,2) r(4) by (simp add: alert_def program_ordered_filter heard_def f(7) r(1) committed_eqs(2) [OF cm] flip: d_def)
qed

lemma issue_alert:
  assumes G: "golden_run G" and c: "core c" "flowing G c" and a: "alert c"
  shows "alert (issue c)"
proof -
  obtain st :: Issue and c1 where out: "issue c = (case is_offender st of None \<Rightarrow> c1 | Some br \<Rightarrow> recover br c1)"
    and st: "alert (is_cpu st)" "whole c1 = whole (is_cpu st)" "core c1" "flow G c1"
    and off: "\<And>br. is_offender st = Some br \<Longrightarrow> br \<in># work c1 \<and> d_is_branch (u_dec br) \<and>
       (\<exists>k < length (in_flight c1). in_flight c1 ! k = br \<and> chained k c1)"
  proof (rule issue_parts [OF G c, where P = "\<lambda>st. alert (is_cpu st)"], goal_cases)
    case (1 st e)
    then show ?case by (intro issue_one_alert [OF G])
  next
    case 2
    then show ?case using a by simp
  next
    case (3 st c1)
    show ?case by (rule 3(1) [OF 3(4-8)]) (erule 3(10))
  qed
  have "alert c1" using st(1) alert_whole [OF st(2)] by simp
  then show ?thesis
    using off recover_alert [OF st(3,4)] by (cases "is_offender st") (auto simp: out)
qed

section \<open>Commit\<close>

text \<open>A trap that retires ends the run.\<close>

lemma trap_ends:
  assumes "wf_decoded (u_dec u)" "d_kind (u_dec u) = Kind_TRAP"
  shows "traps u regs \<or> exits u regs"
proof -
  have "kind_of_op (d_op (u_dec u)) = Kind_TRAP" using assms by (simp add: wf_decoded_def)
  then show ?thesis by (cases "d_op (u_dec u)") (auto simp: kind_of_op_def traps_def exits_def)
qed

lemma squash_in_flight_alert:
  assumes "answered (unfinished c) (in_flight c) (c_arch_rat c) (c_prf c)"
  shows "alert (squash_in_flight c)"
proof -
  define d where "d = squash_in_flight c"
  obtain c1 where out: "d = c1\<lparr>c_rat := c_arch_rat c, c_lsq := lsq_clear (c_lsq c1), c_fetch_q := [],
      c_decode_q := [], c_rename_q := [], c_iq := iq_clear (c_iq c1), c_executing := [], c_wb_fast := [],
      c_wb_slow := [], c_cdb_booked := map (\<lambda>_. 0) (c_cdb_booked c1), c_fetch_stalled := False\<rparr>"
    and rest: "kill_rest c1 = kill_rest (c\<lparr>c_rob := (c_rob c)\<lparr>rob_count := 0\<rparr>\<rparr>)"
    unfolding d_def by (rule squash_in_flight_form [of c]) blast
  have "in_flight d = []" "c_arch_rat d = c_arch_rat c" "iq_entries (c_iq d) = []" "\<not> c_fetch_stalled d"
    using rest by (simp_all add: out kill_rest_def in_flight_def uops_def iq_clear_def)
  moreover have "c_prf d = c_prf c" by (simp add: d_def squash_in_flight_rest(1))
  ultimately show ?thesis
    using assms by (simp add: alert_def program_ordered_def heard_def flip: d_def) (simp add: answered_def)
qed

lemma commit_one_alert:
  assumes c: "core c" "flowing G c" and run: "\<not> cpu_done c" and a: "alert c"
  shows "alert (fst (commit_one c))"
  using c(1)
proof (cases rule: commit_one_cases)
  case stop
  with a show ?thesis by simp
next
  case (head e r' d)
  define u where "u = c_inflight c ! rob_nth (c_rob c) 0"
  obtain ds where us: "in_flight c = u # ds @ c_rename_q c" and pops: "uops r' (c_inflight c) = ds @ c_rename_q c"
    "open_seqs r' = open_seqs (c_rob c)" and u: "u_seq u \<notin> unfinished c" "shaped (idle c) u" "wf_decoded (u_dec u)"
    unfolding u_def by (rule head_facts [OF c run head(1)]) blast
  have c0: "\<not> cpu_done (c\<lparr>c_rob := r'\<rparr>)" using run by (simp add: cpu_done_def)
  have d: "d = commit_uop u (c\<lparr>c_rob := r'\<rparr>)" by (simp add: head(2) u_def)
  note e = essence_eqs [OF commit_uop_essence(1), of u "c\<lparr>c_rob := r'\<rparr>", folded d] and p = alert_parts [OF a]
  have trap: "u_trap u = (if d_op (u_dec u) = Op_INVALID then Trap_ILLEGAL else Trap_NONE)"
    using u(2) by (simp add: shaped_def decoded_uop_def)
  note parts = commit_uop_parts [OF trap u(3) c0, folded d]
  have f: "in_flight d = ds @ c_rename_q c" "unfinished d = unfinished c" "c_decode_q d = c_decode_q c"
    "iq_entries (c_iq d) = iq_entries (c_iq c)" "c_prf d = c_prf c" "c_fetch_stalled d = c_fetch_stalled c"
    using e pops parts(7,9) by (simp_all add: retire_def in_flight_def unfinished_def)
  have arch: "set (c_arch_rat d) \<subseteq> set (c_arch_rat c) \<union> (if u_dest u \<noteq> INVALID_PHYSREG then {u_dest u} else {})"
    using e(3) set_update_subset_insert [of "c_arch_rat c" "d_rd (u_dec u)" "u_dest u"] by (auto simp: retire_def)
  have regs: "answered (unfinished d) (in_flight d) (c_arch_rat d) (c_prf d)"
    unfolding answered_def f(1,2,5)
  proof (intro conjI ballI impI)
    fix q assume "q \<in> set (c_arch_rat d)"
    then consider "q \<in> set (c_arch_rat c)" | "u_dest u \<noteq> INVALID_PHYSREG" "q = u_dest u"
      using arch by (auto split: if_splits)
    then show "prf_is_ready (c_prf c) q" by cases (use p(3) u(1) in \<open>simp_all add: answered_def us\<close>)
  qed (use p(3) in \<open>simp add: answered_def us\<close>)
  show ?thesis
  proof (cases "cpu_done d")
    case True
    then show ?thesis using squash_in_flight_alert [OF regs] by (simp add: head(3))
  next
    case False
    then have "\<not> traps u (cpu_regs (c\<lparr>c_rob := r'\<rparr>))" "\<not> exits u (cpu_regs (c\<lparr>c_rob := r'\<rparr>))"
      using parts(3,4) by (simp_all add: cpu_done_def)
    then have "d_kind (u_dec u) \<noteq> Kind_TRAP" using trap_ends [OF u(3)] by blast
    then have "alert d" using regs p(1,2,4) by (simp add: alert_def f us)
    then show ?thesis using False by (simp add: head(3))
  qed
qed

end
