(* ===== verification/Timing.thy ===== *)
theory Timing
  imports Wakeup
begin

text \<open>
  Structural hazards are bounded in time. The sizes of all structures are constant, function
  units and writeback ports are only held up to a known cycle, and results wait at most for the
  results in front of them.
\<close>

section \<open>Sizes never change\<close>

definition sizes where
  "sizes c = (rob_capacity (c_rob c), cp_capacity (c_ckpts c), iq_capacity (c_iq c),
     lqq_capacity (lsq_loads (c_lsq c)), lqq_capacity (lsq_stores (c_lsq c)), fl_capacity (c_free_list c),
     map length (c_fu_free_at c), length (c_cdb_booked c))"

lemma sizes_eqs:
  assumes "sizes c' = sizes c"
  shows "rob_capacity (c_rob c') = rob_capacity (c_rob c)" "cp_capacity (c_ckpts c') = cp_capacity (c_ckpts c)"
    "iq_capacity (c_iq c') = iq_capacity (c_iq c)" "lqq_capacity (lsq_loads (c_lsq c')) = lqq_capacity (lsq_loads (c_lsq c))"
    "lqq_capacity (lsq_stores (c_lsq c')) = lqq_capacity (lsq_stores (c_lsq c))"
    "fl_capacity (c_free_list c') = fl_capacity (c_free_list c)"
    "map length (c_fu_free_at c') = map length (c_fu_free_at c)" "length (c_cdb_booked c') = length (c_cdb_booked c)"
  using assms unfolding sizes_def prod.inject by blast+

lemma rob_capacities [simp]:
  "rob_capacity (snd (rob_allocate e r)) = rob_capacity r" "rob_capacity (snd (rob_truncate_to i r)) = rob_capacity r"
  "rob_capacity (snd (rob_squash_all r)) = rob_capacity r"
  "rob_pop_head_if_complete r = Some (x, r') \<Longrightarrow> rob_capacity r' = rob_capacity r"
proof -
  have drop: "rob_slots (snd (rob_drop_to k r)) = rob_slots r" for k
    by (induction k r rule: rob_drop_to.induct) (subst rob_drop_to.simps, simp add: Let_def split_beta)
  show "rob_capacity (snd (rob_truncate_to i r)) = rob_capacity r" "rob_capacity (snd (rob_squash_all r)) = rob_capacity r"
    by (simp_all add: rob_truncate_to_def rob_squash_all_def rob_capacity_def drop)
  show "rob_capacity (snd (rob_allocate e r)) = rob_capacity r"
    by (simp add: rob_allocate_def Let_def rob_capacity_def)
  show "rob_pop_head_if_complete r = Some (x, r') \<Longrightarrow> rob_capacity r' = rob_capacity r"
    by (auto simp: rob_pop_head_if_complete_def rob_capacity_def split: if_splits)
qed

lemma pool_capacities [simp]:
  "cp_capacity (cp_write p i k) = cp_capacity p" "cp_capacity (cp_release p i) = cp_capacity p"
  "cp_alloc p = Some (i, p') \<Longrightarrow> cp_capacity p' = cp_capacity p"
  "fl_capacity (fl_release f r) = fl_capacity f" "fl_alloc f = Some (r, f') \<Longrightarrow> fl_capacity f' = fl_capacity f"
  by (auto simp: cp_write_def cp_release_def cp_alloc_def fl_release_def fl_alloc_def split: list.splits)

lemma queue_capacities [simp]:
  "iq_capacity (iq_insert x q) = iq_capacity q" "iq_capacity (iq_wakeup d q) = iq_capacity q"
  "iq_capacity (iq_erase s q) = iq_capacity q" "iq_capacity (iq_squash_after s q) = iq_capacity q"
  "iq_capacity (iq_clear q) = iq_capacity q"
  by (simp_all add: iq_insert_def iq_wakeup_def iq_erase_def iq_squash_after_def iq_clear_def)

lemma access_capacities [simp]:
  "lqq_capacity (lqq_pop_head l) = lqq_capacity l" "lqq_capacity (lqq_squash_after s l) = lqq_capacity l"
  "lqq_capacity (lqq_clear l) = lqq_capacity l" "lqq_alloc l s n = Some (i, l') \<Longrightarrow> lqq_capacity l' = lqq_capacity l"
proof -
  show "lqq_capacity (lqq_squash_after s l) = lqq_capacity l"
    by (induction s l rule: lqq_squash_after.induct) (subst lqq_squash_after.simps, simp)
qed (auto simp: lqq_pop_head_def lqq_clear_def lqq_alloc_def Let_def split: if_splits)

lemma sizes_obs [simp]: "sizes (upd_stats f c) = sizes c" "sizes (upd_obs g c) = sizes c"
  by (simp_all add: sizes_def)

subsection \<open>The front end\<close>

lemma fetch_one_sizes [simp]: "sizes (fst (fetch_one c)) = sizes c"
  by (simp add: fetch_one_def Let_def split_beta obs_defs) (simp add: sizes_def)

lemma decode_one_sizes [simp]: "sizes (fst (decode_one c)) = sizes c"
  by (simp add: decode_one_def Let_def obs_defs split: list.split) (simp add: sizes_def)

lemma rename_uop_sizes [simp]: "sizes (rename_uop dest u c) = sizes c"
proof -
  have m: "sizes (snd (map_regs dest u c)) = sizes c" for u c by (simp add: map_regs_def Let_def sizes_def)
  have t: "sizes (snd (take_checkpoint u c)) = sizes c" for u c
    by (auto simp: take_checkpoint_def sizes_def split: option.split prod.split)
  have e: "sizes (snd (enter_rob u c)) = sizes c" for u c
    using rob_capacities(1) [of "rob_entry_of u" "c_rob c"] by (simp add: enter_rob_def Let_def split_beta sizes_def)
  show ?thesis by (simp add: rename_uop_def Let_def split_beta obs_defs m t e)
qed

lemma rename_one_sizes [simp]: "sizes (fst (rename_one c)) = sizes c"
proof (cases rule: rename_one_cases [of c])
  case (go u rest dest c1)
  then have "sizes c1 = sizes c" by (auto simp: take_dest_def sizes_def split: if_splits option.splits)
  then have "sizes (c1\<lparr>c_decode_q := rest\<rparr>) = sizes c" by (simp add: sizes_def)
  then show ?thesis by (simp add: go(5))
qed simp_all

lemma dispatch_one_sizes [simp]: "sizes (fst (dispatch_one c)) = sizes c"
proof (cases rule: dispatch_one_cases [of c])
  case (seat u rest u' c')
  have "sizes c' = sizes c"
    using seat(2) by (auto simp: take_seat_def alloc_load_def alloc_store_def sizes_def split: if_splits option.splits)
  then show ?thesis unfolding seat(3) by (simp add: Let_def) (simp add: sizes_def)
qed simp_all

subsection \<open>The back end\<close>

lemma release_fold_sizes [simp]: "sizes (fold release_cdb us c) = sizes c"
proof (induction us arbitrary: c)
  case (Cons u us)
  have "sizes (release_cdb u c) = sizes c" by (simp add: release_cdb_def Let_def sizes_def)
  with Cons show ?case by simp
qed simp

lemma kill_fold_sizes [simp]: "sizes (fold kill_entry es c) = sizes c"
proof (induction es arbitrary: c)
  case (Cons e es)
  have "sizes (kill_entry e c) = sizes c" by (simp add: kill_entry_def Let_def obs_defs) (simp add: sizes_def)
  with Cons show ?case by simp
qed simp

lemma recover_sizes [simp]: "sizes (recover br c) = sizes c"
proof -
  have q: "sizes (squash_queues s d) = sizes d" for s d
  proof -
    have upd: "sizes (d\<lparr>c_executing := k\<rparr>) = sizes d" "sizes (d\<lparr>c_wb_fast := k\<rparr>) = sizes d" "sizes (d\<lparr>c_wb_slow := k\<rparr>) = sizes d"
      for k and d :: Cpu by (simp_all add: sizes_def)
    show ?thesis by (simp add: squash_queues_def Let_def split_beta squash_queue_eq upd)
  qed
  have f: "sizes (restore_front_end u d) = sizes d" for u d
    by (simp add: restore_front_end_def Let_def sizes_def split: option.split)
  have r: "sizes (d\<lparr>c_rob := snd (rob_truncate_to i (c_rob d))\<rparr>) = sizes d" for i d by (simp add: sizes_def)
  have l: "sizes (d\<lparr>c_iq := iq_squash_after s (c_iq d), c_lsq := lsq_squash_after s (c_lsq d)\<rparr>) = sizes d" for s d
    by (simp add: sizes_def lsq_squash_after_def)
  have e: "sizes (d\<lparr>c_fetch_q := [], c_decode_q := [], c_rename_q := [], c_fetch_stalled := False, c_pc := p\<rparr>) = sizes d" for d p
    by (simp add: sizes_def)
  show ?thesis by (simp add: recover_def Let_def split_beta obs_defs e f q l r)
qed

lemma execute_load_sizes: "execute_load u lat c = (x, c') \<Longrightarrow> sizes c' = sizes c"
  by (auto simp: execute_load_def Let_def obs_defs resolve_load_addr_def sizes_def split: if_splits)

lemma execute_other_sizes: "execute_other u lat c = Some (u', c') \<Longrightarrow> sizes c' = sizes c"
  by (auto simp: execute_other_def Let_def reserve_cdb_def resolve_addr_def resolve_data_def sizes_def
      split: if_splits option.splits)

lemma occupy_unit_sizes [simp]: "sizes (occupy_unit f i t c) = sizes c"
proof -
  have "map length (xss[j := (xss ! j)[i := t]]) = map length xss" for xss :: "nat list list" and j
    by (cases "j < length xss") (simp_all add: map_update list_update_beyond, simp add: list_update_same_conv)
  then show ?thesis by (simp add: occupy_unit_def sizes_def)
qed

lemma finish_issue_sizes [simp]: "sizes (is_cpu (finish_issue e f i u lat c st)) = sizes c"
proof -
  have a: "sizes (d\<lparr>c_rob := rob_modify (c_rob d) k g\<rparr>) = sizes d" for d k g by (simp add: sizes_def)
  have b: "sizes (d\<lparr>c_inflight := x, c_iq := iq_erase s (c_iq d)\<rparr>) = sizes d" for d x s by (simp add: sizes_def)
  have q: "sizes (enqueue_result v l d) = sizes d" for v l d by (simp add: enqueue_result_def sizes_def)
  have d: "sizes (event x d) = sizes d" "sizes (log_issue v d) = sizes d" for x v d by (simp_all add: obs_defs)
  show ?thesis by (simp add: finish_issue_def Let_def a b q d)
qed

lemma issue_one_sizes [simp]: "sizes (is_cpu (issue_one e st)) = sizes (is_cpu st)"
proof (rule issue_one_cases [OF refl refl refl, of st e], goal_cases)
  case (2 unit c1)
  then show ?case using execute_load_sizes [OF 2(3)] by (simp add: obs_defs)
next
  case (3 unit u1 lat c1)
  then show ?case using execute_load_sizes [OF 3(3)] by simp
next
  case (5 unit u1 c1)
  then show ?case using execute_other_sizes [OF 5(3)] by simp
qed simp_all

lemma issue_sizes [simp]: "sizes (issue c) = sizes c"
proof -
  have "sizes (is_cpu (issue_scan es st)) = sizes (is_cpu st)" for es st by (induction es arbitrary: st) simp_all
  moreover have "sizes (snd (charge ss n d)) = sizes d" for ss n d by (induction ss arbitrary: n d) simp_all
  moreover have "sizes (charge_operands n d) = sizes d" for n d by (induction n arbitrary: d) simp_all
  ultimately show ?thesis by (simp add: issue_def Let_def split_beta split: option.split)
qed

lemma execute_sizes [simp]: "sizes (execute c) = sizes c"
proof -
  have "sizes (execute_scan us still c) = sizes c" for us still
    by (induction us arbitrary: still c) (simp_all add: sizes_def)
  then show ?thesis by (simp add: execute_def)
qed

lemma complete_sizes [simp]: "sizes (complete u c) = sizes c"
  by (simp add: complete_def Let_def obs_defs) (simp add: sizes_def)

lemma writeback_sizes [simp]: "sizes (writeback c) = sizes c"
proof -
  have upd: "sizes (d\<lparr>c_wb_fast := k\<rparr>) = sizes d" "sizes (d\<lparr>c_wb_slow := k\<rparr>) = sizes d" for k and d :: Cpu
    by (simp_all add: sizes_def)
  have "sizes (snd (drain_fast us n d)) = sizes d" "sizes (drain_slow us n d) = sizes d" for us n d
    by (induction us arbitrary: n d) (simp_all add: upd)
  moreover have "sizes (d\<lparr>c_cdb_booked := (c_cdb_booked d)[i := 0]\<rparr>) = sizes d" for i and d :: Cpu by (simp add: sizes_def)
  ultimately show ?thesis by (simp add: writeback_def Let_def split_beta)
qed

lemma front_sizes [simp]:
  "sizes (fetch c) = sizes c" "sizes (decode_stage c) = sizes c" "sizes (rename_stage c) = sizes c" "sizes (dispatch c) = sizes c"
proof -
  have "sizes (stage_loop n fetch_one c) = sizes c" for n by (rule stage_loop_frame) simp
  then show "sizes (fetch c) = sizes c" by (simp add: fetch_def)
qed (unfold decode_stage_def rename_stage_def dispatch_def, (rule stage_loop_frame, simp)+)

lemma back_stages_sizes [simp]: "sizes (back_stages c) = sizes c"
  by (simp add: back_stages_def)

lemma commit_uop_sizes [simp]: "sizes (commit_uop u c) = sizes c"
proof -
  have 1: "sizes (commit_branch u (commit_load u (commit_order u c))) = sizes c"
    by (simp add: commit_branch_def commit_load_def commit_order_def Let_def obs_defs) (simp add: sizes_def)
  have 2: "sizes (snd (commit_effect u d)) = sizes d" for d
    by (cases "d_op (u_dec u)") (simp_all add: commit_effect_def commit_store_def Let_def sizes_def)
  have 3: "sizes (commit_mapping u d) = sizes d" for d by (simp add: commit_mapping_def sizes_def)
  have 4: "sizes (commit_trap t u d) = sizes d" for t d by (simp add: commit_trap_def obs_defs) (simp add: sizes_def)
  have 5: "sizes (d\<lparr>c_arch_pc := p\<rparr>) = sizes d" for d p by (simp add: sizes_def)
  show ?thesis by (simp add: commit_uop_def Let_def split_beta 1 2 3 4 5)
qed

lemma squash_in_flight_sizes [simp]: "sizes (squash_in_flight c) = sizes c"
proof -
  define k where "k = fst (rob_squash_all (c_rob c))"
  define d where "d = fold kill_entry k (c\<lparr>c_rob := snd (rob_squash_all (c_rob c))\<rparr>)"
  define e where "e = (if 0 < length k then event (Ev_squashed (length k)) d else d)"
  have out: "squash_in_flight c = e\<lparr>c_rat := c_arch_rat e, c_lsq := lsq_clear (c_lsq e), c_fetch_q := [], c_decode_q := [],
      c_rename_q := [], c_iq := iq_clear (c_iq e), c_executing := [], c_wb_fast := [], c_wb_slow := [],
      c_cdb_booked := map (\<lambda>_. 0) (c_cdb_booked e), c_fetch_stalled := False\<rparr>"
    by (simp add: squash_in_flight_def Let_def split_beta e_def d_def k_def)
  have "sizes (c\<lparr>c_rob := snd (rob_squash_all (c_rob c))\<rparr>) = sizes c" by (simp add: sizes_def)
  then have "sizes e = sizes c" by (simp add: e_def d_def obs_defs)
  then show ?thesis unfolding out by (simp add: sizes_def lsq_clear_def)
qed

lemma commit_one_sizes:
  assumes "core c"
  shows "sizes (fst (commit_one c)) = sizes c"
  using assms
proof (cases rule: commit_one_cases)
  case (head e r' d)
  have "sizes (c\<lparr>c_rob := r'\<rparr>) = sizes c" using head(1) by (simp add: sizes_def)
  then have "sizes d = sizes c" by (simp add: head(2))
  then show ?thesis by (simp add: head(3))
qed simp_all

section \<open>The pipes\<close>

text \<open>Issued work, unit reservations and port bookings: only issue, execute and writeback write them.\<close>

definition pipes where
  "pipes c = (c_executing c, c_wb_fast c, c_wb_slow c, c_fu_free_at c, c_cdb_booked c)"

lemma pipes_eqs:
  assumes "pipes c' = pipes c"
  shows "c_executing c' = c_executing c" "c_wb_fast c' = c_wb_fast c" "c_wb_slow c' = c_wb_slow c"
    "c_fu_free_at c' = c_fu_free_at c" "c_cdb_booked c' = c_cdb_booked c" "work c' = work c"
  using assms unfolding pipes_def prod.inject work_def by simp_all

lemma pipes_obs [simp]: "pipes (upd_stats f c) = pipes c" "pipes (upd_obs g c) = pipes c"
  by (simp_all add: pipes_def)

lemma fetch_one_pipes [simp]: "pipes (fst (fetch_one c)) = pipes c"
  by (simp add: fetch_one_def Let_def split_beta obs_defs) (simp add: pipes_def)

lemma decode_one_pipes [simp]: "pipes (fst (decode_one c)) = pipes c"
  by (simp add: decode_one_def Let_def obs_defs split: list.split) (simp add: pipes_def)

lemma rename_uop_pipes [simp]: "pipes (rename_uop dest u c) = pipes c"
proof -
  have m: "pipes (snd (map_regs dest u c)) = pipes c" for u c by (simp add: map_regs_def Let_def pipes_def)
  have t: "pipes (snd (take_checkpoint u c)) = pipes c" for u c
    by (auto simp: take_checkpoint_def pipes_def split: option.split prod.split)
  have e: "pipes (snd (enter_rob u c)) = pipes c" for u c by (simp add: enter_rob_def Let_def split_beta pipes_def)
  show ?thesis by (simp add: rename_uop_def Let_def split_beta obs_defs m t e)
qed

lemma rename_one_pipes [simp]: "pipes (fst (rename_one c)) = pipes c"
proof (cases rule: rename_one_cases [of c])
  case (go u rest dest c1)
  then have "pipes c1 = pipes c" by (auto simp: take_dest_def pipes_def split: if_splits option.splits)
  then have "pipes (c1\<lparr>c_decode_q := rest\<rparr>) = pipes c" by (simp add: pipes_def)
  then show ?thesis by (simp add: go(5))
qed simp_all

lemma dispatch_one_pipes [simp]: "pipes (fst (dispatch_one c)) = pipes c"
proof (cases rule: dispatch_one_cases [of c])
  case (seat u rest u' c')
  obtain i l where "c' = c\<lparr>c_lsq := l\<rparr>" by (rule take_seat_form [OF seat(2)])
  then show ?thesis unfolding seat(3) by (simp add: Let_def) (simp add: pipes_def)
qed simp_all

lemma commit_uop_pipes [simp]: "pipes (commit_uop u c) = pipes c"
proof -
  have 1: "pipes (commit_branch u (commit_load u (commit_order u c))) = pipes c"
    by (simp add: commit_branch_def commit_load_def commit_order_def Let_def obs_defs) (simp add: pipes_def)
  have 2: "pipes (snd (commit_effect u d)) = pipes d" for d
    by (rule commit_effect_form [of u d]) (simp add: pipes_def)
  have 3: "pipes (commit_mapping u d) = pipes d" for d by (simp add: commit_mapping_def pipes_def)
  have 4: "pipes (commit_trap t u d) = pipes d" for t d by (simp add: commit_trap_def obs_defs) (simp add: pipes_def)
  have 5: "pipes (d\<lparr>c_arch_pc := p\<rparr>) = pipes d" for d p by (simp add: pipes_def)
  show ?thesis by (simp add: commit_uop_def Let_def split_beta 1 2 3 4 5)
qed

section \<open>Reservations run out\<close>

lemma latency_longest: "1 \<le> latency_of cfg d" "latency_of cfg d \<le> longest cfg" "1 \<le> longest cfg"
proof -
  have in_max: "x \<le> longest cfg"
    if "x \<in> {cfg_alu_latency cfg, cfg_branch_latency cfg, cfg_mul_latency cfg, cfg_div_latency cfg, cfg_mem_latency cfg, 1}" for x
    unfolding longest_def by (rule Max_ge [OF _ that]) simp
  then show "1 \<le> longest cfg" by blast
  then show "1 \<le> latency_of cfg d" "latency_of cfg d \<le> longest cfg"
    using in_max by (simp_all add: latency_of_def split: OpKind.split)
qed

text \<open>
  Everything reserved is given back by cycle \<open>T\<close>. \<open>d\<close> is how far away the next completion is:
  a result in execution has at least two cycles to go between ticks, a booked port at least one.
\<close>

definition due :: "nat \<Rightarrow> nat \<Rightarrow> Cpu \<Rightarrow> bool" where
  "due d T c \<longleftrightarrow> (\<forall>u \<in> set (c_executing c). c_cycle c + d < u_wb_cycle u \<and> u_wb_cycle u \<le> T) \<and>
     (\<forall>ts \<in> set (c_fu_free_at c). \<forall>t \<in> set ts. t \<le> max T (c_cycle c + d)) \<and>
     (\<forall>i < c_cdb_window c. c_cdb_booked c ! i \<noteq> 0 \<longrightarrow>
        (\<exists>s. c_cycle c + d \<le> s \<and> s \<le> T \<and> s mod c_cdb_window c = i))"

definition prompt :: "Cpu \<Rightarrow> bool" where
  "prompt c \<longleftrightarrow> (\<forall>e \<in> set (iq_entries (c_iq c)). 1 \<le> iq_latency e \<and> iq_latency e \<le> longest (c_cfg c)) \<and>
     c_cdb_window c = longest (c_cfg c) + 2 \<and> length (c_cdb_booked c) = c_cdb_window c"

lemma due_frame:
  assumes "pipes c' = pipes c" "fixed c' = fixed c"
  shows "due d T c' = due d T c"
  using assms(2) by (simp add: due_def pipes_eqs [OF assms(1)] fixed_def)

lemma prompt_frame:
  assumes "sizes c' = sizes c" "fixed c' = fixed c" "set (iq_entries (c_iq c')) \<subseteq> set (iq_entries (c_iq c))" "prompt c"
  shows "prompt c'"
  using assms(2-) by (auto simp: prompt_def sizes_eqs(8) [OF assms(1)] fixed_def)

lemma begin_cycle_due: "due 1 T c \<Longrightarrow> due 0 T (begin_cycle c)"
  by (simp add: due_def begin_cycle_def Let_def)

section \<open>Writeback and execute\<close>

lemma complete_pipes [simp]: "pipes (complete u c) = pipes c"
  by (simp add: complete_def Let_def obs_defs) (simp add: pipes_def)

text \<open>Writeback takes results off the front of the two queues.\<close>

lemma drain_fast_pipes:
  "c_wb_fast c = us \<Longrightarrow> \<exists>n. pipes (snd (drain_fast us ports c)) = pipes (c\<lparr>c_wb_fast := drop n us\<rparr>) \<and>
     (0 < ports \<and> us \<noteq> [] \<longrightarrow> 0 < n) \<and> (us = [] \<longrightarrow> fst (drain_fast us ports c) = ports)"
proof (induction us arbitrary: ports c)
  case Nil
  then show ?case by (auto simp: pipes_def)
next
  case (Cons u us)
  define d where "d = (complete u c)\<lparr>c_wb_fast := us\<rparr>"
  have d: "pipes (d\<lparr>c_wb_fast := k\<rparr>) = pipes (c\<lparr>c_wb_fast := k\<rparr>)" for k
    using complete_pipes [of u c] by (simp add: d_def pipes_def)
  have "c_wb_fast d = us" by (simp add: d_def)
  then have "\<exists>n. pipes (snd (drain_fast us p d)) = pipes (c\<lparr>c_wb_fast := drop n us\<rparr>)" for p
    using Cons.IH [of d p] unfolding d by blast
  then have step: "\<exists>n > 0. pipes (snd (drain_fast us p d)) = pipes (c\<lparr>c_wb_fast := drop n (u # us)\<rparr>)" for p
    by (metis drop_Suc_Cons zero_less_Suc)
  have stop: "pipes c = pipes (c\<lparr>c_wb_fast := drop 0 (u # us)\<rparr>)" using Cons.prems by (simp add: pipes_def)
  show ?case
  proof (cases "d_writes_rd (u_dec u) \<and> ports = 0")
    case True
    then show ?thesis using stop by (intro exI [of _ 0]) simp
  next
    case False
    then show ?thesis using step [of "if d_writes_rd (u_dec u) then ports - 1 else ports"] by (auto simp flip: d_def)
  qed
qed

lemma drain_slow_pipes:
  "c_wb_slow c = us \<Longrightarrow> \<exists>n. pipes (drain_slow us ports c) = pipes (c\<lparr>c_wb_slow := drop n us\<rparr>) \<and>
     (0 < ports \<and> us \<noteq> [] \<longrightarrow> 0 < n)"
proof (induction us arbitrary: ports c)
  case Nil
  then show ?case by (auto simp: pipes_def)
next
  case (Cons u us)
  define d where "d = (complete u c)\<lparr>c_wb_slow := us\<rparr>"
  have d: "pipes (d\<lparr>c_wb_slow := k\<rparr>) = pipes (c\<lparr>c_wb_slow := k\<rparr>)" for k
    using complete_pipes [of u c] by (simp add: d_def pipes_def)
  have "c_wb_slow d = us" by (simp add: d_def)
  then have "\<exists>n. pipes (drain_slow us p d) = pipes (c\<lparr>c_wb_slow := drop n us\<rparr>)" for p
    using Cons.IH [of d p] unfolding d by blast
  then have step: "\<exists>n > 0. pipes (drain_slow us p d) = pipes (c\<lparr>c_wb_slow := drop n (u # us)\<rparr>)" for p
    by (metis drop_Suc_Cons zero_less_Suc)
  have stop: "pipes c = pipes (c\<lparr>c_wb_slow := drop 0 (u # us)\<rparr>)" using Cons.prems by (simp add: pipes_def)
  show ?case
  proof (cases "0 < ports")
    case True
    then show ?thesis using step [of "ports - 1"] by (auto simp flip: d_def)
  next
    case False
    then show ?thesis using stop by (intro exI [of _ 0]) simp
  qed
qed

lemma writeback_pipes:
  obtains m n where "pipes (writeback c) = pipes (c\<lparr>c_wb_fast := drop m (c_wb_fast c), c_wb_slow := drop n (c_wb_slow c),
      c_cdb_booked := (c_cdb_booked c)[cdb_slot c (c_cycle c) := 0]\<rparr>)"
    "0 < cfg_num_cdb (c_cfg c) \<Longrightarrow> c_wb_fast c \<noteq> [] \<or> c_wb_slow c \<noteq> [] \<Longrightarrow> size (work (writeback c)) < size (work c)"
proof -
  obtain p c1 where 1: "drain_fast (c_wb_fast c) (cfg_num_cdb (c_cfg c)) c = (p, c1)" by fastforce
  obtain m where m: "pipes c1 = pipes (c\<lparr>c_wb_fast := drop m (c_wb_fast c)\<rparr>)"
    "0 < cfg_num_cdb (c_cfg c) \<and> c_wb_fast c \<noteq> [] \<longrightarrow> 0 < m" "c_wb_fast c = [] \<longrightarrow> p = cfg_num_cdb (c_cfg c)"
    using drain_fast_pipes [OF refl, of c "cfg_num_cdb (c_cfg c)"] unfolding 1 fst_conv snd_conv by blast
  define c2 where "c2 = drain_slow (c_wb_slow c1) p c1"
  obtain n where n: "pipes c2 = pipes (c1\<lparr>c_wb_slow := drop n (c_wb_slow c1)\<rparr>)" "0 < p \<and> c_wb_slow c1 \<noteq> [] \<longrightarrow> 0 < n"
    using drain_slow_pipes [OF refl, of c1 p] unfolding c2_def by blast
  have slow: "c_wb_slow c1 = c_wb_slow c" using pipes_eqs(3) [OF m(1)] by simp
  have "fixed c2 = fixed c" using drain_frames(1) [of "c_wb_fast c" "cfg_num_cdb (c_cfg c)" c] by (simp add: c2_def 1)
  then have out: "writeback c = c2\<lparr>c_cdb_booked := (c_cdb_booked c2)[cdb_slot c (c_cycle c) := 0]\<rparr>"
    by (simp add: writeback_def 1 Let_def cdb_slot_def fixed_def flip: c2_def)
  have p: "pipes (writeback c) = pipes (c\<lparr>c_wb_fast := drop m (c_wb_fast c), c_wb_slow := drop n (c_wb_slow c),
      c_cdb_booked := (c_cdb_booked c)[cdb_slot c (c_cycle c) := 0]\<rparr>)"
    using m(1) n(1) unfolding out by (simp add: pipes_def slow)
  show thesis
  proof (rule that [OF p])
    assume a: "0 < cfg_num_cdb (c_cfg c)" "c_wb_fast c \<noteq> [] \<or> c_wb_slow c \<noteq> []"
    then have "0 < m \<and> c_wb_fast c \<noteq> [] \<or> 0 < n \<and> c_wb_slow c \<noteq> []" using m(2,3) n(2) slow by auto
    then show "size (work (writeback c)) < size (work c)"
      unfolding pipes_eqs(6) [OF p] by (auto simp: work_def simp flip: length_greater_0_conv)
  qed
qed

lemma writeback_due:
  assumes "due 0 T c" "prompt c"
  shows "due 1 T (execute (writeback c))"
proof -
  define b where "b = writeback c"
  obtain m n where p: "pipes b = pipes (c\<lparr>c_wb_fast := drop m (c_wb_fast c), c_wb_slow := drop n (c_wb_slow c),
      c_cdb_booked := (c_cdb_booked c)[cdb_slot c (c_cycle c) := 0]\<rparr>)" unfolding b_def by (rule writeback_pipes)
  have fx: "c_cycle b = c_cycle c" "c_cdb_window b = c_cdb_window c"
    using writeback_frames(1) [of c] by (simp_all add: b_def fixed_def)
  have ex: "c_executing (execute_scan us still d) = still @ filter (\<lambda>u. c_cycle d + 1 < u_wb_cycle u) us"
    "c_fu_free_at (execute_scan us still d) = c_fu_free_at d" "c_cdb_booked (execute_scan us still d) = c_cdb_booked d"
    "c_cycle (execute_scan us still d) = c_cycle d" "c_cdb_window (execute_scan us still d) = c_cdb_window d" for us still d
    by (induction us arbitrary: still d) simp_all
  have booked: "\<exists>s. c_cycle c + 1 \<le> s \<and> s \<le> T \<and> s mod c_cdb_window c = i"
    if i: "i < c_cdb_window c" "(c_cdb_booked c)[c_cycle c mod c_cdb_window c := 0] ! i \<noteq> 0" for i
  proof -
    have "length (c_cdb_booked c) = c_cdb_window c" using assms(2) by (simp add: prompt_def)
    then have ne: "i \<noteq> c_cycle c mod c_cdb_window c" using i by auto
    then obtain s where "c_cycle c \<le> s" "s \<le> T" "s mod c_cdb_window c = i"
      using assms(1) i by (auto simp: due_def)
    moreover from this ne have "s \<noteq> c_cycle c" by blast
    ultimately show ?thesis by (auto intro!: exI [of _ s])
  qed
  have units: "t \<le> max T (c_cycle c + 1)" if "ts \<in> set (c_fu_free_at c)" "t \<in> set ts" for ts t
    using assms(1) that by (fastforce simp: due_def)
  show ?thesis
    using assms(1) booked units
    by (auto simp: execute_def ex due_def fx pipes_eqs [OF p] cdb_slot_def simp flip: b_def)
qed

lemma execute_work [simp]: "work (execute c) = work c"
  using essence_eqs(13) [OF whole_eqs(1) [OF execute_whole]] .

section \<open>Issue\<close>

lemma set_update_units: "(t :: 'a) \<in> set (xs[i := x]) \<Longrightarrow> t = x \<or> t \<in> set xs"
  using set_update_subset_insert [of xs i x] by blast

lemma occupy_unit_units:
  assumes "ts \<in> set (c_fu_free_at (occupy_unit f i x c))" "t \<in> set ts"
  shows "t = x \<or> (\<exists>ts \<in> set (c_fu_free_at c). t \<in> set ts)"
proof (cases "fu_index f < length (c_fu_free_at c)")
  case True
  then have "c_fu_free_at c ! fu_index f \<in> set (c_fu_free_at c)" by simp
  moreover have "ts \<in> set ((c_fu_free_at c)[fu_index f := (c_fu_free_at c ! fu_index f)[i := x]])"
    using assms(1) by (simp add: occupy_unit_def)
  then have "ts = (c_fu_free_at c ! fu_index f)[i := x] \<or> ts \<in> set (c_fu_free_at c)" by (rule set_update_units)
  ultimately show ?thesis using assms(2) set_update_units [of t "c_fu_free_at c ! fu_index f" i x] by blast
next
  case False
  then show ?thesis using assms by (auto simp: occupy_unit_def list_update_beyond)
qed

lemma occupy_unit_due:
  assumes "due d T c" "x \<le> max T (c_cycle c + d)"
  shows "due d T (occupy_unit f i x c)"
proof -
  have "t \<le> max T (c_cycle c + d)" if "ts \<in> set (c_fu_free_at (occupy_unit f i x c))" "t \<in> set ts" for ts t
    using occupy_unit_units [OF that] assms by (auto simp: due_def)
  then show ?thesis using assms(1) unfolding due_def by (simp add: occupy_unit_def)
qed

lemma reserve_cdb_due:
  assumes "due 1 T c" "reserve_cdb (c_cycle c + lat) c = Some c'" "1 \<le> lat" "c_cycle c + lat \<le> T"
    and "length (c_cdb_booked c) = c_cdb_window c"
  shows "due 1 T c'"
proof -
  define i where "i = (c_cycle c + lat) mod c_cdb_window c"
  have c': "c' = c\<lparr>c_cdb_booked := (c_cdb_booked c)[i := c_cdb_booked c ! i + 1]\<rparr>"
    using assms(2) by (auto simp: reserve_cdb_def Let_def cdb_slot_def i_def split: if_splits)
  have "\<exists>s. c_cycle c + 1 \<le> s \<and> s \<le> T \<and> s mod c_cdb_window c = j"
    if "j < c_cdb_window c" "(c_cdb_booked c)[i := c_cdb_booked c ! i + 1] ! j \<noteq> 0" for j
  proof (cases "j = i")
    case True
    then show ?thesis using assms(3,4) by (intro exI [of _ "c_cycle c + lat"]) (simp add: i_def)
  next
    case False
    then show ?thesis using that assms(1) by (auto simp: due_def)
  qed
  then show ?thesis using assms(1) unfolding due_def by (simp add: c')
qed

lemma enqueue_result_due:
  assumes "due 1 T c" "u_wb_cycle u = c_cycle c + lat" "c_cycle c + lat \<le> T"
  shows "due 1 T (enqueue_result u lat c)"
  using assms unfolding due_def by (auto simp: enqueue_result_def)

lemma due_cong:
  assumes "c_executing c' = c_executing c" "c_fu_free_at c' = c_fu_free_at c" "c_cdb_booked c' = c_cdb_booked c"
    "c_cycle c' = c_cycle c" "c_cdb_window c' = c_cdb_window c"
  shows "due d T c' = due d T c"
  by (simp add: due_def assms)

lemma finish_issue_due:
  assumes "due 1 T c" "1 \<le> lat" "c_cycle c + lat \<le> T"
  shows "due 1 T (is_cpu (finish_issue e f i u lat c st))"
proof -
  define c1 where "c1 = (if f \<noteq> Fu_NONE then occupy_unit f i (c_cycle c + (if pipelined f then 1 else lat)) c else c)"
  define v where "v = u\<lparr>u_wb_cycle := c_cycle c1 + lat, u_at := (u_at u)\<lparr>at_issue := c_cycle c1\<rparr>\<rparr>"
  have cy: "c_cycle c1 = c_cycle c" by (simp add: c1_def occupy_unit_def)
  have c1: "due 1 T c1" using assms by (simp add: c1_def occupy_unit_due)
  define r where "r = (if mispredicted v then rob_modify (c_rob c1) (u_rob v) (\<lambda>r. r\<lparr>re_mispredicted := True\<rparr>) else c_rob c1)"
  define c2 where "c2 = c1\<lparr>c_rob := r, c_inflight := (c_inflight c1)[u_rob v := v], c_iq := iq_erase (iq_seq e) (c_iq c1)\<rparr>"
  have "due 1 T c2" using c1 by (simp add: c2_def due_def)
  then have "due 1 T (enqueue_result v lat c2)"
    by (rule enqueue_result_due) (use assms cy in \<open>simp_all add: v_def c2_def\<close>)
  moreover have "pipes (is_cpu (finish_issue e f i u lat c st)) = pipes (enqueue_result v lat c2)"
    by (simp add: finish_issue_def Let_def obs_defs enqueue_result_def pipes_def c2_def v_def r_def c1_def)
  moreover have "fixed c2 = fixed c" by (simp add: c2_def c1_def fixed_def occupy_unit_def)
  ultimately show ?thesis using due_frame by (metis finish_issue_frames(1) enqueue_result_frames(1))
qed

lemma execute_load_latency: "execute_load u lat c = (Some (u', lat'), c') \<Longrightarrow> 1 \<le> lat \<Longrightarrow> 1 \<le> lat' \<and> lat' \<le> lat"
  by (auto simp: execute_load_def Let_def split: if_splits)

lemma execute_load_pipes:
  assumes "execute_load u lat c = (x, c')"
  shows "pipes c' = pipes c" "fixed c' = fixed c" "c_iq c' = c_iq c" "essence c' = essence c" "c_cycle c' = c_cycle c"
  using assms by (auto simp: execute_load_def Let_def obs_defs pipes_def fixed_def essence_def work_def split: if_splits)

lemma execute_other_due:
  assumes "due 1 T c" "execute_other u lat c = Some (u', c')" "1 \<le> lat" "c_cycle c + lat \<le> T"
    and "length (c_cdb_booked c) = c_cdb_window c"
  shows "due 1 T c'"
proof -
  obtain c1 where c1: "(if d_writes_rd (u_dec u) then reserve_cdb (c_cycle c + lat) c else Some c) = Some c1"
    and c': "due 1 T c' = due 1 T c1"
    using assms(2) by (auto simp: execute_other_def Let_def due_def split: option.splits if_splits)
  show ?thesis
    unfolding c' using c1 assms(1) reserve_cdb_due [OF assms(1) _ assms(3-5)] by (simp split: if_splits)
qed

lemma issue_one_due:
  assumes "due 1 T (is_cpu st)" "1 \<le> iq_latency e" "iq_latency e \<le> longest (c_cfg (is_cpu st))"
    and "length (c_cdb_booked (is_cpu st)) = c_cdb_window (is_cpu st)"
    and T: "c_cycle (is_cpu st) + longest (c_cfg (is_cpu st)) \<le> T \<or> is_issued (issue_one e st) = is_issued st"
  shows "due 1 T (is_cpu (issue_one e st))"
proof (rule issue_one_cases [OF refl refl refl, of st e], goal_cases)
  case (2 unit c1)
  note p = execute_load_pipes [OF 2(3)]
  have "due 1 T c1" using assms(1) by (simp only: due_frame [OF p(1,2)])
  then have "due 1 T (occupy_unit Fu_MEM unit (c_cycle c1 + 1) c1)" by (simp add: occupy_unit_due)
  moreover have "due 1 T (is_cpu (issue_one e st)) = due 1 T (occupy_unit Fu_MEM unit (c_cycle c1 + 1) c1)"
    by (rule due_frame) (simp_all add: 2(4) obs_defs)
  ultimately show ?case by simp
next
  case (3 unit u1 lat c1)
  note p = execute_load_pipes [OF 3(3)] and l = execute_load_latency [OF 3(3) assms(2)]
  have "due 1 T c1" using assms(1) by (simp only: due_frame [OF p(1,2)])
  moreover have "is_issued (issue_one e st) = Suc (is_issued st)" by (simp add: 3(4) finish_issue_def Let_def)
  ultimately show ?case
    unfolding 3(4) by (intro finish_issue_due) (use T [unfolded 3(4)] l assms(3) p(5) in simp_all)
next
  case (5 unit u1 c1)
  have T': "c_cycle (is_cpu st) + iq_latency e \<le> T"
    using T assms(3) by (simp add: 5(4) finish_issue_def Let_def)
  have "c_cycle c1 = c_cycle (is_cpu st)" using execute_other_frames(1) [OF 5(3)] by (simp add: fixed_def)
  then show ?case
    unfolding 5(4) by (intro finish_issue_due)
      (use execute_other_due [OF assms(1) 5(3) assms(2) T' assms(4)] assms(2) T' in simp_all)
qed (use assms(1) in simp_all)

lemma issue_one_entries: "set (iq_entries (c_iq (is_cpu (issue_one e st)))) \<subseteq> set (iq_entries (c_iq (is_cpu st)))"
proof (rule issue_one_cases [OF refl refl refl, of st e], goal_cases)
  case (2 unit c1)
  then show ?case using execute_load_pipes [OF 2(3)] by (simp add: obs_defs occupy_unit_def)
next
  case (3 unit u1 lat c1)
  have "c_iq (is_cpu (finish_issue e f i u lat c st)) = iq_erase (iq_seq e) (c_iq c)" for f i u lat c
    by (simp add: finish_issue_def Let_def obs_defs enqueue_result_def occupy_unit_def)
  then show ?case using execute_load_pipes [OF 3(3)] set_erase_first by (simp add: 3(4) iq_erase_def)
next
  case (5 unit u1 c1)
  have "c_iq (is_cpu (finish_issue e f i u lat c st)) = iq_erase (iq_seq e) (c_iq c)" for f i u lat c
    by (simp add: finish_issue_def Let_def obs_defs enqueue_result_def occupy_unit_def)
  moreover have "c_iq c1 = c_iq (is_cpu st)"
    using 5(3) by (auto simp: execute_other_def Let_def reserve_cdb_def split: option.splits if_splits)
  ultimately show ?case using set_erase_first by (simp add: 5(4) iq_erase_def)
qed simp_all

text \<open>A candidate either issues or leaves everything but its replay.\<close>

lemma issue_one_count:
  obtains (issued) "is_issued (issue_one e st) = Suc (is_issued st)"
  | (blocked) "is_issued (issue_one e st) = is_issued st" "is_offender (issue_one e st) = is_offender st"
      "essence (is_cpu (issue_one e st)) = essence (is_cpu st)"
      "c_executing (is_cpu (issue_one e st)) = c_executing (is_cpu st)" "c_cdb_booked (is_cpu (issue_one e st)) = c_cdb_booked (is_cpu st)"
proof (rule issue_one_cases [OF refl refl refl, of st e], goal_cases)
  case (2 unit c1)
  note p = execute_load_pipes [OF 2(5)]
  show ?case
  proof (rule blocked)
    have "essence (occupy_unit f i t c) = essence c" for f i t c by (simp add: occupy_unit_def essence_def work_def)
    then show "essence (is_cpu (issue_one e st)) = essence (is_cpu st)"
      by (simp add: 2(6) block_on_def obs_defs p(4))
  qed (use pipes_eqs [OF p(1)] in \<open>simp_all add: 2(6) block_on_def obs_defs occupy_unit_def\<close>)
qed (auto intro: issued blocked simp: finish_issue_def Let_def block_on_def)

text \<open>The scan, its charging of lost slots, and a recovery.\<close>

lemma issue_one_mono: "is_issued st \<le> is_issued (issue_one e st)"
  by (rule issue_one_count [of e st]) simp_all

lemma issue_scan_mono: "is_issued st \<le> is_issued (issue_scan es st)"
proof (induction es arbitrary: st)
  case (Cons e es)
  then show ?case using issue_one_mono [of st e] le_trans by fastforce
qed simp

lemma issue_scan_due:
  assumes "due 1 T (is_cpu st)" "\<forall>e \<in> set es. 1 \<le> iq_latency e \<and> iq_latency e \<le> longest (c_cfg (is_cpu st))"
    and "length (c_cdb_booked (is_cpu st)) = c_cdb_window (is_cpu st)"
    and "c_cycle (is_cpu st) + longest (c_cfg (is_cpu st)) \<le> T \<or> is_issued (issue_scan es st) = is_issued st"
  shows "due 1 T (is_cpu (issue_scan es st))"
  using assms
proof (induction es arbitrary: st)
  case (Cons e es)
  show ?case
  proof (cases "cfg_width (c_cfg (is_cpu st)) \<le> is_issued st")
    case False
    define st1 where "st1 = issue_one e st"
    have fx: "c_cfg (is_cpu st1) = c_cfg (is_cpu st)" "c_cycle (is_cpu st1) = c_cycle (is_cpu st)"
      "c_cdb_window (is_cpu st1) = c_cdb_window (is_cpu st)"
      using issue_one_frames(1) [of e st] by (simp_all add: st1_def fixed_def)
    have "is_issued st1 \<le> is_issued (issue_scan es st1)" by (rule issue_scan_mono)
    then have T: "c_cycle (is_cpu st) + longest (c_cfg (is_cpu st)) \<le> T \<or>
        is_issued (issue_scan es st1) = is_issued st1 \<and> is_issued st1 = is_issued st"
      using Cons.prems(4) False issue_one_mono [of st e] by (auto simp flip: st1_def)
    have "due 1 T (is_cpu st1)"
      unfolding st1_def by (rule issue_one_due) (use Cons.prems T in \<open>auto simp: st1_def\<close>)
    then have "due 1 T (is_cpu (issue_scan es st1))"
    proof (rule Cons.IH)
      show "length (c_cdb_booked (is_cpu st1)) = c_cdb_window (is_cpu st1)"
        using Cons.prems(3) fx(3) unfolding st1_def sizes_eqs(8) [OF issue_one_sizes] by simp
    qed (use Cons.prems(2) T in \<open>auto simp: fx\<close>)
    then show ?thesis using False by (simp flip: st1_def)
  qed (use Cons.prems(1) in simp)
qed simp

lemma issue_scan_idle:
  "is_issued (issue_scan es st) = is_issued st \<Longrightarrow> is_offender (issue_scan es st) = is_offender st \<and>
     essence (is_cpu (issue_scan es st)) = essence (is_cpu st)"
proof (induction es arbitrary: st)
  case (Cons e es)
  show ?case
  proof (cases "cfg_width (c_cfg (is_cpu st)) \<le> is_issued st")
    case False
    then have out: "issue_scan (e # es) st = issue_scan es (issue_one e st)" by simp
    have le: "is_issued (issue_one e st) \<le> is_issued st" using issue_scan_mono [of "issue_one e st" es] Cons.prems by (simp only: out)
    show ?thesis
    proof (rule issue_one_count [of e st])
      assume b: "is_issued (issue_one e st) = is_issued st" "is_offender (issue_one e st) = is_offender st"
        "essence (is_cpu (issue_one e st)) = essence (is_cpu st)"
      have "is_issued (issue_scan es (issue_one e st)) = is_issued (issue_one e st)" using Cons.prems b(1) by (simp only: out)
      from Cons.IH [OF this] show ?thesis unfolding out by (simp only: b)
    qed (use le in simp)
  qed simp
qed simp

lemma issue_scan_entries: "set (iq_entries (c_iq (is_cpu (issue_scan es st)))) \<subseteq> set (iq_entries (c_iq (is_cpu st)))"
proof (induction es arbitrary: st)
  case (Cons e es)
  show ?case using Cons [of "issue_one e st"] issue_one_entries [of e st] by auto
qed simp

lemma charge_pipes [simp]: "pipes (snd (charge ss n c)) = pipes c" "pipes (charge_operands m c) = pipes c"
proof -
  have s: "pipes (cpu_stall k d) = pipes d" for k d by (simp add: obs_defs)
  show "pipes (snd (charge ss n c)) = pipes c" by (induction ss arbitrary: n c) (simp_all add: s)
  show "pipes (charge_operands m c) = pipes c" by (induction m arbitrary: c) (simp_all add: s)
qed

lemma charge_sizes [simp]: "sizes (snd (charge ss n c)) = sizes c" "sizes (charge_operands m c) = sizes c"
proof -
  show "sizes (snd (charge ss n c)) = sizes c" by (induction ss arbitrary: n c) simp_all
  show "sizes (charge_operands m c) = sizes c" by (induction m arbitrary: c) simp_all
qed

text \<open>A recovery only gives reservations back.\<close>

lemma due_less:
  assumes "due d T c" "set (c_executing c') \<subseteq> set (c_executing c)" "c_fu_free_at c' = c_fu_free_at c"
    "\<And>i. c_cdb_booked c' ! i \<noteq> 0 \<Longrightarrow> c_cdb_booked c ! i \<noteq> 0" "fixed c' = fixed c"
  shows "due d T c'"
proof -
  have fx: "c_cycle c' = c_cycle c" "c_cdb_window c' = c_cdb_window c" using assms(5) by (simp_all add: fixed_def)
  show ?thesis using assms(1,2,4) unfolding due_def fx assms(3) by blast
qed

lemma release_cdb_booked: "c_cdb_booked (release_cdb u c) ! i \<noteq> 0 \<Longrightarrow> c_cdb_booked c ! i \<noteq> 0"
proof -
  have keep: "xs ! i \<noteq> 0" if "(xs[j := xs ! j - 1]) ! i \<noteq> 0" for xs :: "nat list" and j
    using that by (cases "i = j"; cases "j < length xs") (simp_all add: list_update_beyond)
  define j where "j = cdb_slot c (u_wb_cycle u)"
  have "c_cdb_booked (release_cdb u c) = c_cdb_booked c \<or>
      c_cdb_booked (release_cdb u c) = (c_cdb_booked c)[j := c_cdb_booked c ! j - 1]"
    unfolding release_cdb_def Let_def j_def [symmetric]
    by (cases "0 < c_cdb_booked c ! j") simp_all
  then show "c_cdb_booked (release_cdb u c) ! i \<noteq> 0 \<Longrightarrow> c_cdb_booked c ! i \<noteq> 0" using keep by metis
qed

lemma release_fold_due: "due d T c \<Longrightarrow> due d T (fold release_cdb us c)"
proof (induction us arbitrary: c)
  case (Cons u us)
  have "due d T (release_cdb u c)"
    by (rule due_less [OF Cons.prems _ _ release_cdb_booked]) (simp_all add: release_cdb_def Let_def fixed_def)
  then show ?case by (simp add: Cons.IH)
qed simp

lemma squash_queues_due:
  assumes "due d T c"
  shows "due d T (squash_queues s c)"
proof -
  have upd: "due d T (e\<lparr>c_wb_fast := k\<rparr>) = due d T e" "due d T (e\<lparr>c_wb_slow := k\<rparr>) = due d T e" for e k
    by (simp_all add: due_def)
  have ex: "due d T ((fold release_cdb us c)\<lparr>c_executing := filter P (c_executing c)\<rparr>)" for us P
  proof (rule due_less [OF release_fold_due [OF assms, of us]])
    have "c_executing (fold release_cdb us c) = c_executing c" using release_cdb_fold [of us c] by auto
    then show "set (c_executing ((fold release_cdb us c)\<lparr>c_executing := filter P (c_executing c)\<rparr>)) \<subseteq> set (c_executing (fold release_cdb us c))"
      by auto
  qed (simp_all add: fixed_def)
  show ?thesis
    by (simp add: squash_queues_def Let_def split_beta squash_queue_eq upd ex release_fold_due)
qed

lemma recover_due:
  assumes "due d T c"
  shows "due d T (recover br c)"
proof -
  have k: "due d T (fold kill_entry es e) = due d T e" for es e
  proof (induction es arbitrary: e)
    case (Cons x es)
    have "due d T (kill_entry x e) = due d T e"
      by (rule due_frame) (simp_all add: kill_entry_def Let_def obs_defs pipes_def fixed_def)
    with Cons show ?case by simp
  qed simp
  have f: "due d T (restore_front_end u e) = due d T e" for u e
    by (rule due_frame) (simp_all add: restore_front_end_def Let_def pipes_def fixed_def split: option.split)
  have o: "due d T (upd_stats g e) = due d T e" "due d T (event x e) = due d T e" for g x e
    by (rule due_frame; simp add: obs_defs pipes_def fixed_def)+
  have q: "due d T (squash_queues s e)" if "due d T e" for s e using that by (rule squash_queues_due)
  have r: "due d T (e\<lparr>c_rob := x\<rparr>) = due d T e" "due d T (e\<lparr>c_iq := y, c_lsq := z\<rparr>) = due d T e"
    "due d T (e\<lparr>c_fetch_q := [], c_decode_q := [], c_rename_q := [], c_fetch_stalled := False, c_pc := p\<rparr>) = due d T e"
    for x y z p e by (simp_all add: due_def)
  show ?thesis using assms by (simp add: recover_def Let_def split_beta k f o q r)
qed

text \<open>The stage: reservations made now end within \<open>longest\<close> cycles.\<close>

definition issue_start :: "Cpu \<Rightarrow> Issue" where
  "issue_start c = \<lparr>is_cpu = c, is_issued = 0, is_offender = None, is_blocked = []\<rparr>"

definition issue_count :: "Cpu \<Rightarrow> nat" where
  "issue_count c = is_issued (issue_scan (filter iq_ready (iq_entries (c_iq c))) (issue_start c))"

lemma issue_due:
  assumes G: "golden_run G" and c: "core c" "flowing G c" "prompt c" "due 1 T c"
  shows "issue_count c = 0 \<Longrightarrow> essence (issue c) = essence c" "issue_count c = 0 \<Longrightarrow> due 1 T (issue c)"
    "due 1 (max T (c_cycle c + longest (c_cfg c))) (issue c)"
proof -
  define es where "es = filter iq_ready (iq_entries (c_iq c))"
  obtain st c1 where st: "st = issue_scan es (issue_start c)"
    "\<exists>n m. c1 = charge_operands n (snd (charge (is_blocked st) m (is_cpu st)))"
    and out: "issue c = (case is_offender st of None \<Rightarrow> c1 | Some br \<Rightarrow> recover br c1)"
    and w: "whole c1 = whole (is_cpu st)"
    by (rule issue_parts [OF G c(1,2), where P = "\<lambda>_. True", folded es_def issue_start_def]) auto
  have "pipes c1 = pipes (is_cpu st)" "fixed c1 = fixed (is_cpu st)" using st(2) by auto
  then have d1: "due 1 U c1 = due 1 U (is_cpu st)" for U by (rule due_frame)
  have lat: "\<forall>e \<in> set es. 1 \<le> iq_latency e \<and> iq_latency e \<le> longest (c_cfg c)"
    "length (c_cdb_booked c) = c_cdb_window c" using c(3) by (auto simp: es_def prompt_def)
  have due: "due 1 U c1" if "due 1 U c" "c_cycle c + longest (c_cfg c) \<le> U \<or> is_issued st = 0" for U
    unfolding d1 unfolding st(1)
    by (rule issue_scan_due) (use that lat in \<open>simp_all add: st(1) issue_start_def\<close>)
  have idle: "is_offender st = None" "essence c1 = essence c" if "issue_count c = 0"
    using issue_scan_idle [of es "issue_start c"] whole_eqs(1) [OF w] that
    by (simp_all add: st(1) issue_count_def es_def issue_start_def)
  show "essence (issue c) = essence c" if "issue_count c = 0" using idle [OF that] by (simp add: out)
  show "due 1 T (issue c)" if n: "issue_count c = 0"
  proof -
    have "is_issued st = 0" using n by (simp add: st(1) issue_count_def es_def)
    then have "due 1 T c1" using due c(4) by blast
    then show ?thesis using idle(1) [OF n] by (simp add: out)
  qed
  have "due 1 (max T (c_cycle c + longest (c_cfg c))) c" using c(4) unfolding due_def by fastforce
  then have "due 1 (max T (c_cycle c + longest (c_cfg c))) c1" by (rule due) simp
  then show "due 1 (max T (c_cycle c + longest (c_cfg c))) (issue c)"
    using recover_due by (cases "is_offender st") (simp_all only: out option.case)
qed

section \<open>The issue queue keeps its latencies\<close>

definition iq_quick :: "Cpu \<Rightarrow> bool" where
  "iq_quick c \<longleftrightarrow> iq_latency ` set (iq_entries (c_iq c)) \<subseteq> {1..longest (c_cfg c)}"

lemma prompt_parts: "prompt c \<longleftrightarrow> iq_quick c \<and> c_cdb_window c = longest (c_cfg c) + 2 \<and> length (c_cdb_booked c) = c_cdb_window c"
  by (auto simp: prompt_def iq_quick_def)

lemma prompt_kept:
  assumes "prompt c" "sizes c' = sizes c" "fixed c' = fixed c"
    "iq_latency ` set (iq_entries (c_iq c')) \<subseteq> iq_latency ` set (iq_entries (c_iq c)) \<union> {1..longest (c_cfg c)}"
  shows "prompt c'"
  using assms(1,3,4) sizes_eqs(8) [OF assms(2)] unfolding prompt_parts iq_quick_def fixed_def by auto

lemma stage_loop_prompt:
  assumes "prompt c" "\<And>d. prompt d \<Longrightarrow> prompt (fst (f d))"
  shows "prompt (stage_loop n f c)"
  using assms by (induction n arbitrary: c) (simp_all add: Let_def split_beta)

lemma front_prompt:
  "prompt c \<Longrightarrow> prompt (fetch c)" "prompt c \<Longrightarrow> prompt (decode_stage c)"
  "prompt c \<Longrightarrow> prompt (rename_stage c)" "prompt c \<Longrightarrow> prompt (dispatch c)"
proof -
  have f: "iq_entries (c_iq (fst (fetch_one d))) = iq_entries (c_iq d)" for d
    by (simp add: fetch_one_def Let_def split_beta obs_defs)
  have "prompt (fst (fetch_one d))" if "prompt d" for d by (rule prompt_kept [OF that]) (simp_all add: f)
  then show "prompt c \<Longrightarrow> prompt (fetch c)" unfolding fetch_def by (simp add: stage_loop_prompt)
  have e: "iq_entries (c_iq (fst (decode_one d))) = iq_entries (c_iq d)" for d
    by (simp add: decode_one_def Let_def obs_defs split: list.split)
  have "prompt (fst (decode_one d))" if "prompt d" for d by (rule prompt_kept [OF that]) (simp_all add: e)
  then show "prompt c \<Longrightarrow> prompt (decode_stage c)" unfolding decode_stage_def by (simp add: stage_loop_prompt)
  have r: "iq_entries (c_iq (fst (rename_one d))) = iq_entries (c_iq d)" for d
  proof (cases rule: rename_one_cases [of d])
    case (go u rest dest c1)
    have m: "c_iq (snd (map_regs dest v b)) = c_iq b" "c_iq (snd (take_checkpoint v b)) = c_iq b"
      "c_iq (snd (enter_rob v b)) = c_iq b" for v b
      by (auto simp: map_regs_def take_checkpoint_def enter_rob_def Let_def split_beta split: option.split)
    have "c_iq c1 = c_iq d" using go(4) by (auto simp: take_dest_def split: if_splits option.splits)
    then show ?thesis by (simp add: go(5) rename_uop_def Let_def split_beta obs_defs m)
  qed simp_all
  have "prompt (fst (rename_one d))" if "prompt d" for d by (rule prompt_kept [OF that]) (simp_all add: r)
  then show "prompt c \<Longrightarrow> prompt (rename_stage c)" unfolding rename_stage_def by (simp add: stage_loop_prompt)
  have i: "iq_latency ` set (iq_entries (c_iq (fst (dispatch_one d)))) \<subseteq> iq_latency ` set (iq_entries (c_iq d)) \<union> {1..longest (c_cfg d)}" for d
  proof (cases rule: dispatch_one_cases [of d])
    case (seat u rest u' c')
    obtain j l where "c' = d\<lparr>c_lsq := l\<rparr>" by (rule take_seat_form [OF seat(2)])
    then show ?thesis unfolding seat(3) using latency_longest by (simp add: Let_def iq_insert_def iq_entry_of_def)
  qed simp_all
  have "prompt (fst (dispatch_one d))" if "prompt d" for d by (rule prompt_kept [OF that dispatch_one_sizes _ i]) simp
  then show "prompt c \<Longrightarrow> prompt (dispatch c)" unfolding dispatch_def by (simp add: stage_loop_prompt)
qed

lemma recover_iq: "iq_entries (c_iq (recover br c)) = filter (\<lambda>e. iq_seq e \<le> u_seq br) (iq_entries (c_iq c))"
proof -
  have k: "c_iq (fold kill_entry es d) = c_iq d" for es d
    by (induction es arbitrary: d) (simp_all add: kill_entry_def Let_def obs_defs)
  have q: "c_iq (squash_queues s d) = c_iq d" for s d using squash_queues_eq [of s d] by auto
  have f: "c_iq (restore_front_end br d) = c_iq d" for d by (simp add: restore_front_end_def Let_def split: option.split)
  show ?thesis by (simp add: recover_def Let_def split_beta obs_defs k q f iq_squash_after_def)
qed

lemma back_prompt:
  "prompt c \<Longrightarrow> prompt (begin_cycle c)" "prompt c \<Longrightarrow> prompt (writeback c)" "prompt c \<Longrightarrow> prompt (execute c)"
  "golden_run G \<Longrightarrow> core c \<Longrightarrow> flowing G c \<Longrightarrow> prompt c \<Longrightarrow> prompt (issue c)"
proof -
  show "prompt c \<Longrightarrow> prompt (begin_cycle c)" by (simp add: prompt_def begin_cycle_def Let_def)
  have w: "iq_latency ` set (iq_entries (c_iq (complete u d))) = iq_latency ` set (iq_entries (c_iq d))" for u d
  proof -
    have "iq_latency (wake_entry p e) = iq_latency e" for p e by (simp add: wake_entry_def)
    then show ?thesis by (simp add: complete_def Let_def obs_defs iq_wakeup_def image_image)
  qed
  have "iq_latency ` set (iq_entries (c_iq (snd (drain_fast us n d)))) = iq_latency ` set (iq_entries (c_iq d))"
    "iq_latency ` set (iq_entries (c_iq (drain_slow us n d))) = iq_latency ` set (iq_entries (c_iq d))" for us n d
    by (induction us arbitrary: n d) (simp_all add: w)
  then have "iq_latency ` set (iq_entries (c_iq (writeback c))) = iq_latency ` set (iq_entries (c_iq c))"
    by (simp add: writeback_def Let_def split_beta)
  then show "prompt (writeback c)" if "prompt c" by (intro prompt_kept [OF that]) (simp_all add: writeback_frames)
  have "c_iq (execute_scan us still d) = c_iq d" for us still d by (induction us arbitrary: still d) simp_all
  then show "prompt (execute c)" if "prompt c"
    using that by (intro prompt_kept [OF that execute_sizes]) (simp_all add: execute_def)
  show "prompt (issue c)" if G: "golden_run G" and c: "core c" "flowing G c" "prompt c"
  proof -
    define es where "es = filter iq_ready (iq_entries (c_iq c))"
    obtain st c1 where st: "st = issue_scan es (issue_start c)"
      "\<exists>n m. c1 = charge_operands n (snd (charge (is_blocked st) m (is_cpu st)))"
      and out: "issue c = (case is_offender st of None \<Rightarrow> c1 | Some br \<Rightarrow> recover br c1)"
      and w: "whole c1 = whole (is_cpu st)"
      by (rule issue_parts [OF G c(1,2), where P = "\<lambda>_. True", folded es_def issue_start_def]) auto
    have "set (iq_entries (c_iq c1)) \<subseteq> set (iq_entries (c_iq c))"
      using issue_scan_entries [of es "issue_start c"] essence_eqs(12) [OF whole_eqs(1) [OF w]]
      by (simp add: st(1) issue_start_def)
    then have "set (iq_entries (c_iq (issue c))) \<subseteq> set (iq_entries (c_iq c))"
      by (cases "is_offender st") (auto simp: out recover_iq)
    then show ?thesis by (intro prompt_kept [OF c(3)]) (auto simp: issue_frames)
  qed
qed

lemma commit_prompt:
  assumes "core c" "prompt c"
  shows "prompt (fst (commit_one c))"
proof (rule prompt_kept [OF assms(2) commit_one_sizes [OF assms(1)]])
  show "fixed (fst (commit_one c)) = fixed c" by simp
  have i: "c_iq (commit_uop u d) = c_iq d" for u d
  proof -
    have 1: "c_iq (commit_branch u (commit_load u (commit_order u c))) = c_iq c" for c
      by (simp add: commit_branch_def commit_load_def commit_order_def Let_def obs_defs)
    have 2: "c_iq (snd (commit_effect u d)) = c_iq d" for d by (rule commit_effect_form [of u d]) simp
    have 3: "c_iq (commit_mapping u d) = c_iq d" "c_iq (commit_trap t u d) = c_iq d" for d t
      by (simp_all add: commit_mapping_def commit_trap_def obs_defs)
    show ?thesis by (simp add: commit_uop_def Let_def split_beta 1 2 3)
  qed
  have k: "c_iq (fold kill_entry es d) = c_iq d" for es d
    by (induction es arbitrary: d) (simp_all add: kill_entry_def Let_def obs_defs)
  have "set (iq_entries (c_iq (squash_in_flight d))) = {}" for d
    by (simp add: squash_in_flight_def Let_def split_beta iq_clear_def)
  then show "iq_latency ` set (iq_entries (c_iq (fst (commit_one c)))) \<subseteq> iq_latency ` set (iq_entries (c_iq c)) \<union> {1..longest (c_cfg c)}"
    by (simp add: commit_one_def Let_def i split: option.split)
qed

section \<open>The other stages\<close>

lemma front_pipes [simp]:
  "pipes (fetch c) = pipes c" "pipes (decode_stage c) = pipes c" "pipes (rename_stage c) = pipes c" "pipes (dispatch c) = pipes c"
proof -
  have "pipes (stage_loop n fetch_one c) = pipes c" for n by (rule stage_loop_frame) simp
  then show "pipes (fetch c) = pipes c" by (simp add: fetch_def)
qed (unfold decode_stage_def rename_stage_def dispatch_def, (rule stage_loop_frame, simp)+)

lemma front_due: "due d T (fetch (decode_stage (rename_stage (dispatch c)))) = due d T c"
  by (rule due_frame) simp_all

end
