(* ===== verification/Progress.thy ===== *)
theory Progress
  imports Timing
begin

text \<open>
  Progress: from every reachable state another instruction retires within \<open>patience\<close> cycles.

  Between two retirements the pipeline climbs: \<open>score\<close> weighs what has issued in the reorder buffer
  (an issued branch more than everything younger, which is all that a recovery at it can lose) and
  never falls. While it stands still, \<open>slack\<close> falls every cycle: it adds up the cycles for which a
  unit or a writeback port may still be held, the results that wait for a port and the stages an
  instruction has to pass to where it can issue. \<open>poised\<close> is the invariant of that argument:
  the data flow and wakeup invariants, room in every structure, and due dates for what is held.
\<close>

section \<open>Retirement\<close>

lemma commit_retired: "retired c \<le> retired (stage_loop n commit_one c)"
proof (induction n arbitrary: c)
  case 0
  then show ?case by simp
next
  case (Suc n)
  have "retired c \<le> retired (fst (commit_one c))"
    using essence_eqs(8) [OF commit_uop_essence(1)] squash_in_flight_rest(8)
    by (simp add: commit_one_def Let_def retire_def split: option.split)
  with Suc [of "fst (commit_one c)"] show ?case by (cases "commit_one c") (auto intro: order_trans)
qed

section \<open>How much of the reorder buffer has issued\<close>

text \<open>
  The entries of the reorder buffer, oldest first, as a pair of bits: is it a branch, and has it
  issued. An issued instruction weighs one, an issued branch more than everything younger can,
  which is all a recovery at it may lose: \<open>W\<close> exceeds the length of the list, \<open>b\<close> bounds the
  branches in it.
\<close>

fun weigh :: "nat \<Rightarrow> nat \<Rightarrow> (bool \<times> bool) list \<Rightarrow> nat" where
  "weigh W b [] = 0"
| "weigh W b ((branch, issued) # xs) =
     (if issued then (if branch then W * 2 ^ (b - 1) else 1) else 0) + weigh W (if branch then b - 1 else b) xs"

abbreviation branches :: "(bool \<times> bool) list \<Rightarrow> nat" where
  "branches xs \<equiv> length (filter fst xs)"

lemma weigh_bound: "branches xs \<le> b \<Longrightarrow> weigh W b xs + W \<le> W * 2 ^ b + length xs"
proof (induction W b xs rule: weigh.induct)
  case (2 W b branch issued xs)
  show ?case
  proof (cases branch)
    case True
    with 2(2) obtain n where n: "b = Suc n" by (cases b) auto
    have "weigh W n xs + W \<le> W * 2 ^ n + length xs" using 2 True by (simp add: n)
    then show ?thesis using True by (simp add: n)
  next
    case False
    then show ?thesis using 2 by simp
  qed
qed simp

lemma weigh_less: "branches xs \<le> b \<Longrightarrow> length xs < W \<Longrightarrow> weigh W b xs < W * 2 ^ b"
  using weigh_bound [of xs b W] by linarith

lemma weigh_idle: "weigh W b (xs @ [(branch, False)]) = weigh W b xs"
  by (induction W b xs rule: weigh.induct) simp_all

abbreviation further :: "bool \<times> bool \<Rightarrow> bool \<times> bool \<Rightarrow> bool" where
  "further x y \<equiv> fst y = fst x \<and> (snd x \<longrightarrow> snd y)"

lemma weigh_mono: "list_all2 further xs ys \<Longrightarrow> weigh W b xs \<le> weigh W b ys"
proof (induction xs ys arbitrary: b rule: list_all2_induct)
  case (Cons x xs y ys)
  obtain br i i' where x: "x = (br, i)" "y = (br, i')" "i \<longrightarrow> i'" using Cons(1) by (cases x; cases y) auto
  have "weigh W (if br then b - 1 else b) xs \<le> weigh W (if br then b - 1 else b) ys" by (rule Cons(3))
  then show ?case using x(3) by (cases br; cases i; cases i') (simp_all add: x(1,2))
qed simp

lemma weigh_gain:
  assumes "branches xs \<le> b" "length xs < W" "k < length xs" "k < length ys"
    "\<forall>j \<le> k. further (xs ! j) (ys ! j)" "\<not> snd (xs ! k)" "snd (ys ! k)"
    "fst (xs ! k) \<or> list_all2 further (drop (Suc k) xs) (drop (Suc k) ys)"
  shows "weigh W b xs < weigh W b ys"
  using assms
proof (induction k arbitrary: b xs ys)
  case 0
  then obtain br xs' ys' where x: "xs = (br, False) # xs'" "ys = (br, True) # ys'"
    by (cases xs; cases ys; cases "hd xs"; cases "hd ys") auto
  show ?case
  proof (cases br)
    case True
    have "weigh W (b - 1) xs' < W * 2 ^ (b - 1)" by (rule weigh_less) (use 0 True in \<open>auto simp: x\<close>)
    then show ?thesis using True by (simp add: x)
  next
    case False
    then have "weigh W b xs' \<le> weigh W b ys'" using 0 by (intro weigh_mono) (simp add: x)
    then show ?thesis using False by (simp add: x)
  qed
next
  case (Suc k)
  then obtain br i xs' i' ys' where x: "xs = (br, i) # xs'" "ys = (br, i') # ys'" "i \<longrightarrow> i'"
    by (cases xs; cases ys; cases "hd xs"; cases "hd ys") auto
  have "\<forall>j \<le> k. further (xs' ! j) (ys' ! j)"
  proof (intro allI impI)
    fix j assume "j \<le> k"
    then show "further (xs' ! j) (ys' ! j)" using Suc.prems(5) [THEN spec, of "Suc j"] by (simp add: x)
  qed
  then have "weigh W (if br then b - 1 else b) xs' < weigh W (if br then b - 1 else b) ys'"
    by (intro Suc.IH) (use Suc.prems in \<open>auto simp: x\<close>)
  then show ?case using x(3) by (auto simp: x(1,2))
qed

definition bits :: "Cpu \<Rightarrow> (bool \<times> bool) list" where
  "bits c = map (\<lambda>(s, v). (v_branch v, s \<notin> idle c)) (tags (c_rob c))"

definition room :: "Cpu \<Rightarrow> nat \<times> nat" where
  "room c = (rob_capacity (c_rob c), cp_capacity (c_ckpts c))"

definition score :: "Cpu \<Rightarrow> nat" where
  "score c = weigh (Suc (fst (room c))) (snd (room c)) (bits c)"

lemma room_sizes:
  assumes "sizes c' = sizes c"
  shows "room c' = room c"
  unfolding room_def sizes_eqs(1,2) [OF assms] ..

lemma score_frame: "room c' = room c \<Longrightarrow> tags (c_rob c') = tags (c_rob c) \<Longrightarrow> idle c' = idle c \<Longrightarrow> score c' = score c"
  by (simp add: score_def bits_def)

lemma score_whole: "essence c' = essence c \<Longrightarrow> score c' = score c"
  using essence_eqs [of c' c] by (intro score_frame) (simp_all add: idle_def room_def)

lemma core_room: "core c \<Longrightarrow> rob_count (c_rob c) \<le> rob_capacity (c_rob c)"
  using core_facts(3) [of c] by (simp add: rob_ok_def)

lemma bits_branches:
  assumes "core c"
  shows "branches (bits c) \<le> snd (room c)" "length (bits c) < Suc (fst (room c))"
proof -
  have "ckpts_inv (c_arch_rat c) (c_ckpts c) (views (c_rob c))" using assms by (simp add: core_defs rob_state_def)
  then have "mset (cp_free (c_ckpts c)) + mset (held_ckpts (views (c_rob c))) = mset [0..<cp_capacity (c_ckpts c)]"
    by (simp add: ckpts_inv_def)
  from arg_cong [OF this, of size] have "length (held_ckpts (views (c_rob c))) \<le> cp_capacity (c_ckpts c)" by simp
  moreover have "filter fst (bits c) = map (\<lambda>(s, v). (v_branch v, s \<notin> idle c)) (filter (v_branch \<circ> snd) (tags (c_rob c)))"
    by (simp add: bits_def filter_map comp_def split_beta)
  moreover have "length (filter (v_branch \<circ> snd) (tags (c_rob c))) = length (held_ckpts (views (c_rob c)))"
    by (simp add: held_ckpts_def views_tags filter_map)
  ultimately show "branches (bits c) \<le> snd (room c)" by (simp add: room_def)
  show "length (bits c) < Suc (fst (room c))" using core_room [OF assms] by (simp add: bits_def room_def)
qed

lemma score_less: "core c \<Longrightarrow> score c < Suc (fst (room c)) * 2 ^ snd (room c)"
  unfolding score_def by (rule weigh_less) (simp_all only: bits_branches)

lemma tags_in_flight: "core c \<Longrightarrow> tags (c_rob c) = map (\<lambda>u. (u_seq u, uop_view u)) (in_flight c)"
proof (rule nth_equalityI)
  assume c: "core c"
  show "length (tags (c_rob c)) = length (map (\<lambda>u. (u_seq u, uop_view u)) (in_flight c))" by (simp add: in_flight_core(3) [OF c])
  fix k assume "k < length (tags (c_rob c))"
  then have k: "k < length (in_flight c)" by (simp add: in_flight_core(3) [OF c])
  have "live (c_rob c) k (in_flight c ! k)" by (rule in_flight_core(4) [OF c k])
  then show "tags (c_rob c) ! k = map (\<lambda>u. (u_seq u, uop_view u)) (in_flight c) ! k" using k by (simp add: live_def)
qed

lemma tags_modify_flag [simp]: "(\<And>e. tag (g e) = tag e) \<Longrightarrow> tags (rob_modify r i g) = tags r"
proof -
  assume g: "\<And>e. tag (g e) = tag e"
  have "tag ((rob_slots r)[i := g (rob_slots r ! i)] ! j) = tag (rob_slots r ! j)" for j
    by (cases "i = j"; cases "i < length (rob_slots r)") (simp_all add: g list_update_beyond)
  then show ?thesis by (simp add: tags_def rob_list_def rob_modify_def ring_list_def ring_slot_def)
qed

lemma tag_flags [simp]: "tag (e\<lparr>re_complete := x\<rparr>) = tag e" "tag (e\<lparr>re_mispredicted := x\<rparr>) = tag e"
  by (simp_all add: tag_def entry_view_def)

section \<open>Issue raises the score\<close>

lemma finish_issue_slots:
  "tags (c_rob (is_cpu (finish_issue e f unit u lat c st))) = tags (c_rob c)"
  "idle (is_cpu (finish_issue e f unit u lat c st)) =
     u_seq ` set (c_rename_q c) \<union> iq_seq ` set (erase_first (iq_seq e) (iq_entries (c_iq c)))"
  "is_offender (finish_issue e f unit u lat c st) = Some br \<Longrightarrow> u_seq br = u_seq u \<or> is_offender st = Some br"
  by (auto simp: finish_issue_def Let_def obs_defs idle_def occupy_unit_def note_offender_def iq_erase_def
      split: option.splits if_splits)

text \<open>One candidate leaves the idle set or changes nothing.\<close>

lemma issue_one_slots:
  assumes G: "golden_run G" and st: "issue_ok st" "issue_flow G st"
    and e: "e \<in> set (iq_entries (c_iq (is_cpu st)))" "iq_ready e"
  defines "c \<equiv> is_cpu st" and "d \<equiv> is_cpu (issue_one e st)"
  obtains (blocked) "is_issued (issue_one e st) = is_issued st" "is_offender (issue_one e st) = is_offender st"
      "idle d = idle c" "tags (c_rob d) = tags (c_rob c)"
  | (issued) "idle d = idle c - {iq_seq e}" "tags (c_rob d) = tags (c_rob c)" "iq_seq e \<in> idle c"
      "\<And>br. is_offender (issue_one e st) = Some br \<Longrightarrow> u_seq br = iq_seq e \<or> is_offender st = Some br"
proof -
  have c: "core c" "flow G c" using st by (simp_all add: issue_ok_def issue_flow_def c_def)
  note e = e [folded c_def]
  obtain k where k: "k < length (dispatched c)" "k < length (in_flight c)" "in_flight c ! k = c_inflight c ! iq_rob e"
    "u_seq (in_flight c ! k) = iq_seq e" and i: "iq_seq e \<in> idle c"
    "idle c - {iq_seq e} = u_seq ` set (c_rename_q c) \<union> iq_seq ` set (erase_first (iq_seq e) (iq_entries (c_iq c)))"
    by (rule candidate [OF c e(1)])
  have u: "operands_read c (in_flight c ! k) = (c_inflight c ! iq_rob e)
      \<lparr>u_val1 := prf_read (c_prf c) (u_src1 (c_inflight c ! iq_rob e)),
       u_val2 := prf_read (c_prf c) (u_src2 (c_inflight c ! iq_rob e))\<rparr>"
    by (simp add: operands_read_def k(3))
  note candidate_facts = G c e k(1,2,4)
  have go: thesis
    if x: "issues G c e k u1 (c_lsq c1)" "whole (c1\<lparr>c_lsq := c_lsq c\<rparr>) = whole c" "issue_one e st = finish_issue e f unit u1 lat c1 st"
    for u1 c1 f unit lat
  proof (rule issued)
    have n: "names u1 = names (in_flight c ! k)" using x(1) by (simp add: issues_def)
    note w = essence_eqs [OF whole_eqs(1) [OF x(2)]] and s = finish_issue_slots [of e f unit u1 lat c1 st, folded x(3), folded d_def]
    show "idle d = idle c - {iq_seq e}" "tags (c_rob d) = tags (c_rob c)" "iq_seq e \<in> idle c" using w s(1,2) i by simp_all
    show "u_seq br = iq_seq e \<or> is_offender st = Some br" if "is_offender (issue_one e st) = Some br" for br
      using s(3) [OF that] k(4) names_eqs(2) [OF n] by simp
  qed
  show thesis
  proof (rule issue_one_cases [OF meta_eq_to_obj_eq [OF c_def] refl u], goal_cases)
    case (2 unit c1)
    note w = execute_load_form(1) [OF 2(3)]
    show ?case
      by (rule blocked) (use essence_eqs [OF whole_eqs(1) [OF w]] in
        \<open>simp_all add: 2(4) d_def block_on_def idle_def occupy_unit_def obs_defs\<close>)
  next
    case (3 unit u1 lat c1)
    have "issues G c e k u1 (c_lsq c1)" by (rule load_issues [OF candidate_facts _ 3(3)]) (use 3(2) in simp)
    then show ?case by (rule go [OF _ execute_load_form(1) [OF 3(3)] 3(4)])
  next
    case (5 unit u1 c1)
    have "issues G c e k u1 (c_lsq c1)" by (rule other_issues [OF candidate_facts _ 5(3)]) (use 5(2) in simp)
    then show ?case by (rule go [OF _ execute_other_form(1) [OF 5(3)] 5(4)])
  qed (rule blocked; simp add: d_def c_def block_on_def)+
qed

text \<open>The scan, and a recovery at a branch that issued in it.\<close>

lemma score_gain:
  assumes c: "core c" and same_room: "room d = room c"
    and k: "k < rob_count (c_rob c)" "k < rob_count (c_rob d)"
    and same: "\<And>j. j \<le> k \<Longrightarrow> tags (c_rob d) ! j = tags (c_rob c) ! j"
    and older: "\<And>j. j \<le> k \<Longrightarrow> seqs (c_rob c) ! j \<in> idle d \<Longrightarrow> seqs (c_rob c) ! j \<in> idle c"
    and here: "seqs (c_rob c) ! k \<in> idle c" "seqs (c_rob c) ! k \<notin> idle d"
    and younger: "v_branch (snd (tags (c_rob c) ! k)) \<or> tags (c_rob d) = tags (c_rob c) \<and> idle d \<subseteq> idle c"
  shows "score c < score d"
  unfolding score_def same_room
proof (rule weigh_gain [where k = k])
  have nth: "bits e ! j = (v_branch (snd (tags (c_rob e) ! j)), fst (tags (c_rob e) ! j) \<notin> idle e)"
    if "j < rob_count (c_rob e)" for e j
    using that by (simp add: bits_def split_beta)
  have seq: "seqs (c_rob c) ! j = fst (tags (c_rob c) ! j)" if "j < rob_count (c_rob c)" for j
    using that by (simp add: seqs_tags)
  show "branches (bits c) \<le> snd (room c)" "length (bits c) < Suc (fst (room c))" by (rule bits_branches [OF c])+
  show "k < length (bits c)" "k < length (bits d)" using k by (simp_all add: bits_def)
  show "\<forall>j \<le> k. further (bits c ! j) (bits d ! j)"
    using k same older seq by (auto simp: nth)
  show "\<not> snd (bits c ! k)" "snd (bits d ! k)" using here k same seq by (simp_all add: nth)
  show "fst (bits c ! k) \<or> list_all2 further (drop (Suc k) (bits c)) (drop (Suc k) (bits d))"
    using younger
  proof
    assume "tags (c_rob d) = tags (c_rob c) \<and> idle d \<subseteq> idle c"
    then have "list_all2 further (bits c) (bits d)" by (auto simp: bits_def list_all2_conv_all_nth split_beta)
    then show ?thesis by simp
  qed (use k in \<open>simp add: nth\<close>)
qed

lemma issue_score:
  assumes G: "golden_run G" and c: "core c" "flowing G c" and n: "0 < issue_count c"
  shows "score c < score (issue c)"
proof -
  define P where "P st \<longleftrightarrow> tags (c_rob (is_cpu st)) = tags (c_rob c) \<and> (\<forall>s \<in> idle (is_cpu st). s \<in> idle c) \<and>
    (0 < is_issued st \<longrightarrow> (\<exists>s \<in> idle c. s \<notin> idle (is_cpu st))) \<and>
    (\<forall>br. is_offender st = Some br \<longrightarrow> u_seq br \<in> idle c - idle (is_cpu st))" for st :: Issue
  obtain st c1 where st: "st = issue_scan (filter iq_ready (iq_entries (c_iq c))) (issue_start c)" "P st"
    and out: "issue c = (case is_offender st of None \<Rightarrow> c1 | Some br \<Rightarrow> recover br c1)"
    and c1: "whole c1 = whole (is_cpu st)" "core c1" "flow G c1"
    and off: "\<And>br. is_offender st = Some br \<Longrightarrow> br \<in># work c1 \<and> d_is_branch (u_dec br) \<and>
       (\<exists>k < length (in_flight c1). in_flight c1 ! k = br \<and> chained k c1)"
  proof (rule issue_parts [OF G c, where P = P, folded issue_start_def], goal_cases)
    case (1 st e)
    show ?case
      by (rule issue_one_slots [OF G 1(2,3,5,6)]) (use 1(4) in \<open>auto simp: P_def\<close>)
  next
    case 2
    show ?case by (simp add: P_def issue_start_def)
  next
    case (3 st c1)
    show ?case by (rule 3(1) [OF 3(2,5,4,6-8)]) (erule 3(10))
  qed
  have same: "tags (c_rob c1) = tags (c_rob c)" "idle c1 = idle (is_cpu st)"
    using st(2) essence_eqs [OF whole_eqs(1) [OF c1(1)]] by (simp_all add: P_def idle_def)
  have sub: "idle c1 \<subseteq> idle c" using st(2) by (auto simp: P_def same(2))
  have len: "rob_count (c_rob c1) = rob_count (c_rob c)" using arg_cong [OF same(1), of length] by simp
  have room: "room (issue c) = room c" by (rule room_sizes) simp
  show ?thesis
  proof (cases "is_offender st")
    case None
    have "0 < is_issued st" using n by (simp add: issue_count_def st(1))
    then obtain s where s: "s \<in> idle c" "s \<notin> idle c1" using st(2) by (auto simp: P_def same(2))
    have "s \<in> u_seq ` set (in_flight c)" using s(1) core_facts(6,7) [OF c(1)] by blast
    then have "s \<in> set (seqs (c_rob c))" using in_flight_core(1) [OF c(1)] by (metis image_set)
    then obtain k where k: "k < rob_count (c_rob c)" "seqs (c_rob c) ! k = s" by (auto simp: in_set_conv_nth)
    have "issue c = c1" using None by (simp add: out)
    then show ?thesis
      using score_gain [OF c(1), of c1 k] room k s sub by (auto simp: same(1) len)
  next
    case (Some br)
    then obtain k where k: "k < length (in_flight c1)" "in_flight c1 ! k = br" and br: "br \<in># work c1" "d_is_branch (u_dec br)"
      using off by blast
    define d where "d = recover br c1"
    note f = recover_cut [OF c1(2,3) br(1) k, folded d_def] and i = in_flight_core [OF c1(2)]
    have d: "core d" unfolding d_def by (rule recover_core(1) [OF c1(2) br])
    have out: "issue c = d" using Some by (simp add: out d_def)
    have tags: "tags (c_rob d) = take (Suc k) (tags (c_rob c))"
      using tags_in_flight [OF d] tags_in_flight [OF c1(2)] by (simp add: f(1) same flip: take_map)
    have at: "tags (c_rob c) ! j = (u_seq (in_flight c1 ! j), uop_view (in_flight c1 ! j))" if "j < length (in_flight c1)" for j
      using that tags_in_flight [OF c1(2)] by (simp add: same)
    then have seq: "seqs (c_rob c) ! j = u_seq (in_flight c1 ! j)" if "j < length (in_flight c1)" for j
      using that i(3) len by (simp add: seqs_tags)
    have idle: "seqs (c_rob c) ! j \<in> idle d \<longleftrightarrow> seqs (c_rob c) ! j \<in> idle c1" if "j \<le> k" for j
    proof -
      have "in_flight c1 ! j \<in> set (take (Suc k) (in_flight c1))" using that k(1) by (auto simp: in_set_conv_nth intro!: exI [of _ j])
      then show ?thesis using f(4) seq [of j] that k(1) by simp
    qed
    have "u_seq br \<in> idle c" "u_seq br \<notin> idle c1" using st(2) Some by (auto simp: P_def same(2))
    moreover have kc: "k < rob_count (c_rob c)" using k(1) i(3) len by simp
    moreover have "rob_count (c_rob d) = Suc k" using arg_cong [OF tags, of length] kc by simp
    moreover have "v_branch (snd (tags (c_rob c) ! k))" using at [OF k(1)] k(2) br(2) by (simp add: uop_view_def)
    ultimately show ?thesis
      unfolding out
      by (intro score_gain [OF c(1), of d k]) (use room sub seq [OF k(1)] k(2) idle idle [of k] in \<open>auto simp: tags out\<close>)
  qed
qed

section \<open>How far the front end is from the reorder buffer's head\<close>

definition rank :: "Cpu \<Rightarrow> nat" where
  "rank c = (if length (c_rename_q c) < rob_count (c_rob c) then 0 else if c_rename_q c \<noteq> [] then 1
     else if c_decode_q c \<noteq> [] then 2 else if c_fetch_q c \<noteq> [] then 3 else 4)"

lemma rank_le: "rank c \<le> 4"
  by (simp add: rank_def)

lemma rank_whole: "essence c' = essence c \<Longrightarrow> rank c' = rank c"
  using essence_eqs [of c' c] by (simp add: rank_def)

text \<open>What holds between stages until the sequence numbers wrap.\<close>

definition lively :: "(nat \<Rightarrow> Memory \<times> Result) \<Rightarrow> Cpu \<Rightarrow> bool" where
  "lively G c \<longleftrightarrow> tracks G c \<and> (renamed c < 2 ^ 32 \<longrightarrow> alert c)"

lemma lively_parts:
  assumes "lively G c" "renamed c < 2 ^ 32"
  shows "core c" "flowing G c" "flow G c" "alert c" "\<not> lost c" "\<not> cpu_done c"
  using assms by (simp_all add: lively_def tracks_def flowing_def lost_def)

text \<open>A step of the front end brings instructions nearer and leaves the issued ones alone.\<close>

definition calm :: "(nat \<Rightarrow> Memory \<times> Result) \<Rightarrow> Cpu \<Rightarrow> Cpu \<Rightarrow> bool" where
  "calm G c d \<longleftrightarrow> lively G d \<and> renamed c \<le> renamed d \<and> (renamed d < 2 ^ 32 \<longrightarrow> score d = score c \<and> rank d \<le> rank c)"

lemma calm_refl: "lively G c \<Longrightarrow> calm G c c"
  by (simp add: calm_def)

lemma calm_trans: "calm G c d \<Longrightarrow> calm G d e \<Longrightarrow> calm G c e"
  by (auto simp: calm_def)

lemma fetch_one_calm:
  assumes G: "golden_run G" and c: "lively G c" "\<not> c_fetch_stalled c"
  shows "calm G c (fst (fetch_one c))" "c_fetch_q c = [] \<Longrightarrow> 0 < c_queue_cap c \<Longrightarrow> rank (fst (fetch_one c)) \<le> 3"
proof -
  define d where "d = fst (fetch_one c)"
  have t: "tracks G d" using front_tracks(1) [OF G _ c(2)] c(1) by (simp add: lively_def d_def)
  have r: "renamed d = renamed c" using hazard_eqs [OF fetch_one_essence(2)] by (simp add: d_def)
  have a: "alert d" if "renamed c < 2 ^ 32" unfolding d_def by (rule fetch_one_alert) (use c(1) that in \<open>simp add: lively_def\<close>)
  have ne: "c_fetch_q c = [] \<Longrightarrow> 0 < c_queue_cap c \<Longrightarrow> c_fetch_q d \<noteq> []"
    by (simp add: d_def fetch_one_def Let_def split_beta obs_defs)
  have "score d = score c \<and> rank d \<le> rank c"
  proof (cases rule: fetch_one_form [of c])
    case (grab u)
    note e = whole_eqs(1) [OF grab(1), folded d_def]
    have "score (c\<lparr>c_pc := predicted_pc u, c_fetch_q := c_fetch_q c @ [u]\<rparr>) = score c"
      by (rule score_frame) (simp_all add: idle_def room_def)
    then show ?thesis by (simp add: score_whole [OF e] rank_whole [OF e]) (simp add: rank_def)
  qed (simp add: d_def)
  moreover have "rank d \<le> 3" if "c_fetch_q d \<noteq> []" using that by (simp add: rank_def)
  ultimately show "calm G c (fst (fetch_one c))" "c_fetch_q c = [] \<Longrightarrow> 0 < c_queue_cap c \<Longrightarrow> rank (fst (fetch_one c)) \<le> 3"
    using t r a ne by (simp_all add: calm_def lively_def flip: d_def)
qed

lemma decode_one_calm:
  assumes c: "lively G c"
  shows "calm G c (fst (decode_one c))"
    "c_fetch_q c \<noteq> [] \<Longrightarrow> c_decode_q c = [] \<Longrightarrow> 0 < c_queue_cap c \<Longrightarrow> rank (fst (decode_one c)) \<le> 2"
proof -
  define d where "d = fst (decode_one c)"
  have t: "tracks G d" using front_tracks(2) c by (simp add: lively_def d_def)
  have r: "renamed d = renamed c" using hazard_eqs [OF decode_one_essence(2)] by (simp add: d_def)
  have a: "alert d" if "renamed c < 2 ^ 32" unfolding d_def by (rule decode_one_alert) (use c that in \<open>simp add: lively_def\<close>)
  have ne: "c_fetch_q c \<noteq> [] \<Longrightarrow> c_decode_q c = [] \<Longrightarrow> 0 < c_queue_cap c \<Longrightarrow> c_decode_q d \<noteq> []"
    by (simp add: d_def decode_one_def Let_def obs_defs split: list.split)
  have "score d = score c \<and> rank d \<le> rank c"
  proof (cases rule: decode_one_form [of c])
    case (move f rest)
    note e = whole_eqs(1) [OF move(2), folded d_def]
    have "score (c\<lparr>c_fetch_q := rest, c_decode_q := c_decode_q c @ [decode_uop (c_cycle c) f]\<rparr>) = score c"
      by (rule score_frame) (simp_all add: idle_def room_def)
    then show ?thesis using move(1) by (simp add: score_whole [OF e] rank_whole [OF e]) (simp add: rank_def)
  next
    case (trap f rest)
    note e = whole_eqs(1) [OF trap(2), folded d_def]
    have "score (c\<lparr>c_fetch_q := [], c_decode_q := c_decode_q c @ [decode_uop (c_cycle c) f], c_fetch_stalled := True\<rparr>) = score c"
      by (rule score_frame) (simp_all add: idle_def room_def)
    then show ?thesis using trap(1) by (simp add: score_whole [OF e] rank_whole [OF e]) (simp add: rank_def)
  qed (simp add: d_def)
  moreover have "rank d \<le> 2" if "c_decode_q d \<noteq> []" using that by (simp add: rank_def)
  ultimately show "calm G c (fst (decode_one c))"
    "c_fetch_q c \<noteq> [] \<Longrightarrow> c_decode_q c = [] \<Longrightarrow> 0 < c_queue_cap c \<Longrightarrow> rank (fst (decode_one c)) \<le> 2"
    using t r a ne by (simp_all add: calm_def lively_def flip: d_def)
qed

text \<open>Rename appends an idle entry.\<close>

lemma rename_uop_score:
  assumes c: "core c" "core d" and room: "room d = room c"
    and d: "in_flight d = in_flight c @ [u]" "c_rename_q d = c_rename_q c @ [u]" "iq_entries (c_iq d) = iq_entries (c_iq c)"
  shows "score d = score c" "rank d \<le> rank c" "rank d \<le> 1"
proof -
  have seqs: "seqs (c_rob d) = seqs (c_rob c) @ [u_seq u]"
    using in_flight_core(1) [OF c(1)] in_flight_core(1) [OF c(2)] by (simp add: d(1))
  then have "distinct (seqs (c_rob c) @ [u_seq u])" using in_flight_core(1,6) [OF c(2)] by simp
  moreover have "idle d = insert (u_seq u) (idle c)" by (simp add: idle_def d(2,3))
  moreover have tags: "tags (c_rob d) = tags (c_rob c) @ [(u_seq u, uop_view u)]"
    using tags_in_flight [OF c(1)] tags_in_flight [OF c(2)] by (simp add: d(1))
  ultimately have "bits d = bits c @ [(v_branch (uop_view u), False)]"
    by (auto simp: bits_def seqs_tags intro: rev_image_eqI)
  then show "score d = score c" by (simp add: score_def room weigh_idle)
  have n: "rob_count (c_rob d) = Suc (rob_count (c_rob c))" using arg_cong [OF seqs, of length] by simp
  show "rank d \<le> 1" by (simp add: rank_def d(2))
  show "rank d \<le> rank c" by (simp add: rank_def d(2) n)
qed

lemma rename_one_calm:
  assumes c: "lively G c"
  shows "calm G c (fst (rename_one c))"
proof -
  define d where "d = fst (rename_one c)"
  have t: "tracks G d" using front_tracks(3) c by (simp add: lively_def d_def)
  have r: "renamed c \<le> renamed d" unfolding d_def by (rule rename_one_renamed)
  have "alert d \<and> score d = score c \<and> rank d \<le> rank c" if d: "renamed d < 2 ^ 32"
  proof -
    note l = lively_parts [OF c le_less_trans [OF r d]]
    have "alert d" unfolding d_def by (rule rename_one_alert [OF l(1,5,3,4)])
    moreover have "score d = score c \<and> rank d \<le> rank c"
    proof (cases rule: rename_one_cases [of c])
      case (stall s)
      then have e: "essence d = essence c" by (simp add: d_def)
      show ?thesis by (simp add: score_whole [OF e] rank_whole [OF e])
    next
      case (go u rest dest c1)
      define b where "b = c\<lparr>c_decode_q := rest\<rparr>"
      have b: "core b" "\<not> lost b" using l(1,5) go(1) by (simp_all add: b_def core_defs lost_def)
      have u: "fresh u" "wf_decoded (u_dec u)" using l(1) go(1) by (simp_all add: core_defs)
      have room: "\<not> rob_full (c_rob b)" "d_is_branch (u_dec u) \<Longrightarrow> cp_free (c_ckpts b) \<noteq> []"
        using go(2,3) by (simp_all add: b_def)
      have dest: "take_dest (d_writes_rd (u_dec u)) b = Some (dest, c1\<lparr>c_decode_q := rest\<rparr>)"
        using go(4) by (auto simp: take_dest_def b_def split: if_splits option.splits)
      have d': "rename_uop dest u (c1\<lparr>c_decode_q := rest\<rparr>) = d" by (simp add: d_def go(5))
      obtain u' where u': "in_flight d = in_flight b @ [u']" "c_rename_q d = c_rename_q b @ [u']"
        "iq_entries (c_iq d) = iq_entries (c_iq b)"
      proof (rule rename_fields [OF b u room dest, unfolded d'], goal_cases)
        case (2 u')
        then show ?case by blast
      qed
      have bc: "in_flight b = in_flight c" "c_rename_q b = c_rename_q c" "c_iq b = c_iq c"
        by (simp_all add: b_def in_flight_def)
      have "core d" using t d by (simp add: tracks_def)
      then show ?thesis
        using rename_uop_score [OF l(1), of d u'] u' [unfolded bc] room_sizes [OF rename_one_sizes] by (simp add: d_def)
    qed (simp add: d_def)
    ultimately show ?thesis by blast
  qed
  then show ?thesis using t r by (simp add: calm_def lively_def flip: d_def)
qed

text \<open>Dispatch moves the oldest renamed instruction into the issue queue.\<close>

lemma dispatch_one_calm:
  assumes c: "lively G c"
  shows "calm G c (fst (dispatch_one c))"
proof -
  define d where "d = fst (dispatch_one c)"
  have t: "tracks G d" using front_tracks(4) c by (simp add: lively_def d_def)
  have r: "renamed d = renamed c" using hazard_eqs [OF dispatch_one_hazard] by (simp add: d_def)
  have "alert d \<and> score d = score c \<and> rank d \<le> rank c" if d: "renamed d < 2 ^ 32"
  proof -
    note l = lively_parts [OF c d [unfolded r]]
    have "alert d" unfolding d_def by (rule dispatch_one_alert [OF l(1,3,4)])
    moreover have "score d = score c \<and> rank d \<le> rank c"
    proof (cases rule: dispatch_one_cases [of c])
      case (stall s)
      then have e: "essence d = essence c" by (simp add: d_def)
      show ?thesis by (simp add: score_whole [OF e] rank_whole [OF e])
    next
      case (seat u rest u' c')
      obtain i q where u': "u' = u\<lparr>u_lsq_idx := i\<rparr>" "c' = c\<lparr>c_lsq := q\<rparr>" by (rule take_seat_form [OF seat(2)])
      have q: "c_rob d = c_rob c" "c_rename_q d = rest" "idle d = idle c" "c_decode_q d = c_decode_q c" "c_fetch_q d = c_fetch_q c"
        using seat(1,3) by (simp_all add: d_def Let_def u' idle_def iq_insert_def iq_entry_of_def)
      moreover have "length (c_rename_q c) \<le> rob_count (c_rob c)"
      proof -
        have "in_flight c = dispatched c @ c_rename_q c" by (rule flow_parts(1) [OF l(3)])
        then show ?thesis using in_flight_core(3) [OF l(1)] by (metis le_add2 length_append)
      qed
      ultimately show ?thesis using score_frame [of d c] room_sizes [OF dispatch_one_sizes, of c] seat(1) by (simp add: rank_def d_def)
    qed (simp add: d_def)
    ultimately show ?thesis by blast
  qed
  then show ?thesis using t r by (simp add: calm_def lively_def flip: d_def)
qed

section \<open>The front end moves\<close>

text \<open>Every structure has a place, every kind of unit a copy, and there is a register to rename to.\<close>

definition roomy :: "Cpu \<Rightarrow> bool" where
  "roomy c \<longleftrightarrow> 0 < cfg_width (c_cfg c) \<and> 0 < cfg_num_cdb (c_cfg c) \<and> 0 < c_queue_cap c \<and>
     rob_capacity (c_rob c) = cfg_rob_size (c_cfg c) \<and> 0 < cfg_rob_size (c_cfg c) \<and>
     cp_capacity (c_ckpts c) = cfg_num_checkpoints (c_cfg c) \<and>
     0 < iq_capacity (c_iq c) \<and> 0 < lqq_capacity (lsq_loads (c_lsq c)) \<and> 0 < lqq_capacity (lsq_stores (c_lsq c)) \<and>
     0 < cp_capacity (c_ckpts c) \<and> 32 < fl_capacity (c_free_list c) \<and>
     (\<exists>a b m d e. map length (c_fu_free_at c) = [Suc a, Suc b, Suc m, Suc d, Suc e])"

lemma roomy_frame: "sizes c' = sizes c \<Longrightarrow> fixed c' = fixed c \<Longrightarrow> roomy c' = roomy c"
  unfolding sizes_def fixed_def prod.inject roomy_def by (elim conjE) (simp only:)

lemma empty_rob:
  assumes "core c" "flow G c" "rank c \<noteq> 0"
  shows "dispatched c = []" "iq_entries (c_iq c) = []" "in_flight c = c_rename_q c" "rob_count (c_rob c) = length (c_rename_q c)"
proof -
  have d: "in_flight c = dispatched c @ c_rename_q c" by (rule flow_parts(1) [OF assms(2)])
  moreover have n: "length (in_flight c) = rob_count (c_rob c)" by (rule in_flight_core(3) [OF assms(1)])
  moreover have "rob_count (c_rob c) \<le> length (c_rename_q c)" using assms(3) by (simp add: rank_def split: if_splits)
  ultimately show e: "dispatched c = []" by (metis add_le_same_cancel2 le_zero_eq length_0_conv length_append)
  then show "in_flight c = c_rename_q c" "rob_count (c_rob c) = length (c_rename_q c)" using d n by simp_all
  show "iq_entries (c_iq c) = []"
  proof (rule ccontr)
    assume "iq_entries (c_iq c) \<noteq> []"
    then have "hd (iq_entries (c_iq c)) \<in> set (iq_entries (c_iq c))" by simp
    then show False by (rule candidate [OF assms(1,2)]) (simp add: e)
  qed
qed

lemma dispatch_moves:
  assumes c: "core c" "flow G c" "roomy c" "rank c = 1"
  shows "rank (fst (dispatch_one c)) = 0"
proof -
  have "rank c \<noteq> 0" using c(4) by simp
  note e = empty_rob [OF c(1,2) this]
  obtain u rest where q: "c_rename_q c = u # rest" using c(4) by (cases "c_rename_q c") (auto simp: rank_def split: if_splits)
  have "seats (idle c) [] (c_lsq c)" using flow_parts(11) [OF c(2)] by (simp add: e(1))
  then have "list_all2 load_at [] (lqq_pairs (lsq_loads (c_lsq c)))" "list_all2 (store_at (idle c)) [] (lqq_pairs (lsq_stores (c_lsq c)))"
    by (simp_all add: seats_def loads_def stores_def)
  from this [THEN list_all2_lengthD] have "lqq_count (lsq_loads (c_lsq c)) = 0" "lqq_count (lsq_stores (c_lsq c)) = 0" by simp_all
  moreover have room: "0 < lqq_capacity (lsq_loads (c_lsq c))" "0 < lqq_capacity (lsq_stores (c_lsq c))" "0 < iq_capacity (c_iq c)"
    using c(3) by (simp_all add: roomy_def)
  ultimately have "\<not> lqq_full (lsq_loads (c_lsq c))" "\<not> lqq_full (lsq_stores (c_lsq c))" by (simp_all add: lqq_full_def)
  then have alloc: "\<exists>i l. alloc_load (c_lsq c) s n = Some (i, l)" "\<exists>i l. alloc_store (c_lsq c) s n = Some (i, l)" for s n
    by (simp_all add: alloc_load_def alloc_store_def lqq_alloc_def Let_def)
  have "\<exists>x. take_seat u c = Inr x"
  proof -
    obtain i l j k where "alloc_load (c_lsq c) (u_seq u) (access_size (d_op (u_dec u))) = Some (i, l)"
      "alloc_store (c_lsq c) (u_seq u) (access_size (d_op (u_dec u))) = Some (j, k)" using alloc by meson
    then show ?thesis by (simp add: take_seat_def)
  qed
  then obtain u' c' where t: "take_seat u c = Inr (u', c')" by auto
  obtain i l where "c' = c\<lparr>c_lsq := l\<rparr>" by (rule take_seat_form [OF t])
  then have "c_rename_q (fst (dispatch_one c)) = rest" "c_rob (fst (dispatch_one c)) = c_rob c"
    using t q room(3) by (simp_all add: dispatch_one_def iq_full_def e(2) Let_def)
  then show ?thesis by (simp add: rank_def e(4) q)
qed

lemma rename_moves:
  assumes c: "core c" "flow G c" "roomy c" "rank c = 2"
  shows "rank (fst (rename_one c)) \<le> 1"
proof -
  have "rank c \<noteq> 0" using c(4) by simp
  note e = empty_rob [OF c(1,2) this]
  have q0: "c_rename_q c = []" using c(4) by (auto simp: rank_def split: if_splits)
  obtain u rest where q: "c_decode_q c = u # rest" using c(4) by (cases "c_decode_q c") (auto simp: rank_def split: if_splits)
  have views: "views (c_rob c) = []" using in_flight_core(2) [OF c(1)] by (simp add: e(3) q0)
  have "ckpts_inv (c_arch_rat c) (c_ckpts c) []" "regs_inv (c_arch_rat c) (c_free_list c) []"
    using c(1) by (simp_all add: core_defs rob_state_def flip: views)
  then have m: "mset (cp_free (c_ckpts c)) = mset [0..<cp_capacity (c_ckpts c)]"
    "length (fl_free (c_free_list c)) + 31 = fl_capacity (c_free_list c) - 1"
  proof -
    assume i: "ckpts_inv (c_arch_rat c) (c_ckpts c) []" "regs_inv (c_arch_rat c) (c_free_list c) []"
    then show "mset (cp_free (c_ckpts c)) = mset [0..<cp_capacity (c_ckpts c)]" by (simp add: ckpts_inv_def held_ckpts_def)
    have "mset (fl_free (c_free_list c)) + mset (tl (c_arch_rat c)) = mset [1..<fl_capacity (c_free_list c)]"
      "length (tl (c_arch_rat c)) = 31"
      using i(2) by (simp_all add: regs_inv_def dests_def)
    from arg_cong [OF this(1), of size] this(2)
    show "length (fl_free (c_free_list c)) + 31 = fl_capacity (c_free_list c) - 1" by simp
  qed
  have "length (cp_free (c_ckpts c)) = cp_capacity (c_ckpts c)" using arg_cong [OF m(1), of size] by simp
  then have room: "cp_free (c_ckpts c) \<noteq> []" "fl_free (c_free_list c) \<noteq> []" "0 < c_queue_cap c" "\<not> rob_full (c_rob c)"
  proof -
    assume len: "length (cp_free (c_ckpts c)) = cp_capacity (c_ckpts c)"
    have g: "0 < cp_capacity (c_ckpts c)" "32 < fl_capacity (c_free_list c)" "0 < c_queue_cap c" "0 < rob_capacity (c_rob c)"
      using c(3) by (simp_all add: roomy_def)
    show "cp_free (c_ckpts c) \<noteq> []" "0 < c_queue_cap c" "\<not> rob_full (c_rob c)"
      using g len e(4) q0 by (auto simp: rob_full_def)
    have "0 < length (fl_free (c_free_list c))" using g(2) m(2) by linarith
    then show "fl_free (c_free_list c) \<noteq> []" by simp
  qed
  then obtain dest c1 where t: "take_dest (d_writes_rd (u_dec u)) c = Some (dest, c1)"
    by (cases "fl_free (c_free_list c)"; cases "d_writes_rd (u_dec u)") (auto simp: take_dest_def fl_alloc_def)
  have "c_rename_q (rename_uop dest u d) \<noteq> []" for d
    by (simp add: rename_uop_def Let_def split_beta obs_defs enter_rob_def)
  then have "c_rename_q (fst (rename_one c)) \<noteq> []"
    using room t by (simp add: rename_one_def q q0)
  then show ?thesis by (simp add: rank_def)
qed

section \<open>The stages of the front end\<close>

lemma stage_loop_calm:
  assumes "lively G c" "P c" "\<And>d. lively G d \<Longrightarrow> P d \<Longrightarrow> calm G d (fst (f d)) \<and> P (fst (f d))"
  shows "calm G c (stage_loop n f c)" "0 < n \<Longrightarrow> calm G (fst (f c)) (stage_loop n f c)"
proof -
  have inv: "calm G e (stage_loop m f e)" if "lively G e" "P e" for m e
    using that
  proof (induction m arbitrary: e)
    case (Suc m)
    have s: "calm G e (fst (f e))" "P (fst (f e))" using assms(3) Suc.prems by blast+
    then have "calm G (fst (f e)) (stage_loop m f (fst (f e)))" by (intro Suc.IH) (simp_all add: calm_def)
    then show ?case using s(1) calm_trans [OF s(1)] by (simp add: split_beta)
  qed (simp add: calm_refl)
  show "calm G c (stage_loop n f c)" by (rule inv [OF assms(1,2)])
  show "calm G (fst (f c)) (stage_loop n f c)" if n: "0 < n"
  proof -
    obtain m where m: "n = Suc m" using n by (cases n) auto
    have "lively G (fst (f c))" "P (fst (f c))" using assms by (auto simp: calm_def)
    then show ?thesis using inv calm_refl by (simp add: m split_beta)
  qed
qed

lemma calm_rank: "calm G c d \<Longrightarrow> renamed d < 2 ^ 32 \<Longrightarrow> rank d \<le> rank c"
  by (simp add: calm_def)

lemma fetch_calm:
  assumes G: "golden_run G" and c: "lively G c"
  shows "calm G c (fetch c)" "roomy c \<Longrightarrow> rank c = 4 \<Longrightarrow> renamed (fetch c) < 2 ^ 32 \<Longrightarrow> rank (fetch c) \<le> 3"
proof -
  have step: "calm G d (fst (fetch_one d)) \<and> \<not> c_fetch_stalled (fst (fetch_one d))" if "lively G d" "\<not> c_fetch_stalled d" for d
    using fetch_one_calm(1) [OF G that] that(2) by simp
  note loop = stage_loop_calm [where P = "\<lambda>d. \<not> c_fetch_stalled d" and f = fetch_one, OF c]
  show "calm G c (fetch c)"
    using loop(1) step calm_refl [OF c] by (simp add: fetch_def)
  show "rank (fetch c) \<le> 3" if r: "roomy c" "rank c = 4" "renamed (fetch c) < 2 ^ 32"
  proof -
    have "renamed c \<le> renamed (fetch c)" using \<open>calm G c (fetch c)\<close> by (simp add: calm_def)
    note l = lively_parts [OF c le_less_trans [OF this r(3)]]
    have q: "c_rename_q c = []" "c_decode_q c = []" "c_fetch_q c = []" using r(2) by (auto simp: rank_def split: if_splits)
    have "rank c \<noteq> 0" using r(2) by simp
    then have "in_flight c = []" using empty_rob(3) [OF l(1,3)] q by simp
    then have st: "\<not> c_fetch_stalled c" using alert_parts(4) [OF l(4)] q by auto
    have w: "0 < cfg_width (c_cfg c)" "0 < c_queue_cap c" using r(1) by (simp_all add: roomy_def)
    have out: "fetch c = stage_loop (cfg_width (c_cfg c)) fetch_one c" using st by (simp add: fetch_def)
    have "calm G (fst (fetch_one c)) (fetch c)" unfolding out by (rule loop(2) [OF st]) (simp_all add: step w)
    then have "rank (fetch c) \<le> rank (fst (fetch_one c))" using r(3) by (rule calm_rank)
    then show ?thesis using fetch_one_calm(2) [OF G c st q(3) w(2)] by simp
  qed
qed

lemma decode_calm:
  assumes c: "lively G c"
  shows "calm G c (decode_stage c)"
    "roomy c \<Longrightarrow> rank c = 3 \<Longrightarrow> renamed (decode_stage c) < 2 ^ 32 \<Longrightarrow> rank (decode_stage c) \<le> 2"
proof -
  note loop = stage_loop_calm [where P = "\<lambda>_. True" and f = decode_one, OF c TrueI]
  show k: "calm G c (decode_stage c)" unfolding decode_stage_def by (rule loop(1)) (simp add: decode_one_calm)
  show "rank (decode_stage c) \<le> 2" if r: "roomy c" "rank c = 3" "renamed (decode_stage c) < 2 ^ 32"
  proof -
    have q: "c_fetch_q c \<noteq> []" "c_decode_q c = []" using r(2) by (auto simp: rank_def split: if_splits)
    have w: "0 < cfg_width (c_cfg c)" "0 < c_queue_cap c" using r(1) by (simp_all add: roomy_def)
    have "calm G (fst (decode_one c)) (decode_stage c)"
      unfolding decode_stage_def by (rule loop(2)) (simp_all add: w decode_one_calm)
    from calm_rank [OF this r(3)] decode_one_calm(2) [OF c q w(2)] show ?thesis by simp
  qed
qed

lemma rename_calm:
  assumes c: "lively G c"
  shows "calm G c (rename_stage c)"
    "roomy c \<Longrightarrow> rank c = 2 \<Longrightarrow> renamed (rename_stage c) < 2 ^ 32 \<Longrightarrow> rank (rename_stage c) \<le> 1"
proof -
  note loop = stage_loop_calm [where P = "\<lambda>_. True" and f = rename_one, OF c TrueI]
  show k: "calm G c (rename_stage c)" unfolding rename_stage_def by (rule loop(1)) (simp add: rename_one_calm)
  show "rank (rename_stage c) \<le> 1" if r: "roomy c" "rank c = 2" "renamed (rename_stage c) < 2 ^ 32"
  proof -
    have "renamed c \<le> renamed (rename_stage c)" using k by (simp add: calm_def)
    note l = lively_parts [OF c le_less_trans [OF this r(3)]]
    have "calm G (fst (rename_one c)) (rename_stage c)"
      unfolding rename_stage_def by (rule loop(2)) (use r(1) in \<open>simp_all add: roomy_def rename_one_calm\<close>)
    from calm_rank [OF this r(3)] rename_moves [OF l(1,3) r(1,2)] show ?thesis by simp
  qed
qed

lemma dispatch_calm:
  assumes c: "lively G c"
  shows "calm G c (dispatch c)"
    "roomy c \<Longrightarrow> rank c = 1 \<Longrightarrow> renamed (dispatch c) < 2 ^ 32 \<Longrightarrow> rank (dispatch c) = 0"
proof -
  note loop = stage_loop_calm [where P = "\<lambda>_. True" and f = dispatch_one, OF c TrueI]
  show k: "calm G c (dispatch c)" unfolding dispatch_def by (rule loop(1)) (simp add: dispatch_one_calm)
  show "rank (dispatch c) = 0" if r: "roomy c" "rank c = 1" "renamed (dispatch c) < 2 ^ 32"
  proof -
    have "renamed c \<le> renamed (dispatch c)" using k by (simp add: calm_def)
    note l = lively_parts [OF c le_less_trans [OF this r(3)]]
    have "calm G (fst (dispatch_one c)) (dispatch c)"
      unfolding dispatch_def by (rule loop(2)) (use r(1) in \<open>simp_all add: roomy_def dispatch_one_calm\<close>)
    from calm_rank [OF this r(3)] dispatch_moves [OF l(1,3) r(1,2)] show ?thesis by simp
  qed
qed

text \<open>Together they bring the next instruction nearer.\<close>

lemma front_moves:
  assumes G: "golden_run G" and c: "lively G c" "roomy c"
  defines "d \<equiv> fetch (decode_stage (rename_stage (dispatch c)))"
  shows "calm G c d" "renamed d < 2 ^ 32 \<Longrightarrow> rank c \<noteq> 0 \<Longrightarrow> rank d < rank c"
proof -
  define c1 where "c1 = dispatch c"
  define c2 where "c2 = rename_stage c1"
  define c3 where "c3 = decode_stage c2"
  have d: "d = fetch c3" by (simp add: d_def c1_def c2_def c3_def)
  note k1 = dispatch_calm [OF c(1), folded c1_def]
  have l1: "lively G c1" using k1(1) by (simp add: calm_def)
  note k2 = rename_calm [OF l1, folded c2_def]
  have l2: "lively G c2" using k2(1) by (simp add: calm_def)
  note k3 = decode_calm [OF l2, folded c3_def]
  have l3: "lively G c3" using k3(1) by (simp add: calm_def)
  note k4 = fetch_calm [OF G l3, folded d]
  show "calm G c d" using calm_trans k1(1) k2(1) k3(1) k4(1) by blast
  have room: "roomy c1" "roomy c2" "roomy c3"
    using c(2) roomy_frame [of c1 c] roomy_frame [of c2 c1] roomy_frame [of c3 c2] by (simp_all add: c1_def c2_def c3_def)
  show "rank d < rank c" if r: "renamed d < 2 ^ 32" "rank c \<noteq> 0"
  proof -
    have n: "renamed c1 < 2 ^ 32" "renamed c2 < 2 ^ 32" "renamed c3 < 2 ^ 32"
      using r(1) k2(1) k3(1) k4(1) unfolding calm_def by (meson le_less_trans)+
    have le: "rank c1 \<le> rank c" "rank c2 \<le> rank c1" "rank c3 \<le> rank c2" "rank d \<le> rank c3"
      using calm_rank [OF k1(1) n(1)] calm_rank [OF k2(1) n(2)] calm_rank [OF k3(1) n(3)] calm_rank [OF k4(1) r(1)] by blast+
    consider "rank c = 1" | "rank c = 2" | "rank c = 3" | "rank c = 4" using rank_le [of c] r(2) by linarith
    then show ?thesis
    proof cases
      case 1
      then show ?thesis using k1(2) [OF c(2) _ n(1)] le by simp
    next
      case 2
      then show ?thesis using k2(2) [OF room(1) _ n(2)] le by (cases "rank c1 = 2") auto
    next
      case 3
      then show ?thesis using k3(2) [OF room(2) _ n(3)] le by (cases "rank c2 = 3") auto
    next
      case 4
      then show ?thesis using k4(2) [OF room(3) _ r(1)] le by (cases "rank c3 = 4") auto
    qed
  qed
qed

section \<open>The oldest instruction issues\<close>

lemma first_free_all: "ts \<noteq> [] \<Longrightarrow> \<forall>t \<in> set ts. t \<le> cycle \<Longrightarrow> first_free cycle ts i = Some i"
  by (cases ts) simp_all

lemma unit_ready:
  assumes "roomy c" "\<forall>ts \<in> set (c_fu_free_at c). \<forall>t \<in> set ts. t \<le> c_cycle c"
  shows "free_unit c f = Some 0"
proof (cases "f = Fu_NONE")
  case False
  obtain a b m d e where len: "map length (c_fu_free_at c) = [Suc a, Suc b, Suc m, Suc d, Suc e]"
    using assms(1) by (auto simp: roomy_def)
  have n: "fu_index f < length (c_fu_free_at c)" using False arg_cong [OF len, of length] by (cases f) (simp_all add: fu_index_def)
  then have "length (c_fu_free_at c ! fu_index f) = map length (c_fu_free_at c) ! fu_index f" by simp
  also have "\<dots> \<noteq> 0" using False by (cases f) (simp_all add: len fu_index_def)
  finally have "c_fu_free_at c ! fu_index f \<noteq> []" by auto
  then show ?thesis using first_free_all assms(2) nth_mem [OF n] False by (auto simp: free_unit_def)
qed (simp add: free_unit_def)

text \<open>No store is older than the oldest instruction, so a load there never waits.\<close>

lemma scan_younger: "\<forall>st \<in> set sts. lq_seq ld < lq_seq st \<Longrightarrow> search_scan ld sts b out = (b, out)"
  by (cases sts) simp_all

lemma oldest_load:
  assumes s: "seats I (u # es) (c_lsq c)" and order: "program_ordered u_seq (u # es)" and u: "d_is_load (u_dec u)" "\<not> d_is_store (u_dec u)"
    and v: "u_lsq_idx v = u_lsq_idx u"
  shows "fst (execute_load v lat c) \<noteq> None"
proof -
  define l where "l = resolve_load_addr (c_lsq c) (u_lsq_idx u) (u_val1 v + d_imm (u_dec v))"
  have s': "seats I ([] @ u # es) (c_lsq c)" using s by simp
  have seat: "u_lsq_idx u < length (lqq_slots (lsq_loads (c_lsq c)))" "seats I (u # es) l"
    using seat_of_load(1) [OF s' u(1)] seat_of_load(4) [OF s' u(1), of "u_val1 v + d_imm (u_dec v)"] by (simp_all add: l_def)
  define ld where "ld = lqq_at (lsq_loads l) (u_lsq_idx u)"
  have at: "lq_addr_ready ld" using seat(1) by (simp add: ld_def l_def resolve_load_addr_def lqq_modify_def lqq_at_def)
  have ld: "lq_seq ld = u_seq u" using seat_of_load(2) [of I "[]" u es l] seat(2) u(1) by (simp add: ld_def)
  have "map (lq_seq \<circ> snd) (lqq_pairs (lsq_stores l)) = map u_seq (stores es)"
    using seat(2) u(2) by (intro seat_seqs [of "store_at I"]) (simp_all add: seats_def store_at_def)
  then have "lq_seq ` set (lqq_list (lsq_stores l)) = u_seq ` set (stores es)"
    by (metis image_image image_set list.map_comp lqq_pairs_entries)
  moreover have "\<forall>x \<in> set (stores es). u_seq u < u_seq x" using order by (simp add: program_ordered_def stores_def)
  ultimately have "\<forall>st \<in> set (lqq_list (lsq_stores l)). lq_seq ld < lq_seq st" unfolding ld by (metis imageE imageI)
  then have "fwd_kind (search_older_stores l (u_lsq_idx u)) \<noteq> REPLAY"
    using at by (simp add: search_older_stores_def Let_def lqq_nth_list scan_younger flip: ld_def)
  then show ?thesis by (simp add: execute_load_def Let_def v flip: l_def)
qed

lemma head_issues:
  assumes c: "core c" "flow G c" "alert c" "roomy c"
    and units: "\<forall>ts \<in> set (c_fu_free_at c). \<forall>t \<in> set ts. t \<le> c_cycle c"
    and ports: "0 < c_cdb_window c" "\<forall>i < c_cdb_window c. c_cdb_booked c ! i = 0"
    and w: "work c = {#}" and r: "rank c = 0" and pop: "rob_pop_head_if_complete (c_rob c) = None"
  shows "0 < issue_count c"
proof -
  define h where "h = in_flight c ! 0"
  note p = flow_parts [OF c(2)] and i = in_flight_core [OF c(1)] and core = core_facts [OF c(1)] and a = alert_parts [OF c(3)]
  have n: "length (c_rename_q c) < rob_count (c_rob c)" using r by (simp add: rank_def split: if_splits)
  then have pos: "0 < length (in_flight c)" using i(3) by simp
  obtain ds where ds: "dispatched c = h # ds"
  proof -
    have "dispatched c \<noteq> []" using p(1) n i(3) by auto
    then show thesis using p(1) that by (cases "dispatched c") (auto simp: h_def)
  qed
  have infl: "in_flight c = h # ds @ c_rename_q c" using p(1) ds by simp
  have wf: "wf_decoded (u_dec h)" using i(7) infl by simp
  have "u_seq h \<in> unfinished c"
  proof -
    have "rob_list (c_rob c) ! 0 = rob_slots (c_rob c) ! rob_hd (c_rob c)"
      using core(3) n by (simp add: rob_list_def ring_list_def ring_slot_def rob_ok_def rob_capacity_def)
    then have "\<not> re_complete (rob_list (c_rob c) ! 0)"
      using pop n by (simp add: rob_pop_head_if_complete_def rob_empty_def split: if_splits)
    moreover have "rob_list (c_rob c) ! 0 \<in> set (rob_list (c_rob c))" using n by simp
    moreover have "seqs (c_rob c) ! 0 = u_seq h" using infl by (simp flip: i(1))
    then have "re_seq (rob_list (c_rob c) ! 0) = u_seq h" using n by (simp add: seqs_def)
    ultimately show ?thesis by (force simp: unfinished_def open_seqs_def)
  qed
  then have idle: "u_seq h \<in> idle c" using core(6) w by auto
  have "u_seq h \<notin> u_seq ` set (c_rename_q c)" using i(6) infl by auto
  then obtain e where e: "e \<in> set (iq_entries (c_iq c))" "iq_seq e = u_seq h" using idle by (auto simp: idle_def)
  obtain e0 es where q: "iq_entries (c_iq c) = e0 # es" using e(1) by (cases "iq_entries (c_iq c)") auto
  have "e0 = e"
  proof (rule ccontr)
    assume "e0 \<noteq> e"
    then have less: "iq_seq e0 < u_seq h" using e a(1) by (auto simp: q program_ordered_def)
    have "iq_seq e0 \<in> u_seq ` set (in_flight c)" using core(6,7) by (auto simp: idle_def q)
    moreover have "\<forall>u \<in> set (in_flight c). u_seq h \<le> u_seq u" using i(5) by (auto simp: infl program_ordered_def intro!: less_imp_le)
    ultimately show False using less by auto
  qed
  note q = q [unfolded this]
  have unique: "u = h" if "u \<in> set (in_flight c)" "u_seq u = iq_seq e" for u
    using same_seq_uop [OF c(1) that(1), of h] that(2) e(2) infl by simp
  have ready: "iq_ready e"
  proof -
    obtain u where u: "u \<in> set (in_flight c)" "u_seq u = iq_seq e" "u_src1 u = iq_src1 e" "u_src2 u = iq_src2 e"
      using p(6) e(1) by (auto simp: woken_def)
    have "u_src1 h = c_arch_rat c ! d_rs1 (u_dec h)" "u_src2 h = c_arch_rat c ! d_rs2 (u_dec h)"
      using p(5) by (simp_all add: sources_def infl All_less_Suc2)
    moreover have "d_rs1 (u_dec h) < length (c_arch_rat c)" "d_rs2 (u_dec h) < length (c_arch_rat c)"
      using wf core(1) by (simp_all add: wf_decoded_def regs_inv_def)
    ultimately have "prf_is_ready (c_prf c) (u_src1 h)" "prf_is_ready (c_prf c) (u_src2 h)"
      using a(3) by (simp_all add: answered_def)
    then show ?thesis using a(2) e(1) u unique [OF u(1,2)] by (simp add: heard_def iq_ready_def)
  qed
  obtain k where "k < length (in_flight c)" "in_flight c ! k = c_inflight c ! iq_rob e" "u_seq (in_flight c ! k) = iq_seq e"
    by (rule candidate [OF c(1,2) e(1)])
  then have at: "c_inflight c ! iq_rob e = h" using unique by (metis nth_mem)
  have one: "is_issued (issue_one e (issue_start c)) = 1"
  proof (rule issue_one_cases [OF refl refl refl, of "issue_start c" e], goal_cases)
    case 1
    then show ?case using unit_ready [OF c(4) units] by (simp add: issue_start_def)
  next
    case (2 unit c1)
    have "seats (idle c) (h # ds) (c_lsq c)" using p(11) by (simp add: ds)
    moreover have "program_ordered u_seq (h # ds)" using i(5) by (simp add: infl program_ordered_def sorted_wrt_append)
    moreover have "d_is_load (u_dec h)" "\<not> d_is_store (u_dec h)" using 2(2) wf by (auto simp: at issue_start_def wf_decoded_def)
    ultimately have "fst (execute_load (h\<lparr>u_val1 := x, u_val2 := y\<rparr>) lat c) \<noteq> None" for x y lat
      by (rule oldest_load) simp
    moreover have "execute_load (h\<lparr>u_val1 := prf_read (c_prf c) (u_src1 h), u_val2 := prf_read (c_prf c) (u_src2 h)\<rparr>)
        (iq_latency e) c = (None, c1)" using 2(3) by (simp add: at issue_start_def)
    ultimately show ?case by (metis fst_conv)
  next
    case (3 unit u1 lat c1)
    show ?case unfolding 3(4) by (simp add: finish_issue_def Let_def) (simp add: issue_start_def)
  next
    case (4 unit)
    have "reserve_cdb (c_cycle c + iq_latency e) c \<noteq> None"
      using ports c(4) by (simp add: reserve_cdb_def Let_def cdb_slot_def roomy_def)
    then show ?case using 4(3) by (auto simp: execute_other_def issue_start_def Let_def split: if_splits option.splits)
  next
    case (5 unit u1 c1)
    show ?case unfolding 5(4) by (simp add: finish_issue_def Let_def) (simp add: issue_start_def)
  qed
  have "\<not> cfg_width (c_cfg c) \<le> 0" using c(4) by (simp add: roomy_def)
  then have "issue_count c = is_issued (issue_scan (filter iq_ready es) (issue_one e (issue_start c)))"
    using ready by (simp add: issue_count_def q issue_start_def)
  then show ?thesis using issue_scan_mono [of "issue_one e (issue_start c)" "filter iq_ready es"] one by simp
qed

section \<open>Only commit retires\<close>

lemma front_retired [simp]:
  "retired (fetch c) = retired c" "retired (decode_stage c) = retired c" "retired (rename_stage c) = retired c"
  "retired (dispatch c) = retired c"
proof -
  have 1: "retired (fst (fetch_one c)) = retired c" for c by (simp add: fetch_one_def Let_def split_beta obs_defs)
  have "retired (stage_loop n fetch_one c) = retired c" for n by (rule stage_loop_frame) (rule 1)
  then show "retired (fetch c) = retired c" by (simp add: fetch_def)
  have 2: "retired (fst (decode_one c)) = retired c" for c by (simp add: decode_one_def Let_def obs_defs split: list.split)
  show "retired (decode_stage c) = retired c" unfolding decode_stage_def by (rule stage_loop_frame) (rule 2)
  have m: "retired (snd (map_regs d u c)) = retired c" "retired (snd (take_checkpoint u c)) = retired c"
    "retired (snd (enter_rob u c)) = retired c" for d u c
    by (auto simp: map_regs_def take_checkpoint_def enter_rob_def Let_def split_beta split: option.split)
  have r: "retired (rename_uop d u c) = retired c" for d u c by (simp add: rename_uop_def Let_def split_beta obs_defs m)
  have 3: "retired (fst (rename_one c)) = retired c" for c
  proof (cases rule: rename_one_cases [of c])
    case (go u rest dest c1)
    then have "c_stats c1 = c_stats c" by (auto simp: take_dest_def split: if_splits option.splits)
    then show ?thesis by (simp add: go(5) r)
  qed simp_all
  show "retired (rename_stage c) = retired c" unfolding rename_stage_def by (rule stage_loop_frame) (rule 3)
  have 4: "retired (fst (dispatch_one c)) = retired c" for c
  proof (cases rule: dispatch_one_cases [of c])
    case (seat u rest u' c')
    obtain j l where "c' = c\<lparr>c_lsq := l\<rparr>" by (rule take_seat_form [OF seat(2)])
    then show ?thesis unfolding seat(3) by (simp add: Let_def)
  qed simp_all
  show "retired (dispatch c) = retired c" unfolding dispatch_def by (rule stage_loop_frame) (rule 4)
qed

lemma recover_retired: "retired (recover br c) = retired c"
proof -
  have k: "retired (fold kill_entry es d) = retired d" for es d
    by (induction es arbitrary: d) (simp_all add: kill_entry_def Let_def obs_defs)
  have q: "retired (squash_queues s d) = retired d" for s d using squash_queues_eq [of s d] by auto
  have f: "retired (restore_front_end br d) = retired d" for d by (simp add: restore_front_end_def Let_def split: option.split)
  show ?thesis by (simp add: recover_def Let_def split_beta obs_defs k q f)
qed

lemma issue_retired [simp]: "retired (issue c) = retired c"
proof -
  have load: "retired c' = retired c" if "execute_load u l c = (x, c')" for u l c x c'
    using that by (auto simp: execute_load_def Let_def obs_defs split: if_splits)
  have other: "retired c' = retired c" if "execute_other u l c = Some (u', c')" for u l c u' c'
    using that by (auto simp: execute_other_def reserve_cdb_def Let_def split: if_splits option.splits)
  have f: "retired (is_cpu (finish_issue e f unit u lat c st)) = retired c" for e f unit u lat c st
    by (simp add: finish_issue_def Let_def obs_defs occupy_unit_def enqueue_result_def)
  have one: "retired (is_cpu (issue_one e st)) = retired (is_cpu st)" for e st
  proof (rule issue_one_cases [OF refl refl refl, of st e], goal_cases)
    case (2 unit c1)
    then show ?case using load [OF 2(3)] by (simp add: obs_defs occupy_unit_def)
  next
    case (3 unit u1 lat c1)
    then show ?case using load [OF 3(3)] by (simp add: f)
  next
    case (5 unit u1 c1)
    then show ?case using other [OF 5(3)] by (simp add: f)
  qed simp_all
  have "retired (is_cpu (issue_scan es st)) = retired (is_cpu st)" for es st by (induction es arbitrary: st) (simp_all add: one)
  moreover have "retired (snd (charge ss n d)) = retired d" "retired (charge_operands m d) = retired d" for ss n m d
    using essence_eqs(8) [OF whole_eqs(1) [OF charge_whole(1) [of ss n d]]] essence_eqs(8) [OF whole_eqs(1) [OF charge_whole(2) [of m d]]]
    by blast+
  ultimately show ?thesis by (simp add: issue_def Let_def split_beta recover_retired split: option.split)
qed

lemma writeback_retired [simp]: "retired (writeback c) = retired c" "retired (execute c) = retired c"
proof -
  have "retired (complete u d) = retired d" for u d by (simp add: complete_def Let_def obs_defs)
  then have "retired (snd (drain_fast us n d)) = retired d" "retired (drain_slow us n d) = retired d" for us n d
    by (induction us arbitrary: n d) simp_all
  then show "retired (writeback c) = retired c" by (simp add: writeback_def Let_def split_beta)
  have "retired (execute_scan us still c) = retired c" for us still by (induction us arbitrary: still c) simp_all
  then show "retired (execute c) = retired c" by (simp add: execute_def)
qed

text \<open>A finished head retires at the start of the next cycle.\<close>

lemma commit_head:
  assumes c: "core c" and pop: "rob_pop_head_if_complete (c_rob c) \<noteq> None" and w: "0 < n"
  shows "retired c < retired (stage_loop n commit_one c)"
proof -
  obtain m where m: "n = Suc m" using w by (cases n) auto
  have "retired (fst (commit_one c)) = Suc (retired c)"
    using c
  proof (cases rule: commit_one_cases)
    case stop
    then show ?thesis using pop by simp
  next
    case (head e r' d)
    have "retired d = Suc (retired c)" using essence_eqs(8) [OF commit_uop_essence(1)] by (simp add: head(2) retire_def)
    then show ?thesis by (simp add: head(3) squash_in_flight_rest(8))
  qed
  then show ?thesis using commit_retired [of "fst (commit_one c)" m] by (simp add: m split_beta)
qed

lemma tick_waits:
  assumes c: "core c" "\<not> cpu_done c" "0 < cfg_width (c_cfg c)" and same: "retired (tick c) = retired c"
  defines "b \<equiv> begin_cycle c"
  shows "tick c = back_stages b" "rob_pop_head_if_complete (c_rob b) = None"
proof -
  have b: "core b" using core_essence [OF begin_cycle_essence(1)] c(1) by (simp add: b_def)
  have run: "\<not> cpu_done b" "retired b = retired c" using c(2) begin_cycle_whole by (simp_all add: b_def begin_cycle_def Let_def)
  have w: "0 < cfg_width (c_cfg b)" using c(3) by (simp add: b_def begin_cycle_def Let_def)
  have t: "tick c = (if cpu_done (commit b) then commit b else back_stages (commit b))"
    using c(2) by (simp add: tick_def Let_def b_def)
  then have "retired (commit b) = retired b" using same run by (simp add: back_stages_def split: if_splits)
  then show pop: "rob_pop_head_if_complete (c_rob b) = None"
    using commit_head [OF b _ w] unfolding commit_def by (metis less_irrefl)
  obtain m where m: "cfg_width (c_cfg b) = Suc m" using w by (cases "cfg_width (c_cfg b)") auto
  have "commit_one b = (b, False)" using b by (cases rule: commit_one_cases) (simp_all add: pop)
  then have "commit b = b" by (simp add: commit_def m)
  then show "tick c = back_stages b" using t run(1) by simp
qed

section \<open>A cycle without retirement\<close>

text \<open>What a cycle needs of its start, and the cycle by which all reservations are back.\<close>

definition poised :: "(nat \<Rightarrow> Memory \<times> Result) \<Rightarrow> nat \<Rightarrow> Cpu \<Rightarrow> bool" where
  "poised G T c \<longleftrightarrow> lively G c \<and> roomy c \<and> prompt c \<and> due 1 T c"

text \<open>How long nothing need issue: the front end's distance, the longest reservation, what
  waits for writeback.\<close>

definition slack :: "nat \<Rightarrow> Cpu \<Rightarrow> nat" where
  "slack T c = rank c + (T - c_cycle c) + size (work c)"

lemma back_end_quiet:
  assumes b: "core b" "flow G b" "roomy b" "prompt b" "due 0 T b"
  defines "d \<equiv> execute (writeback b)"
  shows "score d = score b" "rank d = rank b" "size (work d) \<le> size (work b)" "due 1 T d"
    "size (work d) = size (work b) \<Longrightarrow> T \<le> c_cycle b \<Longrightarrow> work b = {#} \<and> rob_pop_head_if_complete (c_rob d) = rob_pop_head_if_complete (c_rob b)"
proof -
  have fast: "rob_count (c_rob (complete u e)) = rob_count (c_rob e)" "tags (c_rob (complete u e)) = tags (c_rob e)"
    "idle (complete u e) = u_seq ` set (c_rename_q e) \<union> (iq_seq \<circ> wake_entry (u_dest u)) ` set (iq_entries (c_iq e))"
    "c_rename_q (complete u e) = c_rename_q e" "c_decode_q (complete u e) = c_decode_q e"
    "c_fetch_q (complete u e) = c_fetch_q e" "room (complete u e) = room e" for u e
    by (simp_all add: complete_def Let_def obs_defs idle_def iq_wakeup_def image_comp room_def)
  have seq: "iq_seq \<circ> wake_entry q = iq_seq" for q by (simp add: fun_eq_iff wake_entry_def)
  define key where "key e = (rob_count (c_rob e), tags (c_rob e), idle e, c_rename_q e, c_decode_q e, c_fetch_q e, room e)" for e :: Cpu
  have upd: "key (e\<lparr>c_wb_fast := q\<rparr>) = key e" "key (e\<lparr>c_wb_slow := q\<rparr>) = key e" "key (e\<lparr>c_cdb_booked := x\<rparr>) = key e"
    "key (e\<lparr>c_executing := q\<rparr>) = key e" "key (complete u e) = key e" for e q x u
    by (simp_all add: key_def fast seq) (simp_all add: idle_def room_def)
  have "key (snd (drain_fast us n e)) = key e" "key (drain_slow us n e) = key e" for us n e
    by (induction us arbitrary: n e) (simp_all add: upd)
  then have w: "key (writeback b) = key b" by (simp add: writeback_def Let_def split_beta upd)
  have "key (execute_scan us still e) = key e" for us still e by (induction us arbitrary: still e) (simp_all add: upd)
  then have key: "key d = key b" using w by (simp add: d_def execute_def)
  then show "score d = score b" "rank d = rank b"
    unfolding key_def prod.inject by (simp_all add: score_def bits_def rank_def)
  show "due 1 T d" unfolding d_def by (rule writeback_due [OF b(5,4)])
  obtain m n where p: "pipes (writeback b) = pipes (b\<lparr>c_wb_fast := drop m (c_wb_fast b), c_wb_slow := drop n (c_wb_slow b),
      c_cdb_booked := (c_cdb_booked b)[cdb_slot b (c_cycle b) := 0]\<rparr>)"
    "0 < cfg_num_cdb (c_cfg b) \<and> (c_wb_fast b \<noteq> [] \<or> c_wb_slow b \<noteq> []) \<longrightarrow> size (work (writeback b)) < size (work b)"
  proof (rule writeback_pipes [of b], goal_cases)
    case (1 m n)
    show thesis by (rule 1(1) [OF 1(2)]) (use 1(3) in blast)
  qed
  show "size (work d) \<le> size (work b)" by (simp add: d_def pipes_eqs(6) [OF p(1)]) (simp add: work_def)
  assume idle: "size (work d) = size (work b)" "T \<le> c_cycle b"
  then have q: "c_wb_fast b = []" "c_wb_slow b = []" using p(2) b(3) by (auto simp: d_def roomy_def)
  have "c_executing b = []"
  proof (rule ccontr)
    assume "c_executing b \<noteq> []"
    then have "hd (c_executing b) \<in> set (c_executing b)" by simp
    then have "c_cycle b < u_wb_cycle (hd (c_executing b)) \<and> u_wb_cycle (hd (c_executing b)) \<le> T" using b(5) by (auto simp: due_def)
    then show False using idle(2) by simp
  qed
  moreover have "c_rob (execute_scan us still e) = c_rob e" for us still e by (induction us arbitrary: still e) simp_all
  then have "c_rob d = c_rob b" by (simp add: d_def execute_def writeback_def q)
  ultimately show "work b = {#} \<and> rob_pop_head_if_complete (c_rob d) = rob_pop_head_if_complete (c_rob b)"
    by (simp add: work_def q)
qed

text \<open>From commit to the end of the cycle.\<close>

lemma back_stages_poised:
  assumes G: "golden_run G" and b: "lively G b" "roomy b" "prompt b" "due 0 T b" and r: "renamed (back_stages b) < 2 ^ 32"
  obtains U where "poised G U (back_stages b)" "U \<le> max T (c_cycle b + longest (c_cfg b))"
    "rob_pop_head_if_complete (c_rob b) = None \<Longrightarrow> score b < score (back_stages b) \<or>
       score (back_stages b) = score b \<and> U = T \<and> rank (back_stages b) \<le> rank b \<and> size (work (back_stages b)) \<le> size (work b) \<and>
       (rank (back_stages b) < rank b \<or> c_cycle b < T \<or> size (work (back_stages b)) < size (work b))"
proof -
  define d where "d = execute (writeback b)"
  define i where "i = issue d"
  define e where "e = back_stages b"
  have e: "e = fetch (decode_stage (rename_stage (dispatch i)))" by (simp add: e_def back_stages_def i_def d_def)
  have "renamed b \<le> renamed e" unfolding e_def by (rule back_stages_renamed)
  then have rb: "renamed b < 2 ^ 32" using r by (simp add: e_def)
  note l = lively_parts [OF b(1) rb] and q = back_end_quiet [OF _ _ b(2-4), folded d_def]
  have w: "tracks G (writeback b)" "alert (writeback b)"
    using back_tracks(3) b(1) writeback_alert [OF l(1,2,4)] by (simp_all add: lively_def)
  have rd: "renamed d = renamed b" "renamed i = renamed b"
    by (simp_all add: i_def d_def issue_renamed hazard_eqs [OF writeback_hazard] hazard_eqs [OF execute_hazard])
  have d: "tracks G d" "alert d" using back_tracks(2) [OF w(1)] w(2) by (simp_all add: d_def execute_alert)
  then have ld: "lively G d" by (simp add: lively_def)
  note dl = lively_parts [OF ld rb [folded rd(1)]]
  have fd: "fixed d = fixed b" "sizes d = sizes b" by (simp_all add: d_def, simp add: execute_def)
  have dp: "roomy d" "prompt d" "due 1 T d"
    using roomy_frame [OF fd(2,1)] b(2) back_prompt(2,3) b(3) q(4) l(1,3) by (simp_all add: d_def)
  have cyc: "c_cycle d = c_cycle b" "c_cfg d = c_cfg b" using fd(1) by (simp_all add: fixed_def)
  have li: "lively G i"
    using back_tracks(1) [OF G d(1)] issue_alert [OF G dl(1,2) d(2)] by (simp add: lively_def i_def)
  have ip: "roomy i" "prompt i" using roomy_frame [of i d] dp(1) back_prompt(4) [OF G dl(1,2) dp(2)] by (simp_all add: i_def)
  note due = issue_due [OF G dl(1,2) dp(2,3), folded i_def, unfolded cyc]
  note f = front_moves [OF G li ip(1), folded e]
  have ep: "lively G e" "roomy e" "prompt e" "\<And>U. due 1 U e = due 1 U i" "work e = work i"
  proof -
    show "lively G e" using f(1) by (simp add: calm_def)
    have fx: "fixed e = fixed i" by (simp add: e)
    show "roomy e" using roomy_frame [OF _ fx] ip(1) by (simp add: e)
    show "prompt e" unfolding e by (intro front_prompt ip(2))
    show "due 1 U e = due 1 U i" for U unfolding e by (rule front_due)
    have "pipes e = pipes i" by (simp add: e)
    then show "work e = work i" by (rule pipes_eqs(6))
  qed
  have re: "renamed e < 2 ^ 32" using r by (simp add: e_def)
  have fe: "score e = score i" "rank e \<le> rank i" using f(1) re by (simp_all add: calm_def)
  show thesis
  proof (cases "issue_count d = 0")
    case False
    then have "score b < score e" using issue_score [OF G dl(1,2)] q(1) l(1,3) fe(1) by (simp add: i_def)
    moreover have "poised G (max T (c_cycle b + longest (c_cfg b))) e" using ep due(3) by (simp add: poised_def)
    ultimately show thesis using that [of "max T (c_cycle b + longest (c_cfg b))"] by (simp flip: e_def)
  next
    case True
    note same = due(1) [OF True]
    have "poised G T e" using ep due(2) [OF True] by (simp add: poised_def)
    moreover have s: "score i = score b" "rank i = rank b" "work i = work d"
      using score_whole [OF same] rank_whole [OF same] essence_eqs(13) [OF same] q(1,2) l(1,3) by simp_all
    moreover have le: "size (work d) \<le> size (work b)" by (rule q(3) [OF l(1,3)])
    moreover have "rank e < rank b \<or> c_cycle b < T \<or> size (work e) < size (work b)"
      if pop: "rob_pop_head_if_complete (c_rob b) = None"
    proof (rule ccontr)
      assume "\<not> (rank e < rank b \<or> c_cycle b < T \<or> size (work e) < size (work b))"
      then have n: "\<not> rank e < rank b" "T \<le> c_cycle b" "size (work d) = size (work b)" using le s(3) ep(5) by auto
      have "rank d = 0" using f(2) [OF re] n(1) s(2) q(2) l(1,3) by fastforce
      moreover have e: "work b = {#}" "rob_pop_head_if_complete (c_rob d) = None" using q(5) [OF l(1,3) n(3,2)] pop by simp_all
      moreover have "work d = {#}" using n(3) e(1) by simp
      moreover have "\<forall>ts \<in> set (c_fu_free_at d). \<forall>t \<in> set ts. t \<le> c_cycle d"
      proof -
        have f: "c_fu_free_at (execute_scan us still x) = c_fu_free_at x" for us still x by (induction us arbitrary: still x) simp_all
        obtain m n where p: "pipes (writeback b) = pipes (b\<lparr>c_wb_fast := drop m (c_wb_fast b), c_wb_slow := drop n (c_wb_slow b),
            c_cdb_booked := (c_cdb_booked b)[cdb_slot b (c_cycle b) := 0]\<rparr>)" by (rule writeback_pipes)
        have "c_fu_free_at d = c_fu_free_at b" using pipes_eqs(4) [OF p] by (simp add: d_def execute_def f)
        then show ?thesis using b(4) n(2) by (auto simp: due_def cyc max_def split: if_splits)
      qed
      moreover have "\<forall>i < c_cdb_window d. c_cdb_booked d ! i = 0" using dp(3) n(2) by (auto simp: due_def cyc)
      moreover have "0 < c_cdb_window d" using dp(2) by (simp add: prompt_def)
      ultimately show False using head_issues [OF dl(1,3) d(2) dp(1)] True by simp
    qed
    ultimately show thesis using that [of T] fe ep(5) by (simp flip: e_def)
  qed
qed

text \<open>Commit keeps what the other stages start from.\<close>

lemma commit_one_poised:
  assumes G: "golden_run G" and c: "follows G c" and p: "\<not> cpu_done c \<Longrightarrow> alert c \<and> prompt c \<and> roomy c \<and> due d T c"
  defines "c' \<equiv> fst (commit_one c)"
  shows "follows G c' \<and> (\<not> cpu_done c' \<longrightarrow> alert c' \<and> prompt c' \<and> roomy c' \<and> due d T c')"
proof
  have core: "core c" using c by (simp add: follows_def)
  show "follows G c'" unfolding c'_def by (rule commit_one_follows [OF G c])
  show "\<not> cpu_done c' \<longrightarrow> alert c' \<and> prompt c' \<and> roomy c' \<and> due d T c'"
  proof (cases "cpu_done c")
    case True
    then have "in_flight c = []" using c by (simp add: follows_def)
    then have "rob_pop_head_if_complete (c_rob c) = None"
      using in_flight_core(3) [OF core] by (simp add: rob_pop_head_if_complete_def rob_empty_def)
    moreover from core have "rob_pop_head_if_complete (c_rob c) = None \<longrightarrow> c' = c"
      by (cases rule: commit_one_cases) (simp_all add: c'_def)
    ultimately show ?thesis using True by simp
  next
    case False
    note p = p [OF False]
    have fl: "flowing G c" using c False by (simp add: follows_def flowing_def)
    have fx: "fixed c' = fixed c" by (simp add: c'_def)
    have "due d T c'" if "\<not> cpu_done c'"
      using core
    proof (cases rule: commit_one_cases)
      case stop
      then show ?thesis using p by (simp add: c'_def)
    next
      case (head e r' x)
      then have "\<not> cpu_done x" using that squash_in_flight_frame [of x] by (auto simp: c'_def cpu_done_def committed_def split: if_splits)
      then have "c' = x" by (simp add: c'_def head(3))
      then have "pipes c' = pipes c" by (simp add: head(2)) (simp add: pipes_def)
      then show ?thesis using p due_frame [OF _ fx] by simp
    qed
    then show ?thesis
      using commit_one_alert [OF core fl False] commit_prompt [OF core] roomy_frame [OF commit_one_sizes [OF core] fx [unfolded c'_def]] p
      by (simp add: c'_def)
  qed
qed

lemma begin_cycle_poised:
  assumes "poised G T c" "follows G c" "renamed c < 2 ^ 32"
  defines "b \<equiv> begin_cycle c"
  shows "follows G b" "\<not> cpu_done b" "alert b" "prompt b" "roomy b" "due 0 T b" "score b = score c" "rank b = rank c"
    "work b = work c" "renamed b = renamed c" "c_cycle b = Suc (c_cycle c)" "c_cfg b = c_cfg c"
proof -
  note w = begin_cycle_whole [of c, folded b_def]
  have l: "lively G c" using assms(1) by (simp add: poised_def)
  note l = lively_parts [OF l assms(3)]
  have "c_bpred b = c_bpred c" "c_undefined b = c_undefined c" by (simp_all add: b_def begin_cycle_def Let_def)
  then show "follows G b"
    using assms(2) w whole_flow [OF w(1)] stream_whole [OF w(1)] in_flight_whole [OF w(1)] core_essence [OF whole_eqs(1) [OF w(1)]] l(6)
    by (simp add: follows_def)
  show "\<not> cpu_done b" "alert b" using l(4,6) w alert_whole [OF w(1)] by simp_all
  show "prompt b" "due 0 T b" using assms(1) back_prompt(1) begin_cycle_due by (simp_all add: b_def poised_def)
  show "roomy b" using assms(1) by (simp add: poised_def roomy_def b_def begin_cycle_def Let_def)
  show "score b = score c" "rank b = rank c" "work b = work c"
    using score_whole rank_whole essence_eqs(13) whole_eqs(1) [OF w(1)] by blast+
  show "renamed b = renamed c" "c_cycle b = Suc (c_cycle c)" "c_cfg b = c_cfg c"
    by (simp_all add: b_def begin_cycle_def Let_def)
qed

lemma tick_poised:
  assumes G: "golden_run G" and c: "poised G T c" "follows G c" and r: "renamed (tick c) < 2 ^ 32" and run: "\<not> cpu_done (tick c)"
  obtains U where "poised G U (tick c)" "U \<le> max T (c_cycle (tick c) + longest (c_cfg c))"
    "retired (tick c) = retired c \<Longrightarrow> score c < score (tick c) \<or> score (tick c) = score c \<and> slack U (tick c) < slack T c"
proof -
  define b where "b = begin_cycle c"
  define m where "m = commit b"
  have "renamed c \<le> renamed (tick c)" by (rule tick_renamed)
  then have rc: "renamed c < 2 ^ 32" using r by simp
  note b = begin_cycle_poised [OF c rc, folded b_def]
  have l: "lively G c" using c(1) by (simp add: poised_def)
  note l = lively_parts [OF l rc]
  have "follows G m \<and> (\<not> cpu_done m \<longrightarrow> alert m \<and> prompt m \<and> roomy m \<and> due 0 T m)"
    unfolding m_def commit_def
    by (rule stage_loop_invariant [where P = "\<lambda>d. follows G d \<and> (\<not> cpu_done d \<longrightarrow> alert d \<and> prompt d \<and> roomy d \<and> due 0 T d)"])
      (use commit_one_poised [OF G] b(1-6) in blast)+
  moreover have t: "tick c = (if cpu_done m then m else back_stages m)" using l(6) by (simp add: tick_def Let_def b_def m_def)
  moreover have "\<not> cpu_done m" using run t by auto
  ultimately have m: "follows G m" "\<not> cpu_done m" "alert m" "prompt m" "roomy m" "due 0 T m" and t: "tick c = back_stages m" by simp_all
  have "tracks G m" using m(1,2) by (simp add: follows_def tracks_def flowing_def)
  then have lm: "lively G m" using m(3) by (simp add: lively_def)
  obtain U where U: "poised G U (tick c)" "U \<le> max T (c_cycle m + longest (c_cfg m))"
    "rob_pop_head_if_complete (c_rob m) = None \<Longrightarrow> score m < score (tick c) \<or>
       score (tick c) = score m \<and> U = T \<and> rank (tick c) \<le> rank m \<and> size (work (tick c)) \<le> size (work m) \<and>
       (rank (tick c) < rank m \<or> c_cycle m < T \<or> size (work (tick c)) < size (work m))"
    using back_stages_poised [OF G lm m(5,4,6) r [unfolded t]] unfolding t by metis
  have "fixed m = fixed b" by (simp add: m_def)
  then have fx: "c_cycle m = Suc (c_cycle c)" "c_cfg m = c_cfg c" using b(11,12) by (simp_all add: fixed_def)
  have cyc: "c_cycle (tick c) = Suc (c_cycle c)" by (rule tick_clock(1) [OF l(6)])
  show thesis
  proof (rule that [OF U(1)])
    show "U \<le> max T (c_cycle (tick c) + longest (c_cfg c))" using U(2) by (simp add: fx cyc)
    assume same: "retired (tick c) = retired c"
    have "0 < cfg_width (c_cfg c)" using c(1) by (simp add: poised_def roomy_def)
    note w = tick_waits [OF l(1,6) this same, folded b_def]
    have core: "core b" using b(1) by (simp add: follows_def)
    then have "commit_one b = (b, False)" by (cases rule: commit_one_cases) (simp_all add: w(2))
    then have "m = b" unfolding m_def commit_def by (cases "cfg_width (c_cfg b)") simp_all
    then show "score c < score (tick c) \<or> score (tick c) = score c \<and> slack U (tick c) < slack T c"
      using U(3) w(2) b(7-9,11) by (auto simp: slack_def cyc)
  qed
qed

section \<open>Patience\<close>

text \<open>How many cycles can pass without a retirement: so often can something issue, and so long
  can nothing issue.\<close>

definition pause :: "Config \<Rightarrow> nat" where
  "pause cfg = longest cfg + cfg_rob_size cfg + 5"

definition moves :: "Config \<Rightarrow> nat" where
  "moves cfg = Suc (cfg_rob_size cfg) * 2 ^ cfg_num_checkpoints cfg"

definition patience :: "Config \<Rightarrow> nat" where
  "patience cfg = moves cfg * pause cfg"

text \<open>A machine has one of everything, a physical register beyond the architectural ones, and a width
  and latencies small enough that the sizes derived from them do not wrap in 32 bits (a width of
  \<open>2^31\<close> gives queues of capacity 0, and nothing is ever fetched).\<close>

definition config_live :: "Config \<Rightarrow> bool" where
  "config_live cfg \<longleftrightarrow> cfg_width cfg < 2 ^ 31 \<and> longest cfg + 2 < 2 ^ 32 \<and>
     32 < cfg_prf_size cfg \<and> 0 < cfg_width cfg \<and> 0 < cfg_iq_size cfg \<and> 0 < cfg_lq_size cfg \<and>
     0 < cfg_sq_size cfg \<and> 0 < cfg_num_cdb cfg \<and> 0 < cfg_num_alu cfg \<and> 0 < cfg_num_branch cfg \<and> 0 < cfg_num_mul cfg \<and>
     0 < cfg_num_div cfg \<and> 0 < cfg_num_mem cfg \<and> 0 < cfg_num_checkpoints cfg"

lemma slack_bound:
  assumes "core c" "T \<le> c_cycle c + longest (c_cfg c)" "roomy c"
  shows "slack T c < pause (c_cfg c)"
proof -
  have "waiting (c_rob c) (c_rename_q c) (iq_entries (c_iq c)) (work c)" using assms(1) by (simp add: core_def waits_def)
  then have "mset (map u_seq (c_rename_q c)) + mset (map iq_seq (iq_entries (c_iq c))) + image_mset u_seq (work c) =
      mset (open_seqs (c_rob c))" by (simp add: waiting_def)
  from arg_cong [OF this, of size] have "size (work c) \<le> length (open_seqs (c_rob c))" by simp
  also have "\<dots> \<le> rob_count (c_rob c)" unfolding open_seqs_def by (simp add: order_trans [OF length_filter_le])
  also have "\<dots> \<le> cfg_rob_size (c_cfg c)" using core_room [OF assms(1)] assms(3) by (simp add: roomy_def)
  finally show ?thesis using assms(2) rank_le [of c] by (simp add: slack_def pause_def)
qed

lemma tick_done: "cpu_done c \<Longrightarrow> tick c = c"
  by (simp add: tick_def)

lemma retires_by:
  assumes G: "golden_run G"
  shows "refines G c \<Longrightarrow> renamed c < 2 ^ 32 \<Longrightarrow> poised G T c \<Longrightarrow> T \<le> c_cycle c + longest (c_cfg c) \<Longrightarrow>
    (moves (c_cfg c) - 1 - score c) * pause (c_cfg c) + slack T c < n \<Longrightarrow>
    \<exists>k \<le> n. retired c < retired ((tick ^^ k) c) \<or> 2 ^ 32 \<le> renamed ((tick ^^ k) c)"
proof (induction n arbitrary: c T)
  case (Suc n)
  have l: "lively G c" using Suc.prems(3) by (simp add: poised_def)
  note l = lively_parts [OF l Suc.prems(2)]
  have fol: "follows G c" using Suc.prems(1,2) by (simp add: refines_def)
  show ?case
  proof (cases "retired c < retired (tick c) \<or> 2 ^ 32 \<le> renamed (tick c)")
    case True
    then show ?thesis by (intro exI [of _ 1]) simp
  next
    case False
    then have r: "renamed (tick c) < 2 ^ 32" and "\<not> retired c < retired (tick c)" by simp_all
    have w: "0 < cfg_width (c_cfg c)" using Suc.prems(3) by (simp add: poised_def roomy_def)
    have same: "retired (tick c) = retired c"
    proof -
      have "retired (begin_cycle c) = retired c" by (simp add: begin_cycle_def Let_def)
      then have "retired c \<le> retired (tick c)"
        using commit_retired [of "begin_cycle c"] l(6) by (simp add: tick_def Let_def commit_def back_stages_def)
      then show ?thesis using False by simp
    qed
    have "cpu_done (tick c) = cpu_done (begin_cycle c)"
      using tick_waits(1) [OF l(1,6) w same] committed_eqs(7) [OF back_stages_frames(2)] by simp
    then have run: "\<not> cpu_done (tick c)" using l(6) begin_cycle_whole(2) by simp
    obtain U where U: "poised G U (tick c)" "U \<le> max T (c_cycle (tick c) + longest (c_cfg c))"
      "score c < score (tick c) \<or> score (tick c) = score c \<and> slack U (tick c) < slack T c"
      by (rule tick_poised [OF G Suc.prems(3) fol r run]) (use same in blast)
    have cfg: "c_cfg (tick c) = c_cfg c" "c_cycle (tick c) = Suc (c_cycle c)" using tick_clock [of c] l(6) by simp_all
    have l': "lively G (tick c)" using U(1) by (simp add: poised_def)
    note l' = lively_parts [OF l' r]
    have room: "roomy (tick c)" using U(1) by (simp add: poised_def)
    have U2: "U \<le> c_cycle (tick c) + longest (c_cfg (tick c))" using U(2) Suc.prems(4) by (simp add: cfg)
    have bounds: "slack U (tick c) < pause (c_cfg c)" "score (tick c) < moves (c_cfg c)"
      using slack_bound [OF l'(1) U2 room] score_less [OF l'(1)] room by (simp_all add: cfg roomy_def room_def moves_def)
    have less: "(moves (c_cfg c) - 1 - score (tick c)) * pause (c_cfg c) + slack U (tick c) <
        (moves (c_cfg c) - 1 - score c) * pause (c_cfg c) + slack T c"
      using U(3)
    proof
      assume up: "score c < score (tick c)"
      define x where "x = moves (c_cfg c) - 1 - score (tick c)"
      have "Suc x \<le> moves (c_cfg c) - 1 - score c" using up bounds(2) by (simp add: x_def)
      then have "Suc x * pause (c_cfg c) \<le> (moves (c_cfg c) - 1 - score c) * pause (c_cfg c)" by (rule mult_right_mono) simp
      then show ?thesis using bounds(1) unfolding x_def [symmetric] by simp
    qed simp
    have "\<exists>k \<le> n. retired (tick c) < retired ((tick ^^ k) (tick c)) \<or> 2 ^ 32 \<le> renamed ((tick ^^ k) (tick c))"
      by (rule Suc.IH [OF tick_refines [OF G Suc.prems(1)] r U(1) U2]) (use less Suc.prems(5) in \<open>simp add: cfg\<close>)
    then obtain k where "k \<le> n" "retired (tick c) < retired ((tick ^^ Suc k) c) \<or> 2 ^ 32 \<le> renamed ((tick ^^ Suc k) c)"
      by (auto simp: funpow_swap1)
    then show ?thesis using same by (intro exI [of _ "Suc k"]) simp
  qed
qed simp

section \<open>Reachable states\<close>

definition alive :: "(nat \<Rightarrow> Memory \<times> Result) \<Rightarrow> Cpu \<Rightarrow> bool" where
  "alive G c \<longleftrightarrow> refines G c \<and> (2 ^ 32 \<le> renamed c \<or> cpu_done c \<or> (\<exists>T \<le> c_cycle c + longest (c_cfg c). poised G T c))"

lemma tick_alive:
  assumes G: "golden_run G" and c: "alive G c"
  shows "alive G (tick c)"
proof -
  have ref: "refines G (tick c)" using tick_refines [OF G] c by (simp add: alive_def)
  show ?thesis
  proof (cases "cpu_done c \<or> cpu_done (tick c) \<or> 2 ^ 32 \<le> renamed (tick c)")
    case True
    then show ?thesis using ref tick_done by (auto simp: alive_def)
  next
    case False
    then have r: "renamed (tick c) < 2 ^ 32" and run: "\<not> cpu_done c" "\<not> cpu_done (tick c)" by simp_all
    have "renamed c \<le> renamed (tick c)" by (rule tick_renamed)
    then obtain T where T: "T \<le> c_cycle c + longest (c_cfg c)" "poised G T c" and fol: "follows G c"
      using c r run by (auto simp: alive_def refines_def)
    obtain U where "poised G U (tick c)" "U \<le> max T (c_cycle (tick c) + longest (c_cfg c))"
      by (rule tick_poised [OF G T(2) fol r run(2)])
    moreover have "c_cfg (tick c) = c_cfg c" "c_cycle (tick c) = Suc (c_cycle c)" using tick_clock [of c] run by simp_all
    ultimately have "\<exists>U \<le> c_cycle (tick c) + longest (c_cfg (tick c)). poised G U (tick c)"
      using T(1) by (intro exI [of _ U]) simp
    then show ?thesis using ref by (simp add: alive_def)
  qed
qed

lemma reset_poised:
  assumes ok: "config_ok cfg" "config_live cfg"
  shows "poised (golden mem pc) 0 (make_cpu mem cfg pc)"
proof -
  define c where "c = make_cpu mem cfg pc"
  have f: "follows (golden mem pc) c" unfolding c_def by (rule reset_follows [OF ok(1)])
  have size: "32 < cfg_prf_size cfg" "queue_cap_of cfg = max 1 (cfg_width cfg) * 2" "cdb_window_of cfg = longest cfg + 2"
    using ok(2) by (simp_all add: config_live_def queue_cap_of_def cdb_window_of_def)
  have q: "c_rob c = make_rob (cfg_rob_size cfg)" "c_rename_q c = []" "c_decode_q c = []" "c_prf c = make_prf (cfg_prf_size cfg)"
    "c_iq c = make_iq (cfg_iq_size cfg)" "c_arch_rat c = [0..<32]" "\<not> c_fetch_stalled c" "\<not> cpu_done c" "c_cfg c = cfg"
    "c_executing c = []" "c_cycle c = 0" "c_queue_cap c = max 1 (cfg_width cfg) * 2" "c_ckpts c = make_checkpoint_pool (cfg_num_checkpoints cfg)"
    "c_free_list c = make_free_list (cfg_prf_size cfg)" "c_lsq c = make_lsq (cfg_lq_size cfg) (cfg_sq_size cfg)"
    "c_cdb_window c = longest cfg + 2" "c_cdb_booked c = replicate (longest cfg + 2) 0"
    "c_fu_free_at c = [replicate (cfg_num_alu cfg) 0, replicate (cfg_num_branch cfg) 0,
       replicate (cfg_num_mul cfg) 0, replicate (cfg_num_div cfg) 0, replicate (cfg_num_mem cfg) 0]"
    using size by (simp_all only: c_def make_cpu_def Let_def Cpu.select_convs) (simp_all add: cpu_done_def)
  have infl: "in_flight c = []" by (simp add: in_flight_def uops_def q make_rob_def)
  have "alert c"
    using size by (auto simp: alert_def infl q make_iq_def program_ordered_def heard_def answered_def prf_is_ready_def make_prf_def)
  moreover have "tracks (golden mem pc) c" using f q(8) by (simp add: follows_def tracks_def flowing_def)
  moreover have "roomy c"
    using ok by (auto simp: roomy_def q config_live_def config_ok_def make_iq_def make_lsq_def make_lsq_queue_def
        make_checkpoint_pool_def make_free_list_def make_rob_def rob_capacity_def gr0_conv_Suc)
  moreover have "prompt c" by (simp add: prompt_def q make_iq_def)
  moreover have "\<forall>i < c_cdb_window c. c_cdb_booked c ! i = 0" unfolding q(16,17) by (intro allI impI nth_replicate)
  then have "due 1 0 c" by (auto simp: due_def q(10,18))
  ultimately show ?thesis by (simp add: poised_def lively_def flip: c_def)
qed

lemma reachable_alive:
  assumes "config_ok cfg" "config_live cfg" "tame (golden mem pc)" "reachable (make_cpu mem cfg pc) c"
  shows "alive (golden mem pc) c"
proof (rule reachable_invariant [OF assms(4)])
  show "alive (golden mem pc) (make_cpu mem cfg pc)"
    using reset_poised [OF assms(1,2)] reset_follows [OF assms(1)] by (auto simp: alive_def refines_def)
qed (rule tick_alive [OF golden_run_golden [OF assms(3)]])

lemma reachable_retires:
  assumes "config_ok cfg" "config_live cfg" "tame (golden mem pc)" "reachable (make_cpu mem cfg pc) c" "\<not> cpu_done c"
  shows "\<exists>k \<le> patience cfg. retired c < retired ((tick ^^ k) c) \<or> 2 ^ 32 \<le> renamed ((tick ^^ k) c)"
proof (cases "2 ^ 32 \<le> renamed c")
  case True
  then show ?thesis by (intro exI [of _ 0]) simp
next
  case False
  note G = golden_run_golden [OF assms(3)]
  have a: "alive (golden mem pc) c" by (rule reachable_alive [OF assms(1-4)])
  then obtain T where T: "T \<le> c_cycle c + longest (c_cfg c)" "poised (golden mem pc) T c"
    using False assms(5) by (auto simp: alive_def)
  have cfg: "c_cfg c = cfg" by (rule reachable_renamed(2) [OF assms(4)])
  have core: "core c" using T(2) False lively_parts(1) by (auto simp: poised_def not_le)
  have "slack T c < pause cfg" using slack_bound [OF core T(1)] T(2) by (simp add: poised_def cfg)
  moreover have "(moves cfg - 1 - score c) * pause cfg \<le> (moves cfg - 1) * pause cfg"
    by (rule mult_right_mono) simp_all
  moreover have "(moves cfg - 1) * pause cfg + pause cfg = patience cfg"
  proof -
    have "moves cfg = Suc (moves cfg - 1)" by (simp add: moves_def)
    then show ?thesis unfolding patience_def by (metis add.commute mult_Suc)
  qed
  ultimately have "(moves cfg - 1 - score c) * pause cfg + slack T c < patience cfg" by linarith
  then show ?thesis
    using retires_by [OF G _ _ T(2,1), of "patience cfg"] a False by (simp add: alive_def cfg)
qed

section \<open>The reference ends, the pipeline ends\<close>

lemma run_cpu_ticks: "snd (run_cpu (c_cycle c + n) c) = (tick ^^ n) c"
proof (induction n arbitrary: c)
  case 0
  show ?case by (subst run_cpu.simps) simp
next
  case (Suc n)
  show ?case
  proof (cases "cpu_done c")
    case True
    have "(tick ^^ k) c = c" for k by (induction k) (simp_all add: tick_done True)
    then show ?thesis using True by (subst run_cpu.simps) (simp del: funpow.simps)
  next
    case False
    then have "run_cpu (c_cycle c + Suc n) c = run_cpu (c_cycle (tick c) + n) (tick c)"
      by (subst run_cpu.simps) (simp add: tick_clock(1))
    then show ?thesis using Suc [of "tick c"] by (simp add: funpow_swap1)
  qed
qed

lemma ticks_reachable: "reachable c0 c \<Longrightarrow> reachable c0 ((tick ^^ n) c)"
  by (induction n) (simp_all add: reach_tick)

lemma ticks_mono: "retired c \<le> retired ((tick ^^ n) c)" "renamed c \<le> renamed ((tick ^^ n) c)"
proof -
  have one: "retired d \<le> retired (tick d)" for d
  proof -
    have "retired (begin_cycle d) = retired d" by (simp add: begin_cycle_def Let_def)
    then show ?thesis using commit_retired [of "begin_cycle d"] by (simp add: tick_def Let_def commit_def back_stages_def)
  qed
  show "retired c \<le> retired ((tick ^^ n) c)" by (induction n) (auto intro: order_trans one)
  show "renamed c \<le> renamed ((tick ^^ n) c)" by (induction n) (auto intro: order_trans tick_renamed(1))
qed

text \<open>\<open>N\<close> retirements take at most \<open>N\<close> times the patience.\<close>

lemma retires_many:
  assumes "config_ok cfg" "config_live cfg" "tame (golden mem pc)"
  defines "c0 \<equiv> make_cpu mem cfg pc"
  shows "\<exists>n \<le> N * patience cfg. 2 ^ 32 \<le> renamed ((tick ^^ n) c0) \<or> cpu_done ((tick ^^ n) c0) \<or> N \<le> retired ((tick ^^ n) c0)"
proof (induction N)
  case 0
  show ?case by (intro exI [of _ 0]) simp
next
  case (Suc N)
  then obtain n where n: "n \<le> N * patience cfg"
    "2 ^ 32 \<le> renamed ((tick ^^ n) c0) \<or> cpu_done ((tick ^^ n) c0) \<or> N \<le> retired ((tick ^^ n) c0)" by blast
  define c where "c = (tick ^^ n) c0"
  have reach: "reachable c0 c" unfolding c_def by (rule ticks_reachable) (rule reach_start)
  show ?case
  proof (cases "2 ^ 32 \<le> renamed c \<or> cpu_done c")
    case True
    then show ?thesis using n(1) by (intro exI [of _ n]) (auto simp: c_def)
  next
    case False
    then obtain k where k: "k \<le> patience cfg" "retired c < retired ((tick ^^ k) c) \<or> 2 ^ 32 \<le> renamed ((tick ^^ k) c)"
      using reachable_retires [OF assms(1-3) reach [unfolded c0_def]] by blast
    have "(tick ^^ k) c = (tick ^^ (k + n)) c0" by (simp add: c_def funpow_add)
    moreover have "N \<le> retired c" using n(2) False by (simp add: c_def)
    ultimately have "2 ^ 32 \<le> renamed ((tick ^^ (k + n)) c0) \<or> Suc N \<le> retired ((tick ^^ (k + n)) c0)"
      using k(2) by (metis Suc_leI le_less_trans)
    moreover have "k + n \<le> Suc N * patience cfg" using n(1) k(1) by simp
    ultimately show ?thesis by blast
  qed
qed

lemma ref_run_ends:
  assumes "\<forall>j < m. \<not> rs_done (snd (golden mem pc j))" "rs_done (snd (golden mem pc m))" "m \<le> N" "k \<le> m"
  shows "ref_run N (golden mem pc k) = golden mem pc m"
  using assms(4)
proof (induction rule: inc_induct)
  case base
  then show ?case using assms(2) by (simp add: ref_run.simps)
next
  case (step k)
  have "ref_run N (golden mem pc k) = ref_run N (golden mem pc (Suc k))"
    using assms(1,3) step(2) by (subst ref_run.simps) (simp add: golden_retired golden_Suc)
  with step.IH show ?case by simp
qed

lemma run_matches_reference:
  assumes ok: "config_ok cfg" "config_live cfg" and tame: "tame (golden mem pc)"
    and ends: "rs_done (snd (ref_run N (mem, start_result pc)))" and n: "N * patience cfg \<le> n"
  defines "c \<equiv> snd (run_cpu n (make_cpu mem cfg pc))"
  assumes wrap: "renamed c < 2 ^ 32"
  shows "cpu_done c \<and> committed_state c = reference_state (ref_run N (mem, start_result pc))"
proof -
  define c0 where "c0 = make_cpu mem cfg pc"
  define G where "G = golden mem pc"
  have G: "golden_run G" unfolding G_def by (rule golden_run_golden [OF tame])
  have "c_cycle c0 = 0" by (simp add: c0_def make_cpu_def Let_def)
  then have c: "c = (tick ^^ n) c0" using run_cpu_ticks [of c0 n] by (simp add: c_def c0_def)
  obtain k where k: "k \<le> n" "2 ^ 32 \<le> renamed ((tick ^^ k) c0) \<or> cpu_done ((tick ^^ k) c0) \<or> N \<le> retired ((tick ^^ k) c0)"
    using retires_many [OF ok tame, of N] n unfolding c0_def by (meson order_trans)
  have later: "c = (tick ^^ (n - k)) ((tick ^^ k) c0)" using k(1) funpow_add [of "n - k" k tick] by (simp add: c)
  have still: "cpu_done d \<Longrightarrow> (tick ^^ j) d = d" for j d by (induction j) (simp_all add: tick_done)
  have far: "cpu_done c \<or> N \<le> retired c"
    using k(2) wrap ticks_mono [of "(tick ^^ k) c0" "n - k"] still [of "(tick ^^ k) c0" "n - k"] unfolding later by auto
  have "reachable c0 c" unfolding c by (rule ticks_reachable) (rule reach_start)
  then have "refines G c" unfolding c0_def G_def by (rule reachable_refines [OF ok(1) tame])
  then have fol: "follows G c" using wrap by (simp add: refines_def)
  then have sync: "committed_state c = reference_state (G (retired c))" by (simp add: follows_def flow_def synced_states)
  then have done_eq: "cpu_done c = rs_done (snd (G (retired c)))"
    by (simp add: committed_state_def reference_state_def cpu_done_def rs_done_def)
  have short: "j < N" if "\<not> rs_done (snd (G j))" for j
  proof (rule ccontr)
    assume "\<not> j < N"
    then have run: "\<forall>i \<le> N. \<not> rs_done (snd (G i))" using golden_running [OF G that] by simp
    then obtain b where "snd (ref_run N (mem, start_result pc)) = (snd (G N))\<lparr>rs_budget := b\<rparr>"
      using ref_run_golden [of N mem pc 0] by (auto simp: G_def)
    then show False using ends run by (simp add: rs_done_def)
  qed
  have "rs_done (snd (G (retired c)))" using far short [of "retired c"] done_eq by auto
  moreover have "\<forall>j < retired c. \<not> rs_done (snd (G j))" using fol calculation done_eq by (simp add: follows_def)
  moreover have "retired c \<le> N"
  proof (cases "retired c")
    case (Suc m)
    then show ?thesis using calculation(2) short [of m] by simp
  qed simp
  ultimately have "ref_run N (mem, start_result pc) = G (retired c)"
    using ref_run_ends [of "retired c" mem pc N 0] by (simp add: G_def)
  then show ?thesis using sync done_eq \<open>rs_done (snd (G (retired c)))\<close> by simp
qed

lemma default_config_live: "config_live default_config"
  by (simp add: config_live_def default_longest) (simp add: default_config_def)

lemma default_patience: "patience default_config = 123273216"
proof -
  have "cfg_rob_size default_config = 32" "cfg_num_checkpoints default_config = 16" by (simp_all add: default_config_def)
  then show ?thesis by (simp add: patience_def moves_def pause_def default_longest)
qed

section \<open>Properties\<close>

text \<open>C2: No deadlock and no livelock. On a machine with at least one of every structure and unit and
  at least one physical register beyond the architectural 32, with a width below 2^31 and latencies
  below 2^32 - 2 (so that the derived queue capacity and booking window do not wrap), a program that stays inside its
  address space and does not modify its code never makes the pipeline wait for ever: whatever the
  state reached, another instruction retires within \<open>patience\<close> cycles, a bound computed from the
  configuration alone, or 32-bit sequence numbers have been used up.\<close>

theorem instructions_keep_retiring:
  assumes "config_ok cfg" "config_live cfg" "tame (golden mem pc)" "reachable (make_cpu mem cfg pc) c" "\<not> cpu_done c"
  shows "\<exists>k \<le> patience cfg. st_retired (c_stats c) < st_retired (c_stats ((tick ^^ k) c)) \<or>
    2 ^ 32 \<le> st_renamed (c_stats ((tick ^^ k) c))"
  by (rule reachable_retires [OF assms])

theorem instructions_keep_retiring_witness:
  "\<exists>k \<le> patience default_config. st_retired (c_stats (make_cpu exit_program default_config 0)) <
      st_retired (c_stats ((tick ^^ k) (make_cpu exit_program default_config 0))) \<or>
    2 ^ 32 \<le> st_renamed (c_stats ((tick ^^ k) (make_cpu exit_program default_config 0)))"
proof (rule instructions_keep_retiring [OF default_config_ok default_config_live exit_tame reach_start])
  show "\<not> cpu_done (make_cpu exit_program default_config 0)" by (simp add: cpu_done_def make_cpu_def Let_def)
qed

text \<open>C3: Total correctness, until sequence numbers wrap. If the reference interpreter finishes a program
  within \<open>N\<close> instructions and \<open>run\<close> is given at least \<open>N\<close> times \<open>patience\<close> cycles, then either \<open>run\<close>
  has renamed 2^32 instructions, speculative ones included, or it returns true and memory, registers,
  PC, the way the program ended and its exit code are the reference's at its end. There is no bound
  on \<open>N\<close>. The first case is excluded where the cycles times the width stay below 2^32, and is a
  matter of what the run does otherwise: \<open>patience\<close> is a worst case over all programs.\<close>

theorem pipeline_finishes_with_reference:
  assumes "config_ok cfg" "config_live cfg" "tame (golden mem pc)"
    "rs_done (snd (ref_run N (mem, start_result pc)))" "N * patience cfg \<le> n"
  shows "let (ok, c) = run_cpu n (make_cpu mem cfg pc)
     in 2 ^ 32 \<le> st_renamed (c_stats c) \<or>
        ok \<and> committed_state c = reference_state (ref_run N (mem, start_result pc))"
proof -
  define c where "c = snd (run_cpu n (make_cpu mem cfg pc))"
  have "cpu_done c \<and> committed_state c = reference_state (ref_run N (mem, start_result pc))"
    if "st_renamed (c_stats c) < 2 ^ 32"
    using that unfolding c_def by (rule run_matches_reference [OF assms])
  moreover obtain ok where r: "run_cpu n (make_cpu mem cfg pc) = (ok, c)"
    unfolding c_def by (metis prod.collapse)
  ultimately show ?thesis using run_cpu_result [OF r] by (auto simp: r not_le [symmetric])
qed

theorem pipeline_finishes_with_reference_witness:
  "let (ok, c) = run_cpu (2 * patience default_config) (make_cpu exit_program default_config 0)
     in ok \<and> committed_state c = reference_state (ref_run 2 (exit_program, start_result 0))"
proof -
  define P where "P m \<longleftrightarrow> rs_done (snd (golden exit_program 0 m))" for m
  define m where "m = (LEAST m. P m)"
  have two: "P 2" unfolding P_def using exit_steps(5) by (simp add: numeral_2_eq_2 golden_Suc)
  have "P m" "m \<le> 2" unfolding m_def using LeastI [of P, OF two] Least_le [of P, OF two] by blast+
  moreover have "\<forall>j < m. \<not> P j" using not_less_Least [of _ P] unfolding m_def by blast
  ultimately have m: "rs_done (snd (golden exit_program 0 m))" "m \<le> 2" "\<forall>j < m. \<not> rs_done (snd (golden exit_program 0 j))"
    unfolding P_def by blast+
  have ends: "rs_done (snd (ref_run 2 (exit_program, start_result 0)))"
    using ref_run_ends [OF m(3,1,2), of 0] m(1) by simp
  have "2 * patience default_config * cfg_width default_config < 2 ^ 32"
    unfolding default_patience by (simp add: default_config_def)
  with run_renamed [of "2 * patience default_config" exit_program default_config 0]
  have short: "st_renamed (c_stats (snd (run_cpu (2 * patience default_config) (make_cpu exit_program default_config 0)))) < 2 ^ 32"
    by (rule le_less_trans)
  show ?thesis
    using pipeline_finishes_with_reference [OF default_config_ok default_config_live exit_tame ends order_refl] short
    by (auto simp: split_beta Let_def)
qed

end
