(* ===== verification/Starvation.thy ===== *)
theory Starvation
  imports Progress
begin

text \<open>
  Why \<open>config_live\<close> asks for more than 32 physical registers: with exactly 32, which the
  configuration allows, none is ever free and rename waits for ever at the first instruction that
  writes a register. Also why it bounds the width.
\<close>

section \<open>The smallest register file\<close>

text \<open>The committed mapping holds every register there is.\<close>

lemma none_free:
  assumes c: "core c" and size: "fl_capacity (c_free_list c) = 32"
  shows "fl_free (c_free_list c) = []" "dests (map uop_view (in_flight c)) = []"
proof -
  have "regs_inv (c_arch_rat c) (c_free_list c) (map uop_view (in_flight c))" by (rule core_facts(1) [OF c])
  then have "mset (fl_free (c_free_list c)) + mset (dests (map uop_view (in_flight c))) + mset (tl (c_arch_rat c)) = mset [1..<32]"
    and "length (c_arch_rat c) = 32" by (simp_all add: regs_inv_def size)
  from arg_cong [OF this(1), of size] this(2)
  show "fl_free (c_free_list c) = []" "dests (map uop_view (in_flight c)) = []" by simp_all
qed

text \<open>Before anything has retired, the oldest instruction in the machine is the program's first.\<close>

lemma oldest_is_first:
  assumes c: "flowing G c" "\<not> cpu_done c" "retired c = 0" and u: "stream c = u # us"
  shows "decode (u_raw u) = insn_at (G 0)"
proof -
  note p = flow_parts [of G c]
  have fl: "flow G c" and "chained (length (stream c)) c" using c(1) by (simp_all add: flowing_def)
  then have "pcs c ! 0 = (c_arch_pc c # outs c) ! 0" using u unfolding chained_def by (cases "pcs c") (auto simp: pcs_def)
  moreover have "pcs c ! 0 = u_pc u" by (simp add: pcs_def u)
  ultimately have "u_pc u = c_arch_pc c" by simp
  then have path: "on_path (G 0) u"
    using p(12) [OF fl] c(2,3) by (simp add: on_path_def synced_def split_beta rs_done_def cpu_done_def)
  then have "right G 0 (stream c) 0" by (simp add: right_def u)
  then have "fetched (G 0) u" using p(9) [OF fl] by (auto simp: fetch_ok_def c(3) u)
  then show ?thesis using path by (simp add: fetched_def on_path_def insn_at_def)
qed

text \<open>If it writes a register it is never renamed, so nothing is ever in flight.\<close>

definition starving :: "(nat \<Rightarrow> Memory \<times> Result) \<Rightarrow> Cpu \<Rightarrow> bool" where
  "starving G c \<longleftrightarrow> tracks G c \<and> fl_capacity (c_free_list c) = 32 \<and> retired c = 0 \<and> renamed c = 0"

lemma tracks_unwrapped:
  assumes "renamed c = 0"
  shows "tracks G c \<longleftrightarrow> follows G c \<and> \<not> cpu_done c"
proof (cases "cpu_done c")
  case False
  then show ?thesis using assms by (simp add: tracks_def follows_def flowing_def conj_ac)
qed (simp add: tracks_def assms)

lemma starving_parts:
  assumes "starving G c"
  shows "core c" "flowing G c" "flow G c" "\<not> cpu_done c" "fl_capacity (c_free_list c) = 32" "retired c = 0"
  using assms tracks_unwrapped [of c G] by (simp_all add: starving_def follows_def flowing_def)

lemma starving_step:
  "starving G c \<Longrightarrow> tracks G c' \<Longrightarrow> sizes c' = sizes c \<Longrightarrow> retired c' = retired c \<Longrightarrow> renamed c' = renamed c \<Longrightarrow> starving G c'"
  using sizes_eqs(6) [of c' c] by (simp add: starving_def)

lemma starving_empty:
  assumes w: "d_writes_rd (insn_at (G 0))" and c: "starving G c"
  shows "in_flight c = []"
proof (cases "in_flight c")
  case (Cons u us)
  note p = starving_parts [OF c]
  have "decode (u_raw u) = insn_at (G 0)" by (rule oldest_is_first [OF p(2,4,6)]) (simp add: stream_def Cons)
  moreover have "shaped (idle c) u" using flow_parts(3) [OF p(3)] Cons by simp
  ultimately have "u_dest u \<noteq> INVALID_PHYSREG" using w by (simp add: shaped_def decoded_uop_def)
  moreover have "dests (map uop_view (in_flight c)) = []" by (rule none_free(2) [OF p(1,5)])
  ultimately show ?thesis by (simp add: Cons dests_def v_writes_def uop_view_def)
qed

lemma starving_commit:
  assumes w: "d_writes_rd (insn_at (G 0))" and c: "starving G c"
  shows "commit c = c"
proof -
  note p = starving_parts [OF c]
  from p(1) have "commit_one c = (c, False)"
  proof (cases rule: commit_one_cases)
    case (head e r' d)
    then obtain ds where "in_flight c = c_inflight c ! rob_nth (c_rob c) 0 # ds @ c_rename_q c"
      using head_facts [OF p(1,2,4) head(1)] by metis
    then show ?thesis by (simp add: starving_empty [of G, OF w c])
  qed
  then show ?thesis unfolding commit_def by (cases "cfg_width (c_cfg c)") simp_all
qed

lemma starving_rename:
  assumes w: "d_writes_rd (insn_at (G 0))" and c: "starving G c"
  shows "starving G (fst (rename_one c))"
proof -
  note p = starving_parts [OF c]
  have t: "tracks G (fst (rename_one c))" using c front_tracks(3) by (simp add: starving_def)
  show ?thesis
  proof (cases rule: rename_one_cases [of c])
    case none
    with c show ?thesis by simp
  next
    case (stall s)
    show ?thesis by (rule starving_step [OF c t]) (use t in \<open>simp_all add: stall starving_def\<close>)
  next
    case (go u rest dest c1)
    then have "decode (u_raw u) = insn_at (G 0)"
      by (intro oldest_is_first [OF p(2,4,6)]) (simp add: stream_def starving_empty [of G, OF w c])
    moreover have "decoded_uop u" using flow_parts(4) [OF p(3)] go(1) by (simp add: front_shaped_def)
    ultimately have "d_writes_rd (u_dec u)" using w by (simp add: decoded_uop_def)
    then show ?thesis using go(4) none_free(1) [OF p(1,5)] by (simp add: take_dest_def fl_alloc_def)
  qed
qed

lemma starving_tick:
  assumes G: "golden_run G" and w: "d_writes_rd (insn_at (G 0))" and c: "starving G c"
  shows "starving G (tick c)"
proof -
  note p = starving_parts [OF c]
  define b where "b = begin_cycle c"
  have "c_free_list b = c_free_list c" "c_stats b = (c_stats c)\<lparr>st_cycles := st_cycles (c_stats c) + 1\<rparr>"
    by (simp_all add: b_def begin_cycle_def Let_def)
  moreover have "tracks G b"
    using c begin_cycle_follows [of G c] begin_cycle_whole(2) [of c] calculation(2) tracks_unwrapped [of c G] tracks_unwrapped [of b G]
    by (simp add: starving_def flip: b_def)
  ultimately have b: "starving G b" using c by (simp add: starving_def)
  define d where "d = dispatch (issue (execute (writeback b)))"
  have "starving G d"
    by (rule starving_step [OF b])
      (use b in \<open>simp_all add: d_def stages_renamed front_stage_tracks(4) back_tracks(1) [OF G] back_tracks(2,3) starving_def\<close>)
  then have r: "starving G (rename_stage d)"
    unfolding rename_stage_def by (rule stage_loop_invariant [rotated]) (rule starving_rename [of G, OF w])
  have "starving G (fetch (decode_stage (rename_stage d)))"
    by (rule starving_step [OF r])
      (use r in \<open>simp_all add: stages_renamed front_stage_tracks(2) front_stage_tracks(1) [OF G] starving_def\<close>)
  moreover have "commit b = b" by (rule starving_commit [of G, OF w b])
  then have "tick c = back_stages b"
    using p(4) starving_parts(4) [OF b] by (simp add: tick_def flip: b_def)
  ultimately show ?thesis by (simp add: back_stages_def flip: d_def)
qed

lemma reachable_starving:
  assumes ok: "config_ok cfg" "cfg_prf_size cfg = 32" and tame: "tame (golden mem pc)"
    and w: "d_writes_rd (decode (load_u32 mem pc))" and reach: "reachable (make_cpu mem cfg pc) c"
  shows "starving (golden mem pc) c"
proof (rule reachable_invariant [OF reach])
  have c: "c_free_list (make_cpu mem cfg pc) = make_free_list 32" "\<not> cpu_done (make_cpu mem cfg pc)"
    "c_stats (make_cpu mem cfg pc) = zero_stats"
    by (simp_all only: make_cpu_def Let_def Cpu.select_convs ok(2)) (simp_all add: cpu_done_def)
  have "fl_capacity (make_free_list 32) = 32" by (simp add: make_free_list_def)
  then show "starving (golden mem pc) (make_cpu mem cfg pc)"
    using reset_follows [OF ok(1), of mem pc]
    by (simp add: starving_def tracks_def follows_def flowing_def c zero_stats_def)
  have "d_writes_rd (insn_at (golden mem pc 0))" using w by (simp add: insn_at_def golden_def start_result_def)
  then show "starving (golden mem pc) d \<Longrightarrow> starving (golden mem pc) (tick d)" for d
    by (rule starving_tick [of "golden mem pc", OF golden_run_golden [OF tame]])
qed

section \<open>The widest machine\<close>

text \<open>At a width of \<open>2^31\<close> the queue capacity, twice the width, wraps to 0: \<open>fetch\<close>, run on any state of the
  cycle, does nothing.\<close>

lemma widest_machine_never_fetches:
  assumes "cfg_width cfg = 2 ^ 31" "reachable (make_cpu mem cfg pc) c" "c_queue_cap d = c_queue_cap c"
  shows "fetch d = d"
proof -
  have "c_queue_cap c = 0"
  proof (rule reachable_invariant [OF assms(2)])
    show "c_queue_cap (make_cpu mem cfg pc) = 0" by (simp add: make_cpu_def Let_def queue_cap_of_def assms(1))
  qed (simp add: tick_clock(3))
  then have "fetch_one d = (d, False)" by (simp add: fetch_one_def assms(3))
  then show ?thesis by (cases "cfg_width (c_cfg d)") (simp_all add: fetch_def)
qed

section \<open>Properties\<close>

text \<open>C14: A register file of 32 deadlocks. With exactly 32 physical registers, which the
  configuration allows, a program that starts with an instruction that writes a register renames
  nothing, retires nothing and does not end, however long it runs: rename waits for a register for
  ever. What the liveness theorem asks of the register file cannot be weakened.\<close>

theorem smallest_register_file_starves:
  assumes "config_ok cfg" "cfg_prf_size cfg = 32" "tame (golden mem pc)"
    "d_writes_rd (decode (load_u32 mem pc))" "reachable (make_cpu mem cfg pc) c"
  shows "st_renamed (c_stats c) = 0 \<and> st_retired (c_stats c) = 0 \<and> \<not> cpu_done c"
  using reachable_starving [OF assms] starving_parts(4) by (auto simp: starving_def)

theorem smallest_register_file_starves_witness:
  "let c = snd (run_cpu 1000 (make_cpu exit_program (default_config\<lparr>cfg_prf_size := 32\<rparr>) 0))
   in st_renamed (c_stats c) = 0 \<and> st_retired (c_stats c) = 0 \<and> \<not> cpu_done c"
proof -
  define cfg where "cfg = default_config\<lparr>cfg_prf_size := 32\<rparr>"
  define c where "c = snd (run_cpu 1000 (make_cpu exit_program cfg 0))"
  have "st_renamed (c_stats c) = 0 \<and> st_retired (c_stats c) = 0 \<and> \<not> cpu_done c"
  proof (rule smallest_register_file_starves [OF _ _ exit_tame])
    show "config_ok cfg" "cfg_prf_size cfg = 32"
      by (simp_all add: cfg_def default_config_def config_ok_def cdb_window_of_def longest_def uint32_max_def)
    show "d_writes_rd (decode (load_u32 exit_program 0))" by (simp add: exit_insns exit_decoded)
    show "reachable (make_cpu exit_program cfg 0) c" unfolding c_def by (rule run_cpu_reachable) (rule reach_start)
  qed
  then show ?thesis by (simp add: Let_def flip: c_def cfg_def)
qed

end
