(* ===== verification/Text.thy ===== *)
theory Text
  imports Prelude
begin

text \<open>
  Text as the program writes and reads it: the decimal and hexadecimal conversions of the
  standard library that \<^verbatim>\<open>src/src\<close> calls, and splitting at separators. A string is a list of
  characters; what is printed reads back.
\<close>

section \<open>Printing\<close>

definition digit_char :: "nat \<Rightarrow> char" where
  "digit_char n = (if n < 10 then char_of (48 + n) else char_of (55 + n))"

text \<open>\<open>std::to_string\<close>, \<open>%u\<close> and \<open>%X\<close>: the digits in a base, most significant first.\<close>

fun show_base :: "nat \<Rightarrow> nat \<Rightarrow> string" where
  "show_base b n = (if b < 2 \<or> n < b then [digit_char n] else show_base b (n div b) @ [digit_char (n mod b)])"

declare show_base.simps [simp del]

definition show_nat :: "nat \<Rightarrow> string" where
  "show_nat n = show_base 10 n"

definition show_int :: "int \<Rightarrow> string" where
  "show_int i = (if i < 0 then CHR ''-'' # show_nat (nat (- i)) else show_nat (nat i))"

section \<open>Reading\<close>

definition is_digit :: "char \<Rightarrow> bool" where
  "is_digit c \<longleftrightarrow> 48 \<le> (of_char c :: nat) \<and> (of_char c :: nat) \<le> 57"

definition is_hex_digit :: "char \<Rightarrow> bool" where
  "is_hex_digit c \<longleftrightarrow> is_digit c \<or> 65 \<le> (of_char c :: nat) \<and> (of_char c :: nat) \<le> 70 \<or>
     97 \<le> (of_char c :: nat) \<and> (of_char c :: nat) \<le> 102"

definition digit_value :: "char \<Rightarrow> nat" where
  "digit_value c = (let n = of_char c :: nat in
     if n \<le> 57 then n - 48 else if n \<le> 70 then n - 55 else n - 87)"

definition read_base :: "nat \<Rightarrow> string \<Rightarrow> nat" where
  "read_base b s = foldl (\<lambda>acc c. acc * b + digit_value c) 0 s"

definition read_int :: "string \<Rightarrow> int" where
  "read_int s = (case s of
       [] \<Rightarrow> 0
     | c # cs \<Rightarrow> if c = CHR ''-'' then - int (read_base 10 cs) else int (read_base 10 s))"

text \<open>The pieces of a text between separators.\<close>

fun pieces :: "(char \<Rightarrow> bool) \<Rightarrow> string \<Rightarrow> string list" where
  "pieces P [] = [[]]"
| "pieces P (c # cs) = (if P c then [] # pieces P cs
     else case pieces P cs of [] \<Rightarrow> [[c]] | w # ws \<Rightarrow> (c # w) # ws)"

section \<open>What is printed reads back\<close>

lemma of_char_digit: "n < 16 \<Longrightarrow> (of_char (digit_char n) :: nat) = (if n < 10 then 48 + n else 55 + n)"
  by (simp add: digit_char_def)

lemma digit_value_char [simp]: "n < 16 \<Longrightarrow> digit_value (digit_char n) = n"
  by (simp add: digit_value_def of_char_digit)

lemma is_hex_digit_char: "n < 16 \<Longrightarrow> is_hex_digit (digit_char n)"
  by (simp add: is_hex_digit_def is_digit_def of_char_digit)

lemma is_digit_char: "n < 10 \<Longrightarrow> is_digit (digit_char n)"
  by (simp add: is_digit_def of_char_digit)

lemma show_base_digits: "2 \<le> b \<Longrightarrow> set (show_base b n) \<subseteq> digit_char ` {..<b}"
proof (induction b n rule: show_base.induct)
  case (1 b n)
  show ?case
  proof (cases "n < b")
    case True
    with 1(2) show ?thesis by (simp add: show_base.simps [of b n])
  next
    case False
    with 1 have "set (show_base b (n div b)) \<subseteq> digit_char ` {..<b}" by simp
    moreover have "n mod b < b" using 1(2) by simp
    ultimately show ?thesis using False 1(2) by (simp add: show_base.simps [of b n])
  qed
qed

lemma read_base_snoc: "read_base b (s @ [c]) = read_base b s * b + digit_value c"
  by (simp add: read_base_def)

lemma read_show_base:
  assumes "2 \<le> b" "b \<le> 16"
  shows "read_base b (show_base b n) = n"
  using assms
proof (induction b n rule: show_base.induct)
  case (1 b n)
  show ?case
  proof (cases "n < b")
    case True
    with 1(2,3) show ?thesis by (simp add: show_base.simps [of b n] read_base_def)
  next
    case False
    then have ih: "read_base b (show_base b (n div b)) = n div b" using 1 by simp
    have "0 < b" using 1(2) by simp
    then have "n mod b < b" by (rule mod_less_divisor)
    then have "n mod b < 16" using 1(3) by (rule less_le_trans)
    then have "read_base b (show_base b n) = n div b * b + n mod b"
      using False 1(2) ih by (simp add: show_base.simps [of b n] read_base_snoc)
    then show ?thesis by simp
  qed
qed

lemma show_base_not_Nil [simp]: "show_base b n \<noteq> []"
  by (simp add: show_base.simps [of b n])

lemma read_show_nat [simp]: "read_base 10 (show_nat n) = n"
  by (simp add: show_nat_def read_show_base)

lemma show_nat_digits: "c \<in> set (show_nat n) \<Longrightarrow> is_digit c"
  using show_base_digits [of 10 n] by (auto simp: show_nat_def is_digit_char)

lemma read_show_int [simp]: "read_int (show_int i) = i"
proof (cases "i < 0")
  case True
  then show ?thesis by (simp add: show_int_def read_int_def)
next
  case False
  obtain c cs where s: "show_nat (nat i) = c # cs" by (cases "show_nat (nat i)") (simp_all add: show_nat_def)
  then have "is_digit c" using show_nat_digits [of c "nat i"] by simp
  then have "c \<noteq> CHR ''-''" by (auto simp: is_digit_def)
  with False s show ?thesis using read_show_nat [of "nat i"] by (simp add: show_int_def read_int_def)
qed

lemma show_int_chars: "c \<in> set (show_int i) \<Longrightarrow> is_digit c \<or> c = CHR ''-''"
  using show_nat_digits by (auto simp: show_int_def split: if_splits)

lemma pieces_not_Nil [simp]: "pieces P s \<noteq> []"
  by (induction P s rule: pieces.induct) (auto split: list.splits)

lemma pieces_single: "(\<forall>c \<in> set s. \<not> P c) \<Longrightarrow> pieces P s = [s]"
  by (induction s) auto

lemma pieces_append:
  assumes "\<forall>c \<in> set a. \<not> P c" "P d"
  shows "pieces P (a @ d # b) = a # pieces P b"
  using assms by (induction a) auto

end
