(* ===== verification/Disasm.thy ===== *)
theory Disasm
  imports Instruction Text
begin

text \<open>
  \<^verbatim>\<open>src/src/instruction.cpp\<close>, section 8: register names and \<open>disasm\<close>, the text of one decoded
  instruction; and a reader of that text, which shows that it loses nothing.
\<close>

section \<open>The printer\<close>

definition reg_names :: "string list" where
  "reg_names =
    [''zero'', ''ra'', ''sp'', ''gp'', ''tp'', ''t0'', ''t1'', ''t2'',
     ''s0'', ''s1'', ''a0'', ''a1'', ''a2'', ''a3'', ''a4'', ''a5'',
     ''a6'', ''a7'', ''s2'', ''s3'', ''s4'', ''s5'', ''s6'', ''s7'',
     ''s8'', ''s9'', ''s10'', ''s11'', ''t3'', ''t4'', ''t5'', ''t6'']"

definition reg_name :: "ArchReg \<Rightarrow> string" where
  "reg_name r = (if r < 32 then reg_names ! r else ''x?'')"

definition reg_text :: "ArchReg \<Rightarrow> string" where
  "reg_text r = ''x'' @ show_nat r"

definition hex32 :: "u32 \<Rightarrow> string" where
  "hex32 v = ''0x'' @ show_base 16 (unat v)"

definition dec_text :: "u32 \<Rightarrow> string" where
  "dec_text v = show_int (sint v)"

definition rrr :: "string \<Rightarrow> Decoded \<Rightarrow> string" where
  "rrr m d = m @ '' '' @ reg_text (d_rd d) @ '','' @ reg_text (d_rs1 d) @ '','' @ reg_text (d_rs2 d)"

definition rri :: "string \<Rightarrow> Decoded \<Rightarrow> string" where
  "rri m d = m @ '' '' @ reg_text (d_rd d) @ '','' @ reg_text (d_rs1 d) @ '','' @ dec_text (d_imm d)"

definition mem_form :: "string \<Rightarrow> ArchReg \<Rightarrow> Decoded \<Rightarrow> string" where
  "mem_form m data d =
     m @ '' '' @ reg_text data @ '','' @ dec_text (d_imm d) @ ''('' @ reg_text (d_rs1 d) @ '')''"

definition br_text :: "string \<Rightarrow> Decoded \<Rightarrow> u32 \<Rightarrow> string" where
  "br_text m d pc =
     m @ '' '' @ reg_text (d_rs1 d) @ '','' @ reg_text (d_rs2 d) @ '','' @ hex32 (pc + d_imm d)"

definition disasm :: "Decoded \<Rightarrow> u32 \<Rightarrow> string" where
  "disasm d pc =
     (let imm_form = uses_immediate d in case d_op d of
       Op_ADD \<Rightarrow> if imm_form then rri ''addi'' d else rrr ''add'' d
     | Op_SLT \<Rightarrow> if imm_form then rri ''slti'' d else rrr ''slt'' d
     | Op_SLTU \<Rightarrow> if imm_form then rri ''sltiu'' d else rrr ''sltu'' d
     | Op_XOR \<Rightarrow> if imm_form then rri ''xori'' d else rrr ''xor'' d
     | Op_OR \<Rightarrow> if imm_form then rri ''ori'' d else rrr ''or'' d
     | Op_AND \<Rightarrow> if imm_form then rri ''andi'' d else rrr ''and'' d
     | Op_SLL \<Rightarrow> if imm_form then rri ''slli'' d else rrr ''sll'' d
     | Op_SRL \<Rightarrow> if imm_form then rri ''srli'' d else rrr ''srl'' d
     | Op_SRA \<Rightarrow> if imm_form then rri ''srai'' d else rrr ''sra'' d
     | Op_SUB \<Rightarrow> rrr ''sub'' d
     | Op_LUI \<Rightarrow> ''lui '' @ reg_text (d_rd d) @ '','' @ hex32 (drop_bit 12 (d_imm d))
     | Op_AUIPC \<Rightarrow> ''auipc '' @ reg_text (d_rd d) @ '','' @ hex32 (drop_bit 12 (d_imm d))
     | Op_MUL \<Rightarrow> rrr ''mul'' d
     | Op_MULH \<Rightarrow> rrr ''mulh'' d
     | Op_MULHSU \<Rightarrow> rrr ''mulhsu'' d
     | Op_MULHU \<Rightarrow> rrr ''mulhu'' d
     | Op_DIV \<Rightarrow> rrr ''div'' d
     | Op_DIVU \<Rightarrow> rrr ''divu'' d
     | Op_REM \<Rightarrow> rrr ''rem'' d
     | Op_REMU \<Rightarrow> rrr ''remu'' d
     | Op_BEQ \<Rightarrow> br_text ''beq'' d pc
     | Op_BNE \<Rightarrow> br_text ''bne'' d pc
     | Op_BLT \<Rightarrow> br_text ''blt'' d pc
     | Op_BGE \<Rightarrow> br_text ''bge'' d pc
     | Op_BLTU \<Rightarrow> br_text ''bltu'' d pc
     | Op_BGEU \<Rightarrow> br_text ''bgeu'' d pc
     | Op_JAL \<Rightarrow> ''jal '' @ reg_text (d_rd d) @ '','' @ hex32 (pc + d_imm d)
     | Op_JALR \<Rightarrow> ''jalr '' @ reg_text (d_rd d) @ '','' @ dec_text (d_imm d) @ ''('' @ reg_text (d_rs1 d) @ '')''
     | Op_LB \<Rightarrow> mem_form ''lb'' (d_rd d) d
     | Op_LH \<Rightarrow> mem_form ''lh'' (d_rd d) d
     | Op_LW \<Rightarrow> mem_form ''lw'' (d_rd d) d
     | Op_LBU \<Rightarrow> mem_form ''lbu'' (d_rd d) d
     | Op_LHU \<Rightarrow> mem_form ''lhu'' (d_rd d) d
     | Op_SB \<Rightarrow> mem_form ''sb'' (d_rs2 d) d
     | Op_SH \<Rightarrow> mem_form ''sh'' (d_rs2 d) d
     | Op_SW \<Rightarrow> mem_form ''sw'' (d_rs2 d) d
     | Op_FENCE \<Rightarrow> ''fence''
     | Op_FENCE_I \<Rightarrow> ''fence.i''
     | Op_ECALL \<Rightarrow> ''ecall''
     | Op_EBREAK \<Rightarrow> ''ebreak''
     | Op_INVALID \<Rightarrow> ''<invalid '' @ hex32 (d_raw d) @ ''>'')"

definition disasm_word :: "u32 \<Rightarrow> u32 \<Rightarrow> string" where
  "disasm_word raw pc = disasm (decode raw) pc"

section \<open>The reader\<close>

text \<open>What the text of an instruction says: operation, spelling, registers and immediate.\<close>

datatype Form = F_RRR | F_RRI | F_UPPER | F_BRANCH | F_JUMP | F_MEM | F_NONE | F_INVALID

record Printed =
  p_op :: Op
  p_imm_form :: bool
  p_regs :: "nat list"
  p_imm :: u32

definition form_of :: "Op \<Rightarrow> bool \<Rightarrow> Form" where
  "form_of op imm_form = (
     if op \<in> {Op_ADD, Op_SLT, Op_SLTU, Op_XOR, Op_OR, Op_AND, Op_SLL, Op_SRL, Op_SRA} \<and> imm_form then F_RRI
     else if op \<in> {Op_LUI, Op_AUIPC} then F_UPPER
     else if op \<in> {Op_BEQ, Op_BNE, Op_BLT, Op_BGE, Op_BLTU, Op_BGEU} then F_BRANCH
     else if op = Op_JAL then F_JUMP
     else if op \<in> {Op_JALR, Op_LB, Op_LH, Op_LW, Op_LBU, Op_LHU, Op_SB, Op_SH, Op_SW} then F_MEM
     else if op \<in> {Op_FENCE, Op_FENCE_I, Op_ECALL, Op_EBREAK} then F_NONE
     else if op = Op_INVALID then F_INVALID else F_RRR)"

definition printed :: "Decoded \<Rightarrow> Printed" where
  "printed d = (let f = form_of (d_op d) (uses_immediate d) in
     \<lparr>p_op = d_op d, p_imm_form = (f = F_RRI),
      p_regs = (case f of
          F_RRR \<Rightarrow> [d_rd d, d_rs1 d, d_rs2 d] | F_RRI \<Rightarrow> [d_rd d, d_rs1 d] | F_UPPER \<Rightarrow> [d_rd d]
        | F_BRANCH \<Rightarrow> [d_rs1 d, d_rs2 d] | F_JUMP \<Rightarrow> [d_rd d]
        | F_MEM \<Rightarrow> [if d_op d \<in> {Op_SB, Op_SH, Op_SW} then d_rs2 d else d_rd d, d_rs1 d]
        | F_NONE \<Rightarrow> [] | F_INVALID \<Rightarrow> []),
      p_imm = (case f of F_RRR \<Rightarrow> 0 | F_NONE \<Rightarrow> 0 | F_INVALID \<Rightarrow> d_raw d | _ \<Rightarrow> d_imm d)\<rparr>)"

definition mnemonics :: "(string \<times> Op \<times> Form) list" where
  "mnemonics =
    [(''addi'', Op_ADD, F_RRI), (''add'', Op_ADD, F_RRR), (''slti'', Op_SLT, F_RRI), (''slt'', Op_SLT, F_RRR),
     (''sltiu'', Op_SLTU, F_RRI), (''sltu'', Op_SLTU, F_RRR), (''xori'', Op_XOR, F_RRI), (''xor'', Op_XOR, F_RRR),
     (''ori'', Op_OR, F_RRI), (''or'', Op_OR, F_RRR), (''andi'', Op_AND, F_RRI), (''and'', Op_AND, F_RRR),
     (''slli'', Op_SLL, F_RRI), (''sll'', Op_SLL, F_RRR), (''srli'', Op_SRL, F_RRI), (''srl'', Op_SRL, F_RRR),
     (''srai'', Op_SRA, F_RRI), (''sra'', Op_SRA, F_RRR), (''sub'', Op_SUB, F_RRR), (''lui'', Op_LUI, F_UPPER),
     (''auipc'', Op_AUIPC, F_UPPER), (''mul'', Op_MUL, F_RRR), (''mulh'', Op_MULH, F_RRR),
     (''mulhsu'', Op_MULHSU, F_RRR), (''mulhu'', Op_MULHU, F_RRR), (''div'', Op_DIV, F_RRR),
     (''divu'', Op_DIVU, F_RRR), (''rem'', Op_REM, F_RRR), (''remu'', Op_REMU, F_RRR), (''beq'', Op_BEQ, F_BRANCH),
     (''bne'', Op_BNE, F_BRANCH), (''blt'', Op_BLT, F_BRANCH), (''bge'', Op_BGE, F_BRANCH),
     (''bltu'', Op_BLTU, F_BRANCH), (''bgeu'', Op_BGEU, F_BRANCH), (''jal'', Op_JAL, F_JUMP),
     (''jalr'', Op_JALR, F_MEM), (''lb'', Op_LB, F_MEM), (''lh'', Op_LH, F_MEM), (''lw'', Op_LW, F_MEM),
     (''lbu'', Op_LBU, F_MEM), (''lhu'', Op_LHU, F_MEM), (''sb'', Op_SB, F_MEM), (''sh'', Op_SH, F_MEM),
     (''sw'', Op_SW, F_MEM), (''fence'', Op_FENCE, F_NONE), (''fence.i'', Op_FENCE_I, F_NONE),
     (''ecall'', Op_ECALL, F_NONE), (''ebreak'', Op_EBREAK, F_NONE), (''<invalid'', Op_INVALID, F_INVALID)]"

definition text_sep :: "char \<Rightarrow> bool" where
  "text_sep c \<longleftrightarrow> c \<in> set '' ,()>''"

definition read_reg :: "string \<Rightarrow> nat" where "read_reg s = read_base 10 (tl s)"
definition read_hex :: "string \<Rightarrow> u32" where "read_hex s = of_nat (read_base 16 (drop 2 s))"
definition read_dec :: "string \<Rightarrow> u32" where "read_dec s = of_int (read_int s)"

definition read_operands :: "Form \<Rightarrow> u32 \<Rightarrow> string list \<Rightarrow> nat list \<times> u32" where
  "read_operands f pc ts = (case f of
       F_RRR \<Rightarrow> (map read_reg ts, 0)
     | F_RRI \<Rightarrow> (map read_reg (butlast ts), read_dec (last ts))
     | F_UPPER \<Rightarrow> (map read_reg (butlast ts), push_bit 12 (read_hex (last ts)))
     | F_BRANCH \<Rightarrow> (map read_reg (butlast ts), read_hex (last ts) - pc)
     | F_JUMP \<Rightarrow> (map read_reg (butlast ts), read_hex (last ts) - pc)
     | F_MEM \<Rightarrow> ([read_reg (ts ! 0), read_reg (ts ! 2)], read_dec (ts ! 1))
     | F_NONE \<Rightarrow> ([], 0)
     | F_INVALID \<Rightarrow> ([], read_hex (ts ! 0)))"

definition read_text :: "u32 \<Rightarrow> string \<Rightarrow> Printed option" where
  "read_text pc s = (case pieces text_sep s of
       [] \<Rightarrow> None
     | m # ts \<Rightarrow> (case map_of mnemonics m of
           None \<Rightarrow> None
         | Some (op, f) \<Rightarrow> (case read_operands f pc ts of (rs, imm) \<Rightarrow>
             Some \<lparr>p_op = op, p_imm_form = (f = F_RRI), p_regs = rs, p_imm = imm\<rparr>)))"

section \<open>Reading what was printed\<close>

lemma read_reg_text [simp]: "read_reg (reg_text r) = r"
  by (simp add: read_reg_def reg_text_def)

lemma read_hex32 [simp]: "read_hex (hex32 v) = v"
  by (simp add: read_hex_def hex32_def read_show_base)

lemma read_dec_text [simp]: "read_dec (dec_text v) = v"
  by (simp add: read_dec_def dec_text_def)

lemma digit_not_sep: "is_hex_digit c \<Longrightarrow> \<not> text_sep c"
  by (auto simp: is_hex_digit_def is_digit_def text_sep_def)

lemma operand_not_sep:
  "\<forall>c \<in> set (reg_text r). \<not> text_sep c" "\<forall>c \<in> set (hex32 v). \<not> text_sep c"
  "\<forall>c \<in> set (dec_text v). \<not> text_sep c"
proof -
  have digit: "\<not> text_sep c" if "is_digit c" for c
    using that digit_not_sep by (simp add: is_hex_digit_def)
  show "\<forall>c \<in> set (reg_text r). \<not> text_sep c"
    using show_nat_digits digit by (auto simp: reg_text_def) (simp add: text_sep_def)
  show "\<forall>c \<in> set (hex32 v). \<not> text_sep c"
    using show_base_digits [of 16 "unat v"] digit_not_sep is_hex_digit_char
    by (auto simp: hex32_def) (simp_all add: text_sep_def)
  have "\<not> text_sep c" if "is_digit c \<or> c = CHR ''-''" for c
    using that digit by (auto simp: text_sep_def)
  then show "\<forall>c \<in> set (dec_text v). \<not> text_sep c"
    using show_int_chars [of _ "sint v"] by (auto simp: dec_text_def)
qed

lemma seps: "text_sep (CHR '' '')" "text_sep (CHR '','')" "text_sep (CHR ''('')" "text_sep (CHR '')'')"
  "text_sep (CHR ''>'')"
  by (simp_all add: text_sep_def)

lemma pieces_operand [simp]:
  "text_sep c \<Longrightarrow> pieces text_sep (reg_text r @ c # s) = reg_text r # pieces text_sep s"
  "text_sep c \<Longrightarrow> pieces text_sep (hex32 v @ c # s) = hex32 v # pieces text_sep s"
  "text_sep c \<Longrightarrow> pieces text_sep (dec_text v @ c # s) = dec_text v # pieces text_sep s"
  "pieces text_sep (reg_text r) = [reg_text r]" "pieces text_sep (hex32 v) = [hex32 v]"
  "pieces text_sep (dec_text v) = [dec_text v]"
  by (simp_all add: pieces_append pieces_single operand_not_sep)

text \<open>The pieces of each shape of line.\<close>

lemma pieces_forms:
  assumes "\<forall>c \<in> set m. \<not> text_sep c"
  shows "pieces text_sep (rrr m d) = [m, reg_text (d_rd d), reg_text (d_rs1 d), reg_text (d_rs2 d)]"
    and "pieces text_sep (rri m d) = [m, reg_text (d_rd d), reg_text (d_rs1 d), dec_text (d_imm d)]"
    and "pieces text_sep (mem_form m r d) = [m, reg_text r, dec_text (d_imm d), reg_text (d_rs1 d), []]"
    and "pieces text_sep (br_text m d pc) = [m, reg_text (d_rs1 d), reg_text (d_rs2 d), hex32 (pc + d_imm d)]"
  using pieces_append [OF assms]
  by (simp_all add: rrr_def rri_def mem_form_def br_text_def seps)

text \<open>Only the two upper-immediate groups decode to the operations whose immediate is a high field.\<close>

definition upper_ops :: "Op set" where "upper_ops = {Op_LUI, Op_AUIPC}"

lemma group_not_upper:
  "d_op (decode_jal raw) \<notin> upper_ops" "d_op (decode_jalr raw) \<notin> upper_ops"
  "d_op (decode_branch raw) \<notin> upper_ops" "d_op (decode_load raw) \<notin> upper_ops"
  "d_op (decode_store raw) \<notin> upper_ops" "d_op (decode_op_imm raw) \<notin> upper_ops"
  "d_op (decode_op raw) \<notin> upper_ops" "d_op (decode_misc_mem raw) \<notin> upper_ops"
  "d_op (decode_system raw) \<notin> upper_ops" "d_op (invalid_of raw) \<notin> upper_ops"
  by (simp_all add: decode_defs Let_def upper_ops_def)

lemma upper_imm:
  assumes "d_op (decode raw) \<in> upper_ops"
  shows "d_imm (decode raw) = imm_U raw"
proof -
  have "decode raw = decode_upper Op_LUI raw \<or> decode raw = decode_upper Op_AUIPC raw"
    using assms group_not_upper [of raw] by (simp only: decode_def Let_def split: if_splits) simp_all
  then show ?thesis by (auto simp: decode_upper_def Let_def)
qed

lemma upper_low_bits:
  assumes "d_op (decode raw) \<in> upper_ops"
  shows "push_bit 12 (drop_bit 12 (d_imm (decode raw))) = d_imm (decode raw)"
proof -
  have "(0xFFFFF000 :: u32) = NOT (mask 12)" by (simp add: mask_eq_exp_minus_1)
  then have "imm_U raw = raw AND NOT (mask 12)" by (simp add: imm_U_def)
  moreover have "push_bit 12 (drop_bit 12 w) = w AND NOT (mask 12)" for w :: u32
    by (rule bit_word_eqI) (auto simp: bit_simps)
  ultimately have "push_bit 12 (drop_bit 12 (imm_U raw)) = imm_U raw"
    by (simp add: ac_simps)
  then show ?thesis by (simp add: upper_imm [OF assms])
qed

text \<open>The mnemonic a decoded instruction is printed with, and the operands after it.\<close>

definition mnemonic :: "Op \<Rightarrow> bool \<Rightarrow> string" where
  "mnemonic op imm_form =
     fst (hd (filter (\<lambda>(m, op', f). op' = op \<and> f = form_of op imm_form) mnemonics))"

definition operands :: "Decoded \<Rightarrow> u32 \<Rightarrow> string list" where
  "operands d pc = (case form_of (d_op d) (uses_immediate d) of
       F_RRR \<Rightarrow> [reg_text (d_rd d), reg_text (d_rs1 d), reg_text (d_rs2 d)]
     | F_RRI \<Rightarrow> [reg_text (d_rd d), reg_text (d_rs1 d), dec_text (d_imm d)]
     | F_UPPER \<Rightarrow> [reg_text (d_rd d), hex32 (drop_bit 12 (d_imm d))]
     | F_BRANCH \<Rightarrow> [reg_text (d_rs1 d), reg_text (d_rs2 d), hex32 (pc + d_imm d)]
     | F_JUMP \<Rightarrow> [reg_text (d_rd d), hex32 (pc + d_imm d)]
     | F_MEM \<Rightarrow> [reg_text (if d_op d \<in> {Op_SB, Op_SH, Op_SW} then d_rs2 d else d_rd d),
                dec_text (d_imm d), reg_text (d_rs1 d), []]
     | F_NONE \<Rightarrow> []
     | F_INVALID \<Rightarrow> [hex32 (d_raw d), []])"

lemma pieces_disasm:
  "pieces text_sep (disasm d pc) = mnemonic (d_op d) (uses_immediate d) # operands d pc"
  by (cases "d_op d"; cases "uses_immediate d")
    (simp_all add: disasm_def Let_def mnemonic_def mnemonics_def operands_def form_of_def
      pieces_forms text_sep_def)

lemma map_of_mnemonic:
  "map_of mnemonics (mnemonic op imm_form) = Some (op, form_of op imm_form)"
  by (cases op; cases imm_form) (simp_all add: mnemonic_def mnemonics_def form_of_def)

lemma read_disasm:
  assumes "d_op d \<in> upper_ops \<Longrightarrow> push_bit 12 (drop_bit 12 (d_imm d)) = d_imm d"
  shows "read_text pc (disasm d pc) = Some (printed d)"
  using assms
  by (cases "form_of (d_op d) (uses_immediate d)")
    (simp_all add: read_text_def pieces_disasm map_of_mnemonic operands_def read_operands_def
      printed_def Let_def form_of_def upper_ops_def split: if_splits)

section \<open>The property\<close>

text \<open>C32: The disassembler loses nothing: from the text printed for any instruction word at any
  address, the operation, its immediate or register spelling, the register numbers and the
  immediate (a branch target less the address, a shifted upper field, an invalid word itself)
  are all read back.\<close>

theorem disassembly_reads_back: "read_text pc (disasm_word raw pc) = Some (printed (decode raw))"
  unfolding disasm_word_def by (rule read_disasm) (rule upper_low_bits)

end
