(* ===== verification/Json.thy ===== *)
theory Json
  imports Text
begin

text \<open>
  The streaming JSON writer of \<^verbatim>\<open>src/src/trace.h\<close> (\<open>trace_detail::Json\<close>), the values its output
  stands for, and a reader. A writer is a function on the writer's state; one that \<open>writes\<close> a
  value appends its text after the comma its container owes. What is written reads back.
\<close>

section \<open>The writer\<close>

text \<open>The output so far, and the stack \<open>first_\<close> with \<open>back()\<close> at the head.\<close>

record Json =
  js_out :: string
  js_first :: "bool list"

definition json_start :: Json where
  "json_start = \<lparr>js_out = [], js_first = [True]\<rparr>"

definition put :: "string \<Rightarrow> Json \<Rightarrow> Json" where
  "put s j = j\<lparr>js_out := js_out j @ s\<rparr>"

definition set_back :: "bool \<Rightarrow> Json \<Rightarrow> Json" where
  "set_back b j = j\<lparr>js_first := b # tl (js_first j)\<rparr>"

definition push_first :: "Json \<Rightarrow> Json" where
  "push_first j = j\<lparr>js_first := True # js_first j\<rparr>"

definition pop_first :: "Json \<Rightarrow> Json" where
  "pop_first j = j\<lparr>js_first := tl (js_first j)\<rparr>"

definition sep :: "Json \<Rightarrow> Json" where
  "sep j = set_back False (if \<not> hd (js_first j) then put '','' j else j)"

definition obj_begin :: "Json \<Rightarrow> Json" where "obj_begin j = push_first (put ''{'' (sep j))"
definition obj_end :: "Json \<Rightarrow> Json" where "obj_end j = pop_first (put ''}'' j)"
definition arr_begin :: "Json \<Rightarrow> Json" where "arr_begin j = push_first (put ''['' (sep j))"
definition arr_end :: "Json \<Rightarrow> Json" where "arr_end j = pop_first (put '']'' j)"

definition quote_char :: char where "quote_char = CHR 0x22"
definition backslash :: char where "backslash = CHR 0x5C"

text \<open>\<open>%04X\<close>.\<close>

definition hex4 :: "nat \<Rightarrow> string" where
  "hex4 n = (let s = show_base 16 n in replicate (4 - length s) (CHR ''0'') @ s)"

definition esc :: "char \<Rightarrow> string" where
  "esc c = (
     if c = quote_char then [backslash, quote_char]
     else if c = backslash then [backslash, backslash]
     else if c = CHR 0x0A then [backslash, CHR ''n'']
     else if c = CHR 0x0D then [backslash, CHR ''r'']
     else if c = CHR 0x09 then [backslash, CHR ''t'']
     else if (of_char c :: nat) < 0x20 then backslash # CHR ''u'' # hex4 (of_char c)
     else [c])"

text \<open>A C string ends at its first NUL.\<close>

definition quote_text :: "string \<Rightarrow> string" where
  "quote_text s =
     quote_char # concat (map esc (takeWhile (\<lambda>c. c \<noteq> CHR 0x00) s)) @ [quote_char]"

definition quote :: "string \<Rightarrow> Json \<Rightarrow> Json" where
  "quote s = put (quote_text s)"

definition json_key :: "string \<Rightarrow> Json \<Rightarrow> Json" where
  "json_key k j = set_back True (put '':'' (quote k (sep j)))"

definition json_key_num :: "nat \<Rightarrow> Json \<Rightarrow> Json" where
  "json_key_num k j =
     set_back True (put ([quote_char] @ show_nat k @ [quote_char] @ '':'') (sep j))"

definition json_num :: "nat \<Rightarrow> Json \<Rightarrow> Json" where "json_num v j = put (show_nat v) (sep j)"
definition json_int :: "int \<Rightarrow> Json \<Rightarrow> Json" where "json_int v j = put (show_int v) (sep j)"
definition json_bool :: "bool \<Rightarrow> Json \<Rightarrow> Json" where
  "json_bool b j = put (if b then ''true'' else ''false'') (sep j)"
definition json_null :: "Json \<Rightarrow> Json" where "json_null j = put ''null'' (sep j)"
definition json_str :: "string \<Rightarrow> Json \<Rightarrow> Json" where "json_str s j = quote s (sep j)"

definition num_or_null :: "nat \<Rightarrow> nat \<Rightarrow> Json \<Rightarrow> Json" where
  "num_or_null v invalid j = (if v = invalid then json_null j else json_num v j)"

definition kv_num :: "string \<Rightarrow> nat \<Rightarrow> Json \<Rightarrow> Json" where "kv_num k v j = json_num v (json_key k j)"
definition kv_bool :: "string \<Rightarrow> bool \<Rightarrow> Json \<Rightarrow> Json" where "kv_bool k v j = json_bool v (json_key k j)"
definition kv_str :: "string \<Rightarrow> string \<Rightarrow> Json \<Rightarrow> Json" where "kv_str k v j = json_str v (json_key k j)"
definition kv_int :: "string \<Rightarrow> int \<Rightarrow> Json \<Rightarrow> Json" where "kv_int k v j = json_int v (json_key k j)"

definition json_flag :: "string \<Rightarrow> bool \<Rightarrow> Json \<Rightarrow> Json" where
  "json_flag k v j = (if v then kv_bool k True j else j)"

definition line_end :: "Json \<Rightarrow> Json" where "line_end j = set_back True (put [CHR 0x0A] j)"

text \<open>How callers combine these: one after the other, and between brackets.\<close>

definition in_order :: "(Json \<Rightarrow> Json) list \<Rightarrow> Json \<Rightarrow> Json" where
  "in_order ws j = fold (\<lambda>w. w) ws j"

definition obj :: "(Json \<Rightarrow> Json) list \<Rightarrow> Json \<Rightarrow> Json" where
  "obj ws j = obj_end (in_order ws (obj_begin j))"

definition arr :: "(Json \<Rightarrow> Json) list \<Rightarrow> Json \<Rightarrow> Json" where
  "arr ws j = arr_end (in_order ws (arr_begin j))"

definition keyed :: "string \<Rightarrow> (Json \<Rightarrow> Json) \<Rightarrow> Json \<Rightarrow> Json" where
  "keyed k w j = w (json_key k j)"

definition keyed_num :: "nat \<Rightarrow> (Json \<Rightarrow> Json) \<Rightarrow> Json \<Rightarrow> Json" where
  "keyed_num k w j = w (json_key_num k j)"

section \<open>Values and their text\<close>

datatype Jv = JNull | JBool bool | JNum int | JStr string | JArr "Jv list" | JObj "(string \<times> Jv) list"

definition str_text :: "string \<Rightarrow> string" where
  "str_text s = quote_char # concat (map esc s) @ [quote_char]"

fun show_jv :: "Jv \<Rightarrow> string" and show_elems :: "Jv list \<Rightarrow> string"
  and show_members :: "(string \<times> Jv) list \<Rightarrow> string" where
  "show_jv JNull = ''null''"
| "show_jv (JBool b) = (if b then ''true'' else ''false'')"
| "show_jv (JNum i) = show_int i"
| "show_jv (JStr s) = str_text s"
| "show_jv (JArr vs) = ''['' @ show_elems vs @ '']''"
| "show_jv (JObj ms) = ''{'' @ show_members ms @ ''}''"
| "show_elems [] = []"
| "show_elems (v # vs) = show_jv v @ (if vs = [] then [] else '','' @ show_elems vs)"
| "show_members [] = []"
| "show_members ((k, v) # ms) =
     str_text k @ '':'' @ show_jv v @ (if ms = [] then [] else '','' @ show_members ms)"

section \<open>The reader\<close>

text \<open>The characters of a string after its opening quote.\<close>

fun read_chars :: "string \<Rightarrow> (string \<times> string) option" where
  "read_chars [] = None"
| "read_chars (c # cs) = (
     if c = quote_char then Some ([], cs)
     else if c \<noteq> backslash then map_option (apfst ((#) c)) (read_chars cs)
     else case cs of
         [] \<Rightarrow> None
       | e # es \<Rightarrow>
           if e = CHR ''u'' then
             (case es of
                h1 # h2 # h3 # h4 # r \<Rightarrow>
                  map_option (apfst ((#) (char_of (read_base 16 [h1, h2, h3, h4])))) (read_chars r)
              | _ \<Rightarrow> None)
           else map_option (apfst ((#) (if e = CHR ''n'' then CHR 0x0A else if e = CHR ''r'' then CHR 0x0D
                  else if e = CHR ''t'' then CHR 0x09 else e))) (read_chars es))"

definition num_char :: "char \<Rightarrow> bool" where
  "num_char c \<longleftrightarrow> is_digit c \<or> c = CHR ''-''"

text \<open>The values, with fuel for the nesting; the length of the text is enough.\<close>

fun read_jv :: "nat \<Rightarrow> string \<Rightarrow> (Jv \<times> string) option"
  and read_elems :: "nat \<Rightarrow> string \<Rightarrow> (Jv list \<times> string) option"
  and read_members :: "nat \<Rightarrow> string \<Rightarrow> ((string \<times> Jv) list \<times> string) option" where
  "read_jv 0 s = None"
| "read_jv (Suc n) s = (case s of [] \<Rightarrow> None | c # cs \<Rightarrow>
     if c = quote_char then map_option (apfst JStr) (read_chars cs)
     else if c = CHR ''['' then
       (if take 1 cs = '']'' then Some (JArr [], tl cs) else map_option (apfst JArr) (read_elems n cs))
     else if c = CHR ''{'' then
       (if take 1 cs = ''}'' then Some (JObj [], tl cs) else map_option (apfst JObj) (read_members n cs))
     else if num_char c then Some (JNum (read_int (takeWhile num_char s)), dropWhile num_char s)
     else if take 4 s = ''null'' then Some (JNull, drop 4 s)
     else if take 4 s = ''true'' then Some (JBool True, drop 4 s)
     else if take 5 s = ''false'' then Some (JBool False, drop 5 s)
     else None)"
| "read_elems 0 s = None"
| "read_elems (Suc n) s = (case read_jv n s of
       Some (v, c # r) \<Rightarrow>
         if c = CHR '','' then map_option (apfst ((#) v)) (read_elems n r)
         else if c = CHR '']'' then Some ([v], r) else None
     | _ \<Rightarrow> None)"
| "read_members 0 s = None"
| "read_members (Suc n) s = (if take 1 s \<noteq> [quote_char] then None else case read_chars (tl s) of
       Some (k, c # s') \<Rightarrow> if c \<noteq> CHR '':'' then None else (case read_jv n s' of
           Some (v, d # r) \<Rightarrow>
             if d = CHR '','' then map_option (apfst ((#) (k, v))) (read_members n r)
             else if d = CHR ''}'' then Some ([(k, v)], r) else None
         | _ \<Rightarrow> None)
     | _ \<Rightarrow> None)"

definition read_line :: "string \<Rightarrow> Jv option" where
  "read_line s = (case read_jv (length s) s of
       Some (v, r) \<Rightarrow> if r = [CHR 0x0A] then Some v else None
     | None \<Rightarrow> None)"

section \<open>What is written reads back\<close>

lemma json_chars: "quote_char = CHR ''\"''" "backslash = CHR 0x5C"
  by (simp_all add: quote_char_def backslash_def)

lemma hex4_digits:
  assumes "n < 32"
  shows "length (hex4 n) = 4" and "read_base 16 (hex4 n) = n"
proof -
  have zeros: "read_base 16 (replicate k (CHR ''0'') @ s) = read_base 16 s" for k s
    by (induction k) (simp_all add: read_base_def digit_value_def)
  have "n div 16 < 16" using assms by linarith
  then have "length (show_base 16 n) \<le> 2"
    by (simp add: show_base.simps [of 16 n] show_base.simps [of 16 "n div 16"])
  then show "length (hex4 n) = 4" by (simp add: hex4_def Let_def)
  show "read_base 16 (hex4 n) = n" by (simp add: hex4_def Let_def zeros read_show_base)
qed

lemma read_esc: "read_chars (esc c @ r) = map_option (apfst ((#) c)) (read_chars r)"
proof (cases "(of_char c :: nat) < 0x20 \<and> c \<noteq> CHR 0x0A \<and> c \<noteq> CHR 0x0D \<and> c \<noteq> CHR 0x09")
  case True
  then have c: "c \<noteq> quote_char" "c \<noteq> backslash" by (auto simp: quote_char_def backslash_def)
  obtain h1 h2 h3 h4 where h: "hex4 (of_char c) = [h1, h2, h3, h4]"
    using hex4_digits(1) [of "of_char c"] True by (auto simp: numeral_eq_Suc length_Suc_conv)
  have "char_of (read_base 16 [h1, h2, h3, h4]) = c"
    using hex4_digits(2) [of "of_char c"] True h by simp
  with True c h show ?thesis by (simp add: esc_def) (simp add: quote_char_def backslash_def)
next
  case False
  then show ?thesis by (auto simp: esc_def quote_char_def backslash_def)
qed

lemma read_escs: "read_chars (concat (map esc s) @ quote_char # r) = Some (s, r)"
  by (induction s) (simp_all add: read_esc)

text \<open>Enough fuel: the nesting of a value, at most the length of its text.\<close>

fun need :: "Jv \<Rightarrow> nat" and needs :: "Jv list \<Rightarrow> nat" and mneeds :: "(string \<times> Jv) list \<Rightarrow> nat" where
  "need (JArr vs) = Suc (needs vs)"
| "need (JObj ms) = Suc (mneeds ms)"
| "need _ = 1"
| "needs [] = 0"
| "needs (v # vs) = Suc (max (need v) (needs vs))"
| "mneeds [] = 0"
| "mneeds ((k, v) # ms) = Suc (max (need v) (mneeds ms))"

lemma need_pos: "0 < need v"
  by (cases v) simp_all

lemma need_length:
  "need v \<le> length (show_jv v)" "needs vs \<le> Suc (length (show_elems vs))"
  "mneeds ms \<le> Suc (length (show_members ms))"
proof (induction v and vs and ms rule: show_jv_show_elems_show_members.induct)
  case (3 i)
  then show ?case by (auto simp: show_int_def show_nat_def Suc_le_eq)
next
  case (8 v vs)
  then show ?case using need_pos [of v] by (cases vs) auto
next
  case (10 k v ms)
  then show ?case by (cases ms) (auto simp: str_text_def)
qed (auto simp: str_text_def)

text \<open>A value's text is followed by a delimiter; a number ends there.\<close>

definition delimited :: "string \<Rightarrow> bool" where
  "delimited r \<longleftrightarrow> r = [] \<or> \<not> num_char (hd r)"

lemma delimited_simps [simp]:
  "delimited []" "delimited (CHR '','' # r)" "delimited (CHR '']'' # r)" "delimited (CHR ''}'' # r)"
  "delimited (CHR 0x0A # r)"
  by (simp_all add: delimited_def num_char_def is_digit_def)

lemma num_span:
  assumes "\<forall>c \<in> set s. num_char c" "delimited r"
  shows "takeWhile num_char (s @ r) = s" "dropWhile num_char (s @ r) = r"
  using assms by (cases r; simp add: delimited_def takeWhile_append dropWhile_append)+

lemma num_char_distinct:
  "num_char c \<Longrightarrow> c \<noteq> quote_char" "num_char c \<Longrightarrow> c \<noteq> CHR ''[''" "num_char c \<Longrightarrow> c \<noteq> CHR ''{''"
  by (auto simp: num_char_def is_digit_def quote_char_def)

lemma read_num:
  assumes "delimited r"
  shows "read_jv (Suc n) (show_int i @ r) = Some (JNum i, r)"
proof -
  obtain c cs where s: "show_int i = c # cs"
    by (cases "show_int i") (auto simp: show_int_def show_nat_def split: if_splits)
  have num: "\<forall>c \<in> set (show_int i). num_char c" using show_int_chars [of _ i] by (auto simp: num_char_def)
  then have c: "num_char c" by (simp add: s)
  note span = num_span [OF num assms]
  show ?thesis using num_char_distinct [OF c] c span read_show_int [of i] by (simp add: s del: read_show_int)
qed

lemma show_elems_Nil [simp]: "show_elems vs = [] \<longleftrightarrow> vs = []"
proof (cases vs)
  case (Cons v vs')
  have "0 < length (show_jv v)" using need_length(1) [of v] need_pos [of v] by linarith
  with Cons show ?thesis by auto
qed simp

lemma first_char:
  "take 1 (show_jv v @ r) \<noteq> '']''" "take 1 (show_members ms @ ''}'' @ r) = ''}'' \<longleftrightarrow> ms = []"
proof -
  show "take 1 (show_jv v @ r) \<noteq> '']''"
  proof (cases v)
    case (JNum i)
    obtain c cs where s: "show_int i = c # cs"
      by (cases "show_int i") (auto simp: show_int_def show_nat_def split: if_splits)
    have "num_char c" using show_int_chars [of c i] by (auto simp: s num_char_def)
    with JNum s show ?thesis by (auto simp: num_char_def is_digit_def)
  qed (auto simp: str_text_def quote_char_def)
  show "take 1 (show_members ms @ ''}'' @ r) = ''}'' \<longleftrightarrow> ms = []"
    by (cases ms) (auto simp: str_text_def quote_char_def)
qed

lemma read_show:
  "need v \<le> n \<Longrightarrow> delimited r \<Longrightarrow> read_jv n (show_jv v @ r) = Some (v, r)"
  "needs vs \<le> n \<Longrightarrow> vs \<noteq> [] \<Longrightarrow> read_elems n (show_elems vs @ '']'' @ r) = Some (vs, r)"
  "mneeds ms \<le> n \<Longrightarrow> ms \<noteq> [] \<Longrightarrow> read_members n (show_members ms @ ''}'' @ r) = Some (ms, r)"
proof (induction v and vs and ms arbitrary: n r and n r and n r
    rule: show_jv_show_elems_show_members.induct)
  case 1
  then show ?case by (cases n) (auto simp: quote_char_def num_char_def is_digit_def)
next
  case (2 b)
  then show ?case by (cases n) (auto simp: quote_char_def num_char_def is_digit_def)
next
  case (3 i)
  then show ?case by (cases n) (simp_all add: read_num del: read_jv.simps(2))
next
  case (4 s)
  then show ?case by (cases n) (simp_all add: str_text_def read_escs)
next
  case (5 vs)
  then obtain m where n: "n = Suc m" "needs vs \<le> m" by (cases n) auto
  show ?case
  proof (cases vs)
    case Nil
    then show ?thesis by (simp add: n quote_char_def num_char_def is_digit_def)
  next
    case (Cons w ws)
    then have ne: "vs \<noteq> []" by simp
    have "take 1 (show_elems vs @ '']'' @ r) \<noteq> '']''"
      using first_char(1) [of w] Cons by (cases "ws = []") simp_all
    with 5 n ne show ?thesis by (simp add: quote_char_def)
  qed
next
  case (6 ms)
  then obtain m where n: "n = Suc m" "mneeds ms \<le> m" by (cases n) auto
  show ?case
  proof (cases "ms = []")
    case False
    with 6 n first_char(2) [of ms r] show ?thesis by (simp add: quote_char_def)
  qed (simp add: n quote_char_def num_char_def is_digit_def)
next
  case (8 v vs)
  then obtain m where n: "n = Suc m" "need v \<le> m" "needs vs \<le> m" by (cases n) auto
  show ?case
  proof (cases "vs = []")
    case True
    with 8 n show ?thesis by simp
  next
    case False
    have "delimited (CHR '','' # show_elems vs @ '']'' @ r)" by simp
    with 8 n False show ?thesis by simp
  qed
next
  case (10 k v ms)
  then obtain m where n: "n = Suc m" "need v \<le> m" "mneeds ms \<le> m" by (cases n) auto
  show ?case
  proof (cases "ms = []")
    case True
    with 10 n show ?thesis by (simp add: str_text_def read_escs)
  next
    case False
    have "delimited (CHR '','' # show_members ms @ ''}'' @ r)" by simp
    with 10 n False show ?thesis by (simp add: str_text_def read_escs)
  qed
qed simp_all

lemma read_line_show: "read_line (show_jv v @ [CHR 0x0A]) = Some v"
proof -
  have "need v \<le> length (show_jv v @ [CHR 0x0A])" using need_length(1) [of v] by simp
  then have "read_jv (length (show_jv v @ [CHR 0x0A])) (show_jv v @ [CHR 0x0A]) = Some (v, [CHR 0x0A])"
    by (rule read_show(1)) simp
  then show ?thesis unfolding read_line_def by simp
qed

section \<open>What a writer writes\<close>

text \<open>
  A writer of a value appends its text, after a comma unless its container is still empty; a writer
  of members or of elements appends any number of them. A container's bracket restores the
  stack.
\<close>

definition comma :: "bool \<Rightarrow> string" where
  "comma b = (if b then [] else '','')"

definition writes :: "(Json \<Rightarrow> Json) \<Rightarrow> Jv \<Rightarrow> bool" where
  "writes w v \<longleftrightarrow> (\<forall>out b bs. w \<lparr>js_out = out, js_first = b # bs\<rparr> =
     \<lparr>js_out = out @ comma b @ show_jv v, js_first = False # bs\<rparr>)"

definition writes_elems :: "(Json \<Rightarrow> Json) \<Rightarrow> Jv list \<Rightarrow> bool" where
  "writes_elems w vs \<longleftrightarrow> (\<forall>out b bs. w \<lparr>js_out = out, js_first = b # bs\<rparr> =
     \<lparr>js_out = out @ (if vs = [] then [] else comma b @ show_elems vs), js_first = (b \<and> vs = []) # bs\<rparr>)"

definition writes_members :: "(Json \<Rightarrow> Json) \<Rightarrow> (string \<times> Jv) list \<Rightarrow> bool" where
  "writes_members w ms \<longleftrightarrow> (\<forall>out b bs. w \<lparr>js_out = out, js_first = b # bs\<rparr> =
     \<lparr>js_out = out @ (if ms = [] then [] else comma b @ show_members ms), js_first = (b \<and> ms = []) # bs\<rparr>)"

lemmas writes_defs = writes_def writes_elems_def writes_members_def comma_def

lemmas json_steps = put_def set_back_def push_first_def pop_first_def sep_def obj_begin_def
  obj_end_def arr_begin_def arr_end_def quote_def

text \<open>What is left of a string that is passed as a C string.\<close>

definition c_text :: "string \<Rightarrow> string" where
  "c_text s = takeWhile (\<lambda>c. c \<noteq> CHR 0x00) s"

lemma quote_c_text: "quote_text s = str_text (c_text s)"
  by (simp add: quote_text_def str_text_def c_text_def)

lemma show_elems_append:
  "show_elems (vs @ ws) = show_elems vs @ (if vs = [] \<or> ws = [] then [] else '','') @ show_elems ws"
  by (induction vs) simp_all

lemma show_members_append:
  "show_members (ms @ ns) = show_members ms @ (if ms = [] \<or> ns = [] then [] else '','') @ show_members ns"
  by (induction ms) auto

lemma writes_atoms:
  "writes (json_num n) (JNum (int n))" "writes (json_int i) (JNum i)" "writes (json_bool b) (JBool b)"
  "writes json_null JNull" "writes (json_str s) (JStr (c_text s))"
  by (simp_all add: writes_defs json_num_def json_int_def json_bool_def json_null_def json_str_def
      json_steps show_int_def quote_c_text)

lemma writes_num_or_null:
  "writes (num_or_null v i) (if v = i then JNull else JNum (int v))"
  using writes_atoms(1) [of v] writes_atoms(4) by (simp add: num_or_null_def writes_def)

lemma writes_keyed:
  "writes w v \<Longrightarrow> writes_members (keyed k w) [(c_text k, v)]"
  "writes w v \<Longrightarrow> writes_members (keyed_num n w) [(show_nat n, v)]"
proof -
  show "writes w v \<Longrightarrow> writes_members (keyed k w) [(c_text k, v)]"
    by (simp add: writes_defs keyed_def json_key_def json_steps quote_c_text)
  have digit: "esc c = [c]" if "is_digit c" for c
    using that by (auto simp: esc_def is_digit_def quote_char_def backslash_def)
  have "\<forall>c \<in> set s. is_digit c \<Longrightarrow> concat (map esc s) = s" for s
    by (induction s) (simp_all add: digit)
  then have "concat (map esc (show_nat n)) = show_nat n" using show_nat_digits by blast
  then show "writes w v \<Longrightarrow> writes_members (keyed_num n w) [(show_nat n, v)]"
    by (simp add: writes_defs keyed_num_def json_key_num_def json_steps str_text_def)
qed

lemma writes_kv:
  "writes_members (kv_num k n) [(c_text k, JNum (int n))]"
  "writes_members (kv_int k i) [(c_text k, JNum i)]"
  "writes_members (kv_bool k b) [(c_text k, JBool b)]"
  "writes_members (kv_str k s) [(c_text k, JStr (c_text s))]"
  "writes_members (json_flag k b) (if b then [(c_text k, JBool True)] else [])"
  using writes_keyed(1) [OF writes_atoms(1)] writes_keyed(1) [OF writes_atoms(2)]
    writes_keyed(1) [OF writes_atoms(3)] writes_keyed(1) [OF writes_atoms(5)]
  by (simp_all add: writes_members_def keyed_def kv_num_def kv_int_def kv_bool_def kv_str_def json_flag_def)

text \<open>Lists of writers, and the brackets around them.\<close>

lemma writes_members_order:
  "list_all2 writes_members ws mss \<Longrightarrow> writes_members (in_order ws) (concat mss)"
proof (induction rule: list_all2_induct)
  case (Cons w ws ms mss)
  then show ?case
    by (cases "concat mss = []")
      (auto simp: writes_members_def in_order_def comma_def show_members_append simp del: concat_eq_Nil_conv)
qed (simp add: writes_members_def in_order_def)

lemma writes_elems_order:
  "list_all2 writes ws vs \<Longrightarrow> writes_elems (in_order ws) vs"
proof (induction rule: list_all2_induct)
  case (Cons w ws v vs)
  then show ?case by (auto simp: writes_defs in_order_def)
qed (simp add: writes_elems_def in_order_def)

lemma writes_obj: "list_all2 writes_members ws mss \<Longrightarrow> writes (obj ws) (JObj (concat mss))"
  using writes_members_order [of ws mss]
  by (cases "concat mss = []")
    (simp_all add: writes_def obj_def json_steps writes_members_def comma_def del: concat_eq_Nil_conv)

lemma writes_arr: "list_all2 writes ws vs \<Longrightarrow> writes (arr ws) (JArr vs)"
  using writes_elems_order [of ws vs]
  by (simp add: writes_def arr_def json_steps writes_elems_def comma_def)

lemma writes_arr_map: "(\<And>x. x \<in> set xs \<Longrightarrow> writes (f x) (g x)) \<Longrightarrow> writes (arr (map f xs)) (JArr (map g xs))"
  by (rule writes_arr) (simp add: list_all2_conv_all_nth)

text \<open>A line: one value at the top level, and its newline.\<close>

lemma line_written:
  "writes w v \<Longrightarrow> line_end (w \<lparr>js_out = out, js_first = [True]\<rparr>) =
     \<lparr>js_out = out @ show_jv v @ [CHR 0x0A], js_first = [True]\<rparr>"
  by (simp add: writes_def line_end_def json_steps comma_def)

end
