(* ===== verification/Trace.thy ===== *)
theory Trace
  imports Backend Disasm Json
begin

text \<open>
  \<^verbatim>\<open>src/src/trace.h\<close>: the cycle trace, one JSON record per line. The emitters are lists of
  writers of \<open>Json\<close>, in the order of the code. The text of an event is its format string of
  \<^verbatim>\<open>src/src/cpu.cpp\<close> filled in.
\<close>

section \<open>Names\<close>

definition stall_key :: "Stall \<Rightarrow> string" where
  "stall_key s = (case s of
       Stall_ROB_FULL \<Rightarrow> ''ROB_FULL'' | Stall_PHYSREG \<Rightarrow> ''PHYSREG'' | Stall_CHECKPOINT \<Rightarrow> ''CHECKPOINT''
     | Stall_IQ_FULL \<Rightarrow> ''IQ_FULL'' | Stall_LQ_FULL \<Rightarrow> ''LQ_FULL'' | Stall_SQ_FULL \<Rightarrow> ''SQ_FULL''
     | Stall_ALU_PORT \<Rightarrow> ''ALU_PORT'' | Stall_BRANCH_PORT \<Rightarrow> ''BRANCH_PORT'' | Stall_MUL_PORT \<Rightarrow> ''MUL_PORT''
     | Stall_DIV_PORT \<Rightarrow> ''DIV_PORT'' | Stall_MEM_PORT \<Rightarrow> ''MEM_PORT'' | Stall_CDB \<Rightarrow> ''CDB''
     | Stall_OPERANDS \<Rightarrow> ''OPERANDS'' | Stall_STORE_ORDER \<Rightarrow> ''STORE_ORDER'' | Stall_COUNT \<Rightarrow> ''UNKNOWN'')"

definition kind_name :: "OpKind \<Rightarrow> string" where
  "kind_name k = (case k of
       Kind_ALU \<Rightarrow> ''ALU'' | Kind_BRANCH \<Rightarrow> ''BRANCH'' | Kind_MUL \<Rightarrow> ''MUL'' | Kind_DIV \<Rightarrow> ''DIV''
     | Kind_LOAD \<Rightarrow> ''LOAD'' | Kind_STORE \<Rightarrow> ''STORE'' | Kind_NOP \<Rightarrow> ''NOP'' | Kind_TRAP \<Rightarrow> ''TRAP'')"

definition trap_name :: "TrapCause \<Rightarrow> string" where
  "trap_name t = (case t of
       Trap_NONE \<Rightarrow> ''none'' | Trap_ILLEGAL \<Rightarrow> ''illegal'' | Trap_EBREAK \<Rightarrow> ''ebreak''
     | Trap_ECALL_UNKNOWN \<Rightarrow> ''ecall_unknown'')"

definition fu_class_name :: "nat \<Rightarrow> string" where
  "fu_class_name cls = (if cls = 0 then ''ALU'' else if cls = 1 then ''BRANCH'' else if cls = 2 then ''MUL''
     else if cls = 3 then ''DIV'' else if cls = 4 then ''MEM'' else ''NONE'')"

definition seq_text :: "SeqNum \<Rightarrow> string" where
  "seq_text s = ''seq'' @ show_nat (unat s)"

definition event_format :: "Event \<Rightarrow> string" where
  "event_format e = (case e of
       Ev_predict pc target ras \<Rightarrow>
         ''predict taken '' @ hex32 pc @ '' -> '' @ hex32 target @ (if ras then '' (RAS)'' else [])
     | Ev_rename s pc (Some (rd, dest, stale)) \<Rightarrow>
         ''rename '' @ seq_text s @ '' '' @ hex32 pc @ '': x'' @ show_nat rd @ '' -> p'' @ show_nat dest @
           '' (stale p'' @ show_nat stale @ '')''
     | Ev_rename s pc None \<Rightarrow> ''rename '' @ seq_text s @ '' '' @ hex32 pc
     | Ev_replay s \<Rightarrow> ''replay '' @ seq_text s @ '' - older store address unknown''
     | Ev_issue s None wb \<Rightarrow> ''issue '' @ seq_text s @ '' -> no unit, wb@'' @ show_nat wb
     | Ev_issue s (Some (cls, un)) wb \<Rightarrow>
         ''issue '' @ seq_text s @ '' -> '' @ fu_class_name cls @ show_nat un @ '', wb@'' @ show_nat wb
     | Ev_mispredict s n pc \<Rightarrow>
         ''MISPREDICT '' @ seq_text s @ '' - squashed '' @ show_nat n @ '' younger, PC->'' @ hex32 pc
     | Ev_forward s addr v \<Rightarrow>
         ''forward '' @ seq_text s @ '' <- store queue, ['' @ hex32 addr @ ''] = '' @ hex32 v
     | Ev_writeback s (Some (p, v)) \<Rightarrow> ''writeback '' @ seq_text s @ '' p'' @ show_nat p @ '' = '' @ hex32 v
     | Ev_writeback s None \<Rightarrow> ''writeback '' @ seq_text s
     | Ev_retire s pc \<Rightarrow> ''retire '' @ seq_text s @ '' '' @ hex32 pc
     | Ev_trap pc \<Rightarrow> ''TRAP at '' @ hex32 pc
     | Ev_halt code \<Rightarrow> ''HALT exit='' @ show_nat (unat code)
     | Ev_squashed n \<Rightarrow> ''squashed '' @ show_nat n @ '' in flight behind the halt'')"

text \<open>\<open>vsnprintf\<close> into a buffer of 160 characters, the last one the terminator.\<close>

definition event_text :: "Event \<Rightarrow> string" where
  "event_text e = take 159 (event_format e)"

section \<open>The header record\<close>

record CycleTrace =
  t_json :: Json
  t_records :: nat
  t_seen :: "u32 \<Rightarrow> u32 option"
  t_pending :: "(u32 \<times> string) list"

definition make_trace :: CycleTrace where
  "make_trace = \<lparr>t_json = json_start, t_records = 0, t_seen = (\<lambda>_. None), t_pending = []\<rparr>"

definition emit_config :: "Config \<Rightarrow> Json \<Rightarrow> Json" where
  "emit_config cfg = obj
     [kv_num ''width'' (cfg_width cfg), kv_num ''rob_size'' (cfg_rob_size cfg),
      kv_num ''prf_size'' (cfg_prf_size cfg), kv_num ''iq_size'' (cfg_iq_size cfg),
      kv_num ''lq_size'' (cfg_lq_size cfg), kv_num ''sq_size'' (cfg_sq_size cfg),
      kv_num ''num_cdb'' (cfg_num_cdb cfg), kv_num ''num_alu'' (cfg_num_alu cfg),
      kv_num ''num_branch'' (cfg_num_branch cfg), kv_num ''num_mul'' (cfg_num_mul cfg),
      kv_num ''num_div'' (cfg_num_div cfg), kv_num ''num_mem'' (cfg_num_mem cfg),
      kv_num ''alu_latency'' (cfg_alu_latency cfg), kv_num ''branch_latency'' (cfg_branch_latency cfg),
      kv_num ''mul_latency'' (cfg_mul_latency cfg), kv_num ''div_latency'' (cfg_div_latency cfg),
      kv_num ''mem_latency'' (cfg_mem_latency cfg), kv_num ''ghr_bits'' (cfg_ghr_bits cfg),
      kv_num ''pht_size'' (cfg_pht_size cfg), kv_num ''btb_sets'' (cfg_btb_sets cfg),
      kv_num ''btb_ways'' (cfg_btb_ways cfg), kv_num ''ras_size'' (cfg_ras_size cfg),
      kv_num ''num_checkpoints'' (cfg_num_checkpoints cfg)]"

definition trace_header :: "Config \<Rightarrow> u32 \<Rightarrow> nat \<Rightarrow> CycleTrace \<Rightarrow> CycleTrace" where
  "trace_header cfg entry_pc cdb_window t =
     t\<lparr>t_json := line_end (obj
        [kv_str ''kind'' ''header'', kv_num ''format'' 1, kv_num ''entry_pc'' (unat entry_pc),
         kv_num ''cdb_window'' cdb_window, keyed ''config'' (emit_config cfg)] (t_json t))\<rparr>"

section \<open>The text of the instructions a record mentions first\<close>

definition text_of :: "Uop \<Rightarrow> string" where
  "text_of u = (if at_decode (u_at u) \<noteq> 0 then disasm (u_dec u) (u_pc u) else disasm_word (u_raw u) (u_pc u))"

definition note_text :: "Uop \<Rightarrow> CycleTrace \<Rightarrow> CycleTrace" where
  "note_text u t = (if t_seen t (u_pc u) = Some (u_raw u) then t
     else t\<lparr>t_seen := (t_seen t)(u_pc u \<mapsto> u_raw u), t_pending := t_pending t @ [(u_pc u, text_of u)]\<rparr>)"

definition collect_disasm :: "Cpu \<Rightarrow> CycleTrace \<Rightarrow> CycleTrace" where
  "collect_disasm c t =
     fold note_text
       (c_fetch_q c @ c_decode_q c @ c_rename_q c @ c_executing c @ c_wb_fast c @ c_wb_slow c @
        map (\<lambda>k. c_inflight c ! rob_nth (c_rob c) k) [0..<rob_count (c_rob c)])
       (t\<lparr>t_pending := []\<rparr>)"

definition emit_disasm :: "(u32 \<times> string) list \<Rightarrow> (Json \<Rightarrow> Json) list" where
  "emit_disasm pending = (if pending = [] then []
     else [keyed ''disasm'' (obj (map (\<lambda>(pc, text). keyed_num (unat pc) (json_str text)) pending))])"

section \<open>The parts of a cycle record\<close>

definition emit_stalls :: "Stats \<Rightarrow> Json \<Rightarrow> Json" where
  "emit_stalls s = obj (map (\<lambda>i. kv_num (stall_key (all_stalls ! i)) (st_stalls s ! i)) [0..<length (st_stalls s)])"

definition emit_stats :: "Stats \<Rightarrow> Json \<Rightarrow> Json" where
  "emit_stats s = obj
     [kv_num ''fetched'' (st_fetched s), kv_num ''decoded'' (st_decoded s), kv_num ''renamed'' (st_renamed s),
      kv_num ''dispatched'' (st_dispatched s), kv_num ''issued'' (st_issued s),
      kv_num ''wrote_back'' (st_wrote_back s), kv_num ''retired'' (st_retired s),
      kv_num ''squashed'' (st_squashed s), kv_num ''branches'' (st_branches s),
      kv_num ''mispredicts'' (st_mispredicts s), kv_num ''loads'' (st_loads s), kv_num ''stores'' (st_stores s),
      kv_num ''load_forwards'' (st_load_forwards s), kv_num ''load_replays'' (st_load_replays s),
      kv_num ''load_memory'' (st_load_memory s)]"

definition seq_or_null :: "SeqNum \<Rightarrow> Json \<Rightarrow> Json" where
  "seq_or_null s = num_or_null (unat s) (unat INVALID_SEQNUM)"

definition emit_front_end :: "Uop list \<Rightarrow> Json \<Rightarrow> Json" where
  "emit_front_end q = arr (map (\<lambda>u. obj
     ([keyed ''seq'' (seq_or_null (u_seq u)), kv_num ''uid'' (u_uid u), kv_num ''pc'' (unat (u_pc u)),
       json_flag ''pred_taken'' (u_pred_taken u)] @
      (if u_pred_taken u then [kv_num ''pred_target'' (unat (u_pred_target u))] else []))) q)"

definition emit_in_flight :: "Uop list \<Rightarrow> Json \<Rightarrow> Json" where
  "emit_in_flight q = arr (map (\<lambda>u. obj
     [kv_num ''seq'' (unat (u_seq u)), kv_num ''pc'' (unat (u_pc u)), kv_str ''kind'' (kind_name (d_kind (u_dec u))),
      kv_num ''wb_cycle'' (u_wb_cycle u)]) q)"

definition emit_iq :: "Cpu \<Rightarrow> Json \<Rightarrow> Json" where
  "emit_iq c = arr (map (\<lambda>e. let u = c_inflight c ! iq_rob e in obj
     [kv_num ''seq'' (unat (iq_seq e)), kv_num ''pc'' (unat (u_pc u)), kv_str ''kind'' (kind_name (iq_kind e)),
      kv_num ''src1'' (iq_src1 e), kv_bool ''src1_ready'' (iq_src1_ready e),
      kv_num ''src2'' (iq_src2 e), kv_bool ''src2_ready'' (iq_src2_ready e),
      keyed ''dest'' (num_or_null (iq_dest e) INVALID_PHYSREG), kv_num ''latency'' (iq_latency e)])
     (iq_entries (c_iq c)))"

definition stage_stamps :: "StageCycles \<Rightarrow> nat list" where
  "stage_stamps a = [at_fetch a, at_decode a, at_rename a, at_dispatch a, at_issue a, at_complete a]"

text \<open>The stamps up to the last one set, a missing one as null.\<close>

definition emit_at :: "StageCycles \<Rightarrow> Json \<Rightarrow> Json" where
  "emit_at a = (let stamps = stage_stamps a;
       last = fold (\<lambda>i l. if stamps ! i \<noteq> 0 then i + 1 else l) [0..<6] 0
     in arr (map (\<lambda>i. if stamps ! i \<noteq> 0 then json_num (stamps ! i) else json_null) [0..<last]))"

definition emit_rob_entry :: "Cpu \<Rightarrow> nat \<Rightarrow> Json \<Rightarrow> Json" where
  "emit_rob_entry c k =
     (let slot = rob_nth (c_rob c) k; e = rob_nth_entry (c_rob c) k; u = c_inflight c ! slot in obj
     ([kv_num ''seq'' (unat (re_seq e)), kv_num ''uid'' (u_uid u), kv_num ''slot'' slot,
       kv_num ''pc'' (unat (re_pc e))] @
      [kv_str ''kind'' (kind_name (d_kind (u_dec u))),
       keyed ''dest_arch'' (num_or_null (re_dest_arch e) INVALID_ARCHREG),
       keyed ''dest_phys'' (num_or_null (re_dest_phys e) INVALID_PHYSREG),
       keyed ''stale_phys'' (num_or_null (re_stale_phys e) INVALID_PHYSREG),
       kv_num ''src1'' (u_src1 u), kv_num ''src2'' (u_src2 u), kv_bool ''complete'' (re_complete e),
       json_flag ''mispredicted'' (re_mispredicted e), json_flag ''is_branch'' (re_is_branch e),
       json_flag ''is_store'' (re_is_store e), json_flag ''is_load'' (d_is_load (u_dec u))] @
      (if re_ckpt e \<noteq> INVALID_CHECKPOINT then [kv_num ''ckpt'' (re_ckpt e)] else []) @
      [json_flag ''pred_taken'' (u_pred_taken u)] @
      (if u_pred_taken u then [kv_num ''pred_target'' (unat (u_pred_target u))] else []) @
      (if at_issue (u_at u) \<noteq> 0
       then [kv_num ''next_pc'' (unat (re_next_pc e)), kv_num ''wb_cycle'' (u_wb_cycle u)] else []) @
      (if d_is_load (u_dec u) \<or> d_is_store (u_dec u) then [kv_num ''mem_addr'' (unat (u_mem_addr u))] else []) @
      [keyed ''at'' (emit_at (u_at u))]))"

definition emit_rob :: "Cpu \<Rightarrow> Json \<Rightarrow> Json" where
  "emit_rob c = arr (map (emit_rob_entry c) [0..<rob_count (c_rob c)])"

definition emit_maps :: "Cpu \<Rightarrow> (Json \<Rightarrow> Json) list" where
  "emit_maps c =
     [keyed ''rat'' (arr (map (\<lambda>a. json_num (rat_map (c_rat c) a)) [0..<32])),
      keyed ''arch_rat'' (arr (map (\<lambda>a. json_num (c_arch_rat c ! a)) [0..<32]))]"

definition FREE_LIST_PREVIEW :: nat where "FREE_LIST_PREVIEW = 8"

definition emit_free_list :: "Cpu \<Rightarrow> Json \<Rightarrow> Json" where
  "emit_free_list c = obj
     [kv_num ''count'' (length (fl_free (c_free_list c))),
      keyed ''head'' (arr (map json_num (take FREE_LIST_PREVIEW (fl_free (c_free_list c)))))]"

definition mark_live :: "PhysReg \<Rightarrow> bool list \<Rightarrow> bool list" where
  "mark_live p live = (if p < length live then live[p := True] else live)"

definition live_registers :: "Cpu \<Rightarrow> bool list" where
  "live_registers c =
     (let live = replicate (length (prf_values (c_prf c))) False;
          live = fold (\<lambda>a l. mark_live (c_arch_rat c ! a) (mark_live (rat_map (c_rat c) a) l)) [0..<32] live
      in fold (\<lambda>k l. let e = rob_nth_entry (c_rob c) k in
                mark_live (re_stale_phys e) (mark_live (re_dest_phys e) l)) [0..<rob_count (c_rob c)] live)"

definition emit_prf :: "Cpu \<Rightarrow> Json \<Rightarrow> Json" where
  "emit_prf c = (let live = live_registers c in
     arr (map (\<lambda>p. obj [kv_num ''phys'' p, kv_num ''value'' (unat (prf_read (c_prf c) p)),
                        json_flag ''pending'' (\<not> prf_is_ready (c_prf c) p)])
       (filter (\<lambda>p. live ! p) [0..<length live])))"

definition emit_load :: "LsqEntry \<Rightarrow> Json \<Rightarrow> Json" where
  "emit_load e = obj
     ([kv_num ''seq'' (unat (lq_seq e))] @
      (if lq_addr_ready e then [kv_num ''addr'' (unat (lq_addr e))] else []) @
      [kv_num ''size'' (lq_size e), json_flag ''addr_ready'' (lq_addr_ready e)])"

definition emit_store :: "LsqEntry \<Rightarrow> Json \<Rightarrow> Json" where
  "emit_store e = obj
     ([kv_num ''seq'' (unat (lq_seq e))] @
      (if lq_addr_ready e then [kv_num ''addr'' (unat (lq_addr e))] else []) @
      [kv_num ''size'' (lq_size e)] @
      (if lq_data_ready e then [kv_num ''data'' (unat (lq_data e))] else []) @
      [json_flag ''addr_ready'' (lq_addr_ready e), json_flag ''data_ready'' (lq_data_ready e)])"

definition emit_lsq :: "Cpu \<Rightarrow> (Json \<Rightarrow> Json) list" where
  "emit_lsq c = (let lq = lsq_loads (c_lsq c); sq = lsq_stores (c_lsq c) in
     [keyed ''lq'' (arr (map (\<lambda>k. emit_load (lqq_nth lq k)) [0..<lqq_count lq])),
      keyed ''sq'' (arr (map (\<lambda>k. emit_store (lqq_nth sq k)) [0..<lqq_count sq]))])"

definition emit_fu :: "Cpu \<Rightarrow> Json \<Rightarrow> Json" where
  "emit_fu c = obj (map (\<lambda>cls. keyed (fu_class_name cls) (arr (map json_num (c_fu_free_at c ! cls)))) [0..<5])"

definition emit_cdb :: "Cpu \<Rightarrow> Json \<Rightarrow> Json" where
  "emit_cdb c = (let ring = c_cdb_booked c in
     arr (map (\<lambda>k. json_num (ring ! ((c_cycle c + k) mod length ring))) [0..<length ring]))"

definition PHT_SAMPLE :: nat where "PHT_SAMPLE = 12"

primrec pht_scan :: "Cpu \<Rightarrow> nat list \<Rightarrow> nat list \<Rightarrow> nat list" where
  "pht_scan c [] idx = idx"
| "pht_scan c (k # ks) idx =
     (if PHT_SAMPLE \<le> length idx then idx
      else if \<not> re_is_branch (rob_nth_entry (c_rob c) k) then pht_scan c ks idx
      else let i = u_pht_index (c_inflight c ! rob_nth (c_rob c) k) in
        pht_scan c ks (if i \<in> set idx then idx else idx @ [i]))"

definition emit_bpred :: "Cpu \<Rightarrow> Json \<Rightarrow> Json" where
  "emit_bpred c =
     (let bp = c_bpred c; g = bp_gshare bp; r = bp_ras bp;
          idx = pht_scan c [0..<rob_count (c_rob c)] [gs_index g (c_pc c)]
      in obj
     [kv_num ''ghr'' (unat (gs_ghr g)), kv_num ''ghr_bits'' (cfg_ghr_bits (c_cfg c)),
      keyed ''ras'' (arr (map (\<lambda>k. json_num (unat (ras_peek_at r k))) [0..<ras_count r])),
      kv_num ''ras_depth'' (ras_count r), kv_num ''free_checkpoints'' (length (cp_free (c_ckpts c))),
      keyed ''pht_sample'' (arr (map (\<lambda>i. obj [kv_num ''index'' i, kv_num ''counter'' (gs_pht g ! i)]) idx))])"

definition emit_seqs :: "SeqNum list \<Rightarrow> Json \<Rightarrow> Json" where
  "emit_seqs ss = arr (map (\<lambda>s. json_num (unat s)) ss)"

section \<open>The cycle record\<close>

definition record_members :: "Cpu \<Rightarrow> (u32 \<times> string) list \<Rightarrow> (Json \<Rightarrow> Json) list" where
  "record_members c pending =
     [kv_num ''cycle'' (c_cycle c), kv_num ''pc'' (unat (c_pc c)), kv_num ''arch_pc'' (unat (c_arch_pc c)),
      kv_bool ''halted'' (c_halted c)] @
     (if c_trapped c then [kv_str ''trap'' (trap_name (c_trap_cause c))] else []) @
     [json_flag ''fetch_stalled'' (c_fetch_stalled c)] @
     emit_disasm pending @
     [keyed ''stalls'' (emit_stalls (c_stats c)), keyed ''stats'' (emit_stats (c_stats c)),
      keyed ''fetch_q'' (emit_front_end (c_fetch_q c)), keyed ''decode_q'' (emit_front_end (c_decode_q c)),
      keyed ''rename_q'' (emit_front_end (c_rename_q c)), keyed ''iq'' (emit_iq c), keyed ''rob'' (emit_rob c),
      keyed ''rob_head'' (num_or_null (rob_head (c_rob c)) INVALID_ROBINDEX),
      kv_num ''rob_count'' (rob_count (c_rob c)), kv_num ''rob_size'' (rob_capacity (c_rob c)),
      keyed ''executing'' (emit_in_flight (c_executing c)), keyed ''wb_fast'' (emit_in_flight (c_wb_fast c)),
      keyed ''wb_slow'' (emit_in_flight (c_wb_slow c))] @
     emit_maps c @ [keyed ''free_list'' (emit_free_list c), keyed ''prf'' (emit_prf c)] @ emit_lsq c @
     [keyed ''fu'' (emit_fu c), keyed ''cdb_booked'' (emit_cdb c), keyed ''bpred'' (emit_bpred c),
      keyed ''squashed_seqs'' (emit_seqs (o_squashed_seqs (c_obs c))),
      keyed ''retired_seqs'' (emit_seqs (o_retired_seqs (c_obs c))),
      keyed ''events'' (arr (map (\<lambda>e. json_str (event_text e)) (o_events (c_obs c))))]"

definition snapshot :: "Cpu \<Rightarrow> CycleTrace \<Rightarrow> CycleTrace" where
  "snapshot c t =
     (let t = collect_disasm c t
      in t\<lparr>t_json := line_end (obj (record_members c (t_pending t)) (t_json t)),
           t_records := t_records t + 1\<rparr>)"

section \<open>Every emitter writes a value\<close>

definition value_writer :: "(Json \<Rightarrow> Json) \<Rightarrow> bool" where
  "value_writer w \<longleftrightarrow> (\<exists>v. writes w v)"

definition member_writer :: "(Json \<Rightarrow> Json) \<Rightarrow> bool" where
  "member_writer w \<longleftrightarrow> (\<exists>ms. writes_members w ms)"

lemma ex_list_all2: "list_all (\<lambda>x. \<exists>y. R x y) xs \<Longrightarrow> \<exists>ys. list_all2 R xs ys"
proof (induction xs)
  case (Cons x xs)
  then show ?case by (auto intro: exI [of _ "y # ys" for y ys])
qed (auto intro: exI [of _ "[]"])

lemma value_writers [simp]:
  "value_writer (json_num n)" "value_writer (json_bool b)" "value_writer json_null"
  "value_writer (json_str s)" "value_writer (num_or_null n i)" "value_writer (seq_or_null q)"
  "list_all member_writer ws \<Longrightarrow> value_writer (obj ws)"
  "list_all value_writer ws \<Longrightarrow> value_writer (arr ws)"
proof -
  show "value_writer (json_num n)" "value_writer (json_bool b)" "value_writer json_null"
    "value_writer (json_str s)" "value_writer (num_or_null n i)" "value_writer (seq_or_null q)"
    using writes_atoms writes_num_or_null unfolding value_writer_def seq_or_null_def by blast+
  show "list_all member_writer ws \<Longrightarrow> value_writer (obj ws)"
    unfolding member_writer_def value_writer_def
    using ex_list_all2 [of writes_members ws] writes_obj by blast
  show "list_all value_writer ws \<Longrightarrow> value_writer (arr ws)"
    unfolding value_writer_def using ex_list_all2 [of writes ws] writes_arr by blast
qed

lemma member_writers [simp]:
  "member_writer (kv_num k n)" "member_writer (kv_bool k b)" "member_writer (kv_str k s)"
  "member_writer (json_flag k b)" "value_writer w \<Longrightarrow> member_writer (keyed k w)"
  "value_writer w \<Longrightarrow> member_writer (keyed_num n w)"
  using writes_kv writes_keyed unfolding member_writer_def value_writer_def by blast+

lemma writer_if [simp]:
  "value_writer (if b then w else w') = (if b then value_writer w else value_writer w')" by simp

lemmas writer_simps = list_all_iff Let_def split_beta

lemma at_writer [simp]: "value_writer (emit_at a)"
  unfolding emit_at_def Let_def by (rule value_writers(8)) (auto simp: list_all_iff)

lemma part_writers:
  "value_writer (emit_config cfg)" "value_writer (emit_stalls st)" "value_writer (emit_stats st)"
  "value_writer (emit_front_end q)" "value_writer (emit_in_flight q)" "value_writer (emit_iq c)"
  "value_writer (emit_free_list c)" "value_writer (emit_prf c)"
  "value_writer (emit_load e)" "value_writer (emit_store e)" "value_writer (emit_fu c)"
  "value_writer (emit_cdb c)" "value_writer (emit_bpred c)"
  by (simp_all add: emit_config_def emit_stalls_def emit_stats_def emit_front_end_def emit_in_flight_def
      emit_iq_def emit_free_list_def emit_prf_def emit_load_def emit_store_def emit_fu_def
      emit_cdb_def emit_bpred_def writer_simps)

lemma obj_prefix:
  assumes "list_all2 writes_members ws mss" "list_all member_writer ws'"
  shows "\<exists>ns. writes (obj (ws @ ws')) (JObj (concat mss @ ns))"
proof -
  obtain nss where "list_all2 writes_members ws' nss"
    using ex_list_all2 assms(2) unfolding member_writer_def by blast
  with assms(1) have "list_all2 writes_members (ws @ ws') (mss @ nss)" by (rule list_all2_appendI)
  from writes_obj [OF this] show ?thesis by auto
qed

lemma rob_entry_written:
  obtains m where "writes (emit_rob_entry c k) (JObj m)"
    and "map_of m ''seq'' = Some (JNum (uint (re_seq (rob_nth_entry (c_rob c) k))))"
    and "map_of m ''pc'' = Some (JNum (uint (re_pc (rob_nth_entry (c_rob c) k))))"
    and "map_of m ''slot'' = Some (JNum (int (rob_nth (c_rob c) k)))"
proof -
  let ?e = "rob_nth_entry (c_rob c) k" and ?u = "c_inflight c ! rob_nth (c_rob c) k"
  let ?ws = "[kv_num ''seq'' (unat (re_seq ?e)), kv_num ''uid'' (u_uid ?u),
    kv_num ''slot'' (rob_nth (c_rob c) k), kv_num ''pc'' (unat (re_pc ?e))]"
  let ?mss = "[[(''seq'', JNum (uint (re_seq ?e)))], [(''uid'', JNum (int (u_uid ?u)))],
    [(''slot'', JNum (int (rob_nth (c_rob c) k)))], [(''pc'', JNum (uint (re_pc ?e)))]]"
  have "list_all2 writes_members ?ws ?mss"
    using writes_kv(1) [of "''seq''" "unat (re_seq ?e)"] writes_kv(1) [of "''uid''" "u_uid ?u"]
      writes_kv(1) [of "''slot''" "rob_nth (c_rob c) k"] writes_kv(1) [of "''pc''" "unat (re_pc ?e)"]
    by (simp add: c_text_def)
  then have "\<exists>ns. writes (emit_rob_entry c k) (JObj (concat ?mss @ ns))"
    unfolding emit_rob_entry_def Let_def by (rule obj_prefix) (simp add: part_writers)
  then obtain ns where "writes (emit_rob_entry c k) (JObj (concat ?mss @ ns))" by blast
  from that [OF this] show ?thesis by simp
qed

text \<open>The value of the \<open>rob\<close> member: one object per entry, oldest first.\<close>

definition rob_described :: "Rob \<Rightarrow> Jv \<Rightarrow> bool" where
  "rob_described r v \<longleftrightarrow> (\<exists>es. v = JArr es \<and> length es = rob_count r \<and>
     (\<forall>k < rob_count r. \<exists>m. es ! k = JObj m \<and>
       map_of m ''seq'' = Some (JNum (uint (re_seq (rob_nth_entry r k)))) \<and>
       map_of m ''pc'' = Some (JNum (uint (re_pc (rob_nth_entry r k)))) \<and>
       map_of m ''slot'' = Some (JNum (int (rob_nth r k)))))"

lemma rob_written: "\<exists>v. writes (emit_rob c) v \<and> rob_described (c_rob c) v"
proof -
  have "\<exists>m. writes (emit_rob_entry c k) (JObj m) \<and>
      map_of m ''seq'' = Some (JNum (uint (re_seq (rob_nth_entry (c_rob c) k)))) \<and>
      map_of m ''pc'' = Some (JNum (uint (re_pc (rob_nth_entry (c_rob c) k)))) \<and>
      map_of m ''slot'' = Some (JNum (int (rob_nth (c_rob c) k)))" for k
    using rob_entry_written [of c k] by metis
  then obtain f where f: "writes (emit_rob_entry c k) (JObj (f k)) \<and>
      map_of (f k) ''seq'' = Some (JNum (uint (re_seq (rob_nth_entry (c_rob c) k)))) \<and>
      map_of (f k) ''pc'' = Some (JNum (uint (re_pc (rob_nth_entry (c_rob c) k)))) \<and>
      map_of (f k) ''slot'' = Some (JNum (int (rob_nth (c_rob c) k)))" for k
    by metis
  then have "writes (emit_rob c) (JArr (map (\<lambda>k. JObj (f k)) [0..<rob_count (c_rob c)]))"
    unfolding emit_rob_def by (intro writes_arr_map) blast
  moreover have "rob_described (c_rob c) (JArr (map (\<lambda>k. JObj (f k)) [0..<rob_count (c_rob c)]))"
    using f by (simp add: rob_described_def)
  ultimately show ?thesis by blast
qed

definition numbers :: "nat list \<Rightarrow> Jv" where
  "numbers ns = JArr (map (\<lambda>n. JNum (int n)) ns)"

lemma writes_numbers: "writes (arr (map (\<lambda>x. json_num (f x)) xs)) (numbers (map f xs))"
  unfolding numbers_def map_map comp_def by (rule writes_arr_map) (rule writes_atoms)

text \<open>What a cycle record says.\<close>

definition describes :: "Cpu \<Rightarrow> Jv \<Rightarrow> bool" where
  "describes c v \<longleftrightarrow> (\<exists>ms rob. v = JObj ms \<and>
     map_of ms ''cycle'' = Some (JNum (int (c_cycle c))) \<and>
     map_of ms ''pc'' = Some (JNum (uint (c_pc c))) \<and>
     map_of ms ''arch_pc'' = Some (JNum (uint (c_arch_pc c))) \<and>
     map_of ms ''halted'' = Some (JBool (c_halted c)) \<and>
     (map_of ms ''trap'' \<noteq> None \<longleftrightarrow> c_trapped c) \<and>
     map_of ms ''rob'' = Some rob \<and> rob_described (c_rob c) rob \<and>
     map_of ms ''rob_count'' = Some (JNum (int (rob_count (c_rob c)))) \<and>
     map_of ms ''rat'' = Some (numbers (map (rat_map (c_rat c)) [0..<32])) \<and>
     map_of ms ''arch_rat'' = Some (numbers (map ((!) (c_arch_rat c)) [0..<32])) \<and>
     map_of ms ''squashed_seqs'' = Some (numbers (map unat (o_squashed_seqs (c_obs c)))) \<and>
     map_of ms ''retired_seqs'' = Some (numbers (map unat (o_retired_seqs (c_obs c)))))"

lemma disasm_written:
  "\<exists>v. list_all2 writes_members (emit_disasm p) (if p = [] then [] else [[(''disasm'', v)]])"
proof (cases "p = []")
  case False
  have "value_writer (obj (map (\<lambda>(pc, text). keyed_num (unat pc) (json_str text)) p))"
    by (simp add: list_all_iff split_beta)
  then obtain v where "writes (obj (map (\<lambda>(pc, text). keyed_num (unat pc) (json_str text)) p)) v"
    by (auto simp: value_writer_def)
  from writes_keyed(1) [OF this, of "''disasm''"] False show ?thesis
    by (auto simp: emit_disasm_def c_text_def)
qed (simp add: emit_disasm_def)

lemma literal_keys:
  "c_text [] = []" "c_text (x # xs) = (if x = CHR 0x00 then [] else x # c_text xs)"
  by (simp_all add: c_text_def)

lemma members_at:
  "c_text k = k' \<Longrightarrow> int n = i \<Longrightarrow> writes_members (kv_num k n) [(k', JNum i)]"
  "c_text k = k' \<Longrightarrow> writes_members (kv_bool k b) [(k', JBool b)]"
  "c_text k = k' \<Longrightarrow> c_text s = s' \<Longrightarrow> writes_members (kv_str k s) [(k', JStr s')]"
  "c_text k = k' \<Longrightarrow> writes_members (json_flag k b) (if b then [(k', JBool True)] else [])"
  "writes w v \<Longrightarrow> c_text k = k' \<Longrightarrow> writes_members (keyed k w) [(k', v)]"
  using writes_kv writes_keyed(1) by metis+

lemma record_written: "\<exists>v. writes (obj (record_members c p)) v \<and> describes c v"
proof -
  obtain rob where rob: "writes (emit_rob c) rob" "rob_described (c_rob c) rob" using rob_written by blast
  obtain dis where dis: "list_all2 writes_members (emit_disasm p) (if p = [] then [] else [[(''disasm'', dis)]])"
    using disasm_written by blast
  have "value_writer (arr (map (\<lambda>e. json_str (event_text e)) (o_events (c_obs c))))"
    by (simp add: list_all_iff)
  then obtain ev where ev: "writes (arr (map (\<lambda>e. json_str (event_text e)) (o_events (c_obs c)))) ev"
    by (auto simp: value_writer_def)
  have lq: "value_writer (arr (map (\<lambda>k. emit_load (lqq_nth q k)) [0..<n]))"
    "value_writer (arr (map (\<lambda>k. emit_store (lqq_nth q k)) [0..<n]))" for q n
    by (simp_all add: list_all_iff part_writers)
  have "\<forall>w. \<exists>v. value_writer w \<longrightarrow> writes w v" by (auto simp: value_writer_def)
  then obtain fs where "\<forall>w. value_writer w \<longrightarrow> writes w (fs w)" by (rule choice [THEN exE])
  then have fs: "\<And>w. value_writer w \<Longrightarrow> writes w (fs w)" by blast
  note parts = part_writers [THEN fs] lq [THEN fs] value_writers(5) [THEN fs]
  define mss where "mss = [[(''cycle'', JNum (int (c_cycle c)))], [(''pc'', JNum (uint (c_pc c)))],
      [(''arch_pc'', JNum (uint (c_arch_pc c)))], [(''halted'', JBool (c_halted c))]] @
    (if c_trapped c then [[(''trap'', JStr (c_text (trap_name (c_trap_cause c))))]] else []) @
    [if c_fetch_stalled c then [(''fetch_stalled'', JBool True)] else []] @
    (if p = [] then [] else [[(''disasm'', dis)]]) @
    [[(''stalls'', fs (emit_stalls (c_stats c)))], [(''stats'', fs (emit_stats (c_stats c)))],
     [(''fetch_q'', fs (emit_front_end (c_fetch_q c)))], [(''decode_q'', fs (emit_front_end (c_decode_q c)))],
     [(''rename_q'', fs (emit_front_end (c_rename_q c)))], [(''iq'', fs (emit_iq c))], [(''rob'', rob)],
     [(''rob_head'', fs (num_or_null (rob_head (c_rob c)) INVALID_ROBINDEX))],
     [(''rob_count'', JNum (int (rob_count (c_rob c))))], [(''rob_size'', JNum (int (rob_capacity (c_rob c))))],
     [(''executing'', fs (emit_in_flight (c_executing c)))], [(''wb_fast'', fs (emit_in_flight (c_wb_fast c)))],
     [(''wb_slow'', fs (emit_in_flight (c_wb_slow c)))]] @
    [[(''rat'', numbers (map (rat_map (c_rat c)) [0..<32]))],
     [(''arch_rat'', numbers (map ((!) (c_arch_rat c)) [0..<32]))]] @
    [[(''free_list'', fs (emit_free_list c))], [(''prf'', fs (emit_prf c))]] @
    [[(''lq'', fs (arr (map (\<lambda>k. emit_load (lqq_nth (lsq_loads (c_lsq c)) k)) [0..<lqq_count (lsq_loads (c_lsq c))])))],
     [(''sq'', fs (arr (map (\<lambda>k. emit_store (lqq_nth (lsq_stores (c_lsq c)) k)) [0..<lqq_count (lsq_stores (c_lsq c))])))]] @
    [[(''fu'', fs (emit_fu c))], [(''cdb_booked'', fs (emit_cdb c))], [(''bpred'', fs (emit_bpred c))],
     [(''squashed_seqs'', numbers (map unat (o_squashed_seqs (c_obs c))))],
     [(''retired_seqs'', numbers (map unat (o_retired_seqs (c_obs c))))], [(''events'', ev)]]"
  have "list_all2 writes_members (record_members c p) mss"
    unfolding record_members_def mss_def emit_maps_def emit_lsq_def emit_seqs_def Let_def
    by (intro list_all2_appendI dis)
      (simp_all add: members_at(1-4) members_at(5) [OF rob(1)] members_at(5) [OF ev]
        members_at(5) [OF writes_numbers] parts [THEN members_at(5)] literal_keys)
  then have "writes (obj (record_members c p)) (JObj (concat mss))" by (rule writes_obj)
  moreover have "describes c (JObj (concat mss))"
    using rob(2) by (simp add: describes_def mss_def)
  ultimately show ?thesis by blast
qed

section \<open>Lines\<close>

lemma show_digit_not_newline: "CHR 0x0A \<notin> set (show_base b n)" if "2 \<le> b" "b \<le> 16"
proof -
  have "is_hex_digit c" if "c \<in> set (show_base b n)" for c
    using show_base_digits [of b n] that \<open>2 \<le> b\<close> \<open>b \<le> 16\<close> by (auto intro!: is_hex_digit_char)
  moreover have "\<not> is_hex_digit (CHR 0x0A)" by (simp add: is_hex_digit_def is_digit_def)
  ultimately show ?thesis by blast
qed

lemma esc_not_newline: "CHR 0x0A \<notin> set (esc c)"
  using show_digit_not_newline [of 16 "of_char c"]
  by (auto simp: esc_def hex4_def quote_char_def backslash_def Let_def)

lemma show_jv_line:
  "CHR 0x0A \<notin> set (show_jv v)" "CHR 0x0A \<notin> set (show_elems vs)" "CHR 0x0A \<notin> set (show_members ms)"
proof (induction v and vs and ms rule: show_jv_show_elems_show_members.induct)
  case (3 i)
  show ?case using show_int_chars [of "CHR 0x0A" i] by (auto simp: is_digit_def)
qed (auto simp: str_text_def quote_char_def esc_not_newline)

definition config_fields :: "(string \<times> (Config \<Rightarrow> nat)) list" where
  "config_fields =
     [(''width'', cfg_width), (''rob_size'', cfg_rob_size), (''prf_size'', cfg_prf_size),
      (''iq_size'', cfg_iq_size), (''lq_size'', cfg_lq_size), (''sq_size'', cfg_sq_size),
      (''num_cdb'', cfg_num_cdb), (''num_alu'', cfg_num_alu), (''num_branch'', cfg_num_branch),
      (''num_mul'', cfg_num_mul), (''num_div'', cfg_num_div), (''num_mem'', cfg_num_mem),
      (''alu_latency'', cfg_alu_latency), (''branch_latency'', cfg_branch_latency),
      (''mul_latency'', cfg_mul_latency), (''div_latency'', cfg_div_latency),
      (''mem_latency'', cfg_mem_latency), (''ghr_bits'', cfg_ghr_bits), (''pht_size'', cfg_pht_size),
      (''btb_sets'', cfg_btb_sets), (''btb_ways'', cfg_btb_ways), (''ras_size'', cfg_ras_size),
      (''num_checkpoints'', cfg_num_checkpoints)]"

definition header_value :: "Config \<Rightarrow> u32 \<Rightarrow> nat \<Rightarrow> Jv" where
  "header_value cfg entry_pc window = JObj
     [(''kind'', JStr ''header''), (''format'', JNum 1), (''entry_pc'', JNum (uint entry_pc)),
      (''cdb_window'', JNum (int window)),
      (''config'', JObj (map (\<lambda>(k, get). (k, JNum (int (get cfg)))) config_fields))]"

lemma config_written:
  "writes (emit_config cfg) (JObj (map (\<lambda>(k, get). (k, JNum (int (get cfg)))) config_fields))"
proof -
  have cfg: "emit_config cfg = obj (map (\<lambda>(k, get). kv_num k (get cfg)) config_fields)"
    by (simp add: emit_config_def config_fields_def)
  have "list_all2 writes_members (map (\<lambda>(k, get). kv_num k (get cfg)) config_fields)
      (map (\<lambda>(k, get). [(k, JNum (int (get cfg)))]) config_fields)"
    by (simp add: config_fields_def members_at literal_keys)
  from writes_obj [OF this] show ?thesis unfolding cfg by (simp add: config_fields_def)
qed

lemma header_written:
  "writes (obj [kv_str ''kind'' ''header'', kv_num ''format'' 1, kv_num ''entry_pc'' (unat entry_pc),
     kv_num ''cdb_window'' w, keyed ''config'' (emit_config cfg)]) (header_value cfg entry_pc w)"
proof -
  have "list_all2 writes_members
      [kv_str ''kind'' ''header'', kv_num ''format'' 1, kv_num ''entry_pc'' (unat entry_pc),
       kv_num ''cdb_window'' w, keyed ''config'' (emit_config cfg)]
      [[(''kind'', JStr (c_text ''header''))], [(''format'', JNum 1)], [(''entry_pc'', JNum (uint entry_pc))],
       [(''cdb_window'', JNum (int w))],
       [(''config'', JObj (map (\<lambda>(k, get). (k, JNum (int (get cfg)))) config_fields))]]"
    by (simp add: members_at(1-4) members_at(5) [OF config_written] literal_keys)
  from writes_obj [OF this] show ?thesis by (simp add: header_value_def literal_keys)
qed

lemma note_text_json [simp]: "t_json (note_text u t) = t_json t" "t_records (note_text u t) = t_records t"
  by (simp_all add: note_text_def)

lemma collect_json [simp]:
  "t_json (collect_disasm c t) = t_json t" "t_records (collect_disasm c t) = t_records t"
proof -
  have "t_json (fold note_text us t) = t_json t \<and> t_records (fold note_text us t) = t_records t" for us t
    by (induction us arbitrary: t) simp_all
  then show "t_json (collect_disasm c t) = t_json t" "t_records (collect_disasm c t) = t_records t"
    by (simp_all add: collect_disasm_def)
qed

text \<open>A trace at the top level: its text is lines, each of which reads as a value.\<close>

definition traced :: "CycleTrace \<Rightarrow> Jv list \<Rightarrow> bool" where
  "traced t vs \<longleftrightarrow> t_json t = \<lparr>js_out = concat (map (\<lambda>v. show_jv v @ [CHR 0x0A]) vs), js_first = [True]\<rparr>"

lemma traced_line:
  assumes "traced t vs" "writes w v"
  shows "traced (t\<lparr>t_json := line_end (w (t_json t))\<rparr>) (vs @ [v])"
  using assms by (simp add: traced_def line_written)

lemma traced_snapshot:
  assumes "traced t vs"
  shows "\<exists>v. traced (snapshot c t) (vs @ [v]) \<and> describes c v"
proof -
  let ?t = "collect_disasm c t"
  obtain v where v: "writes (obj (record_members c (t_pending ?t))) v" "describes c v"
    using record_written by blast
  have "traced (?t\<lparr>t_json := line_end (obj (record_members c (t_pending ?t)) (t_json ?t))\<rparr>) (vs @ [v])"
    using traced_line [OF _ v(1)] assms by (simp add: traced_def)
  then have "traced (snapshot c t) (vs @ [v])" by (simp add: snapshot_def Let_def traced_def)
  with v(2) show ?thesis by blast
qed

definition trace_file :: "Config \<Rightarrow> u32 \<Rightarrow> nat \<Rightarrow> Cpu list \<Rightarrow> CycleTrace" where
  "trace_file cfg entry_pc window cs = fold snapshot cs (trace_header cfg entry_pc window make_trace)"

lemma trace_file_traced:
  "\<exists>vs. traced (trace_file cfg entry_pc window cs) (header_value cfg entry_pc window # vs) \<and>
     list_all2 describes cs vs \<and> t_records (trace_file cfg entry_pc window cs) = length cs"
proof (induction cs rule: rev_induct)
  case Nil
  have "traced make_trace []" by (simp add: traced_def make_trace_def json_start_def)
  from traced_line [OF this header_written] show ?case
    by (auto simp: trace_file_def trace_header_def make_trace_def traced_def json_start_def)
next
  case (snoc c cs)
  then obtain vs where vs: "traced (trace_file cfg entry_pc window cs) (header_value cfg entry_pc window # vs)"
    "list_all2 describes cs vs" "t_records (trace_file cfg entry_pc window cs) = length cs" by blast
  from traced_snapshot [OF vs(1), of c] obtain v where
    v: "traced (snapshot c (trace_file cfg entry_pc window cs)) (header_value cfg entry_pc window # vs @ [v])"
      "describes c v" by auto
  have "list_all2 describes (cs @ [c]) (vs @ [v])" using vs(2) v(2) by (simp add: list_all2_appendI)
  with v(1) vs(3) show ?case
    by (intro exI [of _ "vs @ [v]"]) (simp add: trace_file_def snapshot_def Let_def)
qed

section \<open>The property\<close>

text \<open>C27: The trace is valid newline-delimited JSON that says what the machine held: the text splits
  at its newlines into one line per recorded cycle after the header; every line reads as one JSON
  object; the header carries the entry address, the writeback window and the value of every
  configuration field; and a cycle's line carries the cycle, both program counters, both register
  maps, the sequence numbers retired and squashed, and every reorder-buffer entry, oldest first.\<close>

theorem trace_reads_back:
  "\<exists>ls vs. js_out (t_json (trace_file cfg entry_pc window cs)) = concat (map (\<lambda>l. l @ [CHR 0x0A]) ls) \<and>
     CHR 0x0A \<notin> set (concat ls) \<and>
     map (\<lambda>l. read_line (l @ [CHR 0x0A])) ls = map Some (header_value cfg entry_pc window # vs) \<and>
     list_all2 describes cs vs \<and> t_records (trace_file cfg entry_pc window cs) = length cs"
proof -
  obtain vs where vs: "traced (trace_file cfg entry_pc window cs) (header_value cfg entry_pc window # vs)"
    "list_all2 describes cs vs" "t_records (trace_file cfg entry_pc window cs) = length cs"
    using trace_file_traced by blast
  let ?ls = "map show_jv (header_value cfg entry_pc window # vs)"
  have "js_out (t_json (trace_file cfg entry_pc window cs)) = concat (map (\<lambda>l. l @ [CHR 0x0A]) ?ls)"
    using vs(1) by (simp add: traced_def comp_def)
  moreover have "CHR 0x0A \<notin> set (concat ?ls)" using show_jv_line(1) by auto
  moreover have "map (\<lambda>l. read_line (l @ [CHR 0x0A])) ?ls = map Some (header_value cfg entry_pc window # vs)"
    by (simp add: read_line_show)
  ultimately show ?thesis using vs(2,3) by blast
qed

end
