(* ===== verification/Observe.thy ===== *)
theory Observe
  imports Frames
begin

text \<open>
  Watching the machine does not change it. \<open>erase\<close> puts the quiet observer in place of the one a
  machine has; every stage commutes with it, so a run, its results and its cycle count are the
  same whoever watches.
\<close>

section \<open>Forgetting the observer\<close>

definition erase :: "Cpu \<Rightarrow> Cpu" where
  "erase c = c\<lparr>c_obs := quiet\<rparr>"

lemma erase_fields [simp]:
  "c_mem (erase c) = c_mem c" "c_cfg (erase c) = c_cfg c" "c_rob (erase c) = c_rob c"
  "c_prf (erase c) = c_prf c" "c_free_list (erase c) = c_free_list c" "c_rat (erase c) = c_rat c"
  "c_ckpts (erase c) = c_ckpts c" "c_iq (erase c) = c_iq c" "c_lsq (erase c) = c_lsq c"
  "c_bpred (erase c) = c_bpred c" "c_inflight (erase c) = c_inflight c"
  "c_arch_rat (erase c) = c_arch_rat c" "c_pc (erase c) = c_pc c"
  "c_arch_pc (erase c) = c_arch_pc c" "c_fetch_q (erase c) = c_fetch_q c"
  "c_decode_q (erase c) = c_decode_q c" "c_rename_q (erase c) = c_rename_q c"
  "c_executing (erase c) = c_executing c" "c_wb_fast (erase c) = c_wb_fast c"
  "c_wb_slow (erase c) = c_wb_slow c" "c_fu_free_at (erase c) = c_fu_free_at c"
  "c_cdb_booked (erase c) = c_cdb_booked c" "c_cdb_window (erase c) = c_cdb_window c"
  "c_queue_cap (erase c) = c_queue_cap c" "c_fetch_stalled (erase c) = c_fetch_stalled c"
  "c_cycle (erase c) = c_cycle c" "c_halted (erase c) = c_halted c"
  "c_trapped (erase c) = c_trapped c" "c_exit_code (erase c) = c_exit_code c"
  "c_trap_cause (erase c) = c_trap_cause c" "c_commit_in_order (erase c) = c_commit_in_order c"
  "c_last_committed_seq (erase c) = c_last_committed_seq c" "c_stats (erase c) = c_stats c"
  "c_next_uid (erase c) = c_next_uid c" "c_undefined (erase c) = c_undefined c"
  by (simp_all add: erase_def)

text \<open>A write to any other field commutes.\<close>

lemma erase_updates [simp]:
  "(erase c)\<lparr>c_mem := v0\<rparr> = erase (c\<lparr>c_mem := v0\<rparr>)"
  "(erase c)\<lparr>c_cfg := v1\<rparr> = erase (c\<lparr>c_cfg := v1\<rparr>)"
  "(erase c)\<lparr>c_rob := v2\<rparr> = erase (c\<lparr>c_rob := v2\<rparr>)"
  "(erase c)\<lparr>c_prf := v3\<rparr> = erase (c\<lparr>c_prf := v3\<rparr>)"
  "(erase c)\<lparr>c_free_list := v4\<rparr> = erase (c\<lparr>c_free_list := v4\<rparr>)"
  "(erase c)\<lparr>c_rat := v5\<rparr> = erase (c\<lparr>c_rat := v5\<rparr>)"
  "(erase c)\<lparr>c_ckpts := v6\<rparr> = erase (c\<lparr>c_ckpts := v6\<rparr>)"
  "(erase c)\<lparr>c_iq := v7\<rparr> = erase (c\<lparr>c_iq := v7\<rparr>)"
  "(erase c)\<lparr>c_lsq := v8\<rparr> = erase (c\<lparr>c_lsq := v8\<rparr>)"
  "(erase c)\<lparr>c_bpred := v9\<rparr> = erase (c\<lparr>c_bpred := v9\<rparr>)"
  "(erase c)\<lparr>c_inflight := v10\<rparr> = erase (c\<lparr>c_inflight := v10\<rparr>)"
  "(erase c)\<lparr>c_arch_rat := v11\<rparr> = erase (c\<lparr>c_arch_rat := v11\<rparr>)"
  "(erase c)\<lparr>c_pc := v12\<rparr> = erase (c\<lparr>c_pc := v12\<rparr>)"
  "(erase c)\<lparr>c_arch_pc := v13\<rparr> = erase (c\<lparr>c_arch_pc := v13\<rparr>)"
  "(erase c)\<lparr>c_fetch_q := v14\<rparr> = erase (c\<lparr>c_fetch_q := v14\<rparr>)"
  "(erase c)\<lparr>c_decode_q := v15\<rparr> = erase (c\<lparr>c_decode_q := v15\<rparr>)"
  "(erase c)\<lparr>c_rename_q := v16\<rparr> = erase (c\<lparr>c_rename_q := v16\<rparr>)"
  "(erase c)\<lparr>c_executing := v17\<rparr> = erase (c\<lparr>c_executing := v17\<rparr>)"
  "(erase c)\<lparr>c_wb_fast := v18\<rparr> = erase (c\<lparr>c_wb_fast := v18\<rparr>)"
  "(erase c)\<lparr>c_wb_slow := v19\<rparr> = erase (c\<lparr>c_wb_slow := v19\<rparr>)"
  "(erase c)\<lparr>c_fu_free_at := v20\<rparr> = erase (c\<lparr>c_fu_free_at := v20\<rparr>)"
  "(erase c)\<lparr>c_cdb_booked := v21\<rparr> = erase (c\<lparr>c_cdb_booked := v21\<rparr>)"
  "(erase c)\<lparr>c_cdb_window := v22\<rparr> = erase (c\<lparr>c_cdb_window := v22\<rparr>)"
  "(erase c)\<lparr>c_queue_cap := v23\<rparr> = erase (c\<lparr>c_queue_cap := v23\<rparr>)"
  "(erase c)\<lparr>c_fetch_stalled := v24\<rparr> = erase (c\<lparr>c_fetch_stalled := v24\<rparr>)"
  "(erase c)\<lparr>c_cycle := v25\<rparr> = erase (c\<lparr>c_cycle := v25\<rparr>)"
  "(erase c)\<lparr>c_halted := v26\<rparr> = erase (c\<lparr>c_halted := v26\<rparr>)"
  "(erase c)\<lparr>c_trapped := v27\<rparr> = erase (c\<lparr>c_trapped := v27\<rparr>)"
  "(erase c)\<lparr>c_exit_code := v28\<rparr> = erase (c\<lparr>c_exit_code := v28\<rparr>)"
  "(erase c)\<lparr>c_trap_cause := v29\<rparr> = erase (c\<lparr>c_trap_cause := v29\<rparr>)"
  "(erase c)\<lparr>c_commit_in_order := v30\<rparr> = erase (c\<lparr>c_commit_in_order := v30\<rparr>)"
  "(erase c)\<lparr>c_last_committed_seq := v31\<rparr> = erase (c\<lparr>c_last_committed_seq := v31\<rparr>)"
  "(erase c)\<lparr>c_stats := v32\<rparr> = erase (c\<lparr>c_stats := v32\<rparr>)"
  "(erase c)\<lparr>c_next_uid := v33\<rparr> = erase (c\<lparr>c_next_uid := v33\<rparr>)"
  "(erase c)\<lparr>c_undefined := v34\<rparr> = erase (c\<lparr>c_undefined := v34\<rparr>)"
  by (simp_all add: erase_def)

lemma erase_obs [simp]:
  "erase (upd_obs f c) = erase c" "upd_stats g (erase c) = erase (upd_stats g c)"
  "erase (erase c) = erase c"
  by (simp_all add: erase_def upd_obs_def upd_stats_def)

text \<open>A quiet observer records nothing.\<close>

lemma erase_recording [simp]:
  "event e (erase c) = erase c" "note_squashed s (erase c) = erase c" "note_retired s (erase c) = erase c"
  "log_decode u (erase c) = erase c" "log_rename u (erase c) = erase c" "log_issue u (erase c) = erase c"
  "erase (event e c) = erase c" "erase (note_squashed s c) = erase c" "erase (note_retired s c) = erase c"
  "erase (log_decode u c) = erase c" "erase (log_rename u c) = erase c" "erase (log_issue u c) = erase c"
  by (simp_all add: obs_defs erase_def upd_obs_def quiet_def)

lemma erase_stage_loop:
  assumes "\<And>c. body (erase c) = apfst erase (body c)"
  shows "stage_loop n body (erase c) = erase (stage_loop n body c)"
  by (induction n arbitrary: c) (simp_all add: assms split_beta)

section \<open>The front end\<close>

lemma fetch_one_erase: "fetch_one (erase c) = apfst erase (fetch_one c)"
  by (simp add: fetch_one_def Let_def split_beta)

lemma decode_one_erase: "decode_one (erase c) = apfst erase (decode_one c)"
proof -
  have "erase (log_decode u c\<lparr>c_fetch_q := q, c_fetch_stalled := b\<rparr>) =
      erase (c\<lparr>c_fetch_q := q, c_fetch_stalled := b\<rparr>)" for u c q b
    by (simp add: erase_def log_decode_def upd_obs_def)
  then show ?thesis by (simp add: decode_one_def Let_def split: list.split)
qed

lemma rename_parts_erase [simp]:
  "take_dest b (erase c) = map_option (apsnd erase) (take_dest b c)"
  "map_regs d u (erase c) = apsnd erase (map_regs d u c)"
  "take_checkpoint u (erase c) = apsnd erase (take_checkpoint u c)"
  "enter_rob u (erase c) = apsnd erase (enter_rob u c)"
  "rename_uop d u (erase c) = erase (rename_uop d u c)"
proof -
  show parts: "map_regs d u (erase c) = apsnd erase (map_regs d u c)"
    "take_checkpoint u (erase c) = apsnd erase (take_checkpoint u c)"
    "enter_rob u (erase c) = apsnd erase (enter_rob u c)" for d u c
    by (simp_all add: map_regs_def take_checkpoint_def enter_rob_def Let_def split_beta split: option.split)
  show "take_dest b (erase c) = map_option (apsnd erase) (take_dest b c)"
    by (simp add: take_dest_def split: option.split)
  show "rename_uop d u (erase c) = erase (rename_uop d u c)"
    by (simp add: rename_uop_def Let_def split_beta parts)
qed

lemma rename_one_erase: "rename_one (erase c) = apfst erase (rename_one c)"
  by (auto simp: rename_one_def split: list.split option.split)

lemma take_seat_erase [simp]: "take_seat u (erase c) = map_sum id (apsnd erase) (take_seat u c)"
  by (simp add: take_seat_def split: option.split)

lemma dispatch_one_erase: "dispatch_one (erase c) = apfst erase (dispatch_one c)"
  by (simp add: dispatch_one_def Let_def split: list.split sum.split)

lemma front_erase [simp]:
  "fetch (erase c) = erase (fetch c)" "decode_stage (erase c) = erase (decode_stage c)"
  "rename_stage (erase c) = erase (rename_stage c)" "dispatch (erase c) = erase (dispatch c)"
  by (simp_all add: fetch_def decode_stage_def rename_stage_def dispatch_def erase_stage_loop
      fetch_one_erase decode_one_erase rename_one_erase dispatch_one_erase)

section \<open>The back end\<close>

lemma unit_erase [simp]:
  "free_unit (erase c) f = free_unit c f" "occupy_unit f i t (erase c) = erase (occupy_unit f i t c)"
  "cdb_slot (erase c) t = cdb_slot c t" "reserve_cdb t (erase c) = map_option erase (reserve_cdb t c)"
  "release_cdb u (erase c) = erase (release_cdb u c)"
  by (simp_all add: free_unit_def occupy_unit_def cdb_slot_def reserve_cdb_def release_cdb_def Let_def)

lemma squash_erase [simp]:
  "squash_queue s us (erase c) = apsnd erase (squash_queue s us c)"
  "kill_entry e (erase c) = erase (kill_entry e c)"
  "fold kill_entry es (erase c) = erase (fold kill_entry es c)"
proof -
  show "squash_queue s us (erase c) = apsnd erase (squash_queue s us c)"
    by (induction us arbitrary: c) (simp_all add: split_beta)
  show kill: "kill_entry e (erase c) = erase (kill_entry e c)" for e c
    by (simp add: kill_entry_def Let_def)
  show "fold kill_entry es (erase c) = erase (fold kill_entry es c)"
    by (induction es arbitrary: c) (simp_all add: kill)
qed

lemma recover_erase [simp]: "recover br (erase c) = erase (recover br c)"
proof -
  define kill where "kill c = fold kill_entry (fst (rob_truncate_to (u_rob br) (c_rob c)))
      (c\<lparr>c_rob := snd (rob_truncate_to (u_rob br) (c_rob c))\<rparr>)" for c :: Cpu
  define drop_younger where "drop_younger c =
      c\<lparr>c_iq := iq_squash_after (u_seq br) (c_iq c), c_lsq := lsq_squash_after (u_seq br) (c_lsq c)\<rparr>" for c :: Cpu
  define redirect where "redirect c = upd_stats (\<lambda>s. s\<lparr>st_mispredicts := st_mispredicts s + 1\<rparr>)
      (c\<lparr>c_fetch_q := [], c_decode_q := [], c_rename_q := [], c_fetch_stalled := False,
         c_pc := u_next_pc br\<rparr>)" for c :: Cpu
  have recover: "recover br c = event (Ev_mispredict (u_seq br)
      (length (fst (rob_truncate_to (u_rob br) (c_rob c)))) (u_next_pc br))
      (redirect (restore_front_end br (squash_queues (u_seq br) (drop_younger (kill c)))))" for c
    unfolding recover_def Let_def split_beta kill_def drop_younger_def redirect_def by (rule refl)
  have "squash_queues s (erase c) = erase (squash_queues s c)" for s c
    by (simp add: squash_queues_def Let_def split_beta)
  moreover have "restore_front_end br (erase c) = erase (restore_front_end br c)" for c
    by (cases "cp_at (c_ckpts c) (u_ckpt br)") (simp_all add: restore_front_end_def Let_def)
  moreover have "kill (erase c) = erase (kill c)" "drop_younger (erase c) = erase (drop_younger c)"
    "redirect (erase c) = erase (redirect c)" for c
    by (simp_all add: kill_def drop_younger_def redirect_def)
  ultimately show ?thesis by (simp add: recover)
qed

lemma execute_parts_erase [simp]:
  "execute_load u l (erase c) = apsnd erase (execute_load u l c)"
  "execute_other u l (erase c) = map_option (apsnd erase) (execute_other u l c)"
  "enqueue_result u l (erase c) = erase (enqueue_result u l c)"
  by (simp_all add: execute_load_def execute_other_def enqueue_result_def Let_def split: option.split)

text \<open>The loop state of issue holds a machine.\<close>

definition erase_issue :: "Issue \<Rightarrow> Issue" where
  "erase_issue st = st\<lparr>is_cpu := erase (is_cpu st)\<rparr>"

lemma erase_issue_fields [simp]:
  "is_cpu (erase_issue st) = erase (is_cpu st)" "is_issued (erase_issue st) = is_issued st"
  "is_offender (erase_issue st) = is_offender st" "is_blocked (erase_issue st) = is_blocked st"
  "block_on s (erase c) (erase_issue st) = erase_issue (block_on s c st)"
  "erase_issue (block_on s (event e c) st) = erase_issue (block_on s c st)"
  by (simp_all add: erase_issue_def block_on_def)

text \<open>An event in the middle of a step is forgotten at its end.\<close>

lemma erase_event_inside:
  "(\<And>c. g (erase c) = erase (g c)) \<Longrightarrow> erase (g (event e c)) = erase (g c)"
  by (metis erase_recording(7))

lemma finish_issue_erase [simp]:
  "finish_issue e f i u l (erase c) (erase_issue st) = erase_issue (finish_issue e f i u l c st)"
proof -
  define c1 where "c1 c = (if f \<noteq> Fu_NONE
      then occupy_unit f i (c_cycle c + (if pipelined f then 1 else l)) c else c)" for c
  define v where "v c = u\<lparr>u_wb_cycle := c_cycle c + l, u_at := (u_at u)\<lparr>at_issue := c_cycle c\<rparr>\<rparr>" for c :: Cpu
  define mark where "mark w c = (if mispredicted w
      then c\<lparr>c_rob := rob_modify (c_rob c) (u_rob w) (\<lambda>r. r\<lparr>re_mispredicted := True\<rparr>)\<rparr> else c)" for w :: Uop and c :: Cpu
  define leave where "leave w c =
      c\<lparr>c_inflight := (c_inflight c)[u_rob w := w], c_iq := iq_erase (iq_seq e) (c_iq c)\<rparr>" for w :: Uop and c :: Cpu
  define count where "count w c = upd_stats (\<lambda>s. s\<lparr>st_issued := st_issued s + 1,
      st_loads := (if d_is_load (u_dec w) then st_loads s + 1 else st_loads s),
      st_stores := (if d_is_store (u_dec w) then st_stores s + 1 else st_stores s)\<rparr>) c" for w :: Uop and c
  define rest where "rest w c = log_issue w (count w (enqueue_result w l (leave w (mark w c))))" for w c
  have finish: "finish_issue e f i u l c st = st\<lparr>is_cpu := rest (v (c1 c)) (event (Ev_issue (u_seq (v (c1 c)))
      (if f = Fu_NONE then None else Some (fu_index f, i)) (u_wb_cycle (v (c1 c)))) (c1 c)),
      is_issued := is_issued st + 1, is_offender := note_offender (v (c1 c)) (is_offender st)\<rparr>" for c st
    by (simp only: finish_issue_def Let_def c1_def v_def mark_def leave_def count_def rest_def)
  have c1: "c1 (erase c) = erase (c1 c)" "v (erase c) = v c" for c
    by (simp_all add: c1_def v_def)
  have rest: "rest w (erase c) = erase (rest w c)" for w c
    by (simp add: rest_def count_def leave_def mark_def)
  then have "erase (rest w (event ev c)) = erase (rest w c)" for w ev c
    by (rule erase_event_inside)
  then show ?thesis by (simp add: finish c1 rest erase_issue_def)
qed

lemma issue_one_erase [simp]: "issue_one e (erase_issue st) = erase_issue (issue_one e st)"
  by (simp add: issue_one_def Let_def split_beta split: option.split)

lemma issue_scan_erase: "issue_scan es (erase_issue st) = erase_issue (issue_scan es st)"
  by (induction es arbitrary: st) simp_all

lemma charge_erase [simp]:
  "charge ss l (erase c) = apsnd erase (charge ss l c)" "charge_operands l (erase c) = erase (charge_operands l c)"
proof -
  show "charge ss l (erase c) = apsnd erase (charge ss l c)"
    by (induction ss arbitrary: l c) simp_all
  show "charge_operands l (erase c) = erase (charge_operands l c)"
    by (induction l arbitrary: c) simp_all
qed

lemma issue_erase [simp]: "issue (erase c) = erase (issue c)"
proof -
  let ?st = "\<lparr>is_cpu = c, is_issued = 0, is_offender = None, is_blocked = []\<rparr>"
  have "issue_scan es \<lparr>is_cpu = erase c, is_issued = 0, is_offender = None, is_blocked = []\<rparr> =
      erase_issue (issue_scan es ?st)" for es
    using issue_scan_erase [of es ?st] by (simp add: erase_issue_def)
  then show ?thesis by (simp add: issue_def Let_def split_beta split: option.split)
qed

lemma back_erase [simp]:
  "execute (erase c) = erase (execute c)" "complete u (erase c) = erase (complete u c)"
  "writeback (erase c) = erase (writeback c)" "squash_in_flight (erase c) = erase (squash_in_flight c)"
proof -
  have "execute_scan us still (erase c) = erase (execute_scan us still c)" for us still c
    by (induction us arbitrary: still c) simp_all
  then show "execute (erase c) = erase (execute c)" by (simp add: execute_def)
  show complete: "complete u (erase c) = erase (complete u c)" for u c
    by (simp add: complete_def Let_def)
  have "drain_fast us p (erase c) = apsnd erase (drain_fast us p c)"
    "drain_slow us p (erase c) = erase (drain_slow us p c)" for us p c
    by (induction us arbitrary: p c) (simp_all add: complete)
  then show "writeback (erase c) = erase (writeback c)"
    by (simp add: writeback_def Let_def split_beta)
  show "squash_in_flight (erase c) = erase (squash_in_flight c)"
  proof -
    define reset where "reset c = c\<lparr>c_rat := c_arch_rat c, c_lsq := lsq_clear (c_lsq c), c_fetch_q := [],
        c_decode_q := [], c_rename_q := [], c_iq := iq_clear (c_iq c), c_executing := [], c_wb_fast := [],
        c_wb_slow := [], c_cdb_booked := map (\<lambda>_. 0) (c_cdb_booked c), c_fetch_stalled := False\<rparr>" for c :: Cpu
    have reset: "reset (erase c) = erase (reset c)" for c by (simp add: reset_def)
    then have "erase (reset (event e c)) = erase (reset c)" for e c by (rule erase_event_inside)
    moreover have "squash_in_flight c = (let (killed, rob) = rob_squash_all (c_rob c);
        c = fold kill_entry killed (c\<lparr>c_rob := rob\<rparr>)
        in reset (if 0 < length killed then event (Ev_squashed (length killed)) c else c))" for c
      by (simp only: squash_in_flight_def Let_def reset_def)
    ultimately show ?thesis using reset by (simp add: Let_def split_beta)
  qed
qed

section \<open>Commit and the cycle\<close>

lemma done_erase [simp]:
  "cpu_done (erase c) = cpu_done c" "cpu_reg (erase c) r = cpu_reg c r" "cpu_regs (erase c) = cpu_regs c"
  by (simp_all add: cpu_done_def cpu_reg_def cpu_regs_def)

lemma commit_parts_erase [simp]:
  "commit_order u (erase c) = erase (commit_order u c)" "commit_load u (erase c) = erase (commit_load u c)"
  "commit_branch u (erase c) = erase (commit_branch u c)"
  "commit_effect u (erase c) = apsnd erase (commit_effect u c)"
  "commit_mapping u (erase c) = erase (commit_mapping u c)"
  "commit_trap t u (erase c) = erase (commit_trap t u c)"
proof -
  have "commit_store op (erase c) = erase (commit_store op c)" for op
    by (simp add: commit_store_def Let_def)
  then show "commit_effect u (erase c) = apsnd erase (commit_effect u c)"
    by (simp add: commit_effect_def split: Op.split)
qed (simp_all add: commit_order_def commit_load_def commit_branch_def commit_mapping_def commit_trap_def Let_def)

lemma commit_one_erase: "commit_one (erase c) = apfst erase (commit_one c)"
proof -
  have "commit_uop u (erase c) = erase (commit_uop u c)" for u c
    by (simp add: commit_uop_def Let_def split_beta)
  then show ?thesis by (simp add: commit_one_def Let_def split: option.split)
qed

lemma tick_erase: "tick (erase c) = erase (tick c)"
proof -
  have "begin_cycle (erase c) = erase (begin_cycle c)"
    by (simp add: begin_cycle_def Let_def upd_obs_def quiet_def erase_def upd_stats_def)
  then show ?thesis
    by (simp add: tick_def Let_def commit_def erase_stage_loop commit_one_erase back_stages_def)
qed

lemma run_erase: "run_cpu n (erase c) = apsnd erase (run_cpu n c)"
proof (induction n c rule: run_cpu.induct)
  case (1 n c)
  show ?case
  proof (cases "\<not> cpu_done c \<and> c_cycle c < n")
    case True
    then show ?thesis using 1 by (simp add: run_cpu.simps [of n c] run_cpu.simps [of n "erase c"] tick_erase)
  next
    case False
    then show ?thesis by (auto simp: run_cpu.simps [of n c] run_cpu.simps [of n "erase c"])
  qed
qed

end
