(* ===== verification/Loader.thy ===== *)
theory Loader
  imports Memory Text
begin

text \<open>
  \<^verbatim>\<open>src/src/loader.h\<close>: the three program-loading paths. A stream is the text it delivers; a
  loader returns the memory it leaves together with its result or the exception it throws. A
  \<open>std::size_t\<close> and an \<open>unsigned long\<close> have 64 bits, so the sums of two 32-bit offsets are
  natural numbers here.
\<close>

unbundle bit_operations_syntax

section \<open>Results and failures\<close>

record LoadResult =
  lr_entry :: u32
  lr_ro_ranges :: "(u32 \<times> u32) list"

datatype LoadError =
    Invalid_hex_word string
  | Hex_word_out_of_range
  | Elf_file_too_small
  | Elf_bad_magic
  | Elf_not_class32
  | Elf_not_lsb
  | Elf_phdr_past_eof
  | Elf_segment_past_eof
  | Read_past_buffer

text \<open>\<open>Read_past_buffer\<close> stands for the undefined behaviour of an index outside the buffer.\<close>

type_synonym Loaded = "Memory \<times> (LoadError + LoadResult)"

section \<open>The hex-word format\<close>

definition newline :: char where "newline = CHR 0x0A"
definition carriage_return :: char where "carriage_return = CHR 0x0D"

text \<open>\<open>std::getline\<close> until it fails: an empty rest after the last newline is no line.\<close>

definition lines_of :: "string \<Rightarrow> string list" where
  "lines_of s = (let ps = pieces (\<lambda>c. c = newline) s in if last ps = [] then butlast ps else ps)"

fun cut_slashes :: "string \<Rightarrow> string" where
  "cut_slashes (c # d # cs) =
     (if c = CHR ''/'' \<and> d = CHR ''/'' then [] else c # cut_slashes (d # cs))"
| "cut_slashes s = s"

definition cut_hash :: "string \<Rightarrow> string" where
  "cut_hash s = takeWhile (\<lambda>c. c \<noteq> CHR ''#'') s"

definition is_ws :: "char \<Rightarrow> bool" where
  "is_ws c \<longleftrightarrow> c = CHR '' '' \<or> c = CHR 0x09"

definition trim :: "string \<Rightarrow> string" where
  "trim s = rev (dropWhile is_ws (rev (dropWhile is_ws s)))"

definition strip_cr :: "string \<Rightarrow> string" where
  "strip_cr s = (if s \<noteq> [] \<and> last s = carriage_return then butlast s else s)"

definition strip_0x :: "string \<Rightarrow> string" where
  "strip_0x s = (if 2 \<le> length s \<and> s ! 0 = CHR ''0'' \<and> (s ! 1 = CHR ''x'' \<or> s ! 1 = CHR ''X'')
     then drop 2 s else s)"

text \<open>One line: nothing to load, a word, or the exception.\<close>

definition hex_line :: "string \<Rightarrow> LoadError + u32 option" where
  "hex_line l0 = (let l = trim (cut_hash (cut_slashes (strip_cr l0))) in
     if l = [] then Inr None
     else let w = strip_0x l in
       if w = [] \<or> \<not> list_all is_hex_digit w then Inl (Invalid_hex_word w)
       else if 2 ^ 64 \<le> read_base 16 w then Inl Hex_word_out_of_range
       else Inr (Some (of_nat (read_base 16 w))))"

fun load_hex_lines :: "Memory \<Rightarrow> u32 \<Rightarrow> string list \<Rightarrow> Memory \<times> (LoadError + unit)" where
  "load_hex_lines m addr [] = (m, Inr ())"
| "load_hex_lines m addr (l # ls) = (case hex_line l of
       Inl e \<Rightarrow> (m, Inl e)
     | Inr None \<Rightarrow> load_hex_lines m addr ls
     | Inr (Some w) \<Rightarrow> load_hex_lines (store_u32 m addr w) (addr + 4) ls)"

definition load_hex :: "Memory \<Rightarrow> string \<Rightarrow> u32 \<Rightarrow> Loaded" where
  "load_hex m s base = (case load_hex_lines m base (lines_of s) of
       (m', Inl e) \<Rightarrow> (m', Inl e)
     | (m', Inr _) \<Rightarrow> (m', Inr \<lparr>lr_entry = base, lr_ro_ranges = []\<rparr>))"

section \<open>The raw format\<close>

definition stream_bytes :: "string \<Rightarrow> u8 list" where
  "stream_bytes s = map of_char s"

definition load_raw :: "Memory \<Rightarrow> string \<Rightarrow> u32 \<Rightarrow> Loaded" where
  "load_raw m s base = (let buf = stream_bytes s in
     (if buf \<noteq> [] then write_bytes m base buf else m, Inr \<lparr>lr_entry = base, lr_ro_ranges = []\<rparr>))"

section \<open>The ELF format\<close>

text \<open>Reading the buffer: \<open>None\<close> where the C++ index would be out of range.\<close>

definition rd_u8 :: "u8 list \<Rightarrow> nat \<Rightarrow> u8 option" where
  "rd_u8 buf off = (if off < length buf then Some (buf ! off) else None)"

definition rd_u16 :: "u8 list \<Rightarrow> nat \<Rightarrow> u16 option" where
  "rd_u16 buf off = (case (rd_u8 buf off, rd_u8 buf (off + 1)) of
       (Some b0, Some b1) \<Rightarrow> Some (ucast b0 OR push_bit 8 (ucast b1))
     | _ \<Rightarrow> None)"

definition rd_u32 :: "u8 list \<Rightarrow> nat \<Rightarrow> u32 option" where
  "rd_u32 buf off =
     (case (rd_u8 buf off, rd_u8 buf (off + 1), rd_u8 buf (off + 2), rd_u8 buf (off + 3)) of
       (Some b0, Some b1, Some b2, Some b3) \<Rightarrow>
         Some (ucast b0 OR push_bit 8 (ucast b1) OR push_bit 16 (ucast b2) OR push_bit 24 (ucast b3))
     | _ \<Rightarrow> None)"

record Ehdr =
  e_entry :: u32
  e_phoff :: u32
  e_phentsize :: u16
  e_phnum :: u16

record Phdr =
  p_type :: u32
  p_offset :: u32
  p_vaddr :: u32
  p_filesz :: u32
  p_memsz :: u32
  p_flags :: u32

definition read_ehdr :: "u8 list \<Rightarrow> Ehdr option" where
  "read_ehdr buf = (case (rd_u32 buf 24, rd_u32 buf 28, rd_u16 buf 42, rd_u16 buf 44) of
       (Some en, Some po, Some ps, Some pn) \<Rightarrow>
         Some \<lparr>e_entry = en, e_phoff = po, e_phentsize = ps, e_phnum = pn\<rparr>
     | _ \<Rightarrow> None)"

definition read_phdr :: "u8 list \<Rightarrow> nat \<Rightarrow> Phdr option" where
  "read_phdr buf off =
     (case (rd_u32 buf off, rd_u32 buf (off + 4), rd_u32 buf (off + 8),
            rd_u32 buf (off + 16), rd_u32 buf (off + 20), rd_u32 buf (off + 24)) of
       (Some t, Some po, Some va, Some fs, Some ms, Some fl) \<Rightarrow>
         Some \<lparr>p_type = t, p_offset = po, p_vaddr = va, p_filesz = fs, p_memsz = ms, p_flags = fl\<rparr>
     | _ \<Rightarrow> None)"

definition PT_LOAD :: u32 where "PT_LOAD = 1"
definition PF_W :: u32 where "PF_W = 2"
definition PF_R :: u32 where "PF_R = 4"

definition read_only :: "Phdr \<Rightarrow> bool" where
  "read_only p \<longleftrightarrow> p_flags p AND PF_R \<noteq> 0 \<and> \<not> p_flags p AND PF_W \<noteq> 0"

text \<open>The bytes \<open>write_bytes\<close> copies from \<open>buf.data() + p_offset\<close>: \<open>None\<close> where the range leaves the buffer.\<close>

definition segment_bytes :: "u8 list \<Rightarrow> Phdr \<Rightarrow> u8 list option" where
  "segment_bytes buf p =
     (if unat (p_offset p) + unat (p_filesz p) \<le> length buf
      then Some (take (unat (p_filesz p)) (drop (unat (p_offset p)) buf)) else None)"

definition phdr_at :: "Ehdr \<Rightarrow> nat \<Rightarrow> nat" where
  "phdr_at h i = unat (e_phoff h) + i * unat (e_phentsize h)"

fun load_segments ::
    "u8 list \<Rightarrow> Ehdr \<Rightarrow> nat list \<Rightarrow> Memory \<Rightarrow> (u32 \<times> u32) list \<Rightarrow> Memory \<times> (LoadError + (u32 \<times> u32) list)" where
  "load_segments buf h [] m ro = (m, Inr ro)"
| "load_segments buf h (i # is) m ro = (let base_off = phdr_at h i in
     if length buf < base_off + 32 then (m, Inl Elf_phdr_past_eof)
     else case read_phdr buf base_off of
         None \<Rightarrow> (m, Inl Read_past_buffer)
       | Some p \<Rightarrow>
           if p_type p \<noteq> PT_LOAD then load_segments buf h is m ro
           else if length buf < unat (p_offset p) + unat (p_filesz p)
             then (m, Inl Elf_segment_past_eof)
           else case segment_bytes buf p of
               None \<Rightarrow> (m, Inl Read_past_buffer)
             | Some bs \<Rightarrow> load_segments buf h is (write_bytes m (p_vaddr p) bs)
                  (if read_only p then ro @ [(p_vaddr p, p_vaddr p + p_memsz p)] else ro))"

definition elf_ident_error :: "u8 list \<Rightarrow> LoadError option" where
  "elf_ident_error buf =
     (if length buf < 52 then Some Elf_file_too_small
      else case (rd_u8 buf 0, rd_u8 buf 1, rd_u8 buf 2, rd_u8 buf 3, rd_u8 buf 4, rd_u8 buf 5) of
          (Some b0, Some b1, Some b2, Some b3, Some b4, Some b5) \<Rightarrow>
            if b0 \<noteq> 0x7F \<or> b1 \<noteq> 0x45 \<or> b2 \<noteq> 0x4C \<or> b3 \<noteq> 0x46 then Some Elf_bad_magic
            else if b4 \<noteq> 1 then Some Elf_not_class32
            else if b5 \<noteq> 1 then Some Elf_not_lsb
            else None
        | _ \<Rightarrow> Some Read_past_buffer)"

definition load_elf :: "Memory \<Rightarrow> string \<Rightarrow> Loaded" where
  "load_elf m s = (let buf = stream_bytes s in
     case elf_ident_error buf of
       Some e \<Rightarrow> (m, Inl e)
     | None \<Rightarrow> (case read_ehdr buf of
           None \<Rightarrow> (m, Inl Read_past_buffer)
         | Some h \<Rightarrow> (case load_segments buf h [0..<unat (e_phnum h)] m [] of
               (m', Inl e) \<Rightarrow> (m', Inl e)
             | (m', Inr ro) \<Rightarrow> (m', Inr \<lparr>lr_entry = e_entry h, lr_ro_ranges = ro\<rparr>))))"

section \<open>The hex format reads back a listing\<close>

primrec store_words :: "Memory \<Rightarrow> u32 \<Rightarrow> u32 list \<Rightarrow> Memory" where
  "store_words m a [] = m"
| "store_words m a (w # ws) = store_words (store_u32 m a w) (a + 4) ws"

text \<open>What may follow a word on its line, and how a line spells a word or nothing.\<close>

definition trailer :: "string \<Rightarrow> bool" where
  "trailer c \<longleftrightarrow> c = [] \<or> c = [carriage_return] \<or> take 1 c = ''#'' \<or> take 2 c = ''//''"

inductive source_line :: "string \<Rightarrow> u32 option \<Rightarrow> bool" where
  blank: "list_all is_ws sp \<Longrightarrow> trailer c \<Longrightarrow> source_line (sp @ c) None"
| word: "list_all is_ws sp \<Longrightarrow> px \<in> {[], ''0x'', ''0X''} \<Longrightarrow> ds \<noteq> [] \<Longrightarrow> length ds \<le> 8 \<Longrightarrow>
    list_all is_hex_digit ds \<Longrightarrow> list_all is_ws sp' \<Longrightarrow> trailer c \<Longrightarrow>
    source_line (sp @ px @ ds @ sp' @ c) (Some (of_nat (read_base 16 ds)))"

lemma cut_slashes_append: "CHR ''/'' \<notin> set b \<Longrightarrow> cut_slashes (b @ c) = b @ cut_slashes c"
proof (induction b)
  case (Cons x b)
  then show ?case by (cases "b @ c") auto
qed simp

text \<open>A character no cut stops at.\<close>

definition plain_char :: "char \<Rightarrow> bool" where
  "plain_char c \<longleftrightarrow> c \<noteq> CHR ''/'' \<and> c \<noteq> CHR ''#'' \<and> c \<noteq> carriage_return"

lemma cut_trailer:
  assumes "trailer c" and plain: "\<And>x. x \<in> set b \<Longrightarrow> plain_char x"
  shows "cut_hash (cut_slashes (strip_cr (b @ c))) = b"
proof -
  have free: "CHR ''/'' \<notin> set b" "CHR ''#'' \<notin> set b" "carriage_return \<notin> set b"
    using plain unfolding plain_char_def by metis+
  have hash_b: "cut_hash b = b" using free(2) by (auto simp: cut_hash_def takeWhile_eq_all_conv)
  have strip_b: "strip_cr b = b" using free(3) unfolding strip_cr_def by (metis last_in_set)
  have slash: "cut_slashes (b @ CHR ''/'' # CHR ''/'' # t) = b" for t
    using free(1) by (simp add: cut_slashes_append)
  have hash: "cut_hash (cut_slashes (b @ CHR ''#'' # t)) = b" for t
    using free(1,2) by (cases t) (auto simp: cut_slashes_append cut_hash_def takeWhile_append)
  from assms(1) consider "c = []" | "c = [carriage_return]" | t where "c = CHR ''#'' # t"
    | t where "c = CHR ''/'' # CHR ''/'' # t"
    by (cases c; cases "tl c") (auto simp: trailer_def)
  then show ?thesis
  proof cases
    case 1
    then show ?thesis using free(1) cut_slashes_append [of b "[]"] by (simp add: strip_b hash_b)
  next
    case 2
    then show ?thesis using free(1) cut_slashes_append [of b "[]"] by (simp add: strip_cr_def hash_b)
  next
    case 3
    then show ?thesis
      by (cases t rule: rev_cases) (simp_all add: strip_cr_def carriage_return_def hash butlast_append)
  next
    case 4
    then show ?thesis
      by (cases t rule: rev_cases) (simp_all add: strip_cr_def carriage_return_def slash hash_b butlast_append)
  qed
qed

lemma trim_core:
  assumes "list_all is_ws sp" "list_all is_ws sp'" "core \<noteq> []" "list_all (\<lambda>c. \<not> is_ws c) core"
  shows "trim (sp @ core @ sp') = core"
proof -
  have hd: "\<not> is_ws (hd core)" and lst: "\<not> is_ws (last core)"
    using assms(3,4) by (simp_all add: list_all_iff)
  have "dropWhile is_ws (sp @ core @ sp') = core @ sp'"
    using assms(1,3) hd by (cases core) (auto simp: dropWhile_append list_all_iff)
  moreover have "dropWhile is_ws (rev (core @ sp')) = rev core"
    using assms(2,3) lst by (cases core rule: rev_cases) (auto simp: dropWhile_append list_all_iff)
  ultimately show ?thesis by (simp add: trim_def)
qed

lemma trim_blank: "list_all is_ws sp \<Longrightarrow> trim sp = []"
proof -
  assume "list_all is_ws sp"
  then have "dropWhile is_ws sp = []" by (simp only: list_all_iff dropWhile_eq_Nil_conv)
  then show ?thesis by (simp only: trim_def rev.simps dropWhile.simps)
qed

lemma hex_char_facts:
  assumes "is_hex_digit c \<or> c = CHR ''x'' \<or> c = CHR ''X''"
  shows "\<not> is_ws c" "plain_char c"
  using assms by (auto simp: is_hex_digit_def is_digit_def is_ws_def plain_char_def carriage_return_def)

lemma ws_char_facts: "is_ws c \<Longrightarrow> plain_char c"
  by (auto simp: is_ws_def plain_char_def carriage_return_def)

lemma strip_0x_core:
  assumes "px \<in> {[], ''0x'', ''0X''}" "list_all is_hex_digit ds"
  shows "strip_0x (px @ ds) = ds"
proof -
  have "\<not> is_hex_digit (CHR ''x'')" "\<not> is_hex_digit (CHR ''X'')"
    by (simp_all add: is_hex_digit_def is_digit_def)
  then have "ds ! 1 \<noteq> CHR ''x'' \<and> ds ! 1 \<noteq> CHR ''X''" if "2 \<le> length ds"
    using assms(2) that by (metis list_all_length Suc_1 Suc_le_lessD)
  with assms(1) show ?thesis by (auto simp: strip_0x_def)
qed

lemma digit_value_hex: "is_hex_digit c \<Longrightarrow> digit_value c < 16"
  by (auto simp: is_hex_digit_def is_digit_def digit_value_def Let_def)

lemma read_base_bound: "list_all is_hex_digit ds \<Longrightarrow> read_base 16 ds < 16 ^ length ds"
proof (induction ds rule: rev_induct)
  case Nil
  then show ?case by (simp add: read_base_def)
next
  case (snoc d ds)
  then have "read_base 16 ds < 16 ^ length ds" "digit_value d < 16"
    by (simp_all add: digit_value_hex)
  then have "read_base 16 ds * 16 + digit_value d < (read_base 16 ds + 1) * 16"
    "(read_base 16 ds + 1) * 16 \<le> 16 ^ length ds * 16" by simp_all
  then show ?case by (simp add: read_base_snoc)
qed

lemma hex_line_source: "source_line l w \<Longrightarrow> hex_line l = Inr w"
proof (induction rule: source_line.induct)
  case (blank sp c)
  then have "plain_char x" if "x \<in> set sp" for x
    using ws_char_facts that unfolding list_all_iff by blast
  then have "cut_hash (cut_slashes (strip_cr (sp @ c))) = sp"
    by (rule cut_trailer [OF blank(2)])
  with blank show ?case by (simp add: hex_line_def trim_blank)
next
  case (word sp px ds sp' c)
  let ?core = "px @ ds"
  have core: "is_hex_digit x \<or> x = CHR ''x'' \<or> x = CHR ''X''" if "x \<in> set ?core" for x
    using that word(2,5) by (auto simp: list_all_iff is_hex_digit_def is_digit_def)
  have no_ws: "list_all (\<lambda>x. \<not> is_ws x) ?core"
    using core hex_char_facts(1) unfolding list_all_iff by blast
  have "plain_char x" if "x \<in> set (sp @ ?core @ sp')" for x
  proof -
    have "is_ws x \<or> x \<in> set ?core" using that word(1,6) unfolding list_all_iff set_append by blast
    then show ?thesis using core [of x] hex_char_facts ws_char_facts by blast
  qed
  then have "cut_hash (cut_slashes (strip_cr ((sp @ ?core @ sp') @ c))) = sp @ ?core @ sp'"
    by (rule cut_trailer [OF word(7)])
  moreover have "trim (sp @ ?core @ sp') = ?core"
    by (rule trim_core) (use word(1,3,6) no_ws in simp_all)
  moreover have "read_base 16 ds < 2 ^ 64"
  proof -
    have "(16::nat) ^ length ds \<le> 16 ^ 8" using word(4) by (intro power_increasing) simp_all
    with read_base_bound [OF word(5)] show ?thesis by simp
  qed
  ultimately show ?case
    using word(2,3,5) by (simp add: hex_line_def strip_0x_core Let_def)
qed

lemma lines_of_lines:
  "(\<And>l. l \<in> set ls \<Longrightarrow> newline \<notin> set l) \<Longrightarrow> lines_of (concat (map (\<lambda>l. l @ [newline]) ls)) = ls"
proof -
  assume "\<And>l. l \<in> set ls \<Longrightarrow> newline \<notin> set l"
  then have "pieces (\<lambda>c. c = newline) (concat (map (\<lambda>l. l @ [newline]) ls)) = ls @ [[]]"
  proof (induction ls)
    case (Cons l ls)
    then have "\<forall>c \<in> set l. c \<noteq> newline" by auto
    with Cons show ?case using pieces_append [of l "\<lambda>c. c = newline" newline] by simp
  qed simp
  then show ?thesis by (simp add: lines_of_def)
qed

definition words_of :: "u32 option list \<Rightarrow> u32 list" where
  "words_of ws = map the (filter (\<lambda>w. w \<noteq> None) ws)"

lemma load_hex_lines_source:
  "list_all2 source_line ls ws \<Longrightarrow> load_hex_lines m a ls = (store_words m a (words_of ws), Inr ())"
proof (induction arbitrary: m a rule: list_all2_induct)
  case (Cons l ls w ws)
  then show ?case by (cases w) (simp_all add: hex_line_source words_of_def)
qed (simp add: words_of_def)

text \<open>Words stored one after the other: each is read back, and nothing else is touched.\<close>

lemma unat_minus_small:
  assumes "n \<le> unat x"
  shows "unat (x - of_nat n) = unat x - n"
proof -
  have "n < 2 ^ LENGTH('a)" using assms unsigned_less [of x] by (rule le_less_trans)
  then have "unat (of_nat n :: 'a::len word) = n" by (simp add: unsigned_of_nat take_bit_nat_eq_self)
  with assms show ?thesis by (simp add: unat_sub word_le_nat_alt)
qed

lemma store_words_frame:
  "4 * length ws \<le> unat (x - a) \<Longrightarrow> load_u8 (store_words m a ws) x = load_u8 m x"
proof (induction ws arbitrary: m a)
  case (Cons w ws)
  have diff: "x - (a + 4) = x - a - 4" by (simp add: algebra_simps)
  have "unat (x - (a + 4)) = unat (x - a) - 4"
    unfolding diff using Cons.prems unat_minus_small [of 4 "x - a"] by simp
  with Cons.prems have "4 * length ws \<le> unat (x - (a + 4))" by simp
  then have "load_u8 (store_words m a (w # ws)) x = load_u8 (store_u32 m a w) x" by (simp add: Cons.IH)
  also have "\<dots> = load_u8 m x" using Cons.prems mem.ld_bytes_store [of 4] by (simp add: store_u32_bytes)
  finally show ?case .
qed simp

lemma load_u32_cong:
  assumes "\<And>k. k < 4 \<Longrightarrow> load_u8 m (a + of_nat k) = load_u8 m' (a + of_nat k)"
  shows "load_u32 m a = load_u32 m' a"
  unfolding load_u32_bytes using assms by (rule bytes_load_cong)

lemma load_store_words:
  assumes "4 * length ws \<le> 2 ^ 32" "i < length ws"
  shows "load_u32 (store_words m a ws) (a + 4 * of_nat i) = ws ! i"
  using assms
proof (induction ws arbitrary: m a i)
  case (Cons w ws)
  show ?case
  proof (cases i)
    case 0
    have "load_u32 (store_words (store_u32 m a w) (a + 4) ws) a = load_u32 (store_u32 m a w) a"
    proof (rule load_u32_cong, rule store_words_frame)
      fix k :: nat assume k: "k < 4"
      from k consider "k = 0" | "k = 1" | "k = 2" | "k = 3" by linarith
      then have "unat (a + of_nat k - (a + 4)) = 2 ^ 32 - (4 - k)" 
        by cases (simp_all add: unsigned_minus_1_eq_mask mask_eq_exp_minus_1)
      with Cons.prems(1) k show "4 * length ws \<le> unat (a + of_nat k - (a + 4))" by simp
    qed
    also have "\<dots> = w"
      unfolding load_u32_bytes store_u32_bytes using mem.load_after_store [of 4 m a w]
      by (simp add: take_bit_word_eq_self)
    finally show ?thesis using 0 by simp
  next
    case (Suc j)
    then show ?thesis using Cons.IH [of j "store_u32 m a w" "a + 4"] Cons.prems by (simp add: algebra_simps)
  qed
qed simp

section \<open>The ELF loader\<close>

lemma unat_less32: "unat (x :: u32) < 4294967296"
proof -
  have "unat x < 2 ^ LENGTH(32)" by (rule unsigned_less)
  then show ?thesis by simp
qed

lemmas rd_defs = rd_u8_def rd_u16_def rd_u32_def

lemma read_ehdr_in_range: "52 \<le> length buf \<Longrightarrow> read_ehdr buf \<noteq> None"
  by (simp add: read_ehdr_def rd_defs)

lemma read_phdr_in_range: "off + 32 \<le> length buf \<Longrightarrow> read_phdr buf off \<noteq> None"
  by (simp add: read_phdr_def rd_defs)

lemma load_segments_in_range: "snd (load_segments buf h is m ro) \<noteq> Inl Read_past_buffer"
proof (induction buf h "is" m ro rule: load_segments.induct)
  case (2 buf h i "is" m ro)
  show ?case
  proof (cases "length buf < phdr_at h i + 32")
    case False
    then obtain p where "read_phdr buf (phdr_at h i) = Some p"
      using read_phdr_in_range [of "phdr_at h i" buf] by auto
    with False show ?thesis using 2 by (simp add: Let_def segment_bytes_def not_less)
  qed (simp add: Let_def)
qed simp

text \<open>The segments of a file that loads, in header order.\<close>

definition segment_at :: "u8 list \<Rightarrow> Ehdr \<Rightarrow> nat \<Rightarrow> Phdr option" where
  "segment_at buf h i = (case read_phdr buf (phdr_at h i) of
       Some p \<Rightarrow> if p_type p = PT_LOAD then Some p else None
     | None \<Rightarrow> None)"

definition segments_of :: "u8 list \<Rightarrow> Ehdr \<Rightarrow> nat list \<Rightarrow> Phdr list" where
  "segments_of buf h is = map the (filter (\<lambda>p. p \<noteq> None) (map (segment_at buf h) is))"

definition write_segments :: "u8 list \<Rightarrow> Phdr list \<Rightarrow> Memory \<Rightarrow> Memory" where
  "write_segments buf ps m = foldl (\<lambda>m p. write_bytes m (p_vaddr p) (the (segment_bytes buf p))) m ps"

definition ro_range :: "Phdr \<Rightarrow> u32 \<times> u32" where
  "ro_range p = (p_vaddr p, p_vaddr p + p_memsz p)"

lemma load_segments_result:
  "load_segments buf h is m ro = (m', Inr ro') \<Longrightarrow>
    m' = write_segments buf (segments_of buf h is) m \<and>
    ro' = ro @ map ro_range (filter read_only (segments_of buf h is)) \<and>
    (\<forall>p \<in> set (segments_of buf h is). unat (p_offset p) + unat (p_filesz p) \<le> length buf)"
proof (induction buf h "is" m ro arbitrary: m' ro' rule: load_segments.induct)
  case (1 buf h m ro)
  then show ?case by (simp add: segments_of_def write_segments_def)
next
  case (2 buf h i "is" m ro)
  note run = "2.prems"
  from run obtain p where p: "\<not> length buf < phdr_at h i + 32" "read_phdr buf (phdr_at h i) = Some p"
    by (auto simp: Let_def split: if_splits option.splits)
  show ?case
  proof (cases "p_type p = PT_LOAD")
    case False
    then have "segments_of buf h (i # is) = segments_of buf h is"
      using p by (simp add: segments_of_def segment_at_def)
    with False show ?thesis using run p "2.IH"(1) [OF refl p False, of m' ro'] by (simp add: Let_def)
  next
    case True
    with run p have len: "\<not> length buf < unat (p_offset p) + unat (p_filesz p)"
      by (auto simp: Let_def split: if_splits)
    have "segments_of buf h (i # is) = p # segments_of buf h is"
      using True p by (simp add: segments_of_def segment_at_def)
    moreover obtain bs where bs: "segment_bytes buf p = Some bs" using len by (simp add: segment_bytes_def)
    ultimately show ?thesis using True run p len "2.IH"(2) [OF refl p _ len bs, of m' ro']
      by (auto simp: Let_def write_segments_def ro_range_def)
  qed
qed

lemma write_segments_append:
  "write_segments buf (ps @ qs) m = write_segments buf qs (write_segments buf ps m)"
  by (simp add: write_segments_def)

lemma segment_bytes_length:
  "unat (p_offset p) + unat (p_filesz p) \<le> length buf \<Longrightarrow> length (the (segment_bytes buf p)) = unat (p_filesz p)"
  by (simp add: segment_bytes_def)

lemma load_write_segment:
  assumes "unat (p_offset p) + unat (p_filesz p) \<le> length buf"
  shows "load_u8 (write_bytes m (p_vaddr p) (the (segment_bytes buf p))) x =
    (if unat (x - p_vaddr p) < unat (p_filesz p) then buf ! (unat (p_offset p) + unat (x - p_vaddr p))
     else load_u8 m x)"
proof -
  have "length (the (segment_bytes buf p)) \<le> 2 ^ 32"
    using segment_bytes_length [OF assms] unat_less32 [of "p_filesz p"] by simp
  with assms show ?thesis
    by (simp add: load_u8_write_bytes segment_bytes_length) (simp add: segment_bytes_def)
qed

lemma write_segments_outside:
  assumes "\<forall>q \<in> set qs. unat (p_offset q) + unat (p_filesz q) \<le> length buf"
    and "\<forall>q \<in> set qs. unat (p_filesz q) \<le> unat (x - p_vaddr q)"
  shows "load_u8 (write_segments buf qs m) x = load_u8 m x"
  using assms
proof (induction qs arbitrary: m)
  case (Cons q qs)
  then show ?case by (simp add: write_segments_def load_write_segment)
qed (simp add: write_segments_def)

definition elf_segments :: "u8 list \<Rightarrow> Phdr list" where
  "elf_segments buf = (case read_ehdr buf of
       None \<Rightarrow> [] | Some h \<Rightarrow> segments_of buf h [0..<unat (e_phnum h)])"

lemma load_elf_result:
  assumes "load_elf m s = (m', Inr r)"
  defines "buf \<equiv> stream_bytes s"
  shows "m' = write_segments buf (elf_segments buf) m"
    and "lr_ro_ranges r = map ro_range (filter read_only (elf_segments buf))"
    and "\<forall>p \<in> set (elf_segments buf). unat (p_offset p) + unat (p_filesz p) \<le> length buf"
    and "rd_u32 buf 24 = Some (lr_entry r)"
proof -
  from assms(1) obtain h ro where h: "read_ehdr buf = Some h"
    and run: "load_segments buf h [0..<unat (e_phnum h)] m [] = (m', Inr ro)"
    and r: "r = \<lparr>lr_entry = e_entry h, lr_ro_ranges = ro\<rparr>"
    by (auto simp: load_elf_def buf_def Let_def split: option.splits prod.splits sum.splits)
  from load_segments_result [OF run] h r
  show "m' = write_segments buf (elf_segments buf) m"
    "lr_ro_ranges r = map ro_range (filter read_only (elf_segments buf))"
    "\<forall>p \<in> set (elf_segments buf). unat (p_offset p) + unat (p_filesz p) \<le> length buf"
    by (simp_all add: elf_segments_def)
  show "rd_u32 buf 24 = Some (lr_entry r)"
    using h r by (auto simp: read_ehdr_def split: option.splits)
qed

section \<open>Properties\<close>

text \<open>C30: A hex listing reads back: lines with blanks, comments, carriage returns, an optional prefix
  and at most eight digits load exactly the words they spell, one after the other from the
  base, and change no other byte.\<close>

theorem hex_listing_reads_back:
  assumes "list_all2 source_line ls ws" and "\<And>l. l \<in> set ls \<Longrightarrow> newline \<notin> set l"
    and "4 * length (words_of ws) \<le> 2 ^ 32"
    and "load_hex m (concat (map (\<lambda>l. l @ [newline]) ls)) base = (m', r)"
  shows "r = Inr \<lparr>lr_entry = base, lr_ro_ranges = []\<rparr> \<and>
    (\<forall>i < length (words_of ws). load_u32 m' (base + 4 * of_nat i) = words_of ws ! i) \<and>
    (\<forall>x. 4 * length (words_of ws) \<le> unat (x - base) \<longrightarrow> load_u8 m' x = load_u8 m x)"
proof -
  have "m' = store_words m base (words_of ws) \<and> r = Inr \<lparr>lr_entry = base, lr_ro_ranges = []\<rparr>"
    using assms(4) by (simp add: load_hex_def lines_of_lines [OF assms(2)] load_hex_lines_source [OF assms(1)])
  then show ?thesis using load_store_words [OF assms(3)] store_words_frame by simp
qed

definition listing_example :: "string list" where
  "listing_example = [''# start'', ''0x13  // nop'', [], '' DEADbeef'' @ [carriage_return]]"

theorem hex_listing_reads_back_witness:
  "load_u32 (fst (load_hex empty_memory (concat (map (\<lambda>l. l @ [newline]) listing_example)) 0x1000)) 0x1004
   = 0xDEADBEEF"
proof -
  let ?m = "load_hex empty_memory (concat (map (\<lambda>l. l @ [newline]) listing_example)) 0x1000"
  let ?ws = "[None, Some 0x13, None, Some 0xDEADBEEF]"
  have "source_line ''# start'' None" using source_line.blank [of "[]" "''# start''"] by (simp add: trailer_def)
  moreover have "source_line ''0x13  // nop'' (Some 0x13)"
    using source_line.word [of "[]" "''0x''" "''13''" "''  ''" "''// nop''"]
    by (simp add: trailer_def is_ws_def is_hex_digit_def is_digit_def read_base_def digit_value_def)
  moreover have "source_line [] None" using source_line.blank [of "[]" "[]"] by (simp add: trailer_def)
  moreover have "source_line ('' DEADbeef'' @ [carriage_return]) (Some 0xDEADBEEF)"
    using source_line.word [of "'' ''" "[]" "''DEADbeef''" "[]" "[carriage_return]"]
    by (simp add: trailer_def is_ws_def is_hex_digit_def is_digit_def read_base_def digit_value_def)
  ultimately have ls: "list_all2 source_line listing_example ?ws" by (simp add: listing_example_def)
  have ws: "words_of ?ws = [0x13, 0xDEADBEEF]" by (simp add: words_of_def)
  have "\<forall>i < length (words_of ?ws). load_u32 (fst ?m) (0x1000 + 4 * of_nat i) = words_of ?ws ! i"
    by (rule hex_listing_reads_back [OF ls, of empty_memory "0x1000" "fst ?m" "snd ?m", THEN conjunct2, THEN conjunct1])
      (auto simp: ws listing_example_def newline_def carriage_return_def)
  from this [rule_format, of 1] show ?thesis by (simp add: ws)
qed

text \<open>A word of more than eight digits is not rejected: its high digits are dropped.\<close>

lemma hex_word_truncates: "hex_line ''1234DEADBEEF'' = Inr (Some 0xDEADBEEF)"
  by (simp add: hex_line_def trim_def cut_hash_def strip_cr_def carriage_return_def is_ws_def strip_0x_def
      is_hex_digit_def is_digit_def read_base_def digit_value_def)

text \<open>C29: Whatever bytes it is given, the ELF loader never reads outside the file: the model answers
  \<open>Read_past_buffer\<close> for any index or copied range that leaves the buffer, the identification
  bytes, the header, the program headers and the segments alike, and no input makes it do so.\<close>

theorem elf_reads_stay_in_file: "snd (load_elf m s) \<noteq> Inl Read_past_buffer"
proof (cases "elf_ident_error (stream_bytes s)")
  case None
  then have "52 \<le> length (stream_bytes s)" by (auto simp: elf_ident_error_def split: if_splits)
  then obtain h where h: "read_ehdr (stream_bytes s) = Some h" using read_ehdr_in_range by auto
  have "snd (load_segments (stream_bytes s) h [0..<unat (e_phnum h)] m []) \<noteq> Inl Read_past_buffer"
    by (rule load_segments_in_range)
  then show ?thesis using None h
    by (auto simp: load_elf_def Let_def split: prod.splits sum.splits)
next
  case (Some e)
  then have "e \<noteq> Read_past_buffer" by (auto simp: elf_ident_error_def rd_u8_def split: if_splits)
  with Some show ?thesis by (simp add: load_elf_def)
qed

text \<open>C28: A file that loads is in memory: each byte of each loadable segment is at its virtual
  address unless a later segment covers it, nothing else is touched, the entry is the header's and
  the read-only ranges are those of the segments readable but not writable, in header order.\<close>

theorem elf_segments_are_loaded:
  assumes "load_elf m s = (m', Inr r)"
  shows "(\<forall>ps p qs k. elf_segments (stream_bytes s) = ps @ p # qs \<and> k < unat (p_filesz p) \<and>
        (\<forall>q \<in> set qs. unat (p_filesz q) \<le> unat (p_vaddr p + of_nat k - p_vaddr q)) \<longrightarrow>
      load_u8 m' (p_vaddr p + of_nat k) = of_char (s ! (unat (p_offset p) + k))) \<and>
    (\<forall>x. (\<forall>q \<in> set (elf_segments (stream_bytes s)). unat (p_filesz q) \<le> unat (x - p_vaddr q)) \<longrightarrow>
      load_u8 m' x = load_u8 m x) \<and>
    rd_u32 (stream_bytes s) 24 = Some (lr_entry r) \<and>
    lr_ro_ranges r = map ro_range (filter read_only (elf_segments (stream_bytes s)))"
proof (intro conjI allI impI)
  note res = load_elf_result [OF assms]
  let ?buf = "stream_bytes s"
  show "load_u8 m' (p_vaddr p + of_nat k) = of_char (s ! (unat (p_offset p) + k))"
    if h: "elf_segments ?buf = ps @ p # qs \<and> k < unat (p_filesz p) \<and>
      (\<forall>q \<in> set qs. unat (p_filesz q) \<le> unat (p_vaddr p + of_nat k - p_vaddr q))" for ps p qs k
  proof -
    let ?x = "p_vaddr p + of_nat k"
    have "k < 2 ^ 32" using h unat_less32 [of "p_filesz p"] by simp
    then have at: "unat (?x - p_vaddr p) = k" by (simp add: unat_of_nat32)
    from res(3) h have len: "unat (p_offset p) + unat (p_filesz p) \<le> length ?buf"
      "\<forall>q \<in> set qs. unat (p_offset q) + unat (p_filesz q) \<le> length ?buf" by simp_all
    have "m' = write_segments ?buf qs (write_bytes (write_segments ?buf ps m) (p_vaddr p) (the (segment_bytes ?buf p)))"
      using res(1) h by (simp add: write_segments_def)
    then have "load_u8 m' ?x = ?buf ! (unat (p_offset p) + k)"
      using write_segments_outside [OF len(2)] load_write_segment [OF len(1), of _ ?x] at h by simp
    with len(1) h show ?thesis by (simp add: stream_bytes_def)
  qed
  show "load_u8 m' x = load_u8 m x"
    if "\<forall>q \<in> set (elf_segments ?buf). unat (p_filesz q) \<le> unat (x - p_vaddr q)" for x
    using write_segments_outside [OF res(3) that] res(1) by simp
qed (use load_elf_result [OF assms] in simp_all)

text \<open>A file of one read-only segment of two bytes at address \<open>0x400\<close>.\<close>

definition elf_example :: string where
  "elf_example = map char_of (
     [0x7F, 0x45, 0x4C, 0x46, 1, 1, 0, 0, 0, 0, 0, 0, 0, 0, 0, 0, 2, 0, 243, 0, 1, 0, 0, 0,
      0, 4, 0, 0, 52, 0, 0, 0, 0, 0, 0, 0, 0, 0, 0, 0, 52, 0, 32, 0, 1, 0, 0, 0, 0, 0, 0, 0,
      1, 0, 0, 0, 84, 0, 0, 0, 0, 4, 0, 0, 0, 4, 0, 0, 2, 0, 0, 0, 2, 0, 0, 0, 5, 0, 0, 0, 0, 0, 0, 0,
      0xAB, 0xCD] :: nat list)"

theorem elf_segments_are_loaded_witness:
  "load_u8 (fst (load_elf empty_memory elf_example)) 0x401 = 0xCD"
proof -
  let ?p = "\<lparr>p_type = 1, p_offset = 84, p_vaddr = 0x400, p_filesz = 2, p_memsz = 2, p_flags = 5\<rparr>"
  let ?buf = "stream_bytes elf_example"
  have buf: "?buf = [0x7F, 0x45, 0x4C, 0x46, 1, 1, 0, 0, 0, 0, 0, 0, 0, 0, 0, 0, 2, 0, 243, 0, 1, 0, 0, 0,
      0, 4, 0, 0, 52, 0, 0, 0, 0, 0, 0, 0, 0, 0, 0, 0, 52, 0, 32, 0, 1, 0, 0, 0, 0, 0, 0, 0,
      1, 0, 0, 0, 84, 0, 0, 0, 0, 4, 0, 0, 0, 4, 0, 0, 2, 0, 0, 0, 2, 0, 0, 0, 5, 0, 0, 0, 0, 0, 0, 0,
      0xAB, 0xCD]"
    by code_simp
  have ehdr: "read_ehdr ?buf = Some \<lparr>e_entry = 0x400, e_phoff = 52, e_phentsize = 32, e_phnum = 1\<rparr>"
    unfolding buf by code_simp
  have phdr: "read_phdr ?buf 52 = Some ?p" unfolding buf by code_simp
  have len: "length ?buf = 86" by (simp add: buf)
  have "elf_ident_error ?buf = None" by (simp add: elf_ident_error_def buf rd_u8_def)
  with ehdr phdr len obtain m r where run: "load_elf empty_memory elf_example = (m, Inr r)"
    by (simp add: load_elf_def Let_def phdr_at_def PT_LOAD_def segment_bytes_def)
  have "elf_segments ?buf = [] @ ?p # []"
    by (simp add: elf_segments_def ehdr segments_of_def segment_at_def phdr_at_def phdr PT_LOAD_def)
  moreover have "(of_char (elf_example ! 85) :: u8) = 0xCD" by code_simp
  ultimately have "load_u8 m 0x401 = 0xCD"
    using elf_segments_are_loaded [OF run, THEN conjunct1, rule_format, of "[]" ?p "[]" 1] by simp
  with run show ?thesis by simp
qed

end
