(* ===== verification/Cli.thy ===== *)
theory Cli
  imports Trace Observe Loader Ref
begin

text \<open>
  \<^verbatim>\<open>src/src/main.cpp\<close>: the command line, the machines of the IPC table, the traced run and
  \<open>main\<close>. Messages are constructors of \<open>CliError\<close>; a file system is a parameter, the text of each
  file that can be opened and the names that can be written. The printed help and the
  floating-point rates are left out. An \<open>unsigned long\<close> has 64 bits.
\<close>

section \<open>Options\<close>

record CliOpts =
  co_hex_path :: string
  co_raw_path :: string
  co_elf_path :: string
  co_base :: u32
  co_has_base :: bool
  co_print_regs :: bool
  co_trace :: bool
  co_trace_path :: string
  co_trace_from :: nat
  co_trace_max :: nat
  co_show_help :: bool
  co_use_ref :: bool
  co_show_stats :: bool
  co_ipc_table :: bool
  co_max_insts :: nat
  co_max_cycles :: nat
  co_cfg :: Config

definition default_opts :: CliOpts where
  "default_opts = \<lparr>co_hex_path = [], co_raw_path = [], co_elf_path = [], co_base = 0, co_has_base = False,
     co_print_regs = False, co_trace = False, co_trace_path = [], co_trace_from = 0, co_trace_max = 50000,
     co_show_help = False, co_use_ref = False, co_show_stats = False, co_ipc_table = False,
     co_max_insts = 100000000, co_max_cycles = 1000000000, co_cfg = default_config\<rparr>"

definition DEFAULT_TRACE_PATH :: string where "DEFAULT_TRACE_PATH = ''trace.ndjson''"

datatype CliError =
    Requires_value string
  | Bad_value string string
  | Multiple_positional
  | Unknown_flag string

text \<open>A knob: its flag, and the member of \<open>Config\<close> it points to as a read and a write.\<close>

type_synonym Knob = "string \<times> (Config \<Rightarrow> nat) \<times> (nat \<Rightarrow> Config \<Rightarrow> Config)"

definition KNOBS :: "Knob list" where
  "KNOBS =
    [(''--width'', cfg_width, \<lambda>v c. c\<lparr>cfg_width := v\<rparr>),
     (''--rob'', cfg_rob_size, \<lambda>v c. c\<lparr>cfg_rob_size := v\<rparr>),
     (''--prf'', cfg_prf_size, \<lambda>v c. c\<lparr>cfg_prf_size := v\<rparr>),
     (''--iq'', cfg_iq_size, \<lambda>v c. c\<lparr>cfg_iq_size := v\<rparr>),
     (''--lq'', cfg_lq_size, \<lambda>v c. c\<lparr>cfg_lq_size := v\<rparr>),
     (''--sq'', cfg_sq_size, \<lambda>v c. c\<lparr>cfg_sq_size := v\<rparr>),
     (''--cdb'', cfg_num_cdb, \<lambda>v c. c\<lparr>cfg_num_cdb := v\<rparr>),
     (''--alu'', cfg_num_alu, \<lambda>v c. c\<lparr>cfg_num_alu := v\<rparr>),
     (''--branch'', cfg_num_branch, \<lambda>v c. c\<lparr>cfg_num_branch := v\<rparr>),
     (''--mul'', cfg_num_mul, \<lambda>v c. c\<lparr>cfg_num_mul := v\<rparr>),
     (''--div'', cfg_num_div, \<lambda>v c. c\<lparr>cfg_num_div := v\<rparr>),
     (''--mem'', cfg_num_mem, \<lambda>v c. c\<lparr>cfg_num_mem := v\<rparr>),
     (''--alu-lat'', cfg_alu_latency, \<lambda>v c. c\<lparr>cfg_alu_latency := v\<rparr>),
     (''--branch-lat'', cfg_branch_latency, \<lambda>v c. c\<lparr>cfg_branch_latency := v\<rparr>),
     (''--mul-lat'', cfg_mul_latency, \<lambda>v c. c\<lparr>cfg_mul_latency := v\<rparr>),
     (''--div-lat'', cfg_div_latency, \<lambda>v c. c\<lparr>cfg_div_latency := v\<rparr>),
     (''--mem-lat'', cfg_mem_latency, \<lambda>v c. c\<lparr>cfg_mem_latency := v\<rparr>),
     (''--ghr'', cfg_ghr_bits, \<lambda>v c. c\<lparr>cfg_ghr_bits := v\<rparr>),
     (''--pht'', cfg_pht_size, \<lambda>v c. c\<lparr>cfg_pht_size := v\<rparr>),
     (''--btb-sets'', cfg_btb_sets, \<lambda>v c. c\<lparr>cfg_btb_sets := v\<rparr>),
     (''--btb-ways'', cfg_btb_ways, \<lambda>v c. c\<lparr>cfg_btb_ways := v\<rparr>),
     (''--ras'', cfg_ras_size, \<lambda>v c. c\<lparr>cfg_ras_size := v\<rparr>),
     (''--chkpt'', cfg_num_checkpoints, \<lambda>v c. c\<lparr>cfg_num_checkpoints := v\<rparr>)]"

section \<open>Numbers\<close>

text \<open>
  \<open>std::stoul\<close> and \<open>std::stoull\<close> with base 0: blanks, a sign, a base prefix, digits. The value and the
  unread rest, or nothing when there is no digit or the value does not fit; a minus sign negates
  in 64 bits.
\<close>

definition is_space :: "char \<Rightarrow> bool" where
  "is_space c \<longleftrightarrow> c = CHR '' '' \<or> 9 \<le> (of_char c :: nat) \<and> (of_char c :: nat) \<le> 13"

definition is_oct_digit :: "char \<Rightarrow> bool" where
  "is_oct_digit c \<longleftrightarrow> 48 \<le> (of_char c :: nat) \<and> (of_char c :: nat) \<le> 55"

definition number_base :: "string \<Rightarrow> nat \<times> (char \<Rightarrow> bool) \<times> string" where
  "number_base s =
     (if 3 \<le> length s \<and> s ! 0 = CHR ''0'' \<and> (s ! 1 = CHR ''x'' \<or> s ! 1 = CHR ''X'') \<and> is_hex_digit (s ! 2)
      then (16, is_hex_digit, drop 2 s)
      else if take 1 s = ''0'' then (8, is_oct_digit, s) else (10, is_digit, s))"

definition stoul0 :: "string \<Rightarrow> (nat \<times> string) option" where
  "stoul0 s0 =
     (let s = dropWhile is_space s0;
          neg = (take 1 s = ''-'');
          s = (if take 1 s = ''-'' \<or> take 1 s = ''+'' then tl s else s);
          (base, digit, s) = number_base s;
          v = read_base base (takeWhile digit s)
      in if takeWhile digit s = [] \<or> 2 ^ 64 \<le> v then None
         else Some (if neg then (2 ^ 64 - v) mod 2 ^ 64 else v, dropWhile digit s))"

definition parse_uint :: "string \<Rightarrow> nat option" where
  "parse_uint s = (case stoul0 s of
       Some (v, rest) \<Rightarrow> if rest \<noteq> [] \<or> 0xFFFFFFFF < v then None else Some v
     | None \<Rightarrow> None)"

definition parse_u64 :: "string \<Rightarrow> nat option" where
  "parse_u64 s = (case stoul0 s of
       Some (v, rest) \<Rightarrow> if rest = [] then Some v else None
     | None \<Rightarrow> None)"

section \<open>Arguments\<close>

definition flag_of :: "string \<Rightarrow> string" where
  "flag_of tok = takeWhile (\<lambda>c. c \<noteq> CHR ''='') tok"

definition value_of :: "string \<Rightarrow> string option" where
  "value_of tok = (if CHR ''='' \<in> set tok then Some (tl (dropWhile (\<lambda>c. c \<noteq> CHR ''='') tok)) else None)"

text \<open>One round of the loop: an error, an early success, or the arguments left.\<close>

datatype Parsed = Failed CliError | Stop CliOpts | More "string list" CliOpts

definition take_value :: "string \<Rightarrow> string list \<Rightarrow> (string \<Rightarrow> string list \<Rightarrow> Parsed) \<Rightarrow> Parsed" where
  "take_value tok rest k = (case value_of tok of
       Some v \<Rightarrow> k v rest
     | None \<Rightarrow> (case rest of [] \<Rightarrow> Failed (Requires_value (flag_of tok)) | v # rest' \<Rightarrow> k v rest'))"

definition number :: "string \<Rightarrow> (string \<Rightarrow> nat option) \<Rightarrow> string \<Rightarrow> (nat \<Rightarrow> Parsed) \<Rightarrow> Parsed" where
  "number flag parse v k = (case parse v of None \<Rightarrow> Failed (Bad_value flag v) | Some n \<Rightarrow> k n)"

definition parse_knob :: "string \<Rightarrow> string list \<Rightarrow> CliOpts \<Rightarrow> Parsed" where
  "parse_knob tok rest opts = (case map_of KNOBS (flag_of tok) of
       Some (getter, setter) \<Rightarrow> take_value tok rest (\<lambda>v rest. number (flag_of tok) parse_uint v
         (\<lambda>n. More rest (opts\<lparr>co_cfg := setter n (co_cfg opts)\<rparr>)))
     | None \<Rightarrow>
         if tok \<noteq> [] \<and> hd tok \<noteq> CHR ''-'' then
           (if co_elf_path opts \<noteq> [] then Failed Multiple_positional
            else More rest (opts\<lparr>co_elf_path := tok\<rparr>))
         else Failed (Unknown_flag (flag_of tok)))"

definition parse_one :: "string \<Rightarrow> string list \<Rightarrow> CliOpts \<Rightarrow> Parsed" where
  "parse_one tok rest opts = (let flag = flag_of tok in
     if flag = ''--help'' \<or> flag = ''-h'' then Stop (opts\<lparr>co_show_help := True\<rparr>)
     else if flag = ''--regs'' then More rest (opts\<lparr>co_print_regs := True\<rparr>)
     else if flag = ''--trace'' then
       More rest (opts\<lparr>co_trace := True,
         co_trace_path := (case value_of tok of Some p \<Rightarrow> p | None \<Rightarrow> co_trace_path opts)\<rparr>)
     else if flag = ''--ref'' then More rest (opts\<lparr>co_use_ref := True\<rparr>)
     else if flag = ''--stats'' then More rest (opts\<lparr>co_show_stats := True\<rparr>)
     else if flag = ''--ipc-table'' then More rest (opts\<lparr>co_ipc_table := True\<rparr>)
     else if flag = ''--hex'' then take_value tok rest (\<lambda>v r. More r (opts\<lparr>co_hex_path := v\<rparr>))
     else if flag = ''--raw'' then take_value tok rest (\<lambda>v r. More r (opts\<lparr>co_raw_path := v\<rparr>))
     else if flag = ''--base'' then take_value tok rest (\<lambda>v r. number flag parse_uint v
       (\<lambda>n. More r (opts\<lparr>co_base := of_nat n, co_has_base := True\<rparr>)))
     else if flag = ''--max-insts'' then take_value tok rest (\<lambda>v r. number flag parse_u64 v
       (\<lambda>n. More r (opts\<lparr>co_max_insts := n\<rparr>)))
     else if flag = ''--trace-from'' then take_value tok rest (\<lambda>v r. number flag parse_u64 v
       (\<lambda>n. More r (opts\<lparr>co_trace_from := n\<rparr>)))
     else if flag = ''--trace-max'' then take_value tok rest (\<lambda>v r. number flag parse_u64 v
       (\<lambda>n. More r (opts\<lparr>co_trace_max := n\<rparr>)))
     else if flag = ''--max-cycles'' then take_value tok rest (\<lambda>v r. number flag parse_u64 v
       (\<lambda>n. More r (opts\<lparr>co_max_cycles := n\<rparr>)))
     else parse_knob tok rest opts)"

lemma take_value_length:
  assumes "take_value tok rest k = More r o'" "\<And>v r'. k v r' = More r o' \<Longrightarrow> length r \<le> length r'"
  shows "length r \<le> length rest"
  using assms by (fastforce simp: take_value_def split: option.splits list.splits)

lemma number_More: "number flag parse v k = More r o' \<Longrightarrow> \<exists>n. k n = More r o'"
  by (auto simp: number_def split: option.splits)

lemma parse_knob_length: "parse_knob tok rest opts = More r o' \<Longrightarrow> length r \<le> length rest"
  by (auto simp: parse_knob_def split: option.splits if_splits dest!: number_More elim!: take_value_length)

lemma parse_one_length: "parse_one tok rest opts = More r o' \<Longrightarrow> length r \<le> length rest"
  unfolding parse_one_def Let_def
  by (auto split: if_splits dest!: number_More dest: parse_knob_length elim!: take_value_length)

function parse_args :: "string list \<Rightarrow> CliOpts \<Rightarrow> CliError + CliOpts" where
  "parse_args [] opts = Inr opts"
| "parse_args (tok # rest) opts = (case parse_one tok rest opts of
       Failed e \<Rightarrow> Inl e
     | Stop opts' \<Rightarrow> Inr opts'
     | More rest' opts' \<Rightarrow> parse_args rest' opts')"
  by pat_completeness auto
termination
  by (relation "measure (\<lambda>(args, opts). length args)") (auto dest!: parse_one_length simp: less_Suc_eq_le)

section \<open>The traced run\<close>

definition observe :: "bool \<Rightarrow> Cpu \<Rightarrow> Cpu" where
  "observe b = upd_obs (\<lambda>o'. o'\<lparr>o_observing := b\<rparr>)"

lemma observe_fields [simp]: "cpu_done (observe b c) = cpu_done c" "c_cycle (observe b c) = c_cycle c"
  by (simp_all add: observe_def cpu_done_def)

text \<open>The body of the loop, and the loop.\<close>

definition trace_step :: "CliOpts \<Rightarrow> CycleTrace \<times> Cpu \<Rightarrow> CycleTrace \<times> Cpu" where
  "trace_step opts tc =
     (let (t, c) = tc;
          c = tick (observe (co_trace_from opts \<le> c_cycle c + 1) c)
      in (if co_trace_from opts \<le> c_cycle c then snapshot c t else t, c))"

definition trace_more :: "CliOpts \<Rightarrow> CycleTrace \<times> Cpu \<Rightarrow> bool" where
  "trace_more opts tc \<longleftrightarrow> (let (t, c) = tc in
     \<not> cpu_done c \<and> c_cycle c < co_max_cycles opts \<and> t_records t < co_trace_max opts)"

lemma trace_step_cpu: "snd (trace_step opts tc) = tick (observe (co_trace_from opts \<le> c_cycle (snd tc) + 1) (snd tc))"
  by (simp add: trace_step_def Let_def split_beta)

lemma tick_cycle: "\<not> cpu_done c \<Longrightarrow> c_cycle (tick c) = Suc (c_cycle c)"
  using tick_clock(1) [of c] by simp

function trace_loop :: "CliOpts \<Rightarrow> CycleTrace \<times> Cpu \<Rightarrow> CycleTrace \<times> Cpu" where
  "trace_loop opts tc = (if trace_more opts tc then trace_loop opts (trace_step opts tc) else tc)"
  by pat_completeness auto
termination
  by (relation "measure (\<lambda>(opts, tc). co_max_cycles opts - c_cycle (snd tc))")
    (auto simp: trace_more_def trace_step_def tick_cycle Let_def)

declare trace_loop.simps [simp del]

definition run_with_trace :: "CliOpts \<Rightarrow> u32 \<Rightarrow> Cpu \<Rightarrow> CycleTrace \<times> Cpu" where
  "run_with_trace opts entry_pc c =
     apsnd (observe False)
       (trace_loop opts (trace_header (c_cfg c) entry_pc (c_cdb_window c) make_trace, c))"

section \<open>The IPC table\<close>

definition ipc_rows :: "(string \<times> Config) list" where
  "ipc_rows =
    [(''1-wide'', default_config\<lparr>cfg_width := 1\<rparr>),
     (''2-wide'', default_config),
     (''4-wide'', default_config\<lparr>cfg_width := 4, cfg_rob_size := 128, cfg_prf_size := 160,
        cfg_iq_size := 32, cfg_num_alu := 4, cfg_num_cdb := 4\<rparr>),
     (''ROB=4, IQ=2'', default_config\<lparr>cfg_rob_size := 4, cfg_prf_size := 40, cfg_iq_size := 2\<rparr>)]"

text \<open>Per machine its name, the cycles and the retired instructions; every run starts from the image.\<close>

definition ipc_table :: "Memory \<Rightarrow> u32 \<Rightarrow> nat \<Rightarrow> (string \<times> nat \<times> nat) list" where
  "ipc_table img entry max_cycles =
     map (\<lambda>(name, cfg). let s = c_stats (snd (run_cpu max_cycles (make_cpu img cfg entry)))
            in (name, st_cycles s, st_retired s)) ipc_rows"

section \<open>The program\<close>

record World =
  w_files :: "string \<Rightarrow> string option"
  w_writable :: "string \<Rightarrow> bool"

record Report =
  rp_regs :: "u32 list"
  rp_halted :: bool
  rp_trapped :: bool
  rp_budget :: bool
  rp_retired :: nat
  rp_exit_code :: u32

datatype Output = No_output | Help | Table "(string \<times> nat \<times> nat) list" | Summary Report

definition load_input :: "World \<Rightarrow> CliOpts \<Rightarrow> (Memory \<times> LoadResult) option" where
  "load_input w opts =
     (let text = w_files w (if co_hex_path opts \<noteq> [] then co_hex_path opts
            else if co_raw_path opts \<noteq> [] then co_raw_path opts else co_elf_path opts)
      in case text of None \<Rightarrow> None
       | Some s \<Rightarrow>
           (case (if co_hex_path opts \<noteq> [] then load_hex empty_memory s (co_base opts)
                  else if co_raw_path opts \<noteq> [] then load_raw empty_memory s (co_base opts)
                  else load_elf empty_memory s) of
              (m, Inr r) \<Rightarrow> Some (m, r)
            | (m, Inl e) \<Rightarrow> None))"

definition report_ref :: "CliOpts \<Rightarrow> Memory \<Rightarrow> u32 \<Rightarrow> Report" where
  "report_ref opts mem entry = (let r = snd (ref_run (co_max_insts opts) (mem, start_result entry)) in
     \<lparr>rp_regs = rs_regs r, rp_halted = rs_halted r, rp_trapped = rs_trapped r, rp_budget = rs_budget r,
      rp_retired = rs_retired r, rp_exit_code = rs_exit_code r\<rparr>)"

definition report_cpu :: "Cpu \<Rightarrow> Report" where
  "report_cpu c =
     \<lparr>rp_regs = cpu_regs c, rp_halted = c_halted c, rp_trapped = c_trapped c, rp_budget = \<not> cpu_done c,
      rp_retired = st_retired (c_stats c), rp_exit_code = c_exit_code c\<rparr>"

definition trace_path :: "CliOpts \<Rightarrow> string" where
  "trace_path opts = (if co_trace_path opts = [] then DEFAULT_TRACE_PATH else co_trace_path opts)"

definition run_pipeline :: "CliOpts \<Rightarrow> Memory \<Rightarrow> u32 \<Rightarrow> Cpu" where
  "run_pipeline opts mem entry =
     (let c = make_cpu mem (co_cfg opts) entry;
          c = (if co_trace opts then snd (run_with_trace opts entry c) else c)
      in snd (run_cpu (co_max_cycles opts) c))"

definition exit_status :: "Report \<Rightarrow> int" where
  "exit_status r = (if rp_trapped r then 1 else sint (rp_exit_code r))"

definition run_program :: "World \<Rightarrow> CliOpts \<Rightarrow> int \<times> Output" where
  "run_program w opts =
     (let given = (if co_hex_path opts \<noteq> [] then 1 else 0) + (if co_raw_path opts \<noteq> [] then 1 else 0) +
            (if co_elf_path opts \<noteq> [] then 1 else 0 :: nat)
      in if given \<noteq> 1 then (2, No_output)
         else if co_raw_path opts \<noteq> [] \<and> \<not> co_has_base opts then (2, No_output)
         else case load_input w opts of
             None \<Rightarrow> (2, No_output)
           | Some (mem, loaded) \<Rightarrow>
               if co_ipc_table opts then (0, Table (ipc_table mem (lr_entry loaded) (co_max_cycles opts)))
               else if co_use_ref opts then
                 (if co_trace opts \<and> co_trace_path opts \<noteq> [] \<and> \<not> w_writable w (co_trace_path opts)
                  then (2, No_output)
                  else let r = report_ref opts mem (lr_entry loaded) in (exit_status r, Summary r))
               else if co_trace opts \<and> \<not> w_writable w (trace_path opts) then (2, No_output)
               else let r = report_cpu (run_pipeline opts mem (lr_entry loaded)) in (exit_status r, Summary r))"

definition main :: "World \<Rightarrow> string list \<Rightarrow> int \<times> Output" where
  "main w args = (case parse_args args default_opts of
       Inl e \<Rightarrow> (1, No_output)
     | Inr opts \<Rightarrow> if co_show_help opts then (0, Help) else run_program w opts)"

section \<open>A traced run is the run\<close>

lemma observe_erase [simp]: "erase (observe b c) = erase c"
  by (simp add: observe_def)

lemma run_erase_eq: "erase c = erase d \<Longrightarrow> apsnd erase (run_cpu n c) = apsnd erase (run_cpu n d)"
  by (metis run_erase)

lemma run_step: "\<not> cpu_done c \<Longrightarrow> c_cycle c < n \<Longrightarrow> run_cpu n (tick c) = run_cpu n c"
  by (simp add: run_cpu.simps [of n c])

lemma trace_loop_transparent:
  "apsnd erase (run_cpu (co_max_cycles opts) (snd (trace_loop opts tc))) =
   apsnd erase (run_cpu (co_max_cycles opts) (snd tc))"
proof (induction opts tc rule: trace_loop.induct)
  case (1 opts tc)
  show ?case
  proof (cases "trace_more opts tc")
    case True
    then have more: "\<not> cpu_done (snd tc)" "c_cycle (snd tc) < co_max_cycles opts"
      by (auto simp: trace_more_def Let_def split_beta)
    have "apsnd erase (run_cpu (co_max_cycles opts) (snd (trace_step opts tc))) =
        apsnd erase (run_cpu (co_max_cycles opts) (snd tc))"
      unfolding trace_step_cpu using more run_erase_eq [OF observe_erase] by (simp add: run_step)
    with True 1 show ?thesis by (simp add: trace_loop.simps [of opts tc])
  next
    case False
    then show ?thesis by (simp add: trace_loop.simps [of opts tc])
  qed
qed

text \<open>The machine after \<open>k\<close> cycles of the traced run, observed in the cycles of the window.\<close>

primrec watched :: "CliOpts \<Rightarrow> Cpu \<Rightarrow> nat \<Rightarrow> Cpu" where
  "watched opts c 0 = c"
| "watched opts c (Suc k) =
     tick (observe (co_trace_from opts \<le> c_cycle (watched opts c k) + 1) (watched opts c k))"

text \<open>Whether tracing goes on after \<open>k\<close> cycles of a run from reset: the untraced machine is not done,
  there are cycles left and room for another record.\<close>

definition traces_on :: "CliOpts \<Rightarrow> Cpu \<Rightarrow> nat \<Rightarrow> bool" where
  "traces_on opts c k \<longleftrightarrow> \<not> cpu_done ((tick ^^ k) c) \<and> k < co_max_cycles opts \<and>
     Suc k - max 1 (co_trace_from opts) < co_trace_max opts"

lemma watched_erase: "erase (watched opts c k) = erase ((tick ^^ k) c)"
proof (induction k)
  case (Suc k)
  then show ?case by (simp flip: tick_erase)
qed simp

lemma watched_done: "cpu_done (watched opts c k) = cpu_done ((tick ^^ k) c)"
  using watched_erase [of opts c k] by (metis done_erase(1))

lemma watched_cycle: "c_cycle c = 0 \<Longrightarrow> \<forall>j < k. traces_on opts c j \<Longrightarrow> c_cycle (watched opts c k) = k"
  by (induction k) (simp_all add: tick_cycle traces_on_def watched_done)

lemma fold_snapshot_records: "t_records (fold snapshot cs t) = t_records t + length cs"
  by (induction cs arbitrary: t) (simp_all add: snapshot_def Let_def)

lemma trace_loop_watched:
  assumes "c_cycle c = 0" "t_records t = 0"
  shows "\<forall>j < k. traces_on opts c j \<Longrightarrow>
    tc = (fold snapshot (map (watched opts c) [max 1 (co_trace_from opts) ..< Suc k]) t, watched opts c k) \<Longrightarrow>
    \<exists>n. (\<forall>j < n. traces_on opts c j) \<and> \<not> traces_on opts c n \<and>
      fst (trace_loop opts tc) = fold snapshot (map (watched opts c) [max 1 (co_trace_from opts) ..< Suc n]) t"
proof (induction opts tc arbitrary: k rule: trace_loop.induct)
  case (1 opts tc)
  let ?f = "max 1 (co_trace_from opts)"
  have more: "trace_more opts tc = traces_on opts c k"
    using watched_cycle [OF assms(1) "1.prems"(1)]
    by (simp add: "1.prems"(2) trace_more_def traces_on_def watched_done fold_snapshot_records assms(2) del: upt.simps)
  show ?case
  proof (cases "traces_on opts c k")
    case True
    then have on: "\<forall>j < Suc k. traces_on opts c j" using "1.prems"(1) by (simp add: less_Suc_eq)
    have "c_cycle (watched opts c (Suc k)) = Suc k" by (rule watched_cycle [OF assms(1) on])
    moreover have "[?f ..< Suc (Suc k)] = (if co_trace_from opts \<le> Suc k then [?f ..< Suc k] @ [Suc k] else [?f ..< Suc k])"
      by simp
    ultimately have "trace_step opts tc =
        (fold snapshot (map (watched opts c) [?f ..< Suc (Suc k)]) t, watched opts c (Suc k))"
      by (simp add: "1.prems"(2) trace_step_def Let_def del: upt.simps)
    from "1.IH" [OF _ on this] True more show ?thesis by (simp add: trace_loop.simps [of opts tc])
  next
    case False
    then have "trace_loop opts tc = tc" using more by (simp add: trace_loop.simps [of opts tc])
    then show ?thesis using False "1.prems" by (intro exI [of _ k]) simp
  qed
qed

text \<open>C26: Tracing never changes what the machine does: for every program, configuration and trace
  window, finishing a traced run gives the machine the untraced run gives, in everything but the
  observer's own record. The file is the header and one record per cycle, of every cycle from the
  first of the window (cycle 1 at the earliest) to the last one traced, \<open>n\<close>: the first cycle after
  which the untraced machine is done, the cycle budget is used up or \<open>--trace-max\<close> records are
  written. The machine recorded for cycle \<open>k\<close> is at that cycle and is, the observer's record aside,
  the one the untraced run has after \<open>k\<close> ticks.\<close>

theorem tracing_is_transparent:
  "let c = make_cpu mem (co_cfg opts) entry
   in erase (run_pipeline (opts\<lparr>co_trace := True\<rparr>) mem entry) =
        erase (run_pipeline (opts\<lparr>co_trace := False\<rparr>) mem entry) \<and>
      (\<exists>n. list_all (traces_on opts c) [0 ..< n] \<and> \<not> traces_on opts c n \<and>
        fst (run_with_trace opts entry c) = trace_file (c_cfg c) entry (c_cdb_window c)
          (map (watched opts c) [max 1 (co_trace_from opts) ..< Suc n]) \<and>
        map (\<lambda>k. c_cycle (watched opts c k)) [0 ..< Suc n] = [0 ..< Suc n] \<and>
        map (\<lambda>k. erase (watched opts c k)) [0 ..< Suc n] = map (\<lambda>k. erase ((tick ^^ k) c)) [0 ..< Suc n])"
proof -
  define c where "c = make_cpu mem (co_cfg opts) entry"
  let ?o = "opts\<lparr>co_trace := True\<rparr>"
  let ?h = "trace_header (c_cfg c) entry (c_cdb_window c) make_trace"
  have "apsnd erase (run_cpu (co_max_cycles opts) (observe False (snd (trace_loop ?o (?h, c))))) =
      apsnd erase (run_cpu (co_max_cycles opts) (snd (trace_loop ?o (?h, c))))"
    by (rule run_erase_eq) simp
  also have "\<dots> = apsnd erase (run_cpu (co_max_cycles opts) c)"
    using trace_loop_transparent [of ?o] by simp
  finally have "erase (run_pipeline (opts\<lparr>co_trace := True\<rparr>) mem entry) =
      erase (run_pipeline (opts\<lparr>co_trace := False\<rparr>) mem entry)"
    by (simp add: run_pipeline_def Let_def run_with_trace_def apsnd_def map_prod_def split_beta flip: c_def)
  moreover have zero: "c_cycle c = 0" by (simp add: c_def make_cpu_def Let_def)
  moreover have "t_records ?h = 0" by (simp add: trace_header_def make_trace_def)
  from trace_loop_watched [OF zero this, of 0 opts "(?h, c)"] obtain n where
    n: "\<forall>j < n. traces_on opts c j" "\<not> traces_on opts c n"
      "fst (run_with_trace opts entry c) = trace_file (c_cfg c) entry (c_cdb_window c)
        (map (watched opts c) [max 1 (co_trace_from opts) ..< Suc n])"
    by (auto simp: run_with_trace_def trace_file_def)
  moreover have "c_cycle (watched opts c k) = k" if "k \<le> n" for k
    using that n(1) by (intro watched_cycle [OF zero]) simp
  then have "map (\<lambda>k. c_cycle (watched opts c k)) [0 ..< Suc n] = [0 ..< Suc n]"
    by (intro map_idI) auto
  ultimately show ?thesis
    unfolding Let_def c_def [symmetric] by (intro conjI exI [of _ n]) (simp_all add: list_all_iff watched_erase)
qed

section \<open>Every configuration has a command line\<close>

lemma span_all:
  "\<forall>c \<in> set s. P c \<Longrightarrow> takeWhile P s = s" "\<forall>c \<in> set s. P c \<Longrightarrow> dropWhile P s = []"
  by (simp_all add: takeWhile_eq_all_conv)

lemma show_nat_first:
  "show_nat n = c # cs \<Longrightarrow> c = CHR ''0'' \<Longrightarrow> n = 0"
proof (induction n arbitrary: c cs rule: less_induct)
  case (less n)
  show ?case
  proof (cases "n < 10")
    case True
    then have "digit_char n = CHR ''0''" using less(2,3) by (simp add: show_nat_def show_base.simps [of 10 n])
    then have "digit_value (digit_char n) = 0" by (simp add: digit_value_def)
    with True show ?thesis by simp
  next
    case False
    then have s: "show_nat n = show_nat (n div 10) @ [digit_char (n mod 10)]"
      by (simp add: show_nat_def show_base.simps [of 10 n])
    moreover obtain d ds where d: "show_nat (n div 10) = d # ds"
      by (cases "show_nat (n div 10)") (simp_all add: show_nat_def)
    ultimately have "d = CHR ''0''" using less(2,3) by simp
    with less(1) [of "n div 10"] d False have "n div 10 = 0" by simp
    with False show ?thesis by simp
  qed
qed

lemma digit_classes:
  "is_digit c \<Longrightarrow> \<not> is_space c" "is_digit c \<Longrightarrow> c \<noteq> CHR ''-'' \<and> c \<noteq> CHR ''+'' \<and> c \<noteq> CHR ''x'' \<and> c \<noteq> CHR ''X'' \<and> c \<noteq> CHR ''=''"
  by (auto simp: is_digit_def is_space_def)

lemma parse_show:
  assumes "n \<le> 0xFFFFFFFF"
  shows "parse_uint (show_nat n) = Some n"
proof -
  obtain c cs where s: "show_nat n = c # cs" by (cases "show_nat n") (simp_all add: show_nat_def)
  have digits: "\<forall>d \<in> set (c # cs). is_digit d" using show_nat_digits [of _ n] by (simp add: s)
  then have c: "is_digit c" by simp
  have val: "read_base 10 (c # cs) = n" using read_show_nat [of n] by (simp add: s)
  have "stoul0 (c # cs) = Some (n, [])"
  proof (cases "c = CHR ''0''")
    case True
    then have "n = 0" using show_nat_first s by blast
    then have "cs = []" using s by (simp add: show_nat_def show_base.simps [of 10 0])
    with \<open>n = 0\<close> True show ?thesis
      by (simp add: stoul0_def is_space_def number_base_def is_oct_digit_def read_base_def digit_value_def)
  next
    case False
    then have "number_base (c # cs) = (10, is_digit, c # cs)" by (simp add: number_base_def)
    moreover have "dropWhile is_space (c # cs) = c # cs" using digit_classes(1) [OF c] by simp
    ultimately show ?thesis
      using digit_classes(2) [OF c] span_all [OF digits] val assms by (simp add: stoul0_def)
  qed
  with assms s show ?thesis by (simp add: parse_uint_def)
qed

text \<open>A knob, spelled with an equals sign or with its value as the next argument.\<close>

definition knob_args :: "bool \<Rightarrow> Config \<Rightarrow> Knob \<Rightarrow> string list" where
  "knob_args joined cfg k = (case k of (flag, getter, setter) \<Rightarrow>
     if joined then [flag @ ''='' @ show_nat (getter cfg)] else [flag, show_nat (getter cfg)])"

definition config_args :: "(Knob \<Rightarrow> bool) \<Rightarrow> Config \<Rightarrow> string list" where
  "config_args joined cfg = concat (map (\<lambda>k. knob_args (joined k) cfg k) KNOBS)"

text \<open>The flags \<open>parse_args\<close> tests before the knobs.\<close>

definition other_flags :: "string list" where
  "other_flags = [''--help'', ''-h'', ''--regs'', ''--trace'', ''--ref'', ''--stats'', ''--ipc-table'', ''--hex'',
     ''--raw'', ''--base'', ''--max-insts'', ''--trace-from'', ''--trace-max'', ''--max-cycles'']"

lemma parse_one_knob: "flag_of tok \<notin> set other_flags \<Longrightarrow> parse_one tok rest opts = parse_knob tok rest opts"
  unfolding other_flags_def parse_one_def Let_def by simp

lemma flag_value:
  assumes "CHR ''='' \<notin> set flag"
  shows "flag_of (flag @ ''='' @ v) = flag" "value_of (flag @ ''='' @ v) = Some v"
    "flag_of flag = flag" "value_of flag = None"
proof -
  have "takeWhile (\<lambda>c. c \<noteq> CHR ''='') flag = flag" "dropWhile (\<lambda>c. c \<noteq> CHR ''='') flag = []"
    using assms by (intro span_all; blast)+
  with assms show "flag_of (flag @ ''='' @ v) = flag" "value_of (flag @ ''='' @ v) = Some v"
    "flag_of flag = flag" "value_of flag = None"
    by (auto simp: flag_of_def value_of_def takeWhile_append dropWhile_append)
qed

lemma parse_knob_args:
  assumes "(flag, getter, setter) \<in> set KNOBS" "getter cfg \<le> 0xFFFFFFFF"
  shows "parse_args (knob_args joined cfg (flag, getter, setter) @ rest) opts =
    parse_args rest (opts\<lparr>co_cfg := setter (getter cfg) (co_cfg opts)\<rparr>)"
proof -
  have knob: "CHR ''='' \<notin> set flag \<and> flag \<notin> set other_flags"
    using assms(1) unfolding KNOBS_def other_flags_def by auto
  have "distinct (map fst KNOBS)" by (simp add: KNOBS_def)
  then have look: "map_of KNOBS flag = Some (getter, setter)" using assms(1) by simp
  note fv = flag_value [of flag] and ps = parse_show [OF assms(2)]
  show ?thesis
    using knob look fv ps
    by (cases joined) (simp_all add: knob_args_def parse_one_knob parse_knob_def take_value_def number_def)
qed

lemma parse_knobs:
  assumes "set ks \<subseteq> set KNOBS" "\<And>flag getter setter. (flag, getter, setter) \<in> set ks \<Longrightarrow> getter cfg \<le> 0xFFFFFFFF"
  shows "parse_args (concat (map (\<lambda>k. knob_args (joined k) cfg k) ks) @ rest) opts =
    parse_args rest (opts\<lparr>co_cfg := fold (\<lambda>(flag, getter, setter). setter (getter cfg)) ks (co_cfg opts)\<rparr>)"
  using assms
proof (induction ks arbitrary: opts)
  case (Cons k ks)
  obtain flag getter setter where k: "k = (flag, getter, setter)" by (cases k)
  have "(flag, getter, setter) \<in> set KNOBS" "getter cfg \<le> 0xFFFFFFFF" using Cons.prems k by auto
  note first = parse_knob_args [OF this]
  have "parse_args (concat (map (\<lambda>k. knob_args (joined k) cfg k) ks) @ rest) o' =
      parse_args rest (o'\<lparr>co_cfg := fold (\<lambda>(flag, getter, setter). setter (getter cfg)) ks (co_cfg o')\<rparr>)" for o'
    by (rule Cons.IH) (use Cons.prems in auto)
  with first show ?case by (simp add: k)
qed simp

lemma all_knobs: "fold (\<lambda>(flag, getter, setter). setter (getter cfg)) KNOBS c = (cfg :: Config)"
  by (simp add: KNOBS_def)

text \<open>C31: Every configuration can be given on the command line: for any values that fit in 32 bits,
  naming each knob once, its value joined by an equals sign or as the next argument, sets exactly
  that configuration, leaves every other option alone, and parsing goes on with what follows.\<close>

theorem config_command_line:
  assumes "\<forall>(flag, getter, setter) \<in> set KNOBS. getter cfg \<le> 0xFFFFFFFF"
  shows "parse_args (config_args joined cfg @ rest) opts = parse_args rest (opts\<lparr>co_cfg := cfg\<rparr>)"
proof -
  have "parse_args (config_args joined cfg @ rest) opts =
      parse_args rest (opts\<lparr>co_cfg := fold (\<lambda>(flag, getter, setter). setter (getter cfg)) KNOBS (co_cfg opts)\<rparr>)"
    unfolding config_args_def by (rule parse_knobs) (use assms in auto)
  then show ?thesis unfolding all_knobs .
qed

theorem config_command_line_witness:
  "parse_args (config_args (\<lambda>k. fst k = ''--rob'') default_config @ [''--regs'']) default_opts =
     Inr (default_opts\<lparr>co_print_regs := True\<rparr>)"
proof -
  have "\<forall>(flag, getter, setter) \<in> set KNOBS. getter default_config \<le> 0xFFFFFFFF"
    by (simp add: KNOBS_def default_config_def)
  from config_command_line [OF this, of "\<lambda>k. fst k = ''--rob''" "[''--regs'']" default_opts] show ?thesis
    by (simp add: parse_one_def flag_of_def default_opts_def)
qed

end
