(* ===== verification/Spec2Isabelle.thy ===== *)
theory Spec2Isabelle
  imports Asm Starvation Cli
begin

text \<open>
  A verification development for Mini-CPU, the cycle-level out-of-order RV32IM simulator in
  \<^verbatim>\<open>src/src\<close>, its reference interpreter \<^verbatim>\<open>src/tests/ref.h\<close> and its assembler
  \<^verbatim>\<open>src/tests/asm.h\<close>.

  The program. Instructions flow through fetch, decode, rename, dispatch, issue, execute,
  writeback and commit. The front end follows a predictor; rename maps architectural to
  physical registers and enters the reorder buffer; issue takes ready entries oldest first
  and resolves branches, recovering from a misprediction at once; loads search the store
  queue; only commit, in program order, changes architectural state. One \<open>tick\<close> runs the
  stages last to first. Around the machine: loaders fill memory from a file, the command line
  chooses the machine, and a tracer writes what each cycle held as JSON.

  Theories and what they model.
  \<^item> \<open>Prelude\<close>, \<open>Ring\<close>: index types and sentinels of \<^verbatim>\<open>instruction.h\<close>, the bounded stage
    loop, circular storage seen as a list, and the interfaces \<open>fifo_buffer\<close> (reorder buffer,
    load and store queues) and \<open>program_order\<close> (squash after a sequence number).
  \<^item> \<open>Config\<close>: \<^verbatim>\<open>config.h\<close>. \<open>Instruction\<close>: \<^verbatim>\<open>instruction.h/.cpp\<close>, decode and namespace \<open>alu\<close>.
  \<^item> \<open>Asm\<close>: the encoders of \<^verbatim>\<open>asm.h\<close> and the decode round trip.
  \<^item> \<open>Memory\<close>: \<^verbatim>\<open>memory.h\<close>, with the \<open>byte_memory\<close> interface it provides.
  \<^item> \<open>BranchPredictor\<close>: \<^verbatim>\<open>branch_predictor.h\<close>. \<open>Rename\<close>: \<^verbatim>\<open>rename.h\<close>, with the \<open>id_pool\<close>
    interface of the free list and the checkpoint pool.
  \<^item> \<open>Rob\<close>, \<open>IssueQueue\<close>, \<open>Lsq\<close>, \<open>Stats\<close>: the headers of those names.
  \<^item> \<open>Ref\<close>: \<open>ref::step\<close> and \<open>ref::run\<close>.
  \<^item> \<open>Uop\<close>, \<open>Cpu\<close>, \<open>Backend\<close>: \<^verbatim>\<open>cpu.h\<close> and \<^verbatim>\<open>cpu.cpp\<close>; one definition per stage and loop body.
  \<^item> \<open>Frames\<close>: what each stage leaves alone, the clock, \<open>run\<close> and reachable states.
  \<^item> \<open>Mappings\<close>, \<open>Inflight\<close>: the invariant of renaming over the list of in-flight instructions and
    of the places where they wait, one lemma per pipeline action (allocate, retire, squash).
  \<^item> \<open>Invariant\<close>: the invariant of the whole machine, kept by every stage, hence true of every
    reachable state until the 32-bit sequence counter wraps or \<open>c_undefined\<close> is set (which
    \<open>Refinement\<close> shows never to happen on a program that does not modify its own code).
  \<^item> \<open>Precise\<close>: what follows for registers, order, recovery and the end of a program.
  \<^item> \<open>Text\<close>, \<open>Disasm\<close>: number conversions, and the disassembler of \<^verbatim>\<open>instruction.cpp\<close> with a
    reader of its text.
  \<^item> \<open>Loader\<close>: \<^verbatim>\<open>loader.h\<close>, the hex, raw and ELF formats with their errors.
  \<^item> \<open>Json\<close>, \<open>Trace\<close>: \<^verbatim>\<open>trace.h\<close>, the streaming writer, a reader of its text, the header and the cycle
    records. \<open>Observe\<close>: every stage commutes with forgetting the observer.
  \<^item> \<open>Cli\<close>: \<^verbatim>\<open>main.cpp\<close>, parsing, the traced run, the IPC machines and the exit status.
  \<^item> \<open>Semantics\<close>: execution of one instruction against the reference switch.
  \<^item> \<open>Golden\<close>: the run of the reference as a sequence of states. \<open>Seats\<close>: load and store queue seats
    against the instructions that hold them. \<open>Flow\<close>: the data-flow invariant and the front end under
    it. \<open>Execution\<close>, \<open>Speculation\<close>, \<open>Recovery\<close>, \<open>Retirement\<close>: writeback, issue, recovery and commit.
  \<^item> \<open>Refinement\<close>: the whole pipeline against the reference interpreter.
  \<^item> \<open>Wakeup\<close>: no wakeup is lost. \<open>Timing\<close>: sizes are constant, and units, writeback ports and
    results are held only up to a known cycle. \<open>Progress\<close>: liveness and total correctness.
    \<open>Starvation\<close>: the deadlock of a machine with 32 physical registers, and of the widest one.

  The refinement. With \<open>n\<close> instructions retired the committed state is state \<open>n\<close> of the reference,
  and the \<open>k\<close>-th instruction in flight, if it and everything older follow the reference's path, holds
  the operands, result and next PC of step \<open>n + k\<close>. The path is the chain of PCs: each instruction's
  PC is where the one before it went, by prediction until it issues and by its result afterwards, so
  the chain breaks exactly at a misprediction and recovery closes it in the same cycle. The program
  must keep its accesses inside the address space and must not overwrite its own code, and the run
  must be shorter than the 32-bit sequence numbers; all three are needed (nothing flushes stale
  fetches, the store search compares unwrapped bounds, age is compared on sequence numbers).

  Liveness. \<open>Progress\<close> shows that on the same programs, from every reachable cycle, another
  instruction retires within \<open>patience cfg\<close> cycles, and that a program which the reference finishes
  in \<open>N\<close> instructions is finished by \<open>N * patience cfg\<close> cycles of \<open>run\<close>, in the same state; both
  unless 2^32 instructions, speculative ones included, have been renamed by then. It asks
  for at least one of every structure and function unit, more than 32 physical registers, and a
  width and latencies whose derived 32-bit sizes do not wrap (\<open>config_live\<close>); with 32 registers or
  a width of 2^31, \<open>Starvation\<close> proves the deadlock. The argument is a measure. The
  reorder buffer is read as bits, issued or not, and \<open>score\<close> weighs them so that an issued branch
  outweighs all that a recovery at it squashes; it never falls before the head retires. While it
  stands still, \<open>slack\<close> falls every cycle. So the bound is the number of values of the score times
  the largest slack, \<open>(rob_size + 1) * 2 ^ num_checkpoints * (longest + rob_size + 5)\<close> with \<open>longest\<close>
  the largest latency: exponential in the branches that may be in flight, 123273216 for the
  default configuration; it is a bound on every program, far above what programs take.

  Conventions. Indices, sizes, cycle counts and statistics are naturals (the 64-bit counters
  do not wrap within any run considered); data words, addresses and sequence numbers are
  machine words and wrap, and so do the two sizes the machine computes from its configuration
  (\<open>queue_cap_of\<close>, \<open>cdb_window_of\<close>); \<open>config_ok\<close> keeps the remaining 32-bit index sums below 2^32
  and the booking window from being empty. An \<open>int32_t\<close> is its two's-complement word. A vector or array is a
  list. A reference into a structure is an update at an index. An event line is a datatype
  value with the arguments of its format string. Undefined behaviour that the pipeline can
  reach, an access to a checkpoint outside the pool, sets the flag \<open>c_undefined\<close>.

  Bounds. The theorems about whole runs hold until 2^32 instructions have been renamed, which is at
  most the width times the cycles. The two run loops need no fuel: the cycle budget and the instruction budget are
  their measures.

  Not modelled: the assembler's labels and pseudo-instructions, the printed help, the
  floating-point rates and percentages of the reports, and messages on the error stream beyond
  their kind. Files are texts: opening and writing them is a parameter.
\<close>

end
